(* ===== verification/Equus_Prelude.thy ===== *)
theory Equus_Prelude
  imports Main "HOL-Library.Monad_Syntax"
begin

text \<open>
  Shared vocabulary of the development: the C library routines the agent calls on characters,
  strings and streams, the decimal rendering that \<open>printf\<close> does for \<open>%d\<close>, and the collections
  of rewrite rules the component theories use.

  A C character array is a \<^typ>\<open>string\<close>; the C string that starts at its beginning is
  \<open>cstr\<close> of it, the characters before the first NUL. A computation of type \<open>'a option\<close> that
  is \<^term>\<open>None\<close> stands for C behaviour that has no defined result: an access through a null or
  freed pointer, a write past the end of an array, a mutex locked twice by its owner.
\<close>

named_theorems c_defs "definitions of the C library primitives"
named_theorems frame "what an operation leaves unchanged"

section \<open>Characters and strings\<close>

abbreviation NUL :: char where
  "NUL \<equiv> CHR 0x00"

abbreviation LF :: char where
  "LF \<equiv> CHR 0x0A"

abbreviation CR :: char where
  "CR \<equiv> CHR 0x0D"

text \<open>\<open>isspace\<close> and \<open>isdigit\<close> in the C locale.\<close>

definition isspace :: "char \<Rightarrow> bool" where
  "isspace c \<longleftrightarrow>
     c = CHR 0x20 \<or> c = CHR 0x09 \<or> c = LF \<or> c = CHR 0x0B \<or> c = CHR 0x0C \<or> c = CR"

definition isdigit :: "char \<Rightarrow> bool" where
  "isdigit c \<longleftrightarrow> 48 \<le> (of_char c :: nat) \<and> (of_char c :: nat) \<le> 57"

text \<open>The C string in a character array: \<open>strlen\<close> is its length, \<open>strcmp\<close> equality of two.\<close>

definition cstr :: "string \<Rightarrow> string" where
  "cstr p = takeWhile (\<lambda>c. c \<noteq> NUL) p"

definition is_cstr :: "string \<Rightarrow> bool" where
  "is_cstr p \<longleftrightarrow> NUL \<notin> set p"

definition strlen :: "string \<Rightarrow> nat" where
  "strlen p = length (cstr p)"

definition streq :: "string \<Rightarrow> string \<Rightarrow> bool" where
  "streq a b \<longleftrightarrow> cstr a = cstr b"

definition strneq :: "nat \<Rightarrow> string \<Rightarrow> string \<Rightarrow> bool" where
  "strneq n a b \<longleftrightarrow> take n (cstr a) = take n (cstr b)"

text \<open>\<open>while (isspace(p[0])) p++\<close>; the NUL at the end of the string stops it.\<close>

definition skip_space :: "string \<Rightarrow> string" where
  "skip_space p = dropWhile isspace p"

lemma cstr_append_NUL [simp]: "is_cstr p \<Longrightarrow> cstr (p @ NUL # q) = p"
  by (induction p) (auto simp: cstr_def is_cstr_def)

lemma cstr_id [simp]: "is_cstr p \<Longrightarrow> cstr p = p"
  unfolding cstr_def is_cstr_def by (rule takeWhile_eq_all_conv[THEN iffD2]) auto

lemma is_cstr_cstr [simp, intro]: "is_cstr (cstr p)"
  by (auto simp: is_cstr_def cstr_def dest: set_takeWhileD)

lemma cstr_cstr [simp]: "cstr (cstr p) = cstr p"
  by simp

lemma length_cstr_le: "length (cstr p) \<le> length p"
  by (simp add: cstr_def length_takeWhile_le)

lemma is_cstr_append [simp]: "is_cstr (p @ q) \<longleftrightarrow> is_cstr p \<and> is_cstr q"
  by (auto simp: is_cstr_def)

lemma is_cstr_take [intro]: "is_cstr p \<Longrightarrow> is_cstr (take n p)"
  by (auto simp: is_cstr_def dest: in_set_takeD)

lemma is_cstr_drop [intro]: "is_cstr p \<Longrightarrow> is_cstr (drop n p)"
  by (auto simp: is_cstr_def dest: in_set_dropD)

lemma is_cstr_Nil [simp]: "is_cstr []"
  by (simp add: is_cstr_def)

lemma is_cstr_Cons [simp]: "is_cstr (c # p) \<longleftrightarrow> c \<noteq> NUL \<and> is_cstr p"
  by (auto simp: is_cstr_def)

lemma not_isspace_NUL [simp]: "\<not> isspace NUL"
  by (simp add: isspace_def)

section \<open>Writing into a fixed buffer\<close>

text \<open>
  \<open>memcpy(buf + off, src, n)\<close> with the source bytes as a list. A write that would pass the end
  of the array has no defined result.
\<close>

definition memcpy :: "string \<Rightarrow> nat \<Rightarrow> string \<Rightarrow> string option" where
  "memcpy buf off src =
     (if off + length src \<le> length buf
      then Some (take off buf @ src @ drop (off + length src) buf) else None)"

lemma memcpy_Some:
  "off + length src \<le> length buf \<Longrightarrow>
   memcpy buf off src = Some (take off buf @ src @ drop (off + length src) buf)"
  by (simp add: memcpy_def)

lemma memcpy_length: "memcpy buf off src = Some buf' \<Longrightarrow> length buf' = length buf"
  by (auto simp: memcpy_def split: if_splits)

text \<open>What a write at the end of the filled part leaves as the filled part.\<close>

lemma memcpy_take:
  assumes "memcpy buf off src = Some buf'"
  shows "take (off + length src) buf' = take off buf @ src"
  using assms by (auto simp: memcpy_def split: if_splits)

lemma memcpy_after:
  assumes "take off buf = pre" and "off + length src \<le> length buf"
  obtains buf' where "memcpy buf off src = Some buf'" and "length buf' = length buf"
    and "take (off + length src) buf' = pre @ src"
  using assms memcpy_Some memcpy_length memcpy_take by metis

section \<open>Decimal rendering\<close>

text \<open>\<open>%d\<close> of \<open>printf\<close>.\<close>

definition digit_char :: "nat \<Rightarrow> char" where
  "digit_char d = char_of (48 + d)"

fun show_nat :: "nat \<Rightarrow> string" where
  "show_nat n = (if n < 10 then [digit_char n]
                 else show_nat (n div 10) @ [digit_char (n mod 10)])"

declare show_nat.simps [simp del]

definition show_int :: "int \<Rightarrow> string" where
  "show_int i = (if i < 0 then CHR ''-'' # show_nat (nat (- i)) else show_nat (nat i))"

lemma digit_char_code: "d < 10 \<Longrightarrow> (of_char (digit_char d) :: nat) = 48 + d"
  by (simp add: digit_char_def)

lemma digit_char_not_NUL: "d < 10 \<Longrightarrow> digit_char d \<noteq> NUL"
  using digit_char_code[of d] by auto

lemma is_cstr_show_nat [simp]: "is_cstr (show_nat n)"
proof (induction n rule: show_nat.induct)
  case (1 n)
  then show ?case
    by (subst show_nat.simps) (auto simp: digit_char_not_NUL)
qed

lemma is_cstr_show_int [simp]: "is_cstr (show_int i)"
  by (simp add: show_int_def)

text \<open>\<open>atoi\<close>: blanks, a sign, digits.\<close>

definition digits_value :: "string \<Rightarrow> int" where
  "digits_value ds = foldl (\<lambda>n c. 10 * n + (of_char c - 48)) 0 (takeWhile isdigit ds)"

definition atoi :: "string \<Rightarrow> int" where
  "atoi p =
     (case skip_space p of
        [] \<Rightarrow> 0
      | c # cs \<Rightarrow> if c = CHR ''-'' then - digits_value cs
                  else if c = CHR ''+'' then digits_value cs else digits_value (c # cs))"

section \<open>Reading a stream by lines\<close>

text \<open>
  \<open>fgets(buf, n, fp)\<close> on the characters the stream still holds: at most \<open>n - 1\<close> of them, up to
  and including the first newline. The result is the characters stored before the terminating
  NUL and the rest of the stream; \<^term>\<open>None\<close> is the null pointer returned at end of file.
\<close>

fun fgets_take :: "nat \<Rightarrow> string \<Rightarrow> string \<times> string" where
  "fgets_take 0 inp = ([], inp)"
| "fgets_take (Suc k) [] = ([], [])"
| "fgets_take (Suc k) (c # cs) =
     (if c = LF then ([c], cs)
      else let (l, r) = fgets_take k cs in (c # l, r))"

definition fgets :: "nat \<Rightarrow> string \<Rightarrow> (string \<times> string) option" where
  "fgets n inp = (if inp = [] then None else Some (fgets_take (n - 1) inp))"

lemma fgets_take_append: "fgets_take k inp = (l, r) \<Longrightarrow> inp = l @ r"
  by (induction k inp arbitrary: l r rule: fgets_take.induct)
    (auto split: if_splits prod.splits)

lemma fgets_take_nonempty: "fgets_take (Suc k) inp = (l, r) \<Longrightarrow> inp \<noteq> [] \<Longrightarrow> l \<noteq> []"
  by (cases inp) (auto split: if_splits prod.splits)

lemma fgets_take_length: "fgets_take k inp = (l, r) \<Longrightarrow> length l \<le> k"
  by (induction k inp arbitrary: l r rule: fgets_take.induct)
    (auto split: if_splits prod.splits)

text \<open>A line with its newline, no longer than the buffer, is returned whole.\<close>

lemma fgets_take_line:
  "LF \<notin> set l \<Longrightarrow> length l < k \<Longrightarrow> fgets_take k (l @ LF # r) = (l @ [LF], r)"
proof (induction l arbitrary: k)
  case Nil
  then show ?case by (cases k) auto
next
  case (Cons c l)
  then show ?case by (cases k) auto
qed

lemma fgets_take_short: "LF \<notin> set l \<Longrightarrow> length l \<le> k \<Longrightarrow> fgets_take k l = (l, [])"
proof (induction l arbitrary: k)
  case Nil
  then show ?case by (cases k) auto
next
  case (Cons c l)
  then show ?case by (cases k) auto
qed

lemma fgets_shorter:
  "2 \<le> n \<Longrightarrow> fgets n inp = Some (l, r) \<Longrightarrow> length r < length inp"
proof -
  assume "2 \<le> n" and f: "fgets n inp = Some (l, r)"
  then obtain k where "n - 1 = Suc k"
    by (cases n rule: nat.exhaust; cases "n - 1") auto
  with f have "inp \<noteq> []" and t: "fgets_take (Suc k) inp = (l, r)"
    by (auto simp: fgets_def split: if_splits)
  then have "l \<noteq> []" by (blast dest: fgets_take_nonempty)
  moreover have "length inp = length l + length r"
    using fgets_take_append[OF t] by simp
  ultimately show ?thesis by simp
qed

section \<open>Addresses\<close>

type_synonym addr = nat

abbreviation (input) NULL :: addr where
  "NULL \<equiv> 0"

section \<open>Functions that may abort\<close>

text \<open>\<open>abort\<close> ends the process: it is neither a return nor undefined behaviour.\<close>

datatype 'a finish = Returned 'a | Aborted

section \<open>Options\<close>

lemma bind_Some_iff: "Option.bind x f = Some z \<longleftrightarrow> (\<exists>y. x = Some y \<and> f y = Some z)"
  by (cases x) auto

end
