(* ===== verification/Sigar_Types.thy ===== *)
theory Sigar_Types
  imports Equus_Prelude
begin

text \<open>
  The structures of the system information library \<open>sigar\<close> that live in memory: the hash table
  of \<open>sigar_cache.c\<close> with its entries (\<open>sigar_util.h\<close>), the processor time kept for a process
  (\<open>sigar.h\<close>), the last \<open>/proc/<pid>/stat\<close> that was read and the handle \<open>sigar_t\<close> itself
  (\<open>sigar_private.h\<close>, \<open>os/linux/sigar_os.h\<close>). Unsigned fields are natural numbers, with the
  reduction to their width written out where they are assigned; signed ones are integers.
\<close>

text \<open>\<open>sigar_cache_entry_t\<close> and \<open>sigar_cache_t\<close>. The function that frees a value is always \<open>free\<close>.\<close>

record sigar_cache_entry_t =
  ent_next :: addr
  ent_id :: nat
  ent_value :: addr

record sigar_cache_t =
  tab_entries :: addr
  tab_count :: nat
  tab_size :: nat

text \<open>
  \<open>sigar_proc_time_t\<close> and \<open>sigar_proc_cpu_t\<close>, whose first fields are the same. The percentage is
  a \<open>double\<close>, the quotient of two integers: it is kept as that pair.
\<close>

record sigar_proc_time_t =
  start_time :: nat
  user_time :: nat
  sys_time :: nat
  total_time :: nat

record sigar_proc_cpu_t = sigar_proc_time_t +
  last_time :: nat
  percent :: "nat \<times> nat"

text \<open>\<open>linux_proc_stat_t\<close>.\<close>

record linux_proc_stat_t =
  ps_pid :: int
  ps_mtime :: int
  ps_vsize :: nat
  ps_rss :: nat
  ps_minor_faults :: nat
  ps_major_faults :: nat
  ps_ppid :: nat
  ps_tty :: int
  ps_priority :: int
  ps_nice :: int
  ps_start_time :: nat
  ps_utime :: nat
  ps_stime :: nat
  ps_name :: string
  ps_state :: char
  ps_processor :: int

datatype linux_iostat_e = IOSTAT_NONE | IOSTAT_PARTITIONS | IOSTAT_DISKSTATS | IOSTAT_SYS

text \<open>\<open>sigar_proc_list_t\<close>; its array of process numbers is a block of its own.\<close>

record sigar_proc_list_t =
  pl_number :: nat
  pl_size :: nat
  pl_data :: addr

text \<open>
  \<open>sigar_t\<close> on Linux. The log and PTQL hooks are never installed by the agent, and the error
  text is not read by the operations modelled here: those fields are left out.
\<close>

record sigar_t =
  cpu_list_cores :: bool
  log_level :: int
  boot_time :: nat
  ticks :: int
  si_pid :: int
  ifconf_buf :: addr
  ifconf_len :: int
  self_path :: addr
  si_pids :: addr
  fsdev :: addr
  proc_cpu :: addr
  net_listen :: addr
  net_services_tcp :: addr
  net_services_udp :: addr
  pagesize :: nat
  ram :: int
  proc_signal_offset :: int
  last_proc_stat :: linux_proc_stat_t
  lcpu :: int
  iostat :: linux_iostat_e
  proc_net :: "string option"
  has_nptl :: bool

end
