(* ===== verification/C_Memory.thy ===== *)
theory C_Memory
  imports Sigar_Types
begin

text \<open>
  The dynamic memory of the agent. Addresses are numbers, 0 is the null pointer. A block holds
  one C object: an array of characters or of pointers, or one of the structures the agent and
  its system information library allocate. \<open>malloc\<close>
  always finds memory, hands out addresses it never handed out before and leaves the block
  uninitialised; reading or writing through a pointer to no live block, and freeing one, have no
  defined result.

  The second half is about singly linked lists. Three components keep one (the results waiting
  to be sent, the module cache, the breakpoints); \<open>chain\<close> says which nodes such a list has and
  which blocks it owns, and the locale \<open>heap_list\<close> proves once, from how a component reads one
  node, what a change elsewhere in memory cannot do to a list.
\<close>

section \<open>The objects in memory\<close>

text \<open>\<open>equus_result_t\<close> of \<open>equus_util.h\<close>.\<close>

record equus_result_t =
  res_data :: addr
  res_length :: int

text \<open>\<open>eqr_list_t\<close> of \<open>equus_util.c\<close>.\<close>

record eqr_list_t =
  eqr_res :: addr
  eqr_next :: addr

text \<open>\<open>eql_cache_t\<close> of \<open>equus_loader.c\<close>.\<close>

record eql_cache_t =
  eql_len :: int
  eql_name :: addr
  eql_data :: addr
  eql_next :: addr

text \<open>\<open>breakpoint_t\<close> of \<open>mojosetup_luadebugger.c\<close>.\<close>

record breakpoint_t =
  bp_name :: addr
  bp_line :: int
  bp_next :: addr

text \<open>\<open>equus_conf_t\<close> of \<open>equus_util.h\<close>.\<close>

record equus_conf_t =
  resources :: addr

datatype cell =
    Raw
  | Chars string
  | Result_cell equus_result_t
  | Eqr_cell eqr_list_t
  | Eql_cell eql_cache_t
  | Bp_cell breakpoint_t
  | Conf_cell equus_conf_t
  | Ptrs_cell "addr list"
  | Ent_cell sigar_cache_entry_t
  | Table_cell sigar_cache_t
  | Cpu_cell sigar_proc_cpu_t
  | Pids_cell sigar_proc_list_t
  | Sigar_cell sigar_t

record heap =
  cells :: "addr \<rightharpoonup> cell"
  brk :: addr

definition heap_wf :: "heap \<Rightarrow> bool" where
  "heap_wf h \<longleftrightarrow> 0 < brk h \<and> (\<forall>a \<in> dom (cells h). 0 < a \<and> a < brk h)"

section \<open>Allocation, release, access\<close>

definition malloc :: "heap \<Rightarrow> addr \<times> heap" where
  "malloc h = (brk h, h\<lparr>cells := (cells h)(brk h \<mapsto> Raw), brk := Suc (brk h)\<rparr>)"

definition free :: "addr \<Rightarrow> heap \<Rightarrow> heap option" where
  "free a h =
     (if a = NULL then Some h
      else if cells h a = None then None
      else Some (h\<lparr>cells := (cells h)(a := None)\<rparr>))"

definition store :: "addr \<Rightarrow> cell \<Rightarrow> heap \<Rightarrow> heap option" where
  "store a c h =
     (if cells h a = None then None else Some (h\<lparr>cells := (cells h)(a \<mapsto> c)\<rparr>))"

text \<open>Reads, one per type of object: a block that holds something else has no defined value.\<close>

definition get_chars :: "heap \<Rightarrow> addr \<Rightarrow> string option" where
  "get_chars h a = (case cells h a of Some (Chars s) \<Rightarrow> Some s | _ \<Rightarrow> None)"

definition get_result :: "heap \<Rightarrow> addr \<Rightarrow> equus_result_t option" where
  "get_result h a = (case cells h a of Some (Result_cell r) \<Rightarrow> Some r | _ \<Rightarrow> None)"

definition get_eqr :: "heap \<Rightarrow> addr \<Rightarrow> eqr_list_t option" where
  "get_eqr h a = (case cells h a of Some (Eqr_cell r) \<Rightarrow> Some r | _ \<Rightarrow> None)"

definition get_eql :: "heap \<Rightarrow> addr \<Rightarrow> eql_cache_t option" where
  "get_eql h a = (case cells h a of Some (Eql_cell r) \<Rightarrow> Some r | _ \<Rightarrow> None)"

definition get_bp :: "heap \<Rightarrow> addr \<Rightarrow> breakpoint_t option" where
  "get_bp h a = (case cells h a of Some (Bp_cell r) \<Rightarrow> Some r | _ \<Rightarrow> None)"

definition get_conf :: "heap \<Rightarrow> addr \<Rightarrow> equus_conf_t option" where
  "get_conf h a = (case cells h a of Some (Conf_cell r) \<Rightarrow> Some r | _ \<Rightarrow> None)"

definition get_ptrs :: "heap \<Rightarrow> addr \<Rightarrow> addr list option" where
  "get_ptrs h a = (case cells h a of Some (Ptrs_cell r) \<Rightarrow> Some r | _ \<Rightarrow> None)"

definition get_ent :: "heap \<Rightarrow> addr \<Rightarrow> sigar_cache_entry_t option" where
  "get_ent h a = (case cells h a of Some (Ent_cell r) \<Rightarrow> Some r | _ \<Rightarrow> None)"

definition get_table :: "heap \<Rightarrow> addr \<Rightarrow> sigar_cache_t option" where
  "get_table h a = (case cells h a of Some (Table_cell r) \<Rightarrow> Some r | _ \<Rightarrow> None)"

definition get_cpu :: "heap \<Rightarrow> addr \<Rightarrow> sigar_proc_cpu_t option" where
  "get_cpu h a = (case cells h a of Some (Cpu_cell r) \<Rightarrow> Some r | _ \<Rightarrow> None)"

definition get_pids :: "heap \<Rightarrow> addr \<Rightarrow> sigar_proc_list_t option" where
  "get_pids h a = (case cells h a of Some (Pids_cell r) \<Rightarrow> Some r | _ \<Rightarrow> None)"

definition get_sigar :: "heap \<Rightarrow> addr \<Rightarrow> sigar_t option" where
  "get_sigar h a = (case cells h a of Some (Sigar_cell r) \<Rightarrow> Some r | _ \<Rightarrow> None)"

text \<open>What a read returns is what the block holds.\<close>

lemma sigar_get_iff:
  "get_ptrs h a = Some ps \<longleftrightarrow> cells h a = Some (Ptrs_cell ps)"
  "get_ent h a = Some e \<longleftrightarrow> cells h a = Some (Ent_cell e)"
  "get_table h a = Some t \<longleftrightarrow> cells h a = Some (Table_cell t)"
  "get_cpu h a = Some c \<longleftrightarrow> cells h a = Some (Cpu_cell c)"
  "get_pids h a = Some l \<longleftrightarrow> cells h a = Some (Pids_cell l)"
  "get_sigar h a = Some s \<longleftrightarrow> cells h a = Some (Sigar_cell s)"
  by (auto simp: get_ptrs_def get_ent_def get_table_def get_cpu_def get_pids_def get_sigar_def
      split: option.splits cell.splits)

lemmas get_defs = get_chars_def get_result_def get_eqr_def get_eql_def get_bp_def get_conf_def

text \<open>\<open>malloc\<close> followed by the assignments that fill the block.\<close>

definition new :: "cell \<Rightarrow> heap \<Rightarrow> (addr \<times> heap) option" where
  "new c h = (let (a, h) = malloc h in do { h \<leftarrow> store a c h; Some (a, h) })"

text \<open>\<open>strdup\<close>: a fresh block with the string and its NUL.\<close>

definition strdup :: "string \<Rightarrow> heap \<Rightarrow> (addr \<times> heap) option" where
  "strdup p h = new (Chars (cstr p @ [NUL])) h"

text \<open>The C string a pointer names.\<close>

definition load_str :: "heap \<Rightarrow> addr \<Rightarrow> string option" where
  "load_str h a = map_option cstr (get_chars h a)"

lemma new_eq:
  "new c h = Some (brk h, h\<lparr>cells := (cells h)(brk h \<mapsto> c), brk := Suc (brk h)\<rparr>)"
  by (simp add: new_def malloc_def store_def)

lemma free_eq:
  "a \<in> dom (cells h) \<Longrightarrow> a \<noteq> NULL \<Longrightarrow> free a h = Some (h\<lparr>cells := (cells h)(a := None)\<rparr>)"
  by (auto simp: free_def)

lemma free_NULL [simp]: "free NULL h = Some h"
  by (simp add: free_def)

lemma store_eq: "a \<in> dom (cells h) \<Longrightarrow> store a c h = Some (h\<lparr>cells := (cells h)(a \<mapsto> c)\<rparr>)"
  by (auto simp: store_def)

lemma heap_wf_fresh: "heap_wf h \<Longrightarrow> cells h (brk h) = None"
  by (auto simp: heap_wf_def)

lemma heap_wf_NULL [simp]: "heap_wf h \<Longrightarrow> cells h NULL = None"
  by (force simp: heap_wf_def)

lemma heap_wf_brk: "heap_wf h \<Longrightarrow> 0 < brk h"
  by (simp add: heap_wf_def)

lemma heap_wf_not_NULL: "heap_wf h \<Longrightarrow> a \<in> dom (cells h) \<Longrightarrow> a \<noteq> NULL"
  by (auto simp: heap_wf_def)

lemma heap_wf_new [intro]: "heap_wf h \<Longrightarrow> new c h = Some (a, h') \<Longrightarrow> heap_wf h'"
  by (auto simp: heap_wf_def new_eq less_Suc_eq split: if_splits)

lemma heap_wf_free [intro]: "heap_wf h \<Longrightarrow> free a h = Some h' \<Longrightarrow> heap_wf h'"
  by (auto simp: heap_wf_def free_def split: if_splits)

lemma heap_wf_store [intro]: "heap_wf h \<Longrightarrow> store a c h = Some h' \<Longrightarrow> heap_wf h'"
  by (auto simp: heap_wf_def store_def split: if_splits)

lemma heap_wf_ge: "heap_wf h \<Longrightarrow> brk h \<le> a \<Longrightarrow> cells h a = None"
  by (metis domIff heap_wf_def leD)

lemma heap_wf_less: "heap_wf h \<Longrightarrow> cells h a = Some c \<Longrightarrow> a < brk h"
  by (metis domI heap_wf_def)

text \<open>A heap stays well formed when it grows at its end and shrinks elsewhere.\<close>

lemma heap_wf_change:
  assumes wf: "heap_wf h" and b: "brk h \<le> brk h'"
    and new: "\<And>a c. cells h' a = Some c \<Longrightarrow> cells h a = None \<Longrightarrow> brk h \<le> a \<and> a < brk h'"
  shows "heap_wf h'"
proof -
  have "0 < a \<and> a < brk h'" if "cells h' a = Some c" for a c
  proof (cases "cells h a")
    case None
    from new[OF that None] heap_wf_brk[OF wf] show ?thesis by simp
  next
    case (Some d)
    then have "a \<noteq> NULL" and "a < brk h"
      using heap_wf_not_NULL[OF wf] heap_wf_less[OF wf] by auto
    with b show ?thesis by simp
  qed
  then show ?thesis using b heap_wf_brk[OF wf] by (auto simp: heap_wf_def)
qed

lemma heap_wf_new_free:
  "heap_wf h \<Longrightarrow>
   heap_wf (h\<lparr>brk := Suc (brk h), cells := (cells h)(brk h \<mapsto> c, a := None)\<rparr>)"
  by (force simp: heap_wf_def less_Suc_eq split: if_splits)

text \<open>A read succeeds only on a live block.\<close>

lemma get_dom:
  "get_chars h a = Some s \<Longrightarrow> a \<in> dom (cells h)"
  "get_result h a = Some r \<Longrightarrow> a \<in> dom (cells h)"
  "get_eqr h a = Some e \<Longrightarrow> a \<in> dom (cells h)"
  "get_eql h a = Some c \<Longrightarrow> a \<in> dom (cells h)"
  "get_bp h a = Some b \<Longrightarrow> a \<in> dom (cells h)"
  "get_conf h a = Some f \<Longrightarrow> a \<in> dom (cells h)"
  by (auto simp: get_defs split: option.splits cell.splits)

lemma get_cong:
  assumes "cells h' a = cells h a"
  shows "get_chars h' a = get_chars h a" "get_result h' a = get_result h a"
    "get_eqr h' a = get_eqr h a" "get_eql h' a = get_eql h a" "get_bp h' a = get_bp h a"
    "get_conf h' a = get_conf h a" "load_str h' a = load_str h a"
  using assms by (simp_all add: get_defs load_str_def)

section \<open>Agreement of two heaps\<close>

text \<open>
  Two heaps agree on a set of addresses when they hold the same objects there. An operation is
  local when the heaps before and after agree on everything it does not own.
\<close>

definition same_on :: "addr set \<Rightarrow> heap \<Rightarrow> heap \<Rightarrow> bool" where
  "same_on A h h' \<longleftrightarrow> (\<forall>a \<in> A. cells h' a = cells h a)"

lemma same_on_refl [simp, intro]: "same_on A h h"
  by (simp add: same_on_def)

lemma same_on_trans: "same_on A h h' \<Longrightarrow> same_on A h' h'' \<Longrightarrow> same_on A h h''"
  by (simp add: same_on_def)

lemma same_on_mono: "same_on B h h' \<Longrightarrow> A \<subseteq> B \<Longrightarrow> same_on A h h'"
  by (auto simp: same_on_def)

lemma same_onD: "same_on A h h' \<Longrightarrow> a \<in> A \<Longrightarrow> cells h' a = cells h a"
  by (simp add: same_on_def)

lemma same_on_new:
  "heap_wf h \<Longrightarrow> new c h = Some (a, h') \<Longrightarrow> same_on (dom (cells h)) h h'"
  by (auto simp: same_on_def new_eq heap_wf_def)

lemma same_on_free: "free a h = Some h' \<Longrightarrow> same_on (- {a}) h h'"
  by (auto simp: same_on_def free_def split: if_splits)

lemma same_on_store: "store a c h = Some h' \<Longrightarrow> same_on (- {a}) h h'"
  by (auto simp: same_on_def store_def split: if_splits)

text \<open>A memory with some blocks released.\<close>

definition without :: "addr set \<Rightarrow> heap \<Rightarrow> heap" where
  "without A h = h\<lparr>cells := (cells h) |` (- A)\<rparr>"

lemma without_empty [simp]: "without {} h = h"
  by (simp add: without_def restrict_map_def)

lemma without_cells [simp]: "cells (without A h) a = (if a \<in> A then None else cells h a)"
  by (simp add: without_def restrict_map_def)

lemma same_on_without: "same_on (- A) h (without A h)"
  by (simp add: same_on_def)

lemma heap_wf_without [intro]: "heap_wf h \<Longrightarrow> heap_wf (without A h)"
  by (erule heap_wf_change) (auto simp: without_def restrict_map_def split: if_splits)

lemma without_without: "without A (without B h) = without (B \<union> A) h"
  by (simp add: without_def Int_commute)

section \<open>Linked lists\<close>

text \<open>
  A component reads one node of its list with a function that returns the node's value, the
  blocks the node owns beside itself, and the address of the next node. An entry of a list is
  the node's address with that value and those blocks.
\<close>

type_synonym 'v entry = "addr \<times> 'v \<times> addr list"
type_synonym 'v reader = "heap \<Rightarrow> addr \<Rightarrow> ('v \<times> addr list \<times> addr) option"

primrec chain :: "'v reader \<Rightarrow> heap \<Rightarrow> addr \<Rightarrow> 'v entry list \<Rightarrow> bool" where
  "chain rd h p [] \<longleftrightarrow> p = NULL"
| "chain rd h p (e # es) \<longleftrightarrow>
     p \<noteq> NULL \<and> p = fst e \<and>
     (\<exists>q. rd h p = Some (fst (snd e), snd (snd e), q) \<and> chain rd h q es)"

abbreviation entry_value :: "'v entry \<Rightarrow> 'v" where
  "entry_value e \<equiv> fst (snd e)"

definition entry_owned :: "'v entry \<Rightarrow> addr list" where
  "entry_owned e = fst e # snd (snd e)"

definition owned :: "'v entry list \<Rightarrow> addr list" where
  "owned es = concat (map entry_owned es)"

lemma entry_owned_eq [simp]: "entry_owned (a, v, bs) = a # bs"
  by (simp add: entry_owned_def)

lemma owned_simps [simp]:
  "owned [] = []" "owned (e # es) = entry_owned e @ owned es"
  "owned (es @ fs) = owned es @ owned fs"
  by (simp_all add: owned_def)

lemma entry_in_owned: "e \<in> set es \<Longrightarrow> set (entry_owned e) \<subseteq> set (owned es)"
  by (auto simp: owned_def)

lemma chain_unique: "chain rd h p es \<Longrightarrow> chain rd h p fs \<Longrightarrow> es = fs"
proof (induction es arbitrary: p fs)
  case Nil
  then show ?case by (cases fs) auto
next
  case (Cons e es)
  then show ?case by (cases fs) (auto intro: prod_eqI)
qed

lemma chain_entry: "chain rd h p es \<Longrightarrow> (a, v, bs) \<in> set es \<Longrightarrow> \<exists>q. rd h a = Some (v, bs, q)"
  by (induction es arbitrary: p) auto

text \<open>
  The entries of a list, computed by following it. The number of steps is bounded, because a
  list of memory that is not well formed may run in a circle; \<open>brk h\<close> steps are enough for a list
  whose blocks are distinct (\<open>walk_chain\<close> below).
\<close>

primrec walk :: "'v reader \<Rightarrow> nat \<Rightarrow> heap \<Rightarrow> addr \<Rightarrow> 'v entry list" where
  "walk rd 0 h p = []"
| "walk rd (Suc n) h p =
     (if p = NULL then []
      else case rd h p of None \<Rightarrow> [] | Some (v, bs, q) \<Rightarrow> (p, v, bs) # walk rd n h q)"

definition entries :: "'v reader \<Rightarrow> heap \<Rightarrow> addr \<Rightarrow> 'v entry list" where
  "entries rd h p = walk rd (brk h) h p"

lemma walk_NULL [simp]: "walk rd n h NULL = []"
  by (cases n) simp_all

lemma walk_chain_length: "chain rd h p es \<Longrightarrow> length es \<le> n \<Longrightarrow> walk rd n h p = es"
proof (induction es arbitrary: p n)
  case (Cons e es)
  then show ?case by (cases n; cases e) auto
qed simp

lemma length_owned: "length es \<le> length (owned es)"
  by (induction es) (auto simp: entry_owned_def)

text \<open>A list is well formed: it ends, and no block of it occurs twice.\<close>

definition list_wf :: "'v reader \<Rightarrow> heap \<Rightarrow> addr \<Rightarrow> bool" where
  "list_wf rd h p \<longleftrightarrow> chain rd h p (entries rd h p) \<and> distinct (owned (entries rd h p))"

text \<open>
  The contract of a node reader: it reads the node and the blocks the node owns, all of them
  live, and nothing else.
\<close>

locale heap_list =
  fixes rd :: "'v reader"
  assumes rd_live: "rd h a = Some (v, bs, q) \<Longrightarrow> set (a # bs) \<subseteq> dom (cells h)"
    and rd_local: "rd h a = Some (v, bs, q) \<Longrightarrow> same_on (set (a # bs)) h h' \<Longrightarrow>
      rd h' a = Some (v, bs, q)"
begin

lemma chain_live: "chain rd h p es \<Longrightarrow> set (owned es) \<subseteq> dom (cells h)"
proof (induction es arbitrary: p)
  case (Cons e es)
  then obtain q where "rd h (fst e) = Some (fst (snd e), snd (snd e), q)" and "chain rd h q es"
    by auto
  with Cons.IH rd_live show ?case by (auto simp: entry_owned_def)
qed simp

lemma chain_frame:
  "chain rd h p es \<Longrightarrow> same_on (set (owned es)) h h' \<Longrightarrow> chain rd h' p es"
proof (induction es arbitrary: p)
  case (Cons e es)
  then obtain q where q: "rd h (fst e) = Some (fst (snd e), snd (snd e), q)"
    and c: "chain rd h q es" by auto
  have "rd h' (fst e) = Some (fst (snd e), snd (snd e), q)"
    using q Cons.prems(2) by (intro rd_local[OF q]) (auto simp: same_on_def entry_owned_def)
  moreover have "chain rd h' q es"
    using Cons.prems(2) by (intro Cons.IH c) (auto simp: same_on_def)
  ultimately show ?case using Cons.prems(1) by auto
qed simp

lemma chain_new:
  "chain rd h p es \<Longrightarrow> heap_wf h \<Longrightarrow> new c h = Some (a, h') \<Longrightarrow> chain rd h' p es"
  by (metis chain_frame chain_live same_on_mono same_on_new)

lemma chain_free:
  "chain rd h p es \<Longrightarrow> free a h = Some h' \<Longrightarrow> a \<notin> set (owned es) \<Longrightarrow> chain rd h' p es"
  by (rule chain_frame) (auto intro: same_on_mono[OF same_on_free])

lemma chain_store:
  "chain rd h p es \<Longrightarrow> store a c h = Some h' \<Longrightarrow> a \<notin> set (owned es) \<Longrightarrow> chain rd h' p es"
  by (rule chain_frame) (auto intro: same_on_mono[OF same_on_store])

lemma chain_brk_fresh: "chain rd h p es \<Longrightarrow> heap_wf h \<Longrightarrow> brk h \<notin> set (owned es)"
  using chain_live heap_wf_fresh by fastforce

lemma chain_not_NULL: "chain rd h p es \<Longrightarrow> heap_wf h \<Longrightarrow> a \<in> set (owned es) \<Longrightarrow> a \<noteq> NULL"
  using chain_live heap_wf_not_NULL by blast

lemma walk_chain:
  assumes c: "chain rd h p es" and wf: "heap_wf h" and d: "distinct (owned es)"
  shows "entries rd h p = es"
proof -
  have "\<forall>a \<in> dom (cells h). a \<in> {1..<brk h}"
    using wf by (simp add: heap_wf_def Suc_le_eq)
  then have "set (owned es) \<subseteq> {1..<brk h}"
    using chain_live[OF c] by blast
  then have "card (set (owned es)) \<le> card {1..<brk h}" by (intro card_mono) auto
  moreover have "card (set (owned es)) = length (owned es)" using d by (rule distinct_card)
  ultimately have "length es \<le> brk h" using length_owned[of es] by simp
  then show ?thesis using c by (simp add: entries_def walk_chain_length)
qed

lemma list_wfI:
  "chain rd h p es \<Longrightarrow> heap_wf h \<Longrightarrow> distinct (owned es) \<Longrightarrow> list_wf rd h p \<and> entries rd h p = es"
  using walk_chain by (simp add: list_wf_def)

text \<open>A change of memory outside a list leaves it as it is.\<close>

lemma list_wf_frame:
  assumes "list_wf rd h p" and "same_on (set (owned (entries rd h p))) h h'" and "heap_wf h'"
  shows "list_wf rd h' p \<and> entries rd h' p = entries rd h p"
proof (rule list_wfI)
  show "chain rd h' p (entries rd h p)" and "distinct (owned (entries rd h p))"
    using assms(1,2) by (auto simp: list_wf_def intro: chain_frame)
qed (rule assms(3))

text \<open>A node put in front of a list, its blocks live and its address new to the list.\<close>

lemma chain_Cons:
  assumes "rd h a = Some (v, bs, q)" and "chain rd h q es" and "a \<noteq> NULL"
  shows "chain rd h a ((a, v, bs) # es)"
  using assms by auto

text \<open>Splitting a list at a node.\<close>

lemma chain_append_nonempty:
  "chain rd h p (es @ e # fs) \<Longrightarrow>
   chain rd h (fst e) (e # fs)"
  by (induction es arbitrary: p) auto

end

end
