(* ===== verification/Equus_State.thy ===== *)
theory Equus_State
  imports C_Memory
begin

text \<open>
  The global variables of the agent, in one record, with the part of the operating system the
  modelled code observes: the log files it has open, what was written to each stream, the files
  it can read, the clock and the text of error codes. Every operation of the components takes
  this state and returns it changed.
\<close>

section \<open>Log levels\<close>

text \<open>\<open>equus_log_level_e\<close> of \<open>equus_util.h\<close>; C compares the enumerators as integers.\<close>

datatype equus_log_level_e =
    EQUUS_LOG_NOTHING
  | EQUUS_LOG_CRITICAL
  | EQUUS_LOG_ERRORS
  | EQUUS_LOG_WARNINGS
  | EQUUS_LOG_INFO
  | EQUUS_LOG_DEBUG
  | EQUUS_LOG_EVERYTHING

primrec level_code :: "equus_log_level_e \<Rightarrow> nat" where
  "level_code EQUUS_LOG_NOTHING = 0"
| "level_code EQUUS_LOG_CRITICAL = 1"
| "level_code EQUUS_LOG_ERRORS = 2"
| "level_code EQUUS_LOG_WARNINGS = 3"
| "level_code EQUUS_LOG_INFO = 4"
| "level_code EQUUS_LOG_DEBUG = 5"
| "level_code EQUUS_LOG_EVERYTHING = 6"

lemma level_code_inject: "level_code a = level_code b \<longleftrightarrow> a = b"
  by (cases a; cases b) simp_all

instantiation equus_log_level_e :: linorder
begin

definition less_eq_equus_log_level_e :: "equus_log_level_e \<Rightarrow> equus_log_level_e \<Rightarrow> bool" where
  "a \<le> b \<longleftrightarrow> level_code a \<le> level_code b"

definition less_equus_log_level_e :: "equus_log_level_e \<Rightarrow> equus_log_level_e \<Rightarrow> bool" where
  "a < b \<longleftrightarrow> level_code a < level_code b"

instance
  by standard (auto simp: less_eq_equus_log_level_e_def less_equus_log_level_e_def
      level_code_inject)

end

lemmas level_order = less_eq_equus_log_level_e_def less_equus_log_level_e_def

section \<open>Streams\<close>

text \<open>Standard error, or a log file that \<open>fopen\<close> returned, by its number.\<close>

datatype stream = Stderr | File nat

section \<open>The state\<close>

text \<open>The functions the agent registers with \<open>atexit\<close>.\<close>

datatype atexit_handler = Equus_util_atexit | Equus_loader_atexit

record equus =
  heap :: heap
  global_argc :: int
  global_argv :: "string list option"
  global_conf :: addr
  resmtx :: bool
  head :: addr
  cachemtx :: bool
  cache_head :: addr
  g_equus_log_level :: equus_log_level_e
  g_equus_log_fp :: "stream option"
  g_equus_log_path :: addr
  g_equus_run_count :: int
  g_equus_restart :: int
  g_equus_win_service :: int
  breakpoint_head :: addr
  debugger_trace_enabled :: bool
  atexit_handlers :: "atexit_handler list"
  streams :: "nat \<rightharpoonup> string"
  next_stream :: nat
  out_log :: "(stream \<times> string) list"
  appendable :: "string \<Rightarrow> bool"
  readable :: "string \<rightharpoonup> string"
  clock :: "nat \<Rightarrow> string"
  ticks :: nat
  errno :: int
  strerror :: "int \<Rightarrow> string"
  asprintf_fails :: bool
  stdin_data :: string
  stdout_data :: string

text \<open>The bytes that reached one stream, in order.\<close>

definition written :: "equus \<Rightarrow> stream \<Rightarrow> string" where
  "written s f = concat (map snd (filter (\<lambda>e. fst e = f) (out_log s)))"

text \<open>
  \<open>asctime\<close> stores \<^verbatim>\<open>Www Mmm dd hh:mm:ss yyyy\n\<close>: 25 characters and a NUL.
\<close>

definition clock_ok :: "equus \<Rightarrow> bool" where
  "clock_ok s \<longleftrightarrow> (\<forall>n. length (clock s n) = 25 \<and> is_cstr (clock s n))"

section \<open>Input and output\<close>

definition stream_open :: "equus \<Rightarrow> stream \<Rightarrow> bool" where
  "stream_open s f = (case f of Stderr \<Rightarrow> True | File n \<Rightarrow> streams s n \<noteq> None)"

definition fwrite :: "string \<Rightarrow> stream \<Rightarrow> equus \<Rightarrow> equus option" where
  "fwrite bs f s =
     (if stream_open s f then Some (s\<lparr>out_log := out_log s @ [(f, bs)]\<rparr>) else None)"

text \<open>\<open>fopen(path, "ab")\<close>: a null pointer, or a stream never handed out before.\<close>

definition fopen_append :: "string \<Rightarrow> equus \<Rightarrow> stream option \<times> equus" where
  "fopen_append path s =
     (if appendable s path
      then (Some (File (next_stream s)),
            s\<lparr>streams := (streams s)(next_stream s \<mapsto> path), next_stream := Suc (next_stream s)\<rparr>)
      else (None, s))"

definition fclose :: "stream \<Rightarrow> equus \<Rightarrow> equus option" where
  "fclose f s =
     (case f of
        Stderr \<Rightarrow> None
      | File n \<Rightarrow> if streams s n = None then None
                  else Some (s\<lparr>streams := (streams s)(n := None)\<rparr>))"

text \<open>\<open>printf\<close> to standard output.\<close>

definition printf :: "string \<Rightarrow> equus \<Rightarrow> equus" where
  "printf text s = s\<lparr>stdout_data := stdout_data s @ text\<rparr>"

definition time_now :: "equus \<Rightarrow> string \<times> equus" where
  "time_now s = (clock s (ticks s), s\<lparr>ticks := Suc (ticks s)\<rparr>)"

lemma written_fwrite:
  "fwrite bs f s = Some s' \<Longrightarrow> written s' g = (if g = f then written s g @ bs else written s g)"
  by (auto simp: fwrite_def written_def split: if_splits)

section \<open>Mutexes\<close>

text \<open>A mutex that its owner locks again never becomes free.\<close>

definition MTX_LOCK_res :: "equus \<Rightarrow> equus option" where
  "MTX_LOCK_res s = (if resmtx s then None else Some (s\<lparr>resmtx := True\<rparr>))"

definition MTX_UNLOCK_res :: "equus \<Rightarrow> equus" where
  "MTX_UNLOCK_res s = s\<lparr>resmtx := False\<rparr>"

definition MTX_LOCK_cache :: "equus \<Rightarrow> equus option" where
  "MTX_LOCK_cache s = (if cachemtx s then None else Some (s\<lparr>cachemtx := True\<rparr>))"

definition MTX_UNLOCK_cache :: "equus \<Rightarrow> equus" where
  "MTX_UNLOCK_cache s = s\<lparr>cachemtx := False\<rparr>"

lemmas mtx_defs [c_defs] =
  MTX_LOCK_res_def MTX_UNLOCK_res_def MTX_LOCK_cache_def MTX_UNLOCK_cache_def


section \<open>The state before \<open>main\<close>\<close>

text \<open>
  The initial values the declarations of the globals give, in an operating system of which the
  arguments say which paths open for appending, what the readable files hold, what the clock
  shows and what the error codes mean.
\<close>

definition equus_init ::
  "(string \<Rightarrow> bool) \<Rightarrow> (string \<rightharpoonup> string) \<Rightarrow> (nat \<Rightarrow> string) \<Rightarrow> (int \<Rightarrow> string) \<Rightarrow> equus" where
  "equus_init app files clk err =
     \<lparr>heap = \<lparr>cells = Map.empty, brk = 1\<rparr>, global_argc = 0, global_argv = None, global_conf = NULL,
      resmtx = False, head = NULL, cachemtx = False, cache_head = NULL,
      g_equus_log_level = EQUUS_LOG_EVERYTHING, g_equus_log_fp = None, g_equus_log_path = NULL,
      g_equus_run_count = 0, g_equus_restart = 0, g_equus_win_service = 0, breakpoint_head = NULL,
      debugger_trace_enabled = False, atexit_handlers = [], streams = Map.empty, next_stream = 0, out_log = [],
      appendable = app, readable = files, clock = clk, ticks = 0, errno = 0, strerror = err,
      asprintf_fails = False, stdin_data = [], stdout_data = []\<rparr>"

text \<open>A concrete start: every path opens, no file is readable, the clock stands at the epoch.\<close>

definition epoch :: "nat \<Rightarrow> string" where
  "epoch n = ''Thu Jan  1 00:00:00 1970'' @ [LF]"

definition start :: equus where
  "start = equus_init (\<lambda>_. True) Map.empty epoch (\<lambda>_. ''error'')"

lemma epoch_ok: "length (epoch n) = 25 \<and> is_cstr (epoch n)"
  by (simp add: epoch_def)

end
