(* ===== verification/Equus_Log.thy ===== *)
theory Equus_Log
  imports Equus_State
begin

text \<open>
  The logger of \<open>equus_util.c\<close>: the level filter, the line built in a buffer of 4000 bytes, the
  log file with its rotation, and the functions of \<open>equus_util.h\<close> that log at one level. The
  text that \<open>vsnprintf\<close> makes of a format and its arguments is an argument here, \<^term>\<open>None\<close>
  where \<open>vsnprintf\<close> returns a negative number.
\<close>

section \<open>Level\<close>

definition equus_log_level_set :: "equus_log_level_e \<Rightarrow> equus \<Rightarrow> equus" where
  "equus_log_level_set level s = s\<lparr>g_equus_log_level := level\<rparr>"

definition equus_log_level_get :: "equus \<Rightarrow> equus_log_level_e" where
  "equus_log_level_get s = g_equus_log_level s"

section \<open>One line\<close>

definition equus_log_buf :: "string \<Rightarrow> nat \<Rightarrow> equus \<Rightarrow> equus option" where
  "equus_log_buf str len s =
     (let s = (if g_equus_log_fp s = None then s\<lparr>g_equus_log_fp := Some Stderr\<rparr> else s)
      in fwrite (cstr str) (the (g_equus_log_fp s)) s)"

primrec llstr :: "equus_log_level_e \<Rightarrow> string" where
  "llstr EQUUS_LOG_CRITICAL = '' CRT: ''"
| "llstr EQUUS_LOG_ERRORS = '' ERR: ''"
| "llstr EQUUS_LOG_WARNINGS = '' WRN: ''"
| "llstr EQUUS_LOG_INFO = '' INF: ''"
| "llstr EQUUS_LOG_DEBUG = '' DBG: ''"
| "llstr EQUUS_LOG_NOTHING = '' UNK: ''"
| "llstr EQUUS_LOG_EVERYTHING = '' UNK: ''"

text \<open>
  The buffer: \<open>asctime_r\<close> fills 26 bytes of which the last two are overwritten, the level and
  the message follow, then the newline and a NUL.
\<close>

definition equus_log_line :: "equus_log_level_e \<Rightarrow> string \<Rightarrow> string \<Rightarrow> (string \<times> nat) option" where
  "equus_log_line level stamp str = do {
     let slen = strlen str;
     buf \<leftarrow> memcpy (replicate 4000 NUL) 0 (stamp @ [NUL]);
     let blen = 24;
     buf \<leftarrow> memcpy buf blen (llstr level);
     let blen = blen + 6;
     let availlen = 4000 - blen - 2;
     let slen = (if slen > availlen then availlen else slen);
     buf \<leftarrow> memcpy buf blen (take slen str);
     let blen = blen + slen;
     buf \<leftarrow> memcpy buf blen [LF, NUL];
     Some (buf, blen + 2)
   }"

definition equus_log :: "equus_log_level_e \<Rightarrow> string \<Rightarrow> equus \<Rightarrow> equus option" where
  "equus_log level str s =
     (if equus_log_level_get s < level then Some s
      else do {
        let (stamp, s) = time_now s;
        (buf, blen) \<leftarrow> equus_log_line level stamp str;
        s \<leftarrow> equus_log_buf buf blen s;
        if level = EQUUS_LOG_CRITICAL \<and> g_equus_log_fp s \<noteq> Some Stderr
        then fwrite (take blen buf) Stderr s else Some s
      })"

section \<open>Formatted logging and the functions for one level\<close>

definition equus_log_fmtv :: "equus_log_level_e \<Rightarrow> string option \<Rightarrow> equus \<Rightarrow> equus option" where
  "equus_log_fmtv level rendered s =
     (if equus_log_level_get s \<ge> level
      then (case rendered of
              None \<Rightarrow> Some s
            | Some text \<Rightarrow> equus_log level (take 3999 text) s)
      else Some s)"

definition equus_log_fmt :: "equus_log_level_e \<Rightarrow> string option \<Rightarrow> equus \<Rightarrow> equus option" where
  "equus_log_fmt level rendered s = equus_log_fmtv level rendered s"

definition equus_log_criticalf :: "string option \<Rightarrow> equus \<Rightarrow> equus option" where
  "equus_log_criticalf rendered s = equus_log_fmtv EQUUS_LOG_CRITICAL rendered s"

definition equus_log_errorf :: "string option \<Rightarrow> equus \<Rightarrow> equus option" where
  "equus_log_errorf rendered s = equus_log_fmtv EQUUS_LOG_ERRORS rendered s"

definition equus_log_warningf :: "string option \<Rightarrow> equus \<Rightarrow> equus option" where
  "equus_log_warningf rendered s = equus_log_fmtv EQUUS_LOG_WARNINGS rendered s"

definition equus_log_infof :: "string option \<Rightarrow> equus \<Rightarrow> equus option" where
  "equus_log_infof rendered s = equus_log_fmtv EQUUS_LOG_INFO rendered s"

definition equus_log_debugf :: "string option \<Rightarrow> equus \<Rightarrow> equus option" where
  "equus_log_debugf rendered s = equus_log_fmtv EQUUS_LOG_DEBUG rendered s"

definition equus_log_critical :: "string \<Rightarrow> equus \<Rightarrow> equus option" where
  "equus_log_critical str s = equus_log EQUUS_LOG_CRITICAL str s"

definition equus_log_error :: "string \<Rightarrow> equus \<Rightarrow> equus option" where
  "equus_log_error str s = equus_log EQUUS_LOG_ERRORS str s"

definition equus_log_warning :: "string \<Rightarrow> equus \<Rightarrow> equus option" where
  "equus_log_warning str s = equus_log EQUUS_LOG_WARNINGS str s"

definition equus_log_info :: "string \<Rightarrow> equus \<Rightarrow> equus option" where
  "equus_log_info str s = equus_log EQUUS_LOG_INFO str s"

definition equus_log_debug :: "string \<Rightarrow> equus \<Rightarrow> equus option" where
  "equus_log_debug str s = equus_log EQUUS_LOG_DEBUG str s"

text \<open>The macros \<open>logCrit\<close>, \<open>logErr\<close>, \<open>logInfo\<close> and \<open>logDbg\<close> on a text that rendered.\<close>

abbreviation logCrit :: "string \<Rightarrow> equus \<Rightarrow> equus option" where
  "logCrit text \<equiv> equus_log_criticalf (Some text)"

abbreviation logErr :: "string \<Rightarrow> equus \<Rightarrow> equus option" where
  "logErr text \<equiv> equus_log_errorf (Some text)"

abbreviation logInfo :: "string \<Rightarrow> equus \<Rightarrow> equus option" where
  "logInfo text \<equiv> equus_log_infof (Some text)"

abbreviation logDbg :: "string \<Rightarrow> equus \<Rightarrow> equus option" where
  "logDbg text \<equiv> equus_log_debugf (Some text)"

section \<open>The log file\<close>

definition equus_log_rotate :: "equus \<Rightarrow> (int \<times> equus) option" where
  "equus_log_rotate s = do {
     let old = g_equus_log_fp s;
     (nxt, s) \<leftarrow>
       (if g_equus_log_path s \<noteq> NULL then do {
          path \<leftarrow> load_str (heap s) (g_equus_log_path s);
          Some (fopen_append path s)
        } else Some (Some Stderr, s));
     (case nxt of
        None \<Rightarrow> do {
          let err = errno s;
          let buf = take 255 (strerror s err);
          path \<leftarrow> load_str (heap s) (g_equus_log_path s);
          s \<leftarrow> logCrit (''Failed to open log file: '' @ path @ '' (errno='' @ show_int err @
                        '','' @ buf @ '')'') s;
          Some (1, s)
        }
      | Some f \<Rightarrow> do {
          let s = s\<lparr>g_equus_log_fp := Some f\<rparr>;
          s \<leftarrow> (case old of None \<Rightarrow> Some s
                | Some g \<Rightarrow> if g \<noteq> Stderr then fclose g s else Some s);
          s \<leftarrow> equus_log EQUUS_LOG_INFO ''Log file started...'' s;
          Some (0, s)
        })
   }"

definition equus_log_set_path :: "string option \<Rightarrow> equus \<Rightarrow> (int \<times> equus) option" where
  "equus_log_set_path path s = do {
     let oldstr = g_equus_log_path s;
     let to_stderr = (case path of None \<Rightarrow> True | Some p \<Rightarrow> streq p ''-'');
     s \<leftarrow>
       (if to_stderr \<and> g_equus_log_fp s \<noteq> Some Stderr then
          (let oldfp = g_equus_log_fp s; s = s\<lparr>g_equus_log_fp := Some Stderr\<rparr>
           in case oldfp of None \<Rightarrow> Some s | Some f \<Rightarrow> fclose f s)
        else if to_stderr \<and> g_equus_log_fp s = Some Stderr then Some s
        else do {
          (nxt, h) \<leftarrow> strdup (the path) (heap s);
          Some (s\<lparr>heap := h, g_equus_log_path := nxt\<rparr>)
        });
     h \<leftarrow> free oldstr (heap s);
     equus_log_rotate (s\<lparr>heap := h\<rparr>)
   }"


section \<open>What a log line holds\<close>

text \<open>
  The line a message makes: the first 24 characters of the time stamp, the level, at most 3968
  characters of the message and a newline, whatever the message.
\<close>

definition log_text :: "equus_log_level_e \<Rightarrow> string \<Rightarrow> string \<Rightarrow> string" where
  "log_text level stamp str = take 24 stamp @ llstr level @ take 3968 (cstr str) @ [LF]"

lemma length_llstr [simp]: "length (llstr level) = 6"
  by (cases level) simp_all

lemma is_cstr_llstr [simp]: "is_cstr (llstr level)"
  by (cases level) simp_all

lemma length_log_text: "length stamp = 25 \<Longrightarrow> length (log_text level stamp str) \<le> 3999"
  by (simp add: log_text_def)

lemma take_cstr: "take (strlen str) str = cstr str"
  by (simp add: strlen_def cstr_def takeWhile_eq_take[symmetric])

lemma take_min_strlen: "take (if n < strlen str then n else strlen str) str = take n (cstr str)"
proof -
  have "take n (cstr str) = take (min n (strlen str)) str"
    by (metis take_cstr take_take)
  then show ?thesis by (simp add: min_def not_less)
qed

lemma equus_log_line_fits:
  assumes stamp: "length stamp = 25"
  obtains buf where
    "equus_log_line level stamp str = Some (buf, Suc (length (log_text level stamp str)))"
    and "take (Suc (length (log_text level stamp str))) buf = log_text level stamp str @ [NUL]"
proof -
  define msg where "msg = take 3968 (cstr str)"
  define n where "n = (if 3968 < strlen str then 3968 else strlen str)"
  have msg: "take n str = msg" unfolding n_def msg_def by (rule take_min_strlen)
  have n: "n = length msg" by (simp add: msg_def n_def strlen_def)
  have lm: "n \<le> 3968" by (simp add: n_def)
  define b0 :: string where "b0 = replicate 4000 NUL"
  have l0: "length b0 = 4000" by (simp add: b0_def)
  obtain b1 where b1: "memcpy b0 0 (stamp @ [NUL]) = Some b1" and l1: "length b1 = 4000"
    and t1: "take 26 b1 = stamp @ [NUL]"
    using memcpy_after[of 0 b0 "[]" "stamp @ [NUL]"] stamp l0 by auto
  have "take 24 b1 = take 24 (take 26 b1)" by simp
  then have "take 24 b1 = take 24 stamp" using stamp unfolding t1 by simp
  then obtain b2 where b2: "memcpy b1 24 (llstr level) = Some b2" and l2: "length b2 = 4000"
    and t2: "take 30 b2 = take 24 stamp @ llstr level"
    using memcpy_after[of 24 b1 "take 24 stamp" "llstr level"] l1 by auto
  obtain b3 where b3: "memcpy b2 30 msg = Some b3" and l3: "length b3 = 4000"
    and t3: "take (30 + n) b3 = take 24 stamp @ llstr level @ msg"
    using memcpy_after[OF t2, of msg] l2 lm n by auto
  obtain b4 where b4: "memcpy b3 (30 + n) [LF, NUL] = Some b4"
    and t4: "take (30 + n + 2) b4 = (take 24 stamp @ llstr level @ msg) @ [LF, NUL]"
    using memcpy_after[OF t3, of "[LF, NUL]"] l3 lm by auto
  have len: "Suc (length (log_text level stamp str)) = 30 + n + 2"
    using stamp n by (simp add: log_text_def msg_def[symmetric])
  have "equus_log_line level stamp str = Some (b4, 30 + n + 2)"
    using b1 b2 b3 b4 by (simp add: equus_log_line_def b0_def[symmetric] n_def[symmetric] msg)
  moreover have "take (30 + n + 2) b4 = log_text level stamp str @ [NUL]"
    using t4 by (simp add: log_text_def msg_def)
  ultimately show thesis using that[of b4] by (simp only: len)
qed


section \<open>The logger against its specification\<close>

text \<open>
  The log file is usable when the clock gives well-formed stamps and the stream, if one is set,
  is open.
\<close>

definition log_ok :: "equus \<Rightarrow> bool" where
  "log_ok s \<longleftrightarrow> clock_ok s \<and>
     (case g_equus_log_fp s of None \<Rightarrow> True | Some f \<Rightarrow> stream_open s f)"

text \<open>
  The specification: a message above the threshold changes nothing; any other appends its line
  to the current stream, standard error if none is set, and a critical one also goes to standard
  error when the stream is another, there with the NUL that ends the buffer.
\<close>

definition log_stream :: "equus \<Rightarrow> stream" where
  "log_stream s = (case g_equus_log_fp s of None \<Rightarrow> Stderr | Some f \<Rightarrow> f)"

definition log_spec :: "equus_log_level_e \<Rightarrow> string \<Rightarrow> equus \<Rightarrow> equus" where
  "log_spec level str s =
     (if g_equus_log_level s < level then s
      else let f = log_stream s; line = log_text level (clock s (ticks s)) str
           in s\<lparr>ticks := Suc (ticks s), g_equus_log_fp := Some f,
                out_log := out_log s @ (f, line) #
                  (if level = EQUUS_LOG_CRITICAL \<and> f \<noteq> Stderr then [(Stderr, line @ [NUL])] else [])\<rparr>)"

lemma is_cstr_log_text: "is_cstr stamp \<Longrightarrow> is_cstr (log_text level stamp str)"
  by (auto simp: log_text_def)

lemma cstr_log_buf:
  "is_cstr l \<Longrightarrow> take (Suc (length l)) buf = l @ [NUL] \<Longrightarrow> cstr buf = l"
  by (metis append.assoc append_Cons append_Nil append_take_drop_id cstr_append_NUL)

lemma equus_log_buf_eq:
  "log_ok s \<Longrightarrow> equus_log_buf buf n s =
     Some (s\<lparr>g_equus_log_fp := Some (log_stream s),
             out_log := out_log s @ [(log_stream s, cstr buf)]\<rparr>)"
  by (cases "g_equus_log_fp s")
    (simp_all add: equus_log_buf_def fwrite_def log_ok_def log_stream_def stream_open_def)

lemma equus_log_eq_spec: "log_ok s \<Longrightarrow> equus_log level str s = Some (log_spec level str s)"
proof -
  assume ok: "log_ok s"
  define stamp where "stamp = clock s (ticks s)"
  from ok have st: "length stamp = 25" "is_cstr stamp"
    by (auto simp: log_ok_def clock_ok_def stamp_def)
  define l where "l = log_text level stamp str"
  obtain buf where
    line: "equus_log_line level stamp str = Some (buf, Suc (length l))"
    and buf: "take (Suc (length l)) buf = l @ [NUL]"
    unfolding l_def using equus_log_line_fits[OF st(1)] .
  have c: "cstr buf = l"
    using cstr_log_buf[OF _ buf] is_cstr_log_text[OF st(2)] by (simp add: l_def)
  have ok': "log_ok (s\<lparr>ticks := Suc (ticks s)\<rparr>)" and f: "log_stream (s\<lparr>ticks := Suc (ticks s)\<rparr>) = log_stream s"
    using ok by (auto simp: log_ok_def clock_ok_def log_stream_def stream_open_def
        split: option.splits stream.splits)
  show ?thesis
    using line buf c f
    by (simp add: equus_log_def log_spec_def equus_log_level_get_def time_now_def Let_def
        equus_log_buf_eq[OF ok'] fwrite_def stream_open_def stamp_def[symmetric] l_def[symmetric])
qed

lemma log_spec_frame [frame, simp]:
  "heap (log_spec level str s) = heap s"
  "global_conf (log_spec level str s) = global_conf s"
  "global_argv (log_spec level str s) = global_argv s"
  "head (log_spec level str s) = head s"
  "resmtx (log_spec level str s) = resmtx s"
  "cachemtx (log_spec level str s) = cachemtx s"
  "cache_head (log_spec level str s) = cache_head s"
  "g_equus_log_level (log_spec level str s) = g_equus_log_level s"
  "g_equus_log_path (log_spec level str s) = g_equus_log_path s"
  "g_equus_run_count (log_spec level str s) = g_equus_run_count s"
  "g_equus_restart (log_spec level str s) = g_equus_restart s"
  "breakpoint_head (log_spec level str s) = breakpoint_head s"
  "debugger_trace_enabled (log_spec level str s) = debugger_trace_enabled s"
  "streams (log_spec level str s) = streams s"
  "next_stream (log_spec level str s) = next_stream s"
  "readable (log_spec level str s) = readable s"
  "appendable (log_spec level str s) = appendable s"
  "clock (log_spec level str s) = clock s"
  "global_argc (log_spec level str s) = global_argc s"
  "atexit_handlers (log_spec level str s) = atexit_handlers s"
  "stdin_data (log_spec level str s) = stdin_data s"
  "stdout_data (log_spec level str s) = stdout_data s"
  by (simp_all add: log_spec_def Let_def)

lemma log_ok_spec [simp]: "log_ok s \<Longrightarrow> log_ok (log_spec level str s)"
  by (auto simp: log_ok_def clock_ok_def log_spec_def Let_def log_stream_def stream_open_def
      split: option.splits stream.splits)

text \<open>Formatted messages are cut to what fits the buffer of \<open>vsnprintf\<close>, then to the line.\<close>

definition logf_spec :: "equus_log_level_e \<Rightarrow> string option \<Rightarrow> equus \<Rightarrow> equus" where
  "logf_spec level rendered s =
     (case rendered of None \<Rightarrow> s | Some text \<Rightarrow> log_spec level text s)"

lemma cstr_take: "cstr (take n p) = take n (cstr p)"
  by (induction p arbitrary: n) (auto simp: cstr_def take_Cons split: nat.splits)

lemma log_spec_take: "3968 \<le> n \<Longrightarrow> log_spec level (take n text) s = log_spec level text s"
  by (simp add: log_spec_def log_text_def cstr_take min_def)

lemma equus_log_fmtv_eq_spec:
  "log_ok s \<Longrightarrow> equus_log_fmtv level rendered s = Some (logf_spec level rendered s)"
  by (cases rendered)
    (simp_all add: equus_log_fmtv_def logf_spec_def equus_log_eq_spec log_spec_take
      equus_log_level_get_def, simp add: log_spec_def not_le)

lemmas log_level_defs =
  equus_log_fmt_def equus_log_criticalf_def equus_log_errorf_def equus_log_warningf_def
  equus_log_infof_def equus_log_debugf_def equus_log_critical_def equus_log_error_def
  equus_log_warning_def equus_log_info_def equus_log_debug_def

lemma log_call [simp]:
  assumes "log_ok s"
  shows "equus_log_criticalf (Some text) s = Some (log_spec EQUUS_LOG_CRITICAL text s)"
    "equus_log_errorf (Some text) s = Some (log_spec EQUUS_LOG_ERRORS text s)"
    "equus_log_infof (Some text) s = Some (log_spec EQUUS_LOG_INFO text s)"
    "equus_log_debugf (Some text) s = Some (log_spec EQUUS_LOG_DEBUG text s)"
  using assms by (simp_all add: log_level_defs equus_log_fmtv_eq_spec logf_spec_def)


section \<open>Rotation and the choice of the log file\<close>

text \<open>
  The invariant of the log file: the only file the logger has open is the current stream, no
  stream number handed out so far comes again, and the path, if set, is a live C string.
\<close>

definition current_files :: "equus \<Rightarrow> nat set" where
  "current_files s = (case g_equus_log_fp s of Some (File n) \<Rightarrow> {n} | _ \<Rightarrow> {})"

definition log_path :: "equus \<Rightarrow> string option" where
  "log_path s = (if g_equus_log_path s = NULL then None else load_str (heap s) (g_equus_log_path s))"

definition log_wf :: "equus \<Rightarrow> bool" where
  "log_wf s \<longleftrightarrow> clock_ok s \<and> heap_wf (heap s)
     \<and> dom (streams s) = current_files s
     \<and> (\<forall>n \<in> dom (streams s). n < next_stream s)
     \<and> (g_equus_log_path s \<noteq> NULL \<longrightarrow> get_chars (heap s) (g_equus_log_path s) \<noteq> None)"

lemma log_wf_ok [simp, intro]: "log_wf s \<Longrightarrow> log_ok s"
  by (auto simp: log_wf_def log_ok_def current_files_def stream_open_def
      split: option.splits stream.splits)

lemma log_wf_heapD: "log_wf s \<Longrightarrow> heap_wf (heap s)"
  by (simp add: log_wf_def)

lemma log_wf_path:
  assumes "log_wf s" and "g_equus_log_path s \<noteq> NULL"
  obtains p where "load_str (heap s) (g_equus_log_path s) = Some p" and "log_path s = Some p"
  using assms by (auto simp: log_wf_def log_path_def load_str_def)

lemma log_wf_spec [simp, intro]: "log_wf s \<Longrightarrow> log_wf (log_spec level str s)"
  by (auto simp: log_wf_def clock_ok_def current_files_def log_spec_def Let_def log_stream_def
      split: option.splits stream.splits)

text \<open>What the invariant does not depend on, and how much of the memory it does.\<close>

lemma log_wf_update [simp]:
  "log_wf (s\<lparr>resmtx := m\<rparr>) = log_wf s" "log_wf (s\<lparr>head := a\<rparr>) = log_wf s"
  "log_wf (s\<lparr>cachemtx := m\<rparr>) = log_wf s" "log_wf (s\<lparr>cache_head := a\<rparr>) = log_wf s"
  "log_wf (s\<lparr>global_conf := a\<rparr>) = log_wf s" "log_wf (s\<lparr>global_argv := v\<rparr>) = log_wf s"
  "log_wf (s\<lparr>g_equus_run_count := i\<rparr>) = log_wf s" "log_wf (s\<lparr>g_equus_restart := i\<rparr>) = log_wf s"
  "log_wf (s\<lparr>breakpoint_head := a\<rparr>) = log_wf s"
  "log_wf (s\<lparr>debugger_trace_enabled := b\<rparr>) = log_wf s"
  "log_wf (s\<lparr>g_equus_log_level := lvl\<rparr>) = log_wf s"
  "log_wf (s\<lparr>global_argc := i\<rparr>) = log_wf s" "log_wf (s\<lparr>atexit_handlers := x\<rparr>) = log_wf s"
  "log_wf (s\<lparr>stdin_data := t\<rparr>) = log_wf s" "log_wf (s\<lparr>stdout_data := t\<rparr>) = log_wf s"
  by (simp_all add: log_wf_def clock_ok_def current_files_def)

lemma log_wf_heap:
  assumes "log_wf s" and "heap_wf h'"
    and "g_equus_log_path s \<noteq> NULL \<Longrightarrow>
      cells h' (g_equus_log_path s) = cells (heap s) (g_equus_log_path s)"
  shows "log_wf (s\<lparr>heap := h'\<rparr>)"
  using assms by (auto simp: log_wf_def clock_ok_def current_files_def get_chars_def)

lemma log_path_spec [simp]: "log_path (log_spec level str s) = log_path s"
  by (simp add: log_path_def)

text \<open>
  The specification of a rotation: the stream becomes standard error, or the path opened anew,
  and is then the only one open; if the path does not open, the stream stays and a critical
  message says so.
\<close>

definition rotate_failed :: "string \<Rightarrow> equus \<Rightarrow> string" where
  "rotate_failed p s = ''Failed to open log file: '' @ p @ '' (errno='' @ show_int (errno s) @
     '','' @ take 255 (strerror s (errno s)) @ '')''"

definition rotate_spec :: "equus \<Rightarrow> int \<times> equus" where
  "rotate_spec s =
     (case log_path s of
        None \<Rightarrow> (0, log_spec EQUUS_LOG_INFO ''Log file started...''
                     (s\<lparr>g_equus_log_fp := Some Stderr, streams := Map.empty\<rparr>))
      | Some p \<Rightarrow>
          if appendable s p
          then (0, log_spec EQUUS_LOG_INFO ''Log file started...''
                     (s\<lparr>next_stream := Suc (next_stream s),
     g_equus_log_fp := Some (File (next_stream s)), streams := [next_stream s \<mapsto> p]\<rparr>))
          else (1, log_spec EQUUS_LOG_CRITICAL (rotate_failed p s) s))"

lemma streams_current:
  assumes "log_wf s"
  shows "g_equus_log_fp s = Some (File n) \<Longrightarrow> (streams s)(n := None) = Map.empty"
    and "\<not> (\<exists>n. g_equus_log_fp s = Some (File n)) \<Longrightarrow> streams s = Map.empty"
    and "g_equus_log_fp s = Some (File n) \<Longrightarrow> n < next_stream s \<and> (\<exists>p. streams s n = Some p)"
  using assms
  by (auto simp: log_wf_def current_files_def dom_eq_empty_conv fun_eq_iff dom_def
      split: option.splits stream.splits)

lemma log_ok_stream:
  "clock_ok s \<Longrightarrow> stream_open s f \<Longrightarrow> log_ok (s\<lparr>g_equus_log_fp := Some f\<rparr>)"
  by (auto simp: log_ok_def clock_ok_def stream_open_def split: stream.splits)

text \<open>The middle of \<open>equus_log_rotate\<close>: the new stream is set and the old file closed.\<close>

lemma close_old:
  assumes wf: "log_wf s" and s1: "streams s1 = streams s ++ m"
    and m: "\<forall>n \<in> dom m. next_stream s \<le> n"
  shows "(case g_equus_log_fp s of None \<Rightarrow> Some s1
          | Some f \<Rightarrow> if f \<noteq> Stderr then fclose f s1 else Some s1) = Some (s1\<lparr>streams := m\<rparr>)"
proof (cases "\<exists>n. g_equus_log_fp s = Some (File n)")
  case True
  then obtain n where f: "g_equus_log_fp s = Some (File n)" by blast
  with streams_current[OF wf] obtain p where n: "n < next_stream s" "streams s n = Some p"
    and e: "(streams s)(n := None) = Map.empty" by blast
  from n m have "n \<notin> dom m" by (auto simp: not_less[symmetric])
  then have "((streams s) ++ m)(n := None) = (streams s)(n := None) ++ m"
    by (auto simp: map_add_def fun_eq_iff split: option.splits)
  then show ?thesis
    using f n \<open>n \<notin> dom m\<close> by (auto simp: s1 fclose_def e map_add_dom_app_simps)
next
  case False
  then have "streams s = Map.empty" using streams_current(2)[OF wf] by blast
  then have "s1\<lparr>streams := m\<rparr> = s1" using s1 by simp
  with False show ?thesis by (auto split: option.splits) (metis stream.exhaust)
qed

lemma equus_log_rotate_eq_spec: "log_wf s \<Longrightarrow> equus_log_rotate s = Some (rotate_spec s)"
proof -
  assume wf: "log_wf s"
  then have clk: "clock_ok s" by (simp add: log_wf_def)
  show ?thesis
  proof (cases "log_path s")
    case None
    then have "g_equus_log_path s = NULL"
      using wf log_wf_path by fastforce
    moreover have "(case g_equus_log_fp s of None \<Rightarrow> Some (s\<lparr>g_equus_log_fp := Some Stderr\<rparr>)
        | Some f \<Rightarrow> if f \<noteq> Stderr then fclose f (s\<lparr>g_equus_log_fp := Some Stderr\<rparr>)
                    else Some (s\<lparr>g_equus_log_fp := Some Stderr\<rparr>))
        = Some (s\<lparr>g_equus_log_fp := Some Stderr, streams := Map.empty\<rparr>)"
      by (rule close_old[OF wf]) simp_all
    moreover have "log_ok (s\<lparr>g_equus_log_fp := Some Stderr, streams := Map.empty\<rparr>)"
      using clk by (simp add: log_ok_def clock_ok_def stream_open_def)
    ultimately show ?thesis
      using None by (simp add: equus_log_rotate_def rotate_spec_def equus_log_eq_spec Let_def)
  next
    case (Some p)
    let ?s1 = "s\<lparr>streams := (streams s)(next_stream s \<mapsto> p), next_stream := Suc (next_stream s),
        g_equus_log_fp := Some (File (next_stream s))\<rparr>"
    from Some have "g_equus_log_path s \<noteq> NULL" "load_str (heap s) (g_equus_log_path s) = Some p"
      by (auto simp: log_path_def split: if_splits)
    moreover have "(case g_equus_log_fp s of None \<Rightarrow> Some ?s1
        | Some f \<Rightarrow> if f \<noteq> Stderr then fclose f ?s1 else Some ?s1)
        = Some (?s1\<lparr>streams := [next_stream s \<mapsto> p]\<rparr>)"
      by (rule close_old[OF wf]) simp_all
    moreover have "log_ok (s\<lparr>next_stream := Suc (next_stream s),
     g_equus_log_fp := Some (File (next_stream s)), streams := [next_stream s \<mapsto> p]\<rparr>)"
      using clk by (simp add: log_ok_def clock_ok_def stream_open_def)
    ultimately show ?thesis
      using Some wf by (simp add: equus_log_rotate_def rotate_spec_def equus_log_eq_spec
          fopen_append_def rotate_failed_def Let_def)
  qed
qed

lemma log_wf_stderr:
  "log_wf s \<Longrightarrow> log_wf (s\<lparr>g_equus_log_fp := Some Stderr, streams := Map.empty\<rparr>)"
  by (simp add: log_wf_def clock_ok_def current_files_def)

lemma log_wf_file:
  "log_wf s \<Longrightarrow> log_wf (s\<lparr>next_stream := Suc (next_stream s),
     g_equus_log_fp := Some (File (next_stream s)), streams := [next_stream s \<mapsto> p]\<rparr>)"
  by (simp add: log_wf_def clock_ok_def current_files_def)

lemma log_wf_rotate_spec: "log_wf s \<Longrightarrow> log_wf (snd (rotate_spec s))"
  by (auto simp: rotate_spec_def split: option.splits
      intro!: log_wf_spec log_wf_stderr log_wf_file)


text \<open>
  \<open>equus_log_set_path\<close>. A path is copied, replaces the old one, which is freed, and is opened by
  a rotation.
\<close>

abbreviation to_stderr :: "string option \<Rightarrow> bool" where
  "to_stderr path \<equiv> (case path of None \<Rightarrow> True | Some p \<Rightarrow> streq p ''-'')"

definition with_path :: "string \<Rightarrow> equus \<Rightarrow> equus" where
  "with_path p s = s\<lparr>g_equus_log_path := brk (heap s),
     heap := (heap s)\<lparr>brk := Suc (brk (heap s)),
       cells := (cells (heap s))(brk (heap s) \<mapsto> Chars (cstr p @ [NUL]),
                                 g_equus_log_path s := None)\<rparr>\<rparr>"

lemma log_wf_path_live:
  "log_wf s \<Longrightarrow> g_equus_log_path s \<noteq> NULL \<Longrightarrow> g_equus_log_path s \<in> dom (cells (heap s))"
  by (auto simp: log_wf_def dest!: get_dom(1))

lemma log_wf_with_path:
  assumes wf: "log_wf s"
  shows "log_wf (with_path p s)" and "log_path (with_path p s) = Some (cstr p)"
    and "g_equus_log_path s \<noteq> brk (heap s)"
proof -
  show ne: "g_equus_log_path s \<noteq> brk (heap s)"
    using log_wf_path_live[OF wf] wf by (force simp: log_wf_def heap_wf_def)
  have h: "heap_wf (heap s)" using wf by (simp add: log_wf_def)
  show "log_wf (with_path p s)"
    using wf ne heap_wf_new_free[OF h]
    by (simp add: log_wf_def with_path_def clock_ok_def current_files_def get_chars_def)
  show "log_path (with_path p s) = Some (cstr p)"
    using ne heap_wf_brk[OF h]
    by (simp add: with_path_def get_chars_def log_path_def load_str_def)
qed

lemma equus_log_set_path_file:
  assumes wf: "log_wf s" and p: "\<not> streq p ''-''"
  shows "equus_log_set_path (Some p) s = Some (rotate_spec (with_path p s))"
proof -
  let ?h = "(heap s)\<lparr>cells := (cells (heap s))(brk (heap s) \<mapsto> Chars (cstr p @ [NUL])),
      brk := Suc (brk (heap s))\<rparr>"
  have "free (g_equus_log_path s) ?h =
      Some (?h\<lparr>cells := (cells ?h)(g_equus_log_path s := None)\<rparr>)"
    using wf log_wf_path_live[OF wf] heap_wf_brk[of "heap s"]
    by (cases "g_equus_log_path s = NULL")
      (auto simp: free_def log_wf_def fun_upd_idem)
  with p show ?thesis
    using equus_log_rotate_eq_spec[OF log_wf_with_path(1)[OF wf, of p]]
    by (simp add: equus_log_set_path_def strdup_def new_eq with_path_def fun_upd_twist)
qed


lemma equus_log_set_path_stderr:
  assumes wf: "log_wf s" and p: "to_stderr path"
  shows "equus_log_set_path path s =
    (if g_equus_log_path s = NULL then Some (rotate_spec s) else None)"
proof -
  let ?s = "s\<lparr>g_equus_log_fp := Some Stderr, streams := Map.empty\<rparr>"
  have closed: "(case g_equus_log_fp s of None \<Rightarrow> Some (s\<lparr>g_equus_log_fp := Some Stderr\<rparr>)
      | Some f \<Rightarrow> if f \<noteq> Stderr then fclose f (s\<lparr>g_equus_log_fp := Some Stderr\<rparr>)
                  else Some (s\<lparr>g_equus_log_fp := Some Stderr\<rparr>)) = Some ?s"
    by (rule close_old[OF wf]) simp_all
  have gone: "load_str ((heap s)\<lparr>cells := (cells (heap s))(a := None)\<rparr>) a = None" for a
    by (simp add: load_str_def get_chars_def)
  have eq: "rotate_spec ?s = rotate_spec s" if "g_equus_log_path s = NULL"
    using that by (simp add: rotate_spec_def log_path_def)
  have c: "(if g_equus_log_fp s = Some Stderr then Some s
      else case g_equus_log_fp s of None \<Rightarrow> Some (s\<lparr>g_equus_log_fp := Some Stderr\<rparr>)
           | Some f \<Rightarrow> fclose f (s\<lparr>g_equus_log_fp := Some Stderr\<rparr>)) = Some ?s"
    using closed streams_current(2)[OF wf] by (auto split: option.splits if_splits)
  have "equus_log_set_path path s =
      Option.bind (free (g_equus_log_path s) (heap s)) (\<lambda>h. equus_log_rotate (?s\<lparr>heap := h\<rparr>))"
    using p c by (cases "g_equus_log_fp s = Some Stderr") (auto simp: equus_log_set_path_def Let_def)
  also have "\<dots> = (if g_equus_log_path s = NULL then Some (rotate_spec s) else None)"
  proof (cases "g_equus_log_path s = NULL")
    case True
    with eq show ?thesis using equus_log_rotate_eq_spec[OF log_wf_stderr[OF wf]] by simp
  next
    case False
    with log_wf_path_live[OF wf] show ?thesis by (simp add: free_eq equus_log_rotate_def gone)
  qed
  finally show ?thesis .
qed


lemma log_wf_init: "\<forall>n. length (clk n) = 25 \<and> is_cstr (clk n) \<Longrightarrow> log_wf (equus_init app files clk err)"
  by (simp add: log_wf_def equus_init_def clock_ok_def heap_wf_def current_files_def)

lemma log_wf_start [simp]: "log_wf start"
  unfolding start_def by (rule log_wf_init) (simp add: epoch_ok)

section \<open>Properties\<close>

text \<open>
  (C6) The logger implements its specification: whatever the message, \<open>equus_log\<close> returns, changes
  nothing for a level above the threshold, and otherwise appends exactly the line of that
  message to the current stream, with a copy of a critical line on standard error.
\<close>

theorem equus_log_refines:
  assumes "log_ok s"
  shows "equus_log level str s = Some (log_spec level str s)"
  using assms by (rule equus_log_eq_spec)

theorem equus_log_refines_witness:
  "log_ok start \<and> equus_log EQUUS_LOG_ERRORS ''disk full'' start
     = Some (log_spec EQUUS_LOG_ERRORS ''disk full'' start)"
  using equus_log_refines[of start] by simp

text \<open>
  (C26) No message overruns the line buffer: the four copies of \<open>equus_log\<close> stay inside the 4000
  bytes, the line is terminated, and its length is at most 3999 whatever the message.
\<close>

theorem equus_log_line_in_bounds:
  assumes "length stamp = 25"
  shows "\<exists>buf n. equus_log_line level stamp str = Some (buf, n) \<and> n \<le> 4000
    \<and> take n buf = log_text level stamp str @ [NUL]"
proof -
  obtain buf where
    "equus_log_line level stamp str = Some (buf, Suc (length (log_text level stamp str)))"
    "take (Suc (length (log_text level stamp str))) buf = log_text level stamp str @ [NUL]"
    using equus_log_line_fits[OF assms] .
  with length_log_text[OF assms] show ?thesis by force
qed

theorem equus_log_line_in_bounds_witness:
  "\<exists>buf n. equus_log_line EQUUS_LOG_INFO (epoch 0) (replicate 5000 CHR ''x'') = Some (buf, n)
     \<and> n \<le> 4000 \<and> take n buf = log_text EQUUS_LOG_INFO (epoch 0) (replicate 5000 CHR ''x'') @ [NUL]"
  by (rule equus_log_line_in_bounds) (simp add: epoch_def)

text \<open>
  Rotation keeps logging possible and leaks no file: it returns, the stream is then the path
  opened anew (or standard error without a path) and the only file open, and when the path
  cannot be opened the old stream stays in use and a critical message is logged.
\<close>

theorem equus_log_rotate_correct:
  assumes "log_wf s"
  shows "equus_log_rotate s = Some (rotate_spec s) \<and> log_wf (snd (rotate_spec s))"
  using equus_log_rotate_eq_spec[OF assms] log_wf_rotate_spec[OF assms] by simp

theorem equus_log_rotate_correct_witness:
  "log_wf start \<and> equus_log_rotate start = Some (rotate_spec start) \<and> log_wf (snd (rotate_spec start))"
  using equus_log_rotate_correct[of start] by simp

text \<open>
  (C34) \<open>equus_log_set_path\<close> has no defined result exactly when it goes back to standard error after
  a path was set: it frees the path but keeps the pointer, and the rotation at its end reads the
  freed string. In every other case it returns.
\<close>

theorem equus_log_set_path_undefined_iff:
  assumes "log_wf s"
  shows "equus_log_set_path path s = None \<longleftrightarrow> to_stderr path \<and> log_path s \<noteq> None"
proof (cases "to_stderr path")
  case True
  with assms equus_log_set_path_stderr[OF assms True] log_wf_path[OF assms] show ?thesis
    by (auto simp: log_path_def split: if_splits)
next
  case False
  then obtain p where "path = Some p" "\<not> streq p ''-''" by (auto split: option.splits)
  with equus_log_set_path_file[OF assms] show ?thesis by simp
qed

theorem equus_log_set_path_undefined_iff_witness:
  "log_wf (snd (rotate_spec (with_path ''/a'' start)))
   \<and> equus_log_set_path None (snd (rotate_spec (with_path ''/a'' start))) = None"
proof -
  let ?s = "snd (rotate_spec (with_path ''/a'' start))"
  have wf: "log_wf (with_path ''/a'' start)" and p: "log_path (with_path ''/a'' start) = Some ''/a''"
    using log_wf_with_path(1,2)[of start "''/a''"] by simp_all
  have "log_path ?s = Some ''/a''"
    using p by (simp add: rotate_spec_def log_path_def split: if_splits)
  with equus_log_set_path_undefined_iff[OF log_wf_rotate_spec[OF wf], of None] log_wf_rotate_spec[OF wf]
  show ?thesis by simp
qed

end
