(* ===== verification/Equus_Results.thy ===== *)
theory Equus_Results
  imports Equus_Log
begin

text \<open>
  The results of checks on their way to the server (\<open>equus_util.c\<close>, from \<open>push_rentry\<close> to
  \<open>equus_free_result\<close>): a linked list under the mutex \<open>resmtx\<close>, filled by the threads that run
  checks and emptied by the loop of \<open>helen.lua\<close>. The operations are shown to implement a stack
  of byte strings; the locale \<open>result_stack\<close> is what that loop relies on.
\<close>

section \<open>Operations\<close>

definition push_rentry :: "addr \<Rightarrow> equus \<Rightarrow> equus option" where
  "push_rentry r s = do {
     s \<leftarrow> MTX_LOCK_res s;
     (e, h) \<leftarrow> new (Eqr_cell \<lparr>eqr_res = r, eqr_next = head s\<rparr>) (heap s);
     let s = s\<lparr>heap := h, head := e\<rparr>;
     Some (MTX_UNLOCK_res s)
   }"

definition pop_rentry :: "equus \<Rightarrow> (addr \<times> equus) option" where
  "pop_rentry s = do {
     s \<leftarrow> MTX_LOCK_res s;
     if head s = NULL then Some (NULL, MTX_UNLOCK_res s)
     else do {
       e \<leftarrow> get_eqr (heap s) (head s);
       let s = s\<lparr>head := eqr_next e\<rparr>;
       Some (eqr_res e, MTX_UNLOCK_res s)
     }
   }"

text \<open>
  The bytes at \<open>bytes\<close> are the ones the caller's buffer holds; copying more, or a negative
  number of them, leaves the buffer.
\<close>

definition pushing :: "int \<Rightarrow> string" where
  "pushing len = ''Pushing '' @ show_int len @ '' bytes''"

definition equus_push_result :: "string \<Rightarrow> int \<Rightarrow> equus \<Rightarrow> equus option" where
  "equus_push_result bytes len s = do {
     s \<leftarrow> logInfo (pushing len) s;
     if len < 0 \<or> int (length bytes) < len then None
     else do {
       let (r, h) = malloc (heap s);
       (tmp, h) \<leftarrow> new (Chars (take (nat len) bytes @ [NUL])) h;
       h \<leftarrow> store r (Result_cell \<lparr>res_data = tmp, res_length = len\<rparr>) h;
       push_rentry r (s\<lparr>heap := h\<rparr>)
     }
   }"

definition equus_pop_result :: "equus \<Rightarrow> (addr \<times> equus) option" where
  "equus_pop_result s = pop_rentry s"

definition equus_free_result :: "addr \<Rightarrow> equus \<Rightarrow> equus option" where
  "equus_free_result r s =
     (if r \<noteq> NULL then do {
        c \<leftarrow> get_result (heap s) r;
        h \<leftarrow> free (res_data c) (heap s);
        h \<leftarrow> free r h;
        Some (s\<lparr>heap := h\<rparr>)
      } else Some s)"

section \<open>The list in memory\<close>

text \<open>A node owns its result structure and the bytes of the result; its value is those bytes.\<close>

definition eqr_node :: "string reader" where
  "eqr_node h a =
     (case get_eqr h a of None \<Rightarrow> None | Some e \<Rightarrow>
      (case get_result h (eqr_res e) of None \<Rightarrow> None | Some r \<Rightarrow>
       (case get_chars h (res_data r) of None \<Rightarrow> None | Some bs \<Rightarrow>
        if bs \<noteq> [] \<and> last bs = NUL \<and> res_length r = int (length bs) - 1
        then Some (butlast bs, [eqr_res e, res_data r], eqr_next e) else None)))"

lemma eqr_node_Some:
  "eqr_node h a = Some (v, bs, q) \<longleftrightarrow>
     (\<exists>r d. bs = [r, d] \<and> get_eqr h a = Some \<lparr>eqr_res = r, eqr_next = q\<rparr>
        \<and> get_result h r = Some \<lparr>res_data = d, res_length = int (length v)\<rparr>
        \<and> get_chars h d = Some (v @ [NUL]))"
proof -
  have len: "bs \<noteq> [] \<Longrightarrow> int (length bs) - 1 = int (length (butlast bs))" for bs :: string
    by (cases bs rule: rev_cases) auto
  show ?thesis
    by (auto simp: eqr_node_def len butlast_append split: option.splits if_splits)
      (metis append_butlast_last_id)
qed

interpretation eqr: heap_list eqr_node
proof
  fix h a v bs q h'
  assume "eqr_node h a = Some (v, bs, q)"
  then obtain r d where bs: "bs = [r, d]" and g: "get_eqr h a = Some \<lparr>eqr_res = r, eqr_next = q\<rparr>"
    "get_result h r = Some \<lparr>res_data = d, res_length = int (length v)\<rparr>"
    "get_chars h d = Some (v @ [NUL])" by (auto simp: eqr_node_Some)
  show "set (a # bs) \<subseteq> dom (cells h)" using bs g by (auto dest: get_dom)
  assume "same_on (set (a # bs)) h h'"
  then show "eqr_node h' a = Some (v, bs, q)"
    using bs g by (auto simp: eqr_node_Some same_on_def get_cong[of h' _ h])
qed

abbreviation results :: "equus \<Rightarrow> string entry list" where
  "results s \<equiv> entries eqr_node (heap s) (head s)"

text \<open>The results that wait to be sent, the one that is popped first in front.\<close>

definition waiting :: "equus \<Rightarrow> string list" where
  "waiting s = map entry_value (results s)"

definition results_wf :: "equus \<Rightarrow> bool" where
  "results_wf s \<longleftrightarrow> log_wf s \<and> \<not> resmtx s \<and> list_wf eqr_node (heap s) (head s)
     \<and> g_equus_log_path s \<notin> set (owned (results s))"


lemma results_wf_log_spec [simp]:
  "results_wf s \<Longrightarrow> results_wf (log_spec level str s)"
  "waiting (log_spec level str s) = waiting s"
  by (simp_all add: results_wf_def waiting_def)

section \<open>Pushing\<close>

text \<open>The three blocks a push allocates, and the list it leaves.\<close>

definition pushed_heap :: "string \<Rightarrow> addr \<Rightarrow> heap \<Rightarrow> heap" where
  "pushed_heap v q h =
     h\<lparr>brk := Suc (Suc (Suc (brk h))),
       cells := (cells h)(brk h \<mapsto> Result_cell \<lparr>res_data = Suc (brk h), res_length = int (length v)\<rparr>,
                          Suc (brk h) \<mapsto> Chars (v @ [NUL]),
                          Suc (Suc (brk h)) \<mapsto> Eqr_cell \<lparr>eqr_res = brk h, eqr_next = q\<rparr>)\<rparr>"

lemma pushed_heap_wf: "heap_wf h \<Longrightarrow> heap_wf (pushed_heap v q h)"
  by (erule heap_wf_change) (auto simp: pushed_heap_def split: if_splits)

lemma pushed_heap_same: "heap_wf h \<Longrightarrow> same_on (dom (cells h)) h (pushed_heap v q h)"
  by (auto simp: pushed_heap_def same_on_def dest: heap_wf_less)

lemma eqr_node_pushed:
  "eqr_node (pushed_heap v q h) (Suc (Suc (brk h))) = Some (v, [brk h, Suc (brk h)], q)"
  by (simp add: eqr_node_Some pushed_heap_def get_eqr_def get_result_def get_chars_def)

lemma pushed_results:
  assumes wf: "heap_wf h" and l: "list_wf eqr_node h q"
  shows "list_wf eqr_node (pushed_heap v q h) (Suc (Suc (brk h))) \<and>
    entries eqr_node (pushed_heap v q h) (Suc (Suc (brk h)))
      = (Suc (Suc (brk h)), v, [brk h, Suc (brk h)]) # entries eqr_node h q"
proof (rule eqr.list_wfI)
  from l have c: "chain eqr_node h q (entries eqr_node h q)"
    and d: "distinct (owned (entries eqr_node h q))" by (simp_all add: list_wf_def)
  have fresh: "a \<notin> set (owned (entries eqr_node h q))" if "brk h \<le> a" for a
    using eqr.chain_live[OF c] heap_wf_ge[OF wf that] by blast
  have "chain eqr_node (pushed_heap v q h) q (entries eqr_node h q)"
    using eqr.chain_frame[OF c same_on_mono[OF pushed_heap_same[OF wf] eqr.chain_live[OF c]]] .
  then show "chain eqr_node (pushed_heap v q h) (Suc (Suc (brk h)))
      ((Suc (Suc (brk h)), v, [brk h, Suc (brk h)]) # entries eqr_node h q)"
    by (simp add: eqr_node_pushed)
  show "distinct (owned ((Suc (Suc (brk h)), v, [brk h, Suc (brk h)]) # entries eqr_node h q))"
    using d fresh by simp
qed (rule pushed_heap_wf[OF wf])

lemma equus_push_result_eq:
  assumes "results_wf s" and "0 \<le> len" and "len \<le> int (length bytes)"
  shows "equus_push_result bytes len s =
    Some ((log_spec EQUUS_LOG_INFO (pushing len) s)
      \<lparr>resmtx := False, heap := pushed_heap (take (nat len) bytes) (head s) (heap s),
       head := Suc (Suc (brk (heap s)))\<rparr>)"
proof -
  obtain n where n: "len = int n" "n \<le> length bytes"
    using assms(2,3) by (metis nat_0_le of_nat_le_iff)
  then show ?thesis using assms(1)
    by (simp add: equus_push_result_def push_rentry_def results_wf_def mtx_defs malloc_def new_eq
        store_def pushed_heap_def fun_upd_twist)
qed


lemma push_results_wf:
  assumes wf: "results_wf s" and "0 \<le> len" and "len \<le> int (length bytes)"
  obtains s' where "equus_push_result bytes len s = Some s'" and "results_wf s'"
    and "waiting s' = take (nat len) bytes # waiting s"
proof (rule that)
  let ?s = "(log_spec EQUUS_LOG_INFO (pushing len) s)
      \<lparr>resmtx := False, heap := pushed_heap (take (nat len) bytes) (head s) (heap s),
       head := Suc (Suc (brk (heap s)))\<rparr>"
  show "equus_push_result bytes len s = Some ?s" by (rule equus_push_result_eq[OF assms])
  from wf have h: "heap_wf (heap s)" and l: "list_wf eqr_node (heap s) (head s)"
    and log: "log_wf (log_spec EQUUS_LOG_INFO (pushing len) s)"
    by (simp_all add: results_wf_def log_wf_heapD)
  note p = pushed_results[OF h l, of "take (nat len) bytes"]
  have live: "g_equus_log_path s \<noteq> NULL \<Longrightarrow> g_equus_log_path s \<in> dom (cells (heap s))"
    using wf log_wf_path_live[of s] by (simp add: results_wf_def)
  then have path: "g_equus_log_path s < brk (heap s)"
    using heap_wf_less[OF h] heap_wf_brk[OF h] by (cases "g_equus_log_path s = NULL") auto
  have "log_wf ?s"
    using same_onD[OF pushed_heap_same[OF h]] live
    by (simp, intro log_wf_heap) (simp_all add: log pushed_heap_wf[OF h])
  then show "results_wf ?s"
    using p wf path by (simp add: results_wf_def)
  show "waiting ?s = take (nat len) bytes # waiting s"
    using p by (simp add: waiting_def)
qed

text \<open>A length that is negative or exceeds the buffer reads or writes outside it.\<close>

lemma equus_push_result_bad_length:
  assumes "log_ok s" and "len < 0 \<or> int (length bytes) < len"
  shows "equus_push_result bytes len s = None"
  using assms by (auto simp: equus_push_result_def)

section \<open>Popping and releasing\<close>

text \<open>A result that was popped: its structure and its bytes, outside every list.\<close>

definition detached :: "addr \<Rightarrow> string \<Rightarrow> equus \<Rightarrow> bool" where
  "detached r v s \<longleftrightarrow> (\<exists>d. get_result (heap s) r = Some \<lparr>res_data = d, res_length = int (length v)\<rparr>
     \<and> get_chars (heap s) d = Some (v @ [NUL])
     \<and> {r, d} \<inter> (insert (g_equus_log_path s) (set (owned (results s)))) = {} \<and> r \<noteq> d)"

lemma pop_empty: "results_wf s \<Longrightarrow> waiting s = [] \<Longrightarrow> equus_pop_result s = Some (NULL, s)"
  by (cases "head s = NULL")
    (auto simp: equus_pop_result_def pop_rentry_def results_wf_def mtx_defs waiting_def list_wf_def)

lemma pop_shape:
  assumes wf: "results_wf s" and w: "waiting s = v # vs"
  obtains r d s' where "equus_pop_result s = Some (r, s')" and "s' = s\<lparr>head := head s'\<rparr>"
    and "results s = (head s, v, [r, d]) # results s'" and "list_wf eqr_node (heap s) (head s')"
    and "get_result (heap s) r = Some \<lparr>res_data = d, res_length = int (length v)\<rparr>"
    and "get_chars (heap s) d = Some (v @ [NUL])" and "get_eqr (heap s) (head s) \<noteq> None"
proof -
  from wf have l: "chain eqr_node (heap s) (head s) (results s)" "distinct (owned (results s))"
    and h: "heap_wf (heap s)" and m: "\<not> resmtx s"
    by (simp_all add: results_wf_def list_wf_def log_wf_heapD)
  from w obtain e es where r: "results s = e # es" and v: "entry_value e = v"
    by (auto simp: waiting_def)
  from l r v obtain q where q: "head s \<noteq> NULL" "head s = fst e" "chain eqr_node (heap s) q es"
    and "eqr_node (heap s) (head s) = Some (v, snd (snd e), q)" by auto
  then obtain r d where e: "snd (snd e) = [r, d]"
    and g: "get_eqr (heap s) (head s) = Some \<lparr>eqr_res = r, eqr_next = q\<rparr>"
      "get_result (heap s) r = Some \<lparr>res_data = d, res_length = int (length v)\<rparr>"
      "get_chars (heap s) d = Some (v @ [NUL])" by (auto simp: eqr_node_Some)
  let ?s = "s\<lparr>head := q\<rparr>"
  have es: "list_wf eqr_node (heap s) q \<and> entries eqr_node (heap s) q = es"
    using q(3) h l(2) r by (intro eqr.list_wfI) simp_all
  have "equus_pop_result s = Some (r, ?s)"
    using m q(1) g(1) by (simp add: equus_pop_result_def pop_rentry_def mtx_defs)
  moreover have "e = (head s, v, [r, d])" using q(2) e v by (cases e) auto
  ultimately show thesis using that[of r ?s d] es r g by simp
qed

lemma pop_results_wf:
  assumes wf: "results_wf s" and w: "waiting s = v # vs"
  obtains r s' a where "equus_pop_result s = Some (r, s')" and "results_wf s'"
    and "waiting s' = vs" and "detached r v s'"
    and "r \<noteq> NULL" and "a = head s" and "heap s' = heap s" and "a \<notin> set (owned (results s'))"
    and "get_eqr (heap s') a \<noteq> None"
proof -
  from pop_shape[OF assms] obtain r d s' where p: "equus_pop_result s = Some (r, s')"
    and s': "s' = s\<lparr>head := head s'\<rparr>" and r: "results s = (head s, v, [r, d]) # results s'"
    and l: "list_wf eqr_node (heap s) (head s')"
    and g: "get_result (heap s) r = Some \<lparr>res_data = d, res_length = int (length v)\<rparr>"
      "get_chars (heap s) d = Some (v @ [NUL])" "get_eqr (heap s) (head s) \<noteq> None" .
  have h: "heap s' = heap s" and path: "g_equus_log_path s' = g_equus_log_path s" by (subst s', simp)+
  have d: "distinct (head s # r # d # owned (results s'))"
    and free: "g_equus_log_path s \<notin> set (owned (results s))" and hw: "heap_wf (heap s)"
    using wf r by (simp_all add: results_wf_def list_wf_def log_wf_heapD)
  have "log_wf s'" "\<not> resmtx s'" using wf by (subst s', simp add: results_wf_def)+
  then have "results_wf s'" using l free r by (simp add: results_wf_def h path)
  moreover have "detached r v s'" using g d free r by (auto simp: detached_def h path)
  moreover have "waiting s' = vs" using w r by (simp add: waiting_def)
  moreover have "r \<noteq> NULL" using get_dom(2)[OF g(1)] heap_wf_not_NULL[OF hw] by blast
  ultimately show thesis using that[OF p] d g(3) h by simp
qed

lemma free_results_wf:
  assumes wf: "results_wf s" and det: "detached r v s"
  obtains s' where "equus_free_result r s = Some s'" and "results_wf s'" and "waiting s' = waiting s"
    and "get_result (heap s') r = None" and "results s' = results s"
    and "get_eqr (heap s') = get_eqr (heap s)"
proof -
  from det obtain d where g: "get_result (heap s) r = Some \<lparr>res_data = d, res_length = int (length v)\<rparr>"
      "get_chars (heap s) d = Some (v @ [NUL])"
    and apart: "r \<noteq> g_equus_log_path s" "d \<noteq> g_equus_log_path s"
      "r \<notin> set (owned (results s))" "d \<notin> set (owned (results s))" "r \<noteq> d"
    by (auto simp: detached_def)
  from wf have h: "heap_wf (heap s)" by (simp add: results_wf_def log_wf_heapD)
  from g have live: "r \<in> dom (cells (heap s))" "d \<in> dom (cells (heap s))"
    by (auto dest: get_dom)
  then have nn: "r \<noteq> NULL" "d \<noteq> NULL" using heap_wf_not_NULL[OF h] by blast+
  let ?h = "(heap s)\<lparr>cells := (cells (heap s))(d := None, r := None)\<rparr>"
  have h': "heap_wf ?h" using h by (rule heap_wf_change) (auto split: if_splits)
  have same: "same_on (- {r, d}) (heap s) ?h" by (simp add: same_on_def)
  have l: "list_wf eqr_node ?h (head s) \<and> entries eqr_node ?h (head s) = results s"
    using wf apart h' by (intro eqr.list_wf_frame) (auto simp: results_wf_def same_on_def)
  show thesis
  proof (rule that)
    show "equus_free_result r s = Some (s\<lparr>heap := ?h\<rparr>)"
      using g(1) live nn apart(5) by (simp add: equus_free_result_def free_eq)
    have "log_wf (s\<lparr>heap := ?h\<rparr>)"
      using wf h' apart by (intro log_wf_heap) (auto simp: results_wf_def)
    then show "results_wf (s\<lparr>heap := ?h\<rparr>)" using wf l by (simp add: results_wf_def)
    show "waiting (s\<lparr>heap := ?h\<rparr>) = waiting s" using l by (simp add: waiting_def)
    show "get_eqr (heap (s\<lparr>heap := ?h\<rparr>)) = get_eqr (heap s)"
      using g by (auto simp: fun_eq_iff get_defs split: option.splits cell.splits)
    show "results (s\<lparr>heap := ?h\<rparr>) = results s" using l by simp
  qed (simp add: get_result_def)
qed


section \<open>The loop that sends the results\<close>

text \<open>
  One turn of the loop of \<open>helen.lua\<close>: a result is popped, its debug message logged, its bytes handed to
  \<open>send\<close> of the connection and the result freed. Lua sees \<open>res.data\<close> as a C string, so a NUL in a result
  ends it there. The loop runs until \<open>equus_pop_result\<close> returns nil.

  \<open>send bytes i j\<close> is the method of the connection with its state \<open>c\<close>; what it returns, that all bytes were sent,
  or a part, or an error, is ignored by the loop and so is not looked at here. \<^term>\<open>None\<close> is a call that
  never returns.
\<close>

definition take_result ::
  "(string \<Rightarrow> int \<Rightarrow> int \<Rightarrow> 'c \<Rightarrow> 'c option) \<Rightarrow> equus \<times> 'c \<Rightarrow> (bool \<times> equus \<times> 'c) option" where
  "take_result send st = do {
     let (s, c) = st;
     (r, s) \<leftarrow> equus_pop_result s;
     if r = NULL then Some (False, s, c)
     else do {
       res \<leftarrow> get_result (heap s) r;
       bs \<leftarrow> load_str (heap s) (res_data res);
       s \<leftarrow> equus_log EQUUS_LOG_DEBUG
             (''result writing '' @ show_int (res_length res) @ '': '' @ bs @ '' '') s;
       c \<leftarrow> send bs 1 (res_length res) c;
       s \<leftarrow> equus_free_result r s;
       Some (True, s, c)
     }
   }"

partial_function (option) drain :: "('s \<Rightarrow> (bool \<times> 's) option) \<Rightarrow> 's \<Rightarrow> 's option" where
  "drain take_one st = do {
     (more, st) \<leftarrow> take_one st;
     if more then drain take_one st else Some st
   }"

definition drain_results :: "(string \<Rightarrow> int \<Rightarrow> int \<Rightarrow> 'c \<Rightarrow> 'c option) \<Rightarrow> equus \<times> 'c \<Rightarrow> (equus \<times> 'c) option" where
  "drain_results send st = drain (take_result send) st"

primrec push_all :: "('v \<Rightarrow> 's \<Rightarrow> 's option) \<Rightarrow> 'v list \<Rightarrow> 's \<Rightarrow> 's option" where
  "push_all push [] s = Some s"
| "push_all push (x # xs) s = do { s \<leftarrow> push x s; push_all push xs s }"

text \<open>
  What the loop relies on: a stack from which the newest item is taken and put on the connection. The
  laws do not ask what the connection does with it, only whether the call returns.
\<close>

locale result_stack =
  fixes inv :: "'s \<Rightarrow> bool"
    and items :: "'s \<Rightarrow> 'v list"
    and push :: "'v \<Rightarrow> 's \<Rightarrow> 's option"
    and put :: "'v \<Rightarrow> 'c \<Rightarrow> 'c option"
    and take_one :: "'s \<times> 'c \<Rightarrow> (bool \<times> 's \<times> 'c) option"
  assumes push_item: "inv s \<Longrightarrow> \<exists>s'. push x s = Some s' \<and> inv s' \<and> items s' = x # items s"
    and take_none: "inv s \<Longrightarrow> items s = [] \<Longrightarrow> take_one (s, c) = Some (False, s, c)"
    and take_some: "inv s \<Longrightarrow> items s = v # vs \<Longrightarrow> put v c = Some c' \<Longrightarrow>
      \<exists>s'. take_one (s, c) = Some (True, s', c') \<and> inv s' \<and> items s' = vs"
    and take_blocks: "inv s \<Longrightarrow> items s = v # vs \<Longrightarrow> put v c = None \<Longrightarrow> take_one (s, c) = None"
begin

lemma push_all_items:
  "inv s \<Longrightarrow> \<exists>s'. push_all push xs s = Some s' \<and> inv s' \<and> items s' = rev xs @ items s"
proof (induction xs arbitrary: s)
  case (Cons x xs)
  from push_item[OF Cons.prems, of x] obtain s1 where
    "push x s = Some s1" "inv s1" "items s1 = x # items s" by blast
  with Cons.IH[of s1] show ?case by fastforce
qed simp

lemma drain_items:
  "inv s \<Longrightarrow>
   (case push_all put (items s) c of
      None \<Rightarrow> drain take_one (s, c) = None
    | Some c' \<Rightarrow> \<exists>s'. drain take_one (s, c) = Some (s', c') \<and> inv s' \<and> items s' = [])"
proof (induction "items s" arbitrary: s c)
  case Nil
  then show ?case using take_none[of s c] by (subst drain.simps) (simp add: Nil(1)[symmetric])
next
  case (Cons v vs)
  note i = Cons.hyps(2)[symmetric]
  show ?case
  proof (cases "put v c")
    case None
    then show ?thesis using take_blocks[OF Cons.prems i None] i by (subst drain.simps) simp
  next
    case (Some c1)
    from take_some[OF Cons.prems i Some] obtain s1 where
      s1: "take_one (s, c) = Some (True, s1, c1)" "inv s1" "items s1 = vs" by blast
    have "drain take_one (s, c) = drain take_one (s1, c1)" using s1(1) by (subst drain.simps) simp
    with Cons.hyps(1)[OF s1(3)[symmetric] s1(2), of c1] s1(3) i Some show ?thesis by (simp split: option.splits)
  qed
qed

text \<open>A batch pushed by the checks is put on the connection by the next run of the loop, newest first.\<close>

lemma push_all_drain:
  assumes "inv s"
  shows "\<exists>s1. push_all push xs s = Some s1 \<and>
    (case push_all put (rev xs @ items s) c of
       None \<Rightarrow> drain take_one (s1, c) = None
     | Some c' \<Rightarrow> \<exists>s2. drain take_one (s1, c) = Some (s2, c') \<and> inv s2 \<and> items s2 = [])"
proof -
  from push_all_items[OF assms, of xs] obtain s1 where
    "push_all push xs s = Some s1" "inv s1" "items s1 = rev xs @ items s" by blast
  with drain_items[of s1 c] show ?thesis by auto
qed

end

text \<open>A whole string pushed, as \<open>stage0.lua\<close> does: \<open>equus_push_result(rv, string.len(rv))\<close>.\<close>

definition push_string :: "string \<Rightarrow> equus \<Rightarrow> equus option" where
  "push_string v s = equus_push_result v (int (length v)) s"

text \<open>How a result is sent: \<open>client_skt:send(res.data, 1, res.length)\<close>.\<close>

definition send_result :: "(string \<Rightarrow> int \<Rightarrow> int \<Rightarrow> 'c \<Rightarrow> 'c option) \<Rightarrow> string \<Rightarrow> 'c \<Rightarrow> 'c option" where
  "send_result send v c = send (cstr v) 1 (int (length v)) c"

lemma detached_log_spec [simp]: "detached r v (log_spec level str s) = detached r v s"
  by (simp add: detached_def)

lemma take_result_eq:
  assumes wf: "results_wf s" and w: "waiting s = v # vs"
  obtains s' where "take_result send (s, c) = map_option (\<lambda>c. (True, s', c)) (send_result send v c)"
    and "results_wf s'" and "waiting s' = vs"
proof -
  from pop_results_wf[OF assms] obtain r s1 where p: "equus_pop_result s = Some (r, s1)" "r \<noteq> NULL"
    and wf1: "results_wf s1" and w1: "waiting s1 = vs" and det: "detached r v s1" by metis
  from det obtain d where g: "get_result (heap s1) r = Some \<lparr>res_data = d, res_length = int (length v)\<rparr>"
      "get_chars (heap s1) d = Some (v @ [NUL])" by (auto simp: detached_def)
  define m where "m = ''result writing '' @ show_int (int (length v)) @ '': '' @ cstr v @ '' ''"
  let ?s = "log_spec EQUUS_LOG_DEBUG m s1"
  have e: "cstr (v @ [NUL]) = cstr v" by (induction v) (auto simp: cstr_def)
  from free_results_wf[of ?s r v] wf1 det obtain s2 where
    f: "equus_free_result r ?s = Some s2" and wf2: "results_wf s2" "waiting s2 = waiting s1"
    by (metis detached_log_spec results_wf_log_spec)
  have "take_result send (s, c) = map_option (\<lambda>c. (True, s2, c)) (send_result send v c)"
    using p g f wf1 m_def[symmetric]
    by (cases "send_result send v c")
      (simp_all add: take_result_def load_str_def e equus_log_eq_spec results_wf_def send_result_def)
  with wf2 w1 show thesis using that by simp
qed

interpretation agent_results:
  result_stack results_wf waiting push_string "send_result send" "take_result send" for send
proof
  fix s x
  assume "results_wf s"
  then show "\<exists>s'. push_string x s = Some s' \<and> results_wf s' \<and> waiting s' = x # waiting s"
    using push_results_wf[of s "int (length x)" x] by (fastforce simp: push_string_def)
next
  fix s c
  assume "results_wf s" and "waiting s = []"
  then show "take_result send (s, c) = Some (False, s, c)" by (simp add: take_result_def pop_empty)
next
  fix s v vs c c'
  assume wf: "results_wf s" "waiting s = v # vs"
  from take_result_eq[OF wf, of send c] obtain s' where
    t: "take_result send (s, c) = map_option (\<lambda>c. (True, s', c)) (send_result send v c)" "results_wf s'" "waiting s' = vs" .
  then show "send_result send v c = None \<Longrightarrow> take_result send (s, c) = None"
    and "send_result send v c = Some c' \<Longrightarrow>
      \<exists>s'. take_result send (s, c) = Some (True, s', c') \<and> results_wf s' \<and> waiting s' = vs"
    by auto
qed


lemma results_wf_init: "log_wf (equus_init app files clk err) \<Longrightarrow> results_wf (equus_init app files clk err)"
  and waiting_init: "waiting (equus_init app files clk err) = []"
  by (simp_all add: results_wf_def list_wf_def entries_def equus_init_def waiting_def)

lemma results_wf_start [simp]: "results_wf start" and waiting_start [simp]: "waiting start = []"
  using results_wf_init waiting_init log_wf_start by (auto simp: start_def)

section \<open>Properties\<close>

text \<open>
  (C7) The results are a stack from which nothing is left out: whatever strings the checks push, every push
  returns, and the loop of \<open>helen.lua\<close> then hands each of them to \<open>send\<close> once, cut at its first NUL, the newest
  first, and then those that waited before. If all calls of \<open>send\<close> return, the loop ends with an empty
  list, whatever they report: a result whose \<open>send\<close> fails is gone. If one does not return, neither does
  the loop.
\<close>

theorem results_sent_newest_first:
  assumes "results_wf s"
  shows "\<exists>s1. push_all push_string vs s = Some s1 \<and>
    (case push_all (send_result send) (rev vs @ waiting s) c of
       None \<Rightarrow> drain_results send (s1, c) = None
     | Some c' \<Rightarrow> \<exists>s2. drain_results send (s1, c) = Some (s2, c') \<and> results_wf s2 \<and> waiting s2 = [])"
  unfolding drain_results_def by (rule agent_results.push_all_drain[OF assms])

text \<open>A connection that takes down what it is given, and fails from the second call on.\<close>

theorem results_sent_newest_first_witness:
  "\<exists>s1 s2. push_all push_string [''a'', [CHR ''b'', NUL, CHR ''c''], ''d''] start = Some s1 \<and>
     drain_results (\<lambda>bs i j c. Some (if length c < 2 then c @ [bs] else c)) (s1, []) = Some (s2, [''d'', ''b'']) \<and>
     results_wf s2 \<and> waiting s2 = []"
  using results_sent_newest_first[OF results_wf_start, of "[''a'', [CHR ''b'', NUL, CHR ''c''], ''d'']"
      "\<lambda>bs i j c. Some (if length c < 2 then c @ [bs] else c)" "[]"]
  by (auto simp: send_result_def cstr_def)

text \<open>
  A push copies exactly the bytes it was given: with a length inside the caller's buffer it
  returns, keeps the invariant and puts those bytes on top; with a negative or too large length
  it leaves the buffer.
\<close>

theorem equus_push_result_correct:
  assumes "results_wf s"
  shows "(case equus_push_result bytes len s of
            Some s' \<Rightarrow> 0 \<le> len \<and> len \<le> int (length bytes) \<and> results_wf s' \<and>
                       waiting s' = take (nat len) bytes # waiting s
          | None \<Rightarrow> len < 0 \<or> int (length bytes) < len)"
proof (cases "0 \<le> len \<and> len \<le> int (length bytes)")
  case True
  then obtain s' where "equus_push_result bytes len s = Some s'" "results_wf s'"
    "waiting s' = take (nat len) bytes # waiting s" using push_results_wf[OF assms] by metis
  with True show ?thesis by simp
next
  case False
  with assms have "equus_push_result bytes len s = None"
    by (intro equus_push_result_bad_length) (auto simp: results_wf_def)
  with False show ?thesis by auto
qed

theorem equus_push_result_correct_witness:
  "\<exists>s'. equus_push_result ''abc'' 2 start = Some s' \<and> waiting s' = [''ab'']"
  using equus_push_result_correct[OF results_wf_start, of 2 "''abc''"]
  by (auto simp: numeral_2_eq_2 split: option.splits)

end
