(* ===== verification/Equus_Conf.thy ===== *)
theory Equus_Conf
  imports Equus_Log
begin

text \<open>
  Command line and configuration: the argument vector and the help switch of \<open>equus_util.c\<close>, the
  parser of \<open>equus_conf.c\<close>, and the configuration object that \<open>equus_load_config\<close> replaces when
  the file is read again. The parser works on the characters of the file; two macros of the
  build, the platform name and the default URL, are arguments.
\<close>

section \<open>Command line\<close>

definition equus_set_argv :: "int \<Rightarrow> string list \<Rightarrow> equus \<Rightarrow> equus" where
  "equus_set_argv argc argv s = s\<lparr>global_argc := argc, global_argv := Some argv\<rparr>"

definition equus_get_argc :: "equus \<Rightarrow> int" where
  "equus_get_argc s = global_argc s"

text \<open>
  The vector ends with a null pointer. The inner \<^term>\<open>None\<close> is a null pointer returned, the outer
  one a read outside the vector.
\<close>

definition equus_get_argv :: "int \<Rightarrow> equus \<Rightarrow> string option option" where
  "equus_get_argv offset s =
     (case global_argv s of
        None \<Rightarrow> Some None
      | Some argv \<Rightarrow>
          if offset > global_argc s then Some None
          else if 0 \<le> offset \<and> nat offset < length argv then Some (Some (argv ! nat offset))
          else if offset = int (length argv) then Some None
          else None)"

text \<open>\<open>strcmp\<close> on a pointer that may be null.\<close>

definition strcmp_eq :: "string option \<Rightarrow> string \<Rightarrow> bool option" where
  "strcmp_eq a lit = map_option (\<lambda>a. streq a lit) a"

function help_switch_from :: "int \<Rightarrow> equus \<Rightarrow> int option" where
  "help_switch_from i s =
     (if i < equus_get_argc s then do {
        a \<leftarrow> equus_get_argv i s;
        h \<leftarrow> strcmp_eq a ''-h'';
        if h then Some 1
        else do {
          h \<leftarrow> strcmp_eq a ''--help'';
          if h then Some 1 else help_switch_from (i + 1) s
        }
      } else Some 0)"
  by pat_completeness auto
termination
  by (relation "measure (\<lambda>(i, s). nat (equus_get_argc s - i))") auto

definition is_help_switch_present :: "equus \<Rightarrow> int option" where
  "is_help_switch_present s = help_switch_from 1 s"

function config_path_from :: "int \<Rightarrow> equus \<Rightarrow> string option" where
  "config_path_from i s =
     (if i < equus_get_argc s then do {
        arg \<leftarrow> equus_get_argv i s;
        c \<leftarrow> strcmp_eq arg ''-c'';
        cc \<leftarrow> strcmp_eq arg ''--config'';
        if c \<or> cc then do {
          p \<leftarrow> equus_get_argv (i + 1) s;
          (case p of Some p \<Rightarrow> Some p | None \<Rightarrow> config_path_from (i + 1) s)
        } else config_path_from (i + 1) s
      } else Some ''/etc/cloudkick.conf'')"
  by pat_completeness auto
termination
  by (relation "measure (\<lambda>(i, s). nat (equus_get_argc s - i))") auto

declare help_switch_from.simps [simp del] config_path_from.simps [simp del]

definition get_config_path :: "equus \<Rightarrow> string option" where
  "get_config_path s = config_path_from 0 s"

section \<open>The parser\<close>

text \<open>A pointer into the line buffer is the characters from there on, the NUL included.\<close>

function nuke_from :: "nat \<Rightarrow> nat \<Rightarrow> string \<Rightarrow> string" where
  "nuke_from i l p =
     (if i < l then
        (let p = (if p ! i = LF then p[i := NUL] else p);
             p = (if p ! i = CR then p[i := NUL] else p)
         in nuke_from (Suc i) l p)
      else p)"
  by pat_completeness auto
termination
  by (relation "measure (\<lambda>(i, l, p). l - i)") auto

declare nuke_from.simps [simp del]

definition nuke_newlines :: "string \<Rightarrow> string" where
  "nuke_newlines p = nuke_from 0 (strlen p) p"

definition next_chunk :: "string \<Rightarrow> heap \<Rightarrow> (addr \<times> heap) option" where
  "next_chunk p h = strdup (nuke_newlines (skip_space p)) h"

text \<open>One line of the file, as \<open>fgets\<close> stored it.\<close>

definition conf_line :: "addr \<Rightarrow> string \<Rightarrow> equus \<Rightarrow> equus option" where
  "conf_line conf l s =
     (let p = l @ [NUL] in
      if p ! 0 = CHR ''#'' then Some s
      else
        (let p = skip_space p in
         if strneq 9 ''resources'' p then do {
           let p = drop 9 p;
           c \<leftarrow> get_conf (heap s) conf;
           h \<leftarrow> free (resources c) (heap s);
           (a, h) \<leftarrow> next_chunk p h;
           h \<leftarrow> store conf (Conf_cell (c\<lparr>resources := a\<rparr>)) h;
           Some (s\<lparr>heap := h\<rparr>)
         } else Some s))"

function conf_parse :: "addr \<Rightarrow> string \<Rightarrow> equus \<Rightarrow> (int \<times> equus) option" where
  "conf_parse conf fp s =
     (case fgets 8096 fp of
        None \<Rightarrow> Some (0, s)
      | Some (l, fp) \<Rightarrow> do { s \<leftarrow> conf_line conf l s; conf_parse conf fp s })"
  by pat_completeness auto
termination
  by (relation "measure (\<lambda>(conf, fp, s). length fp)") (auto dest: fgets_shorter[rotated])

declare conf_parse.simps [simp del]

section \<open>The configuration object\<close>

record build =
  EQUUS_PLATFORM :: string
  EQUUS_BOOTSTRAP_URL :: "string option"

definition equus_conf_init :: "build \<Rightarrow> addr \<Rightarrow> equus \<Rightarrow> (int \<times> equus) option" where
  "equus_conf_init b conf s = do {
     path \<leftarrow> get_config_path s;
     (case readable s path of
        None \<Rightarrow> do {
          s \<leftarrow> fwrite (''Unable to read configuration file: '' @ path @ [LF]) Stderr s;
          s \<leftarrow> fwrite (''If you want to see available options, run the agent with a --help'' @ [LF] @
                 ''switch otherwise, please run cloudkick-config, or visit:'' @ [LF] @
                 ''https://support.cloudkick.com/Agent/Installation'' @ [LF]) Stderr s;
          Some (-1, s)
        }
      | Some fp \<Rightarrow> do {
          (rv, s) \<leftarrow> conf_parse conf fp s;
          if rv < 0 then Some (rv, s)
          else do {
            c \<leftarrow> get_conf (heap s) conf;
            if resources c = NULL then do {
              (a, h) \<leftarrow> strdup (case EQUUS_BOOTSTRAP_URL b of Some u \<Rightarrow> u | None \<Rightarrow> '''') (heap s);
              h \<leftarrow> store conf (Conf_cell (c\<lparr>resources := a\<rparr>)) h;
              Some (0, s\<lparr>heap := h\<rparr>)
            } else do {
              r \<leftarrow> load_str (heap s) (resources c);
              if asprintf_fails s then do {
                s \<leftarrow> fwrite (''asprintf failed. rv=-1'' @ [LF] @
                        ''Please contact Cloudkick Support'' @ [LF]) Stderr s;
                Some (-1, s)
              } else do {
                (p, h) \<leftarrow> strdup (''http://'' @ r @ ''/'' @ EQUUS_PLATFORM b @ ''/'') (heap s);
                h \<leftarrow> free (resources c) h;
                h \<leftarrow> store conf (Conf_cell (c\<lparr>resources := p\<rparr>)) h;
                Some (0, s\<lparr>heap := h\<rparr>)
              }
            }
          }
        })
   }"

definition equus_conf_free :: "addr \<Rightarrow> equus \<Rightarrow> equus option" where
  "equus_conf_free conf s = do {
     c \<leftarrow> get_conf (heap s) conf;
     h \<leftarrow> (if resources c \<noteq> NULL then free (resources c) (heap s) else Some (heap s));
     h \<leftarrow> free conf h;
     Some (s\<lparr>heap := h\<rparr>)
   }"

definition equus_load_config :: "build \<Rightarrow> equus \<Rightarrow> (int \<times> equus) option" where
  "equus_load_config b s =
     (if global_conf s \<noteq> NULL then do {
        let conf_old = global_conf s;
        (conf_new, h) \<leftarrow> new (Conf_cell \<lparr>resources = NULL\<rparr>) (heap s);
        (rv, s) \<leftarrow> equus_conf_init b conf_new (s\<lparr>heap := h\<rparr>);
        let s = s\<lparr>global_conf := conf_new\<rparr>;
        s \<leftarrow> equus_conf_free conf_old s;
        Some (rv, s)
      } else do {
        (conf, h) \<leftarrow> new (Conf_cell \<lparr>resources = NULL\<rparr>) (heap s);
        equus_conf_init b conf (s\<lparr>heap := h, global_conf := conf\<rparr>)
      })"

text \<open>The URL the module loader starts from; the inner \<^term>\<open>None\<close> is a null pointer.\<close>

definition equus_url :: "build \<Rightarrow> equus \<Rightarrow> string option option" where
  "equus_url b s =
     (if EQUUS_BOOTSTRAP_URL b \<noteq> None \<and> global_conf s = NULL then Some (EQUUS_BOOTSTRAP_URL b)
      else do {
        c \<leftarrow> get_conf (heap s) (global_conf s);
        if resources c = NULL then Some None else map_option Some (load_str (heap s) (resources c))
      })"

section \<open>Start and exit\<close>

definition equus_verify_init :: "equus \<Rightarrow> equus" where
  "equus_verify_init s = s\<lparr>atexit_handlers := Equus_util_atexit # atexit_handlers s\<rparr>"

definition equus_loader_init :: "equus \<Rightarrow> equus" where
  "equus_loader_init s = s\<lparr>atexit_handlers := Equus_loader_atexit # atexit_handlers s\<rparr>"

definition equus_util_init :: "build \<Rightarrow> equus \<Rightarrow> (int \<times> equus) option" where
  "equus_util_init b s = do {
     let s = equus_verify_init s;
     let s = equus_loader_init s;
     h \<leftarrow> is_help_switch_present s;
     if h = 1 then Some (0, s) else equus_load_config b s
   }"

definition equus_util_atexit :: "equus \<Rightarrow> equus option" where
  "equus_util_atexit s =
     (if global_conf s \<noteq> NULL then equus_conf_free (global_conf s) s else Some s)"

section \<open>What the command line says\<close>

text \<open>The vector \<open>main\<close> received: as many strings as \<open>argc\<close> says, or none was set.\<close>

definition arguments :: "equus \<Rightarrow> string list" where
  "arguments s = (case global_argv s of None \<Rightarrow> [] | Some argv \<Rightarrow> argv)"

definition args_wf :: "equus \<Rightarrow> bool" where
  "args_wf s \<longleftrightarrow> global_argc s = int (length (arguments s)) \<and> (\<forall>a \<in> set (arguments s). is_cstr a)"

lemma equus_get_argv_in:
  "args_wf s \<Longrightarrow> i < length (arguments s) \<Longrightarrow> equus_get_argv (int i) s = Some (Some (arguments s ! i))"
  by (auto simp: equus_get_argv_def args_wf_def arguments_def split: option.splits)

lemma equus_get_argv_end:
  "args_wf s \<Longrightarrow> equus_get_argv (int (length (arguments s))) s = Some None"
  by (auto simp: equus_get_argv_def args_wf_def arguments_def split: option.splits)

lemma strcmp_eq_arg [simp]:
  "is_cstr a \<Longrightarrow> is_cstr lit \<Longrightarrow> strcmp_eq (Some a) lit = Some (a = lit)"
  by (simp add: strcmp_eq_def streq_def)

text \<open>
  The specification of the scan for the configuration file: the argument after the first switch
  that has one.
\<close>

fun config_path_of :: "string list \<Rightarrow> string" where
  "config_path_of (a # b # as) =
     (if a = ''-c'' \<or> a = ''--config'' then b else config_path_of (b # as))"
| "config_path_of as = ''/etc/cloudkick.conf''"

lemma drop_nth_Cons: "i < length xs \<Longrightarrow> drop i xs = xs ! i # drop (Suc i) xs"
  by (simp add: Cons_nth_drop_Suc)

lemma config_path_from_eq:
  assumes wf: "args_wf s"
  shows "i \<le> length (arguments s) \<Longrightarrow>
    config_path_from (int i) s = Some (config_path_of (drop i (arguments s)))"
proof (induction "length (arguments s) - i" arbitrary: i)
  case 0
  with wf show ?case by (simp add: config_path_from.simps[of "int i"] equus_get_argc_def args_wf_def)
next
  case (Suc n)
  then have i: "i < length (arguments s)" by simp
  have IH: "config_path_from (int i + 1) s = Some (config_path_of (drop (Suc i) (arguments s)))"
    using Suc(1)[of "Suc i"] Suc(2) i by (simp add: add.commute)
  have a: "is_cstr (arguments s ! i)" using wf i by (simp add: args_wf_def)
  have argc: "equus_get_argc s = int (length (arguments s))"
    using wf by (simp add: equus_get_argc_def args_wf_def)
  show ?case
  proof (cases "Suc i < length (arguments s)")
    case True
    have "equus_get_argv (int i + 1) s = Some (Some (arguments s ! Suc i))"
      using equus_get_argv_in[OF wf True] by (simp add: add.commute)
    with IH show ?thesis
      using i True a by (simp add: config_path_from.simps[of "int i"] argc equus_get_argv_in[OF wf]
          drop_nth_Cons[of i] drop_nth_Cons[of "Suc i"])
  next
    case False
    with i have e: "int i + 1 = int (length (arguments s))" by simp
    have "drop (Suc i) (arguments s) = []" using False by simp
    with IH show ?thesis
      using i a equus_get_argv_end[OF wf] by (simp add: config_path_from.simps[of "int i"] argc e
          equus_get_argv_in[OF wf] drop_nth_Cons[of i])
  qed
qed

lemma get_config_path_eq: "args_wf s \<Longrightarrow> get_config_path s = Some (config_path_of (arguments s))"
  using config_path_from_eq[of s 0] by (simp add: get_config_path_def)

lemma help_switch_from_eq:
  assumes wf: "args_wf s"
  shows "help_switch_from (int i) s =
    Some (if \<exists>a \<in> set (drop i (arguments s)). a = ''-h'' \<or> a = ''--help'' then 1 else 0)"
proof (induction "length (arguments s) - i" arbitrary: i)
  case 0
  with wf show ?case by (simp add: help_switch_from.simps[of "int i"] equus_get_argc_def args_wf_def)
next
  case (Suc n)
  then have i: "i < length (arguments s)" by simp
  have IH: "help_switch_from (int i + 1) s = Some (if \<exists>a \<in> set (drop (Suc i) (arguments s)).
      a = ''-h'' \<or> a = ''--help'' then 1 else 0)"
    using Suc(1)[of "Suc i"] Suc(2) by (simp add: add.commute)
  have "is_cstr (arguments s ! i)" and "equus_get_argc s = int (length (arguments s))"
    using wf i by (simp_all add: equus_get_argc_def args_wf_def)
  with IH i show ?case
    by (simp add: help_switch_from.simps[of "int i"] equus_get_argv_in[OF wf] drop_nth_Cons[of i])
qed

section \<open>What the parser reads\<close>

text \<open>
  The value a line gives: nothing for a comment, the text up to the end of the line after the
  word and the blanks that follow it, nothing for any other line.
\<close>

definition line_end :: "char \<Rightarrow> bool" where
  "line_end c \<longleftrightarrow> c = LF \<or> c = CR \<or> c = NUL"

definition conf_value :: "string \<Rightarrow> string option" where
  "conf_value l =
     (if l \<noteq> [] \<and> hd l = CHR ''#'' then None
      else let p = skip_space (l @ [NUL])
           in if strneq 9 ''resources'' p
              then Some (takeWhile (\<lambda>c. \<not> line_end c) (skip_space (drop 9 p))) else None)"

lemma nuke_from_step:
  "i < l \<Longrightarrow> nuke_from i l p = nuke_from (Suc i) l (p[i := if line_end (p ! i) then NUL else p ! i])"
  by (subst nuke_from.simps) (cases "i < length p", auto simp: Let_def line_end_def list_update_id)

lemma nuke_from_eq:
  "l \<le> length p \<Longrightarrow> i \<le> l \<Longrightarrow> nuke_from i l p =
     take i p @ map (\<lambda>c. if line_end c then NUL else c) (drop i (take l p)) @ drop l p"
proof (induction "l - i" arbitrary: i p)
  case 0
  then show ?case by (simp add: nuke_from.simps[of i])
next
  case (Suc n)
  let ?p = "p[i := if line_end (p ! i) then NUL else p ! i]"
  from Suc have i: "i < l" "i < length p" by auto
  have "nuke_from i l p = take (Suc i) ?p @
      map (\<lambda>c. if line_end c then NUL else c) (drop (Suc i) (take l ?p)) @ drop l ?p"
    using Suc(1)[of "Suc i" ?p] Suc(2,3) i by (simp add: nuke_from_step)
  also have "take (Suc i) ?p = take i p @ [if line_end (p ! i) then NUL else p ! i]"
    using i by (simp add: take_Suc_conv_app_nth)
  also have "drop (Suc i) (take l ?p) = drop (Suc i) (take l p)"
    using i by (simp add: take_update_swap)
  also have "drop l ?p = drop l p" using i by simp
  finally show ?case using i by (simp add: drop_nth_Cons[of i "take l p"])
qed

text \<open>What \<open>next_chunk\<close> copies: the characters before the first newline or carriage return.\<close>

lemma cstr_nuke_newlines: "cstr (nuke_newlines p) = takeWhile (\<lambda>c. \<not> line_end c) (cstr p)"
proof -
  have cut: "is_cstr q \<Longrightarrow> cstr r = [] \<Longrightarrow>
      cstr (map (\<lambda>c. if line_end c then NUL else c) q @ r) = takeWhile (\<lambda>c. \<not> line_end c) q" for q r
    by (induction q) (auto simp: cstr_def line_end_def)
  have "nuke_newlines p = map (\<lambda>c. if line_end c then NUL else c) (cstr p) @ drop (strlen p) p"
    using nuke_from_eq[of "strlen p" p 0] length_cstr_le[of p]
    by (simp add: nuke_newlines_def take_cstr strlen_def[symmetric])
  moreover have "cstr (drop (strlen p) p) = []"
    by (induction p) (auto simp: strlen_def cstr_def)
  ultimately show ?thesis using cut[of "cstr p"] by simp
qed

lemma takeWhile_line_end_cstr: "takeWhile (\<lambda>c. \<not> line_end c) (cstr p) = takeWhile (\<lambda>c. \<not> line_end c) p"
  by (induction p) (auto simp: cstr_def line_end_def)

lemma is_cstr_takeWhile: "is_cstr (takeWhile (\<lambda>c. \<not> line_end c) p)"
  by (auto simp: is_cstr_def line_end_def dest: set_takeWhileD)

text \<open>
  One line on the memory. \<open>h0\<close> is the memory without the value; beside the configuration
  object \<open>conf\<close> the memory \<open>h\<close> holds the value, if there is one, in one block more.
\<close>

definition conf_state :: "heap \<Rightarrow> addr \<Rightarrow> string option \<Rightarrow> heap \<Rightarrow> bool" where
  "conf_state h0 conf v h \<longleftrightarrow> heap_wf h0 \<and> heap_wf h \<and> brk h0 \<le> brk h \<and> conf \<in> dom (cells h0) \<and>
     (\<exists>p. cells h conf = Some (Conf_cell \<lparr>resources = p\<rparr>) \<and> same_on (- {conf, p}) h0 h \<and>
          (case v of None \<Rightarrow> p = NULL
           | Some x \<Rightarrow> is_cstr x \<and> p \<noteq> NULL \<and> cells h0 p = None \<and> cells h p = Some (Chars (x @ [NUL]))))"

lemma conf_stateE:
  assumes "conf_state h0 conf v h"
  obtains p where "cells h conf = Some (Conf_cell \<lparr>resources = p\<rparr>)" and "conf \<noteq> NULL" and "p \<noteq> conf"
    and "free p h = Some (h\<lparr>cells := (cells h)(p := None)\<rparr>)"
    and "same_on (- {conf}) h0 (h\<lparr>cells := (cells h)(p := None)\<rparr>)"
    and "v = None \<Longrightarrow> p = NULL"
    and "v \<noteq> None \<Longrightarrow> p \<noteq> NULL \<and> cells h0 p = None \<and> cells h p = Some (Chars (the v @ [NUL]))"
proof -
  from assms obtain p where p: "cells h conf = Some (Conf_cell \<lparr>resources = p\<rparr>)"
    "same_on (- {conf, p}) h0 h"
    "case v of None \<Rightarrow> p = NULL
     | Some x \<Rightarrow> is_cstr x \<and> p \<noteq> NULL \<and> cells h0 p = None \<and> cells h p = Some (Chars (x @ [NUL]))"
    and wf: "heap_wf h0" "heap_wf h" "conf \<in> dom (cells h0)" by (auto simp: conf_state_def)
  have nn: "conf \<noteq> NULL" using heap_wf_not_NULL wf(1,3) by blast
  have z: "cells h0 NULL = None" "cells h NULL = None" using wf by simp_all
  have h0p: "cells h0 p = None" using p(3) z by (cases v) auto
  have "free p h = Some (h\<lparr>cells := (cells h)(p := None)\<rparr>)"
    using p(3) z by (cases v) (auto simp: free_def fun_upd_idem)
  moreover have "same_on (- {conf}) h0 (h\<lparr>cells := (cells h)(p := None)\<rparr>)"
    using p(2) h0p by (auto simp: same_on_def)
  moreover have "p \<noteq> conf" using h0p wf(3) by auto
  ultimately show thesis using that[of p] p nn by (auto split: option.splits)
qed

text \<open>The value replaced by a copy of \<open>x\<close>, whether the old one is freed before or after the copy.\<close>

definition conf_replaced :: "addr \<Rightarrow> addr \<Rightarrow> string \<Rightarrow> heap \<Rightarrow> heap" where
  "conf_replaced conf p x h =
     h\<lparr>cells := (cells h)(p := None, brk h \<mapsto> Chars (x @ [NUL]),
                         conf \<mapsto> Conf_cell \<lparr>resources = brk h\<rparr>), brk := Suc (brk h)\<rparr>"

lemma conf_state_replaced:
  assumes st: "conf_state h0 conf v h" and x: "is_cstr x"
    and p: "cells h conf = Some (Conf_cell \<lparr>resources = p\<rparr>)"
  shows "conf_state h0 conf (Some x) (conf_replaced conf p x h)"
proof -
  from conf_stateE[OF st] p have p: "p \<noteq> conf" "cells h conf = Some (Conf_cell \<lparr>resources = p\<rparr>)"
    "same_on (- {conf}) h0 (h\<lparr>cells := (cells h)(p := None)\<rparr>)" by fastforce+
  from st have wf: "heap_wf h0" "heap_wf h" "brk h0 \<le> brk h" "conf \<in> dom (cells h0)"
    by (auto simp: conf_state_def)
  have c: "conf < brk h" using heap_wf_less[OF wf(2) p(2)] .
  have "heap_wf (conf_replaced conf p x h)"
    using wf(2) by (rule heap_wf_change) (use p(2) in \<open>auto simp: conf_replaced_def split: if_splits\<close>)
  moreover have "same_on (- {conf, brk h}) h0 (conf_replaced conf p x h)"
    using p(3) by (auto simp: same_on_def conf_replaced_def)
  moreover have "cells h0 (brk h) = None" "brk h \<noteq> NULL"
    using heap_wf_ge[OF wf(1,3)] heap_wf_brk[OF wf(2)] by auto
  ultimately show ?thesis
    using wf c x by (auto simp: conf_state_def conf_replaced_def intro!: exI[of _ "brk h"])
qed

lemma conf_state_free_new:
  assumes st: "conf_state h0 conf v h" and x: "is_cstr x"
  obtains p h1 a h2 h3 where "get_conf h conf = Some \<lparr>resources = p\<rparr>" and "free p h = Some h1"
    and "new (Chars (x @ [NUL])) h1 = Some (a, h2)"
    and "store conf (Conf_cell \<lparr>resources = a\<rparr>) h2 = Some h3"
    and "conf_state h0 conf (Some x) h3" and "v = None \<Longrightarrow> p = NULL \<and> h1 = h"
proof -
  from conf_stateE[OF st] obtain p where p: "cells h conf = Some (Conf_cell \<lparr>resources = p\<rparr>)"
    "p \<noteq> conf" "free p h = Some (h\<lparr>cells := (cells h)(p := None)\<rparr>)" "v = None \<Longrightarrow> p = NULL" by metis
  have c: "conf < brk h" using st p(1) by (auto simp: conf_state_def dest: heap_wf_less)
  show thesis
  proof (rule that)
    show "new (Chars (x @ [NUL])) (h\<lparr>cells := (cells h)(p := None)\<rparr>) = Some (brk h,
        h\<lparr>cells := (cells h)(p := None, brk h \<mapsto> Chars (x @ [NUL])), brk := Suc (brk h)\<rparr>)"
      by (simp add: new_eq)
    show "store conf (Conf_cell \<lparr>resources = brk h\<rparr>)
        (h\<lparr>cells := (cells h)(p := None, brk h \<mapsto> Chars (x @ [NUL])), brk := Suc (brk h)\<rparr>)
        = Some (conf_replaced conf p x h)"
      using c p(1,2) by (auto simp: store_def conf_replaced_def)
    assume "v = None"
    with p(3,4) show "p = NULL \<and> h\<lparr>cells := (cells h)(p := None)\<rparr> = h" by simp
  qed (use p(1,3) conf_state_replaced[OF st x p(1)] in \<open>simp_all add: get_conf_def\<close>)
qed

lemma conf_state_new_free:
  assumes st: "conf_state h0 conf (Some r) h" and x: "is_cstr x"
  obtains p a h1 h2 h3 where "get_conf h conf = Some \<lparr>resources = p\<rparr>" and "p \<noteq> NULL"
    and "load_str h p = Some r" and "new (Chars (x @ [NUL])) h = Some (a, h1)"
    and "free p h1 = Some h2" and "store conf (Conf_cell \<lparr>resources = a\<rparr>) h2 = Some h3"
    and "conf_state h0 conf (Some x) h3"
proof -
  from conf_stateE[OF st] obtain p where p: "cells h conf = Some (Conf_cell \<lparr>resources = p\<rparr>)"
    "p \<noteq> conf" "p \<noteq> NULL" "cells h p = Some (Chars (r @ [NUL]))" by (metis option.distinct(1) option.sel)
  have "conf < brk h" "p < brk h" "is_cstr r"
    using st p by (auto simp: conf_state_def dest: heap_wf_less)
  then show thesis using p conf_state_replaced[OF st x p(1)]
    by (intro that[of p]) (auto simp: get_conf_def get_chars_def load_str_def new_eq store_def
        free_def conf_replaced_def fun_upd_twist)
qed

text \<open>One line, and the whole file: the last value the file gives wins.\<close>

lemma conf_line_state:
  assumes st: "conf_state h0 conf v (heap s)" and l: "l \<noteq> []"
  shows "\<exists>h. conf_line conf l s = Some (s\<lparr>heap := h\<rparr>) \<and>
    conf_state h0 conf (case conf_value l of None \<Rightarrow> v | Some x \<Rightarrow> Some x) h"
proof (cases "conf_value l")
  case None
  then have "conf_line conf l s = Some s"
    using l by (cases l) (auto simp: conf_line_def conf_value_def Let_def split: if_splits)
  with None st show ?thesis by (intro exI[of _ "heap s"]) simp
next
  case (Some x)
  let ?p = "skip_space (l @ [NUL])"
  from Some l have c: "hd l \<noteq> CHR ''#''" "strneq 9 ''resources'' ?p"
    and x: "x = takeWhile (\<lambda>c. \<not> line_end c) (skip_space (drop 9 ?p))"
    by (auto simp: conf_value_def Let_def split: if_splits)
  have x': "x = cstr (nuke_newlines (skip_space (drop 9 ?p)))"
    by (simp add: x cstr_nuke_newlines takeWhile_line_end_cstr)
  then have "is_cstr x" by simp
  from conf_state_free_new[OF st this] obtain p h1 a h2 h3 where
    "get_conf (heap s) conf = Some \<lparr>resources = p\<rparr>" "free p (heap s) = Some h1"
    "new (Chars (x @ [NUL])) h1 = Some (a, h2)"
    "store conf (Conf_cell \<lparr>resources = a\<rparr>) h2 = Some h3" "conf_state h0 conf (Some x) h3" by metis
  then show ?thesis
    using c l Some
    by (auto simp: conf_line_def next_chunk_def strdup_def x'[symmetric] nth_append hd_conv_nth)
qed

text \<open>The pieces \<open>fgets\<close> hands to the parser.\<close>

function chunks :: "string \<Rightarrow> string list" where
  "chunks fp = (case fgets 8096 fp of None \<Rightarrow> [] | Some (l, fp) \<Rightarrow> l # chunks fp)"
  by pat_completeness auto
termination
  by (relation "measure length") (auto dest: fgets_shorter[rotated])

declare chunks.simps [simp del]

definition last_value :: "string option \<Rightarrow> string list \<Rightarrow> string option" where
  "last_value v ls = fold (\<lambda>l v. case conf_value l of None \<Rightarrow> v | Some x \<Rightarrow> Some x) ls v"

lemma fgets_nonempty: "2 \<le> n \<Longrightarrow> fgets n fp = Some (l, r) \<Longrightarrow> l \<noteq> []"
  by (cases n; cases "n - 1") (auto simp: fgets_def split: if_splits dest: fgets_take_nonempty)

lemma conf_parse_state:
  "conf_state h0 conf v (heap s) \<Longrightarrow>
   \<exists>h. conf_parse conf fp s = Some (0, s\<lparr>heap := h\<rparr>) \<and> conf_state h0 conf (last_value v (chunks fp)) h"
proof (induction fp arbitrary: s v rule: length_induct)
  case (1 fp)
  show ?case
  proof (cases "fgets 8096 fp")
    case None
    with 1(2) show ?thesis
      by (intro exI[of _ "heap s"]) (simp add: conf_parse.simps[of conf fp] chunks.simps[of fp] last_value_def)
  next
    case (Some lr)
    obtain l r where lr: "lr = (l, r)" by (cases lr)
    have f: "fgets 8096 fp = Some (l, r)" using Some lr by simp
    have len: "length r < length fp" using fgets_shorter[OF _ f] by simp
    have "l \<noteq> []" using fgets_nonempty[OF _ f] by simp
    from conf_line_state[OF 1(2) this] obtain h where h: "conf_line conf l s = Some (s\<lparr>heap := h\<rparr>)"
      "conf_state h0 conf (case conf_value l of None \<Rightarrow> v | Some x \<Rightarrow> Some x) h" by blast
    from 1(1)[rule_format, OF len, of _ "s\<lparr>heap := h\<rparr>"] h(2) obtain h' where
      "conf_parse conf r (s\<lparr>heap := h\<rparr>) = Some (0, s\<lparr>heap := h'\<rparr>)"
      "conf_state h0 conf (last_value (case conf_value l of None \<Rightarrow> v | Some x \<Rightarrow> Some x) (chunks r)) h'"
      by fastforce
    with f h(1) show ?thesis
      by (auto simp: conf_parse.simps[of conf fp] chunks.simps[of fp] last_value_def)
  qed
qed

text \<open>Lines that fit the buffer reach the parser whole.\<close>

lemma chunks_lines:
  assumes "\<forall>l \<in> set ls. LF \<notin> set l \<and> length l < 8095"
  shows "chunks (concat (map (\<lambda>l. l @ [LF]) ls)) = map (\<lambda>l. l @ [LF]) ls"
  using assms
proof (induction ls)
  case Nil
  then show ?case by (simp add: chunks.simps fgets_def)
next
  case (Cons l ls)
  then have "fgets 8096 (l @ LF # concat (map (\<lambda>l. l @ [LF]) ls)) =
      Some (l @ [LF], concat (map (\<lambda>l. l @ [LF]) ls))"
    by (simp add: fgets_def fgets_take_line)
  with Cons show ?case by (simp add: chunks.simps[of "l @ LF # _"])
qed

section \<open>Loading the configuration\<close>

text \<open>What a load returns, and the value it leaves; \<^term>\<open>None\<close> is a null pointer.\<close>

definition base_url :: "build \<Rightarrow> string \<Rightarrow> string" where
  "base_url b r = cstr (''http://'' @ r @ ''/'' @ EQUUS_PLATFORM b @ ''/'')"

definition default_url :: "build \<Rightarrow> string" where
  "default_url b = cstr (case EQUUS_BOOTSTRAP_URL b of Some u \<Rightarrow> u | None \<Rightarrow> '''')"

definition conf_result :: "build \<Rightarrow> equus \<Rightarrow> int \<times> string option" where
  "conf_result b s =
     (case readable s (config_path_of (arguments s)) of
        None \<Rightarrow> (-1, None)
      | Some fp \<Rightarrow>
          (case last_value None (chunks fp) of
             None \<Rightarrow> (0, Some (default_url b))
           | Some r \<Rightarrow> if asprintf_fails s then (-1, Some r) else (0, Some (base_url b r))))"

lemma fwrite_Stderr [simp]: "fwrite bs Stderr s = Some (s\<lparr>out_log := out_log s @ [(Stderr, bs)]\<rparr>)"
  by (simp add: fwrite_def stream_open_def)

lemma equus_conf_init_state:
  assumes st: "conf_state h0 conf None (heap s)" and wf: "args_wf s"
  shows "\<exists>s'. equus_conf_init b conf s = Some (fst (conf_result b s), s') \<and>
    s' = s\<lparr>heap := heap s', out_log := out_log s'\<rparr> \<and> conf_state h0 conf (snd (conf_result b s)) (heap s')"
proof (cases "readable s (config_path_of (arguments s))")
  case None
  with st show ?thesis by (simp add: equus_conf_init_def get_config_path_eq[OF wf] conf_result_def)
next
  case (Some fp)
  from conf_parse_state[OF st, of fp] obtain h where p: "conf_parse conf fp s = Some (0, s\<lparr>heap := h\<rparr>)"
    and h: "conf_state h0 conf (last_value None (chunks fp)) h" by blast
  show ?thesis
  proof (cases "last_value None (chunks fp)")
    case v: None
    have "is_cstr (default_url b)" by (simp add: default_url_def)
    from conf_state_free_new[OF h this] v obtain a h2 h3 where
      "get_conf h conf = Some \<lparr>resources = NULL\<rparr>"
      "new (Chars (default_url b @ [NUL])) h = Some (a, h2)"
      "store conf (Conf_cell \<lparr>resources = a\<rparr>) h2 = Some h3"
      "conf_state h0 conf (Some (default_url b)) h3" by metis
    with v p Some show ?thesis
      by (simp add: equus_conf_init_def get_config_path_eq[OF wf] conf_result_def strdup_def
          default_url_def[symmetric])
  next
    case v: (Some r)
    have "is_cstr (base_url b r)" by (simp add: base_url_def)
    from conf_state_new_free[OF _ this] h v obtain q a h1 h2 h3 where q:
      "get_conf h conf = Some \<lparr>resources = q\<rparr>" "q \<noteq> NULL" "load_str h q = Some r"
      "new (Chars (base_url b r @ [NUL])) h = Some (a, h1)"
      "free q h1 = Some h2" "store conf (Conf_cell \<lparr>resources = a\<rparr>) h2 = Some h3"
      "conf_state h0 conf (Some (base_url b r)) h3" by metis
    have u: "cstr (''http://'' @ r @ ''/'' @ EQUUS_PLATFORM b @ ''/'') = base_url b r"
      by (simp only: base_url_def)
    show ?thesis
    proof (cases "asprintf_fails s")
      case True
      with q v p h Some show ?thesis
        by (simp add: equus_conf_init_def get_config_path_eq[OF wf] conf_result_def)
    next
      case False
      with q v p Some show ?thesis
        by (simp add: equus_conf_init_def get_config_path_eq[OF wf] conf_result_def strdup_def
            u[simplified])
    qed
  qed
qed

text \<open>
  A configuration object with its value, and the blocks it owns. The invariant of the component
  is that \<open>global_conf\<close> is null or such an object.
\<close>

definition conf_obj :: "heap \<Rightarrow> addr \<Rightarrow> string option \<Rightarrow> bool" where
  "conf_obj h a v \<longleftrightarrow> (\<exists>p. cells h a = Some (Conf_cell \<lparr>resources = p\<rparr>) \<and>
     (case v of None \<Rightarrow> p = NULL
      | Some x \<Rightarrow> is_cstr x \<and> p \<noteq> NULL \<and> cells h p = Some (Chars (x @ [NUL]))))"

definition conf_owned :: "heap \<Rightarrow> addr \<Rightarrow> addr set" where
  "conf_owned h a = (case get_conf h a of None \<Rightarrow> {} | Some c \<Rightarrow> {a, resources c} - {NULL})"

abbreviation conf_blocks :: "equus \<Rightarrow> addr set" where
  "conf_blocks s \<equiv> conf_owned (heap s) (global_conf s)"

definition conf_wf :: "equus \<Rightarrow> bool" where
  "conf_wf s \<longleftrightarrow> heap_wf (heap s) \<and> args_wf s \<and>
     (global_conf s \<noteq> NULL \<longrightarrow> (\<exists>v. conf_obj (heap s) (global_conf s) v))"

lemma conf_obj_live: "conf_obj h a v \<Longrightarrow> conf_owned h a \<subseteq> dom (cells h)"
  by (auto simp: conf_obj_def conf_owned_def get_conf_def split: option.splits)

lemma conf_obj_frame:
  assumes "conf_obj h a v" and "same_on (conf_owned h a) h h'" and "a \<noteq> NULL"
  shows "conf_obj h' a v \<and> conf_owned h' a = conf_owned h a"
  using assms by (auto simp: conf_obj_def conf_owned_def get_conf_def same_on_def split: option.splits)

lemma conf_state_obj:
  assumes "conf_state h0 conf v h"
  shows "conf_obj h conf v" and "dom (cells h) = dom (cells h0) \<union> conf_owned h conf"
    and "conf_owned h conf \<inter> dom (cells h0) = {conf}"
    and "same_on (dom (cells h0) - {conf}) h0 h"
proof -
  from conf_stateE[OF assms] obtain p where p: "cells h conf = Some (Conf_cell \<lparr>resources = p\<rparr>)"
    "conf \<noteq> NULL" "same_on (- {conf}) h0 (h\<lparr>cells := (cells h)(p := None)\<rparr>)" "v = None \<Longrightarrow> p = NULL"
    "v \<noteq> None \<Longrightarrow> p \<noteq> NULL \<and> cells h0 p = None \<and> cells h p = Some (Chars (the v @ [NUL]))"
    by metis
  from assms have wf: "heap_wf h0" "heap_wf h" "conf \<in> dom (cells h0)" by (auto simp: conf_state_def)
  have c: "is_cstr x" if "v = Some x" for x using assms that by (auto simp: conf_state_def)
  show "conf_obj h conf v" using p c by (cases v) (auto simp: conf_obj_def)
  have o: "conf_owned h conf = {conf, p} - {NULL}" using p by (simp add: conf_owned_def get_conf_def)
  have h0p: "cells h0 p = None" using p wf by (cases v) auto
  have eq: "cells h a = cells h0 a" if "a \<noteq> conf" "a \<noteq> p" for a
    using same_onD[OF p(3), of a] that by simp
  show "conf_owned h conf \<inter> dom (cells h0) = {conf}" unfolding o using h0p wf(3) p(2) by blast
  show "same_on (dom (cells h0) - {conf}) h0 h" unfolding same_on_def using eq h0p by (metis DiffE domIff singletonI)
  have "a \<in> dom (cells h) \<longleftrightarrow> a \<in> dom (cells h0) \<union> conf_owned h conf" for a
  proof (cases "a = conf \<or> a = p")
    case True
    with o p wf h0p show ?thesis by (cases v) auto
  next
    case False
    with eq o show ?thesis by auto
  qed
  then show "dom (cells h) = dom (cells h0) \<union> conf_owned h conf" by blast
qed

lemma equus_conf_free_eq:
  assumes o: "conf_obj (heap s) a v" and "a \<noteq> NULL"
  obtains h where "equus_conf_free a s = Some (s\<lparr>heap := h\<rparr>)"
    and "dom (cells h) = dom (cells (heap s)) - conf_owned (heap s) a"
    and "same_on (- conf_owned (heap s) a) (heap s) h" and "heap_wf (heap s) \<Longrightarrow> heap_wf h"
proof -
  from o obtain p where p: "cells (heap s) a = Some (Conf_cell \<lparr>resources = p\<rparr>)"
    "case v of None \<Rightarrow> p = NULL
     | Some x \<Rightarrow> is_cstr x \<and> p \<noteq> NULL \<and> cells (heap s) p = Some (Chars (x @ [NUL]))"
    by (auto simp: conf_obj_def)
  let ?h = "(heap s)\<lparr>cells := (cells (heap s))(p := None, a := None)\<rparr>"
  have ow: "conf_owned (heap s) a = {a, p} - {NULL}"
    using p(1) by (simp add: conf_owned_def get_conf_def)
  show thesis
  proof (cases "p = NULL")
    case True
    let ?g = "(heap s)\<lparr>cells := (cells (heap s))(a := None)\<rparr>"
    have f: "free a (heap s) = Some ?g" using p assms(2) by (simp add: free_def)
    show thesis
    proof (rule that)
      show "equus_conf_free a s = Some (s\<lparr>heap := ?g\<rparr>)"
        using True p f by (simp add: equus_conf_free_def get_conf_def)
      show "dom (cells ?g) = dom (cells (heap s)) - conf_owned (heap s) a"
        and "same_on (- conf_owned (heap s) a) (heap s) ?g"
        using True ow assms(2) by (auto simp: same_on_def)
    qed (rule heap_wf_free[OF _ f])
  next
    case False
    with p have pn: "cells (heap s) p \<noteq> None" "p \<noteq> a" by (auto split: option.splits)
    have f: "free p (heap s) = Some ((heap s)\<lparr>cells := (cells (heap s))(p := None)\<rparr>)"
      and g: "free a ((heap s)\<lparr>cells := (cells (heap s))(p := None)\<rparr>) = Some ?h"
      using p(1) pn False assms(2) by (simp_all add: free_def)
    show thesis
    proof (rule that)
      show "equus_conf_free a s = Some (s\<lparr>heap := ?h\<rparr>)"
        using False p f g by (simp add: equus_conf_free_def get_conf_def)
      show "dom (cells ?h) = dom (cells (heap s)) - conf_owned (heap s) a"
        and "same_on (- conf_owned (heap s) a) (heap s) ?h"
        using False ow assms(2) by (auto simp: same_on_def)
    qed (rule heap_wf_free[OF heap_wf_free[OF _ f] g])
  qed
qed

lemma conf_obj_url:
  "conf_obj (heap s) (global_conf s) v \<Longrightarrow> global_conf s \<noteq> NULL \<Longrightarrow> equus_url b s = Some v"
  by (cases v) (auto simp: conf_obj_def equus_url_def get_conf_def load_str_def get_chars_def)

text \<open>A new, empty object.\<close>

lemma conf_state_new:
  assumes "heap_wf h" and "new (Conf_cell \<lparr>resources = NULL\<rparr>) h = Some (a, h')"
  shows "conf_state h' a None h'" and "a = brk h" and "dom (cells h') = insert a (dom (cells h))"
    and "same_on (dom (cells h)) h h'"
  using assms heap_wf_new[OF assms] same_on_new[OF assms]
  by (auto simp: conf_state_def new_eq intro!: exI[of _ NULL])

text \<open>
  Loading: the new object holds what the file says, the old one is released, and nothing else
  in memory changes.
\<close>

definition loaded :: "build \<Rightarrow> equus \<Rightarrow> equus \<Rightarrow> bool" where
  "loaded b s s' \<longleftrightarrow> s' = s\<lparr>global_conf := global_conf s', heap := heap s', out_log := out_log s'\<rparr> \<and>
     conf_wf s' \<and> global_conf s' \<noteq> NULL \<and> conf_obj (heap s') (global_conf s') (snd (conf_result b s)) \<and>
     dom (cells (heap s')) = (dom (cells (heap s)) - conf_blocks s) \<union> conf_blocks s' \<and>
     conf_blocks s' \<inter> dom (cells (heap s)) = {} \<and>
     same_on (dom (cells (heap s)) - conf_blocks s) (heap s) (heap s')"

lemma args_wf_update [simp]:
  "args_wf (s\<lparr>heap := h\<rparr>) = args_wf s" "args_wf (s\<lparr>global_conf := a\<rparr>) = args_wf s"
  "args_wf (s\<lparr>out_log := l\<rparr>) = args_wf s" "args_wf (s\<lparr>atexit_handlers := x\<rparr>) = args_wf s"
  by (simp_all add: args_wf_def arguments_def)

lemma conf_result_update [simp]:
  "conf_result b (s\<lparr>heap := h\<rparr>) = conf_result b s"
  "conf_result b (s\<lparr>global_conf := a\<rparr>) = conf_result b s"
  "conf_result b (s\<lparr>atexit_handlers := x\<rparr>) = conf_result b s"
  by (simp_all add: conf_result_def arguments_def cong: option.case_cong)

lemma load_first:
  assumes wf: "conf_wf s" and n: "global_conf s = NULL"
  shows "\<exists>s'. equus_load_config b s = Some (fst (conf_result b s), s') \<and> loaded b s s'"
proof -
  from wf have h: "heap_wf (heap s)" and a: "args_wf s" by (simp_all add: conf_wf_def)
  obtain conf h1 where new: "new (Conf_cell \<lparr>resources = NULL\<rparr>) (heap s) = Some (conf, h1)"
    by (simp add: new_eq)
  note st = conf_state_new[OF h new]
  from st(1) equus_conf_init_state[of h1 conf "s\<lparr>heap := h1, global_conf := conf\<rparr>" b] a
  obtain s' where init: "equus_conf_init b conf (s\<lparr>heap := h1, global_conf := conf\<rparr>)
      = Some (fst (conf_result b s), s')"
    and s': "s' = s\<lparr>global_conf := conf, heap := heap s', out_log := out_log s'\<rparr>"
    and c: "conf_state h1 conf (snd (conf_result b s)) (heap s')" by auto
  have gc: "global_conf s' = conf" by (subst s') simp
  have wf': "heap_wf (heap s')" using c by (simp add: conf_state_def)
  have nn: "conf \<noteq> NULL" using st(2) heap_wf_brk[OF h] by simp
  have old: "conf_blocks s = {}" using n h by (simp add: conf_owned_def get_conf_def)
  have args: "args_wf s'" using a by (subst s') simp
  note o = conf_state_obj[OF c]
  have "conf \<notin> dom (cells (heap s))" using st(2) heap_wf_fresh[OF h] by auto
  then have "dom (cells (heap s')) = dom (cells (heap s)) \<union> conf_owned (heap s') conf"
    and "conf_owned (heap s') conf \<inter> dom (cells (heap s)) = {}"
    and "same_on (dom (cells (heap s))) (heap s) (heap s')"
    using o(2,3) st(3) same_on_trans[OF st(4) same_on_mono[OF o(4)]] by auto
  then have "loaded b s s'"
    using s' wf' args nn o(1) by (auto simp: loaded_def gc old conf_wf_def)
  with init n new show ?thesis by (simp add: equus_load_config_def)
qed

lemma load_again:
  assumes wf: "conf_wf s" and n: "global_conf s \<noteq> NULL"
  shows "\<exists>s'. equus_load_config b s = Some (fst (conf_result b s), s') \<and> loaded b s s'"
proof -
  let ?old = "global_conf s"
  from wf n obtain v0 where h: "heap_wf (heap s)" and a: "args_wf s"
    and old: "conf_obj (heap s) ?old v0" by (auto simp: conf_wf_def)
  obtain conf h1 where new: "new (Conf_cell \<lparr>resources = NULL\<rparr>) (heap s) = Some (conf, h1)"
    by (simp add: new_eq)
  note st = conf_state_new[OF h new]
  from st(1) equus_conf_init_state[of h1 conf "s\<lparr>heap := h1\<rparr>" b] a
  obtain s1 where init: "equus_conf_init b conf (s\<lparr>heap := h1\<rparr>) = Some (fst (conf_result b s), s1)"
    and s1: "s1 = s\<lparr>heap := heap s1, out_log := out_log s1\<rparr>"
    and c: "conf_state h1 conf (snd (conf_result b s)) (heap s1)" by auto
  note o = conf_state_obj[OF c]
  have fresh: "conf \<notin> dom (cells (heap s))" using st(2) heap_wf_fresh[OF h] by auto
  have same1: "same_on (dom (cells (heap s))) (heap s) (heap s1)"
    using fresh st(3) same_on_trans[OF st(4) same_on_mono[OF o(4)]] by auto
  have live: "conf_blocks s \<subseteq> dom (cells (heap s))" using conf_obj_live[OF old] .
  from conf_obj_frame[OF old same_on_mono[OF same1 live] n]
  have old1: "conf_obj (heap s1) ?old v0" and blk: "conf_owned (heap s1) ?old = conf_blocks s" by auto
  let ?s2 = "s1\<lparr>global_conf := conf\<rparr>"
  from equus_conf_free_eq[of ?s2 ?old v0] old1 n obtain h2 where
    free: "equus_conf_free ?old ?s2 = Some (?s2\<lparr>heap := h2\<rparr>)"
    and dom2: "dom (cells h2) = dom (cells (heap s1)) - conf_blocks s"
    and same2: "same_on (- conf_blocks s) (heap s1) h2" and wf2: "heap_wf h2"
    using c by (auto simp: blk conf_state_def)
  let ?s = "?s2\<lparr>heap := h2\<rparr>"
  have nn: "conf \<noteq> NULL" using st(2) heap_wf_brk[OF h] by simp
  have disj: "conf_owned (heap s1) conf \<inter> dom (cells (heap s)) = {}"
    using o(3) fresh st(3) by auto
  then have "same_on (conf_owned (heap s1) conf) (heap s1) h2"
    using live by (intro same_on_mono[OF same2]) auto
  from conf_obj_frame[OF o(1) this nn]
  have o2: "conf_obj h2 conf (snd (conf_result b s))" "conf_owned h2 conf = conf_owned (heap s1) conf" by auto
  have dom': "dom (cells h2) = (dom (cells (heap s)) - conf_blocks s) \<union> conf_owned h2 conf"
    using dom2 o(2) st(3) o2(2) disj live o(3) by auto
  have same': "same_on (dom (cells (heap s)) - conf_blocks s) (heap s) h2"
    by (rule same_on_trans[OF same_on_mono[OF same1] same_on_mono[OF same2]]) auto
  have eq: "?s = s\<lparr>global_conf := conf, heap := h2, out_log := out_log s1\<rparr>"
    by (subst s1, rule equus.equality) simp_all
  have "args_wf ?s" using a by (simp add: eq)
  then have "loaded b s ?s"
    using eq wf2 nn o2 dom' same' disj by (auto simp: loaded_def conf_wf_def)
  moreover have "equus_load_config b s = Some (fst (conf_result b s), ?s)"
    using n new init free by (simp add: equus_load_config_def)
  ultimately show ?thesis by blast
qed

lemma equus_load_config_loaded:
  "conf_wf s \<Longrightarrow> \<exists>s'. equus_load_config b s = Some (fst (conf_result b s), s') \<and> loaded b s s'"
  using load_first load_again by (cases "global_conf s = NULL") auto

lemma conf_wf_update [simp]:
  "conf_wf (s\<lparr>atexit_handlers := x\<rparr>) = conf_wf s"
  by (simp add: conf_wf_def)

text \<open>The value of a line written by hand: the word, a blank, a host name.\<close>

definition is_host :: "string \<Rightarrow> bool" where
  "is_host x \<longleftrightarrow> (\<forall>c \<in> set x. \<not> isspace c \<and> c \<noteq> NUL)"

lemma is_host_cstr: "is_host x \<Longrightarrow> is_cstr x"
  by (auto simp: is_host_def is_cstr_def)

lemma conf_value_resources:
  assumes "is_host x"
  shows "conf_value (''resources '' @ x @ [LF]) = Some x"
proof -
  have "skip_space (x @ [LF, NUL]) = (if x = [] then [NUL] else x @ [LF, NUL])"
    using assms by (cases x) (auto simp: skip_space_def is_host_def isspace_def)
  moreover have "takeWhile (\<lambda>c. \<not> line_end c) (x @ [LF, NUL]) = x"
    using assms by (subst takeWhile_append2) (auto simp: is_host_def isspace_def line_end_def)
  ultimately show ?thesis
    by (auto simp: conf_value_def skip_space_def isspace_def strneq_def cstr_def line_end_def)
qed

lemma last_value_append: "last_value v (ls @ ls') = last_value (last_value v ls) ls'"
  by (simp add: last_value_def)

lemma last_value_none: "\<forall>l \<in> set ls. conf_value l = None \<Longrightarrow> last_value v ls = v"
  by (induction ls) (auto simp: last_value_def)

lemma last_value_line:
  "conf_value l = Some x \<Longrightarrow> \<forall>l \<in> set post. conf_value l = None \<Longrightarrow>
   last_value v (pre @ l # post) = Some x"
  using last_value_none[of post "Some x"]
  by (simp add: last_value_append last_value_def)

lemma base_url_cstr:
  "is_cstr r \<Longrightarrow> is_cstr (EQUUS_PLATFORM b) \<Longrightarrow>
   base_url b r = ''http://'' @ r @ ''/'' @ EQUUS_PLATFORM b @ ''/''"
  by (simp add: base_url_def)

section \<open>Properties\<close>

text \<open>
  (C4) Reading the configuration, for the first time or again, always returns. The new object
  holds what the file says, \<open>equus_url\<close> then returns it, the blocks of the old object are
  released, every other block is as it was, and no block is leaked. The result is negative
  exactly when \<open>conf_result\<close> says so.
\<close>

theorem equus_load_config_correct:
  assumes "conf_wf s"
  shows "\<exists>s'. equus_load_config b s = Some (fst (conf_result b s), s') \<and> conf_wf s' \<and>
    equus_url b s' = Some (snd (conf_result b s)) \<and>
    dom (cells (heap s')) = (dom (cells (heap s)) - conf_blocks s) \<union> conf_blocks s' \<and>
    conf_blocks s' \<inter> dom (cells (heap s)) = {} \<and>
    same_on (dom (cells (heap s)) - conf_blocks s) (heap s) (heap s')"
  using equus_load_config_loaded[OF assms, of b] conf_obj_url by (fastforce simp: loaded_def)

definition example_build :: build where
  "example_build = \<lparr>EQUUS_PLATFORM = ''linux'', EQUUS_BOOTSTRAP_URL = None\<rparr>"

definition example_conf :: "string \<Rightarrow> equus" where
  "example_conf file = equus_set_argv 3 [''agent'', ''-c'', ''/x'']
     (equus_init (\<lambda>_. True) [''/x'' \<mapsto> file] epoch (\<lambda>_. ''error''))"

lemma example_conf_wf [simp]: "conf_wf (example_conf file)"
  and example_conf_arguments [simp]: "arguments (example_conf file) = [''agent'', ''-c'', ''/x'']"
  and example_conf_readable [simp]: "readable (example_conf file) ''/x'' = Some file"
  and example_conf_asprintf [simp]: "\<not> asprintf_fails (example_conf file)"
  by (simp_all add: example_conf_def conf_wf_def equus_set_argv_def equus_init_def args_wf_def
      arguments_def heap_wf_def)

theorem equus_load_config_correct_witness:
  "\<exists>s'. equus_load_config example_build (example_conf []) = Some (0, s') \<and>
     equus_url example_build s' = Some (Some [])"
  using equus_load_config_correct[OF example_conf_wf[of "[]"], of example_build]
  by (auto simp: conf_result_def chunks.simps fgets_def last_value_def default_url_def example_build_def)

text \<open>
  A configuration file written as documented gives the address it names: if no line exceeds
  the buffer and the last line with the word is \<^verbatim>\<open>resources <host>\<close>, the agent loads its modules from
  that host and its own platform, whatever stands before and whatever comments follow.
\<close>

theorem config_file_gives_url:
  assumes "conf_wf s" and "\<not> asprintf_fails s" and "is_cstr (EQUUS_PLATFORM b)" and "is_host x"
    and "readable s (config_path_of (arguments s)) =
      Some (concat (map (\<lambda>l. l @ [LF]) (pre @ (''resources '' @ x) # post)))"
    and "\<forall>l \<in> set (pre @ (''resources '' @ x) # post). LF \<notin> set l \<and> length l < 8095"
    and "\<forall>l \<in> set post. conf_value (l @ [LF]) = None"
  shows "\<exists>s'. equus_load_config b s = Some (0, s') \<and>
    equus_url b s' = Some (Some (''http://'' @ x @ ''/'' @ EQUUS_PLATFORM b @ ''/''))"
proof -
  have "last_value None (map (\<lambda>l. l @ [LF]) pre @ (''resources '' @ x @ [LF]) #
      map (\<lambda>l. l @ [LF]) post) = Some x"
    using assms(7) by (intro last_value_line conf_value_resources[OF assms(4)]) simp
  then have "conf_result b s = (0, Some (base_url b x))"
    using assms(2,5) chunks_lines[OF assms(6)] by (simp add: conf_result_def)
  then show ?thesis
    using equus_load_config_loaded[OF assms(1), of b] conf_obj_url
      base_url_cstr[OF is_host_cstr[OF assms(4)] assms(3)]
    by (fastforce simp: loaded_def)
qed

theorem config_file_gives_url_witness:
  "\<exists>s'. equus_load_config example_build
       (example_conf (''# agent'' @ [LF] @ ''resources c.com'' @ [LF] @ ''# end'' @ [LF])) = Some (0, s') \<and>
     equus_url example_build s' = Some (Some ''http://c.com/linux/'')"
  using config_file_gives_url[of "example_conf (''# agent'' @ [LF] @ ''resources c.com'' @ [LF] @ ''# end'' @ [LF])"
      example_build "''c.com''" "[''# agent'']" "[''# end'']"]
  by (simp add: is_host_def isspace_def conf_value_def example_build_def)

lemma fgets_take_full:
  "length l = k \<Longrightarrow> LF \<notin> set l \<Longrightarrow> fgets_take k (l @ r) = (l, r)"
  by (induction l arbitrary: k) auto

text \<open>
  The line buffer cuts comments: the characters of a comment line after the 8095th are read
  as a line of their own. A comment of that length followed on the same line by
  \<^verbatim>\<open>resources <host>\<close> sets the address, although the whole line starts with the comment sign.
\<close>

theorem long_comment_sets_url:
  assumes "conf_wf s" and "\<not> asprintf_fails s" and "is_host x" and "length x < 8000"
    and "length c = 8094" and "LF \<notin> set c"
    and "readable s (config_path_of (arguments s)) = Some (CHR ''#'' # c @ ''resources '' @ x @ [LF])"
  shows "\<exists>s'. equus_load_config b s = Some (0, s') \<and> equus_url b s' = Some (Some (base_url b x))"
proof -
  have f1: "fgets 8096 (CHR ''#'' # c @ ''resources '' @ x @ [LF]) =
      Some (CHR ''#'' # c, ''resources '' @ x @ [LF])"
    using fgets_take_full[of "CHR ''#'' # c" 8095 "''resources '' @ x @ [LF]"] assms(5,6)
    by (simp add: fgets_def del: fgets_take.simps)
  have lf: "LF \<notin> set x" using assms(3) by (auto simp: is_host_def isspace_def)
  have f2: "chunks (''resources '' @ x @ [LF]) = [''resources '' @ x @ [LF]]"
    using chunks_lines[of "[''resources '' @ x]"] assms(4) lf by simp
  have "chunks (CHR ''#'' # c @ ''resources '' @ x @ [LF]) = [CHR ''#'' # c, ''resources '' @ x @ [LF]]"
    by (subst chunks.simps) (simp only: f1 f2 option.case prod.case)
  moreover have "conf_value (CHR ''#'' # c) = None" by (simp add: conf_value_def)
  moreover note conf_value_resources[OF assms(3)]
  ultimately have "last_value None (chunks (CHR ''#'' # c @ ''resources '' @ x @ [LF])) = Some x"
    using last_value_line[of "''resources '' @ x @ [LF]" x "[]" None "[CHR ''#'' # c]"] by simp
  then have "conf_result b s = (0, Some (base_url b x))"
    using assms(2,7) by (simp add: conf_result_def)
  then show ?thesis
    using equus_load_config_loaded[OF assms(1), of b] conf_obj_url by (fastforce simp: loaded_def)
qed

theorem long_comment_sets_url_witness:
  "\<exists>s'. equus_load_config example_build
       (example_conf (CHR ''#'' # replicate 8094 CHR ''-'' @ ''resources c.com'' @ [LF])) = Some (0, s') \<and>
     equus_url example_build s' = Some (Some (base_url example_build ''c.com''))"
  by (rule long_comment_sets_url[where c = "replicate 8094 CHR ''-''"])
    (simp_all add: is_host_def isspace_def)

text \<open>
  The object does not outlive the process: after \<open>equus_util_init\<close>, with or without a help
  switch, the exit handler returns and every block of a configuration is released.
\<close>

theorem init_then_exit_releases_config:
  assumes "conf_wf s" and "global_conf s = NULL"
  shows "\<exists>rv s1 s2. equus_util_init b s = Some (rv, s1) \<and> equus_util_atexit s1 = Some s2 \<and>
    (rv = 0 \<or> rv = fst (conf_result b s)) \<and> dom (cells (heap s2)) = dom (cells (heap s))"
proof -
  let ?s = "equus_loader_init (equus_verify_init s)"
  let ?hlp = "\<exists>a \<in> set (drop 1 (arguments ?s)). a = ''-h'' \<or> a = ''--help''"
  have s: "?s = s\<lparr>atexit_handlers := Equus_loader_atexit # Equus_util_atexit # atexit_handlers s\<rparr>"
    by (simp add: equus_loader_init_def equus_verify_init_def)
  have wf: "conf_wf ?s" and n: "global_conf ?s = NULL" and args: "args_wf ?s"
    using assms by (simp_all add: s) (simp_all add: conf_wf_def)
  have hlp: "is_help_switch_present ?s = Some (if ?hlp then 1 else 0)"
    using help_switch_from_eq[OF args, of 1] by (simp add: is_help_switch_present_def)
  show ?thesis
  proof (cases ?hlp)
    case True
    then have "equus_util_init b s = Some (0, ?s)" using hlp by (simp add: equus_util_init_def Let_def)
    moreover have "equus_util_atexit ?s = Some ?s" using n by (simp add: equus_util_atexit_def)
    ultimately show ?thesis by (auto simp: s)
  next
    case False
    from equus_load_config_loaded[OF wf, of b] obtain s1 where
      l: "equus_load_config b ?s = Some (fst (conf_result b s), s1)" "loaded b ?s s1" by (auto simp: s)
    then obtain v where "conf_obj (heap s1) (global_conf s1) v" "global_conf s1 \<noteq> NULL"
      by (auto simp: loaded_def)
    from equus_conf_free_eq[OF this] obtain h where
      f: "equus_conf_free (global_conf s1) s1 = Some (s1\<lparr>heap := h\<rparr>)"
      "dom (cells h) = dom (cells (heap s1)) - conf_blocks s1" by metis
    have "conf_blocks ?s = {}" using n wf by (simp add: conf_owned_def get_conf_def conf_wf_def)
    with l(2) f(2) have "dom (cells h) = dom (cells (heap s))" by (auto simp: loaded_def s)
    moreover have "equus_util_atexit s1 = Some (s1\<lparr>heap := h\<rparr>)"
      using f(1) \<open>global_conf s1 \<noteq> NULL\<close> by (simp add: equus_util_atexit_def)
    moreover have "equus_util_init b s = Some (fst (conf_result b s), s1)"
      using False hlp l(1) by (simp add: equus_util_init_def Let_def)
    ultimately show ?thesis by auto
  qed
qed

theorem init_then_exit_releases_config_witness:
  "\<exists>rv s1 s2. equus_util_init example_build (example_conf []) = Some (rv, s1) \<and>
     equus_util_atexit s1 = Some s2 \<and> dom (cells (heap s2)) = {}"
  using init_then_exit_releases_config[OF example_conf_wf[of "[]"], of example_build]
  by (auto simp: example_conf_def equus_set_argv_def equus_init_def)

end
