(* ===== verification/Equus_Cache.thy ===== *)
theory Equus_Cache
  imports Equus_Log
begin

text \<open>
  The module cache of \<open>equus_loader.c\<close>: a linked list under the mutex \<open>cachemtx\<close> that maps the
  name of a module to its code, shared by all the Lua states of the process. The operations are
  shown to implement a finite map in which the first code stored under a name stays until the
  cache is cleared; the locale \<open>module_cache\<close> is that contract, and what a loader can conclude
  from it.
\<close>

section \<open>Operations\<close>

text \<open>The loop over the list; a list that runs in a circle makes it run forever.\<close>

partial_function (option) cache_find_from :: "string \<Rightarrow> heap \<Rightarrow> addr \<Rightarrow> addr option" where
  "cache_find_from name h e =
     (if e = NULL then Some NULL
      else do {
        c \<leftarrow> get_eql h e;
        n \<leftarrow> load_str h (eql_name c);
        if streq n name then Some e else cache_find_from name h (eql_next c)
      })"

definition equus_local_cache_find_nolock :: "string \<Rightarrow> equus \<Rightarrow> addr option" where
  "equus_local_cache_find_nolock name s = cache_find_from name (heap s) (cache_head s)"

definition equus_local_cache_find :: "string \<Rightarrow> equus \<Rightarrow> (addr \<times> equus) option" where
  "equus_local_cache_find name s = do {
     s \<leftarrow> MTX_LOCK_cache s;
     e \<leftarrow> equus_local_cache_find_nolock name s;
     Some (e, MTX_UNLOCK_cache s)
   }"

partial_function (option) equus_local_cache_free :: "addr \<Rightarrow> heap \<Rightarrow> heap option" where
  "equus_local_cache_free e h =
     (if e = NULL then Some h
      else do {
        c \<leftarrow> get_eql h e;
        h \<leftarrow> free (eql_name c) h;
        c \<leftarrow> get_eql h e;
        h \<leftarrow> free (eql_data c) h;
        c \<leftarrow> get_eql h e;
        let tmp = eql_next c;
        h \<leftarrow> store e (Eql_cell (c\<lparr>eql_next := NULL\<rparr>)) h;
        h \<leftarrow> free e h;
        equus_local_cache_free tmp h
      })"

definition equus_local_cache_clear :: "equus \<Rightarrow> equus option" where
  "equus_local_cache_clear s = do {
     s \<leftarrow> MTX_LOCK_cache s;
     h \<leftarrow> equus_local_cache_free (cache_head s) (heap s);
     let s = s\<lparr>heap := h, cache_head := NULL\<rparr>;
     Some (MTX_UNLOCK_cache s)
   }"

definition equus_local_cache_push :: "addr \<Rightarrow> equus \<Rightarrow> (addr \<times> equus) option" where
  "equus_local_cache_push x s = do {
     s \<leftarrow> MTX_LOCK_cache s;
     c \<leftarrow> get_eql (heap s) x;
     name \<leftarrow> load_str (heap s) (eql_name c);
     e \<leftarrow> equus_local_cache_find_nolock name s;
     if e \<noteq> NULL then do {
       let s = MTX_UNLOCK_cache s;
       h \<leftarrow> equus_local_cache_free x (heap s);
       Some (e, s\<lparr>heap := h\<rparr>)
     } else do {
       let e = cache_head s;
       h \<leftarrow> store x (Eql_cell (c\<lparr>eql_next := e\<rparr>)) (heap s);
       let s = s\<lparr>heap := h, cache_head := x\<rparr>;
       Some (x, MTX_UNLOCK_cache s)
     }
   }"

text \<open>
  The end of \<open>equus_local_cache_add\<close>: the entry for \<open>name\<close> and the bytes \<open>d\<close>. The block of the
  bytes is one longer than they are; that last byte is neither written nor read.
\<close>

definition cache_store :: "string \<Rightarrow> string \<Rightarrow> equus \<Rightarrow> (addr \<times> equus) option" where
  "cache_store name d s = do {
     let (c, h) = malloc (heap s);
     (n, h) \<leftarrow> strdup name h;
     (p, h) \<leftarrow> new (Chars d) h;
     h \<leftarrow> store c (Eql_cell \<lparr>eql_len = int (length d), eql_name = n, eql_data = p, eql_next = NULL\<rparr>) h;
     equus_local_cache_push c (s\<lparr>heap := h\<rparr>)
   }"

section \<open>The list in memory\<close>

text \<open>A node owns its name and its code; its value is the pair of them.\<close>

definition eql_node :: "(string \<times> string) reader" where
  "eql_node h a =
     (case get_eql h a of None \<Rightarrow> None | Some e \<Rightarrow>
      (case get_chars h (eql_name e) of None \<Rightarrow> None | Some n \<Rightarrow>
       (case get_chars h (eql_data e) of None \<Rightarrow> None | Some d \<Rightarrow>
        if n \<noteq> [] \<and> last n = NUL \<and> is_cstr (butlast n) \<and> eql_len e = int (length d)
        then Some ((butlast n, d), [eql_name e, eql_data e], eql_next e) else None)))"

lemma eql_node_Some:
  "eql_node h a = Some ((n, d), bs, q) \<longleftrightarrow>
     (\<exists>x y. bs = [x, y] \<and>
        get_eql h a = Some \<lparr>eql_len = int (length d), eql_name = x, eql_data = y, eql_next = q\<rparr>
        \<and> is_cstr n \<and> get_chars h x = Some (n @ [NUL]) \<and> get_chars h y = Some d)"
  by (auto simp: eql_node_def split: option.splits if_splits) (metis append_butlast_last_id)

interpretation eql: heap_list eql_node
proof
  fix h a v bs q h'
  assume e: "eql_node h a = Some (v, bs, q)"
  obtain n d where v: "v = (n, d)" by (cases v)
  from e obtain x y where bs: "bs = [x, y]"
    and g: "get_eql h a = Some \<lparr>eql_len = int (length d), eql_name = x, eql_data = y, eql_next = q\<rparr>"
      "is_cstr n" "get_chars h x = Some (n @ [NUL])" "get_chars h y = Some d"
    by (auto simp: v eql_node_Some)
  show "set (a # bs) \<subseteq> dom (cells h)" using bs g by (auto dest: get_dom)
  assume "same_on (set (a # bs)) h h'"
  then show "eql_node h' a = Some (v, bs, q)"
    using bs g by (auto simp: v eql_node_Some same_on_def get_cong[of h' _ h])
qed

abbreviation cached :: "equus \<Rightarrow> (string \<times> string) entry list" where
  "cached s \<equiv> entries eql_node (heap s) (cache_head s)"

text \<open>The contents of the cache as a map from names to code.\<close>

definition cache_map :: "equus \<Rightarrow> string \<rightharpoonup> string" where
  "cache_map s = map_of (map entry_value (cached s))"

definition cache_wf :: "equus \<Rightarrow> bool" where
  "cache_wf s \<longleftrightarrow> log_wf s \<and> \<not> cachemtx s \<and> list_wf eql_node (heap s) (cache_head s)
     \<and> g_equus_log_path s \<notin> set (owned (cached s))"

section \<open>Looking up\<close>

fun find_entry :: "string \<Rightarrow> (string \<times> string) entry list \<Rightarrow> addr" where
  "find_entry name [] = NULL"
| "find_entry name (e # es) = (if fst (entry_value e) = cstr name then fst e else find_entry name es)"

lemma find_entry_cstr [simp]: "find_entry (cstr name) es = find_entry name es"
  by (induction es) auto

lemma cache_find_from_eq:
  "chain eql_node h p es \<Longrightarrow> cache_find_from name h p = Some (find_entry name es)"
proof (induction es arbitrary: p)
  case Nil
  then show ?case by (simp add: cache_find_from.simps)
next
  case (Cons e es)
  obtain a n d bs where e: "e = (a, (n, d), bs)" by (metis prod.exhaust)
  with Cons.prems obtain q where q: "p \<noteq> NULL" "p = a" "eql_node h a = Some ((n, d), bs, q)"
    "chain eql_node h q es" by auto
  from q(3) have n: "load_str h (eql_name c) = Some n \<and> is_cstr n \<and> eql_next c = q" if "get_eql h a = Some c" for c
    using that by (auto simp: eql_node_Some load_str_def)
  from q(3) obtain c where c: "get_eql h a = Some c" by (auto simp: eql_node_Some)
  show ?case
    using n[OF c] c q(1,2) Cons.IH[OF q(4)]
    by (simp add: cache_find_from.simps[of name h a] e streq_def)
qed

lemma find_entry_NULL:
  assumes "chain rd h p es"
  shows "find_entry name es = NULL \<longleftrightarrow> map_of (map entry_value es) (cstr name) = None"
  using assms
proof (induction es arbitrary: p)
  case (Cons e es)
  then show ?case by (cases "entry_value e") (auto simp: map_of_eq_None_iff image_iff)
qed simp

lemma find_entry_Some:
  assumes "map_of (map entry_value es) (cstr name) = Some d"
  obtains es1 bs es2 where "es = es1 @ (find_entry name es, (cstr name, d), bs) # es2"
proof -
  have "\<exists>es1 bs es2. es = es1 @ (find_entry name es, (cstr name, d), bs) # es2" using assms
  proof (induction es)
    case (Cons e es)
    obtain a n d' bs where e: "e = (a, (n, d'), bs)" by (metis prod.exhaust)
    show ?case
    proof (cases "n = cstr name")
      case True
      with Cons.prems e show ?thesis by (intro exI[of _ "[]"] exI[of _ bs] exI[of _ es]) auto
    next
      case False
      with Cons e obtain es1 bs' es2 where "es = es1 @ (find_entry name es, (cstr name, d), bs') # es2"
        by auto
      with False e show ?thesis by (intro exI[of _ "e # es1"]) auto
    qed
  qed simp
  then show thesis using that by blast
qed

section \<open>Releasing\<close>

lemma cache_free_node:
  assumes "eql_node h a = Some (v, [x, y], q)" and "distinct [a, x, y]" and wf: "heap_wf h"
  shows "equus_local_cache_free a h = equus_local_cache_free q (without {a, x, y} h)"
proof -
  obtain n d where v: "v = (n, d)" by (cases v)
  let ?e = "\<lparr>eql_len = int (length d), eql_name = x, eql_data = y, eql_next = q\<rparr>"
  from assms(1) have g: "cells h a = Some (Eql_cell ?e)" "cells h x \<noteq> None" "cells h y \<noteq> None"
    by (auto simp: v eql_node_Some get_defs split: option.splits cell.splits)
  then have nn: "a \<noteq> NULL" "x \<noteq> NULL" "y \<noteq> NULL"
    using wf by (metis heap_wf_NULL option.distinct(1))+
  have w: "h\<lparr>cells := (cells h)(x := None, y := None, a := None)\<rparr> = without {a, x, y} h"
    by (simp add: without_def fun_eq_iff restrict_map_def)
  show ?thesis
    using g nn assms(2)
    by (subst equus_local_cache_free.simps)
      (auto simp: get_eql_def free_def store_def w[symmetric])
qed

lemma cache_free_eq:
  "chain eql_node h p es \<Longrightarrow> distinct (owned es) \<Longrightarrow> heap_wf h \<Longrightarrow>
   equus_local_cache_free p h = Some (without (set (owned es)) h)"
proof (induction es arbitrary: p h)
  case Nil
  then show ?case by (simp add: equus_local_cache_free.simps)
next
  case (Cons e es)
  obtain a v bs where e: "e = (a, v, bs)" by (metis prod.exhaust)
  from Cons.prems(1) e obtain q where q: "p = a" "eql_node h a = Some (v, bs, q)"
    "chain eql_node h q es" by auto
  then obtain x y where bs: "bs = [x, y]" by (cases v) (auto simp: eql_node_Some)
  let ?h = "without {a, x, y} h"
  have d: "distinct [a, x, y]" "distinct (owned es)" "set (owned es) \<inter> {a, x, y} = {}"
    using Cons.prems(2) e bs by auto
  have c: "chain eql_node ?h q es"
    using d(3) by (intro eql.chain_frame[OF q(3)] same_on_mono[OF same_on_without]) auto
  have wf: "heap_wf ?h" using Cons.prems(3) by blast
  have "equus_local_cache_free p h = equus_local_cache_free q ?h"
    using cache_free_node[OF _ d(1) Cons.prems(3)] q(1,2) bs by simp
  also have "\<dots> = Some (without (set (owned es)) ?h)" by (rule Cons.IH[OF c d(2) wf])
  finally show ?case using e bs by (simp add: without_without)
qed

section \<open>The operations on the map\<close>

lemma cache_wfD:
  assumes "cache_wf s"
  shows "chain eql_node (heap s) (cache_head s) (cached s)" "distinct (owned (cached s))"
    "heap_wf (heap s)" "\<not> cachemtx s" "log_wf s" "g_equus_log_path s \<notin> set (owned (cached s))"
  using assms by (auto simp: cache_wf_def list_wf_def dest: log_wf_heapD)

lemma cache_wfI:
  assumes "log_wf s" and "\<not> cachemtx s" and "chain eql_node (heap s) (cache_head s) es"
    and "distinct (owned es)" and "g_equus_log_path s \<notin> set (owned es)"
  shows "cache_wf s" and "cached s = es" and "cache_map s = map_of (map entry_value es)"
proof -
  from eql.list_wfI[OF assms(3) log_wf_heapD[OF assms(1)] assms(4)]
  have "list_wf eql_node (heap s) (cache_head s)" and e: "cached s = es" by auto
  with assms show "cache_wf s" by (simp add: cache_wf_def)
  from e show "cached s = es" and "cache_map s = map_of (map entry_value es)"
    by (simp_all add: cache_map_def)
qed

lemma cache_find_eq:
  "cache_wf s \<Longrightarrow> equus_local_cache_find name s = Some (find_entry name (cached s), s)"
  using cache_find_from_eq[OF cache_wfD(1)]
  by (simp add: equus_local_cache_find_def equus_local_cache_find_nolock_def mtx_defs cache_wfD(4))

lemma cache_clear_eq:
  assumes wf: "cache_wf s"
  shows "equus_local_cache_clear s =
    Some (s\<lparr>cachemtx := False, heap := without (set (owned (cached s))) (heap s), cache_head := NULL\<rparr>)"
  using cache_free_eq[OF cache_wfD(1-3)[OF wf]] cache_wfD(4)[OF wf]
  by (simp add: equus_local_cache_clear_def mtx_defs)

lemma cache_clear_wf:
  assumes wf: "cache_wf s"
  obtains s' where "equus_local_cache_clear s = Some s'" and "cache_wf s'"
    and "cache_map s' = Map.empty" and "cached s' = []"
    and "heap s' = without (set (owned (cached s))) (heap s)"
proof (rule that)
  let ?s = "s\<lparr>cachemtx := False, heap := without (set (owned (cached s))) (heap s), cache_head := NULL\<rparr>"
  show "equus_local_cache_clear s = Some ?s" by (rule cache_clear_eq[OF wf])
  have "log_wf (s\<lparr>heap := without (set (owned (cached s))) (heap s)\<rparr>)"
    using cache_wfD(3,5,6)[OF wf] by (intro log_wf_heap) auto
  then have l: "log_wf ?s" by (simp add: log_wf_def clock_ok_def current_files_def)
  from cache_wfI[OF l, of "[]"] show "cache_wf ?s" "cached ?s = []" "cache_map ?s = Map.empty" by simp_all
qed simp

text \<open>The memory when the new entry is complete, and after it was linked.\<close>

definition entry_heap :: "string \<Rightarrow> string \<Rightarrow> addr \<Rightarrow> heap \<Rightarrow> heap" where
  "entry_heap name d q h =
     h\<lparr>brk := Suc (Suc (Suc (brk h))),
       cells := (cells h)(brk h \<mapsto> Eql_cell \<lparr>eql_len = int (length d), eql_name = Suc (brk h),
                                             eql_data = Suc (Suc (brk h)), eql_next = q\<rparr>,
                          Suc (brk h) \<mapsto> Chars (cstr name @ [NUL]),
                          Suc (Suc (brk h)) \<mapsto> Chars d)\<rparr>"

lemma entry_heap_wf: "heap_wf h \<Longrightarrow> heap_wf (entry_heap name d q h)"
  by (erule heap_wf_change) (auto simp: entry_heap_def split: if_splits)

lemma entry_heap_same: "heap_wf h \<Longrightarrow> same_on (dom (cells h)) h (entry_heap name d q h)"
  by (auto simp: entry_heap_def same_on_def dest: heap_wf_less)

lemma eql_node_entry:
  "eql_node (entry_heap name d q h) (brk h) = Some ((cstr name, d), [Suc (brk h), Suc (Suc (brk h))], q)"
  by (simp add: eql_node_Some entry_heap_def get_eql_def get_chars_def)

lemma cache_store_push:
  "cache_store name d s =
   equus_local_cache_push (brk (heap s)) (s\<lparr>heap := entry_heap name d NULL (heap s)\<rparr>)"
  by (simp add: cache_store_def malloc_def strdup_def new_eq store_def entry_heap_def fun_upd_twist)

lemma entry_chain:
  assumes "heap_wf h" and "chain eql_node h p es"
  shows "chain eql_node (entry_heap name d q h) p es"
  using entry_heap_same[OF assms(1)] eql.chain_live[OF assms(2)]
  by (intro eql.chain_frame[OF assms(2)]) (rule same_on_mono)

lemma entry_push_new:
  assumes wf: "cache_wf s" and n: "cache_map s (cstr name) = None"
  shows "cache_store name d s = Some (brk (heap s), s\<lparr>cachemtx := False,
    heap := entry_heap name d (cache_head s) (heap s), cache_head := brk (heap s)\<rparr>)"
proof -
  let ?h = "entry_heap name d NULL (heap s)"
  have "cache_find_from (cstr name) ?h (cache_head s) = Some NULL"
    using cache_find_from_eq[OF entry_chain[OF cache_wfD(3,1)[OF wf]]]
      find_entry_NULL[OF cache_wfD(1)[OF wf]] n by (simp add: cache_map_def)
  moreover have "get_eql ?h (brk (heap s)) = Some \<lparr>eql_len = int (length d), eql_name = Suc (brk (heap s)),
      eql_data = Suc (Suc (brk (heap s))), eql_next = NULL\<rparr>"
    and "load_str ?h (Suc (brk (heap s))) = Some (cstr name)"
    and "store (brk (heap s)) (Eql_cell \<lparr>eql_len = int (length d), eql_name = Suc (brk (heap s)),
      eql_data = Suc (Suc (brk (heap s))), eql_next = cache_head s\<rparr>) ?h
      = Some (entry_heap name d (cache_head s) (heap s))"
    by (simp_all add: entry_heap_def get_eql_def get_chars_def load_str_def store_def fun_upd_twist)
  ultimately show ?thesis
    using cache_wfD(4)[OF wf]
    by (simp add: cache_store_push equus_local_cache_push_def mtx_defs equus_local_cache_find_nolock_def)
qed

lemma entry_push_old:
  assumes wf: "cache_wf s" and n: "cache_map s (cstr name) \<noteq> None"
  shows "cache_store name d s = Some (find_entry name (cached s), s\<lparr>cachemtx := False,
    heap := (heap s)\<lparr>brk := Suc (Suc (Suc (brk (heap s))))\<rparr>\<rparr>)"
proof -
  let ?b = "brk (heap s)" and ?h = "entry_heap name d NULL (heap s)"
  note h = cache_wfD(3)[OF wf]
  have f: "cache_find_from (cstr name) ?h (cache_head s) = Some (find_entry name (cached s))"
    using cache_find_from_eq[OF entry_chain[OF cache_wfD(3,1)[OF wf]]] by simp
  have nn: "find_entry name (cached s) \<noteq> NULL"
    using find_entry_NULL[OF cache_wfD(1)[OF wf]] n by (simp add: cache_map_def)
  have "chain eql_node ?h ?b [(?b, (cstr name, d), [Suc ?b, Suc (Suc ?b)])]"
    using heap_wf_brk[OF h] by (simp add: eql_node_entry)
  from cache_free_eq[OF this _ entry_heap_wf[OF h]]
  have "equus_local_cache_free ?b ?h = Some (without {?b, Suc ?b, Suc (Suc ?b)} ?h)" by simp
  moreover have "without {?b, Suc ?b, Suc (Suc ?b)} ?h = (heap s)\<lparr>brk := Suc (Suc (Suc ?b))\<rparr>"
    using heap_wf_ge[OF h] by (auto simp: without_def entry_heap_def restrict_map_def fun_eq_iff)
  moreover have "get_eql ?h ?b = Some \<lparr>eql_len = int (length d), eql_name = Suc ?b,
      eql_data = Suc (Suc ?b), eql_next = NULL\<rparr>" and "load_str ?h (Suc ?b) = Some (cstr name)"
    by (simp_all add: entry_heap_def get_eql_def get_chars_def load_str_def)
  ultimately show ?thesis
    using cache_wfD(4)[OF wf] f nn
    by (simp add: cache_store_push equus_local_cache_push_def mtx_defs equus_local_cache_find_nolock_def)
qed

text \<open>
  Storing an entry: it is added under a new name, and dropped, its memory released, when the
  name is there already.
\<close>

lemma cache_store_wf:
  assumes wf: "cache_wf s"
  obtains a s' where "cache_store name d s = Some (a, s')" and "cache_wf s'"
    and "cache_map s' = (if cache_map s (cstr name) = None then (cache_map s)(cstr name \<mapsto> d) else cache_map s)"
    and "dom (cells (heap s')) = (dom (cells (heap s)) - set (owned (cached s))) \<union> set (owned (cached s'))"
    and "same_on (dom (cells (heap s))) (heap s) (heap s')"
    and "set (owned (cached s')) \<inter> dom (cells (heap s)) \<subseteq> set (owned (cached s))"
    and "global_conf s' = global_conf s"
proof (cases "cache_map s (cstr name)")
  case None
  let ?b = "brk (heap s)" and ?h = "entry_heap name d (cache_head s) (heap s)"
  let ?e = "(?b, (cstr name, d), [Suc ?b, Suc (Suc ?b)])"
  let ?s = "s\<lparr>cachemtx := False, heap := ?h, cache_head := ?b\<rparr>"
  note w = cache_wfD[OF wf] and eq = entry_push_new[OF wf None, of d]
  have fresh: "a \<notin> set (owned (cached s))" if "?b \<le> a" for a
    using eql.chain_live[OF w(1)] heap_wf_ge[OF w(3) that] by blast
  have live: "g_equus_log_path s \<noteq> NULL \<Longrightarrow> g_equus_log_path s \<in> dom (cells (heap s))"
    using log_wf_path_live[OF w(5)] .
  have path: "g_equus_log_path s < ?b"
    using live heap_wf_less[OF w(3)] heap_wf_brk[OF w(3)] by (cases "g_equus_log_path s = NULL") auto
  have "log_wf (s\<lparr>heap := ?h\<rparr>)"
    using same_onD[OF entry_heap_same[OF w(3)]] live
    by (intro log_wf_heap w(5) entry_heap_wf[OF w(3)]) auto
  then have l: "log_wf ?s" by (simp add: log_wf_def clock_ok_def current_files_def)
  have c: "chain eql_node (heap ?s) (cache_head ?s) (?e # cached s)"
    using entry_chain[OF w(3,1)] heap_wf_brk[OF w(3)] by (simp add: eql_node_entry)
  have d: "distinct (owned (?e # cached s))" using w(2) fresh by simp
  have p: "g_equus_log_path ?s \<notin> set (owned (?e # cached s))" using w(6) path by simp
  note i = cache_wfI[OF l _ c d p, simplified]
  show thesis
  proof (rule that[OF eq])
    show "cache_wf ?s" using i by simp
    show "cache_map ?s = (if cache_map s (cstr name) = None then (cache_map s)(cstr name \<mapsto> d) else cache_map s)"
      using i None by (simp add: cache_map_def)
    show "dom (cells (heap ?s)) = (dom (cells (heap s)) - set (owned (cached s))) \<union> set (owned (cached ?s))"
      using i eql.chain_live[OF w(1)] by (auto simp: entry_heap_def)
    show "set (owned (cached ?s)) \<inter> dom (cells (heap s)) \<subseteq> set (owned (cached s))"
      using i heap_wf_ge[OF w(3)] by auto
  qed (use entry_heap_same[OF w(3)] in simp_all)
next
  case (Some d')
  let ?s = "s\<lparr>cachemtx := False, heap := (heap s)\<lparr>brk := Suc (Suc (Suc (brk (heap s))))\<rparr>\<rparr>"
  note w = cache_wfD[OF wf]
  have same: "same_on A (heap s) (heap ?s)" for A by (simp add: same_on_def)
  have "heap_wf (heap ?s)" using w(3) by (rule heap_wf_change) auto
  then have "log_wf (s\<lparr>heap := heap ?s\<rparr>)" using w(5) by (intro log_wf_heap) auto
  then have l: "log_wf ?s" by (simp add: log_wf_def clock_ok_def current_files_def)
  have "chain eql_node (heap ?s) (cache_head ?s) (cached s)" using eql.chain_frame[OF w(1) same] by simp
  note i = cache_wfI[OF l _ this w(2), simplified, OF w(6)]
  show thesis
  proof (rule that[OF entry_push_old[OF wf]])
    show "cache_map ?s = (if cache_map s (cstr name) = None then (cache_map s)(cstr name \<mapsto> d) else cache_map s)"
      using i Some by (simp add: cache_map_def)
    show "dom (cells (heap ?s)) = (dom (cells (heap s)) - set (owned (cached s))) \<union> set (owned (cached ?s))"
      using i eql.chain_live[OF w(1)] by auto
  qed (use i Some same in auto)
qed

section \<open>The contract\<close>

text \<open>
  What a loader may rely on: the cache is a map from keys to values, the first value stored under
  a key stays, clearing empties it, and neither touches the memory of anyone else.
\<close>

primrec put_all :: "('n \<Rightarrow> 'v \<Rightarrow> 's \<Rightarrow> 's option) \<Rightarrow> ('n \<times> 'v) list \<Rightarrow> 's \<Rightarrow> 's option" where
  "put_all put [] s = Some s"
| "put_all put (x # xs) s = do { s \<leftarrow> put (fst x) (snd x) s; put_all put xs s }"

locale module_cache =
  fixes inv :: "'s \<Rightarrow> bool" and contents :: "'s \<Rightarrow> 'k \<rightharpoonup> 'v" and others :: "'s \<Rightarrow> 'm set"
    and key :: "'n \<Rightarrow> 'k" and put :: "'n \<Rightarrow> 'v \<Rightarrow> 's \<Rightarrow> 's option" and clear :: "'s \<Rightarrow> 's option"
  assumes put_law: "inv s \<Longrightarrow> \<exists>s'. put n v s = Some s' \<and> inv s' \<and> others s' = others s \<and>
      contents s' = (if contents s (key n) = None then (contents s)(key n \<mapsto> v) else contents s)"
    and clear_law: "inv s \<Longrightarrow> \<exists>s'. clear s = Some s' \<and> inv s' \<and> others s' = others s \<and>
      contents s' = Map.empty"
begin

text \<open>Any number of stores: the first value of each new key is kept.\<close>

lemma put_all_first:
  "inv s \<Longrightarrow> \<exists>s'. put_all put xs s = Some s' \<and> inv s' \<and> others s' = others s \<and>
     contents s' = map_of (map (\<lambda>x. (key (fst x), snd x)) xs) ++ contents s"
proof (induction xs arbitrary: s)
  case (Cons x xs)
  from put_law[OF Cons.prems] obtain s1 where s1: "put (fst x) (snd x) s = Some s1" "inv s1"
    "others s1 = others s" "contents s1 = (if contents s (key (fst x)) = None
      then (contents s)(key (fst x) \<mapsto> snd x) else contents s)" by blast
  from Cons.IH[OF s1(2)] obtain s' where s': "put_all put xs s1 = Some s'" "inv s'" "others s' = others s1"
    "contents s' = map_of (map (\<lambda>x. (key (fst x), snd x)) xs) ++ contents s1" by blast
  have "contents s' = map_of (map (\<lambda>x. (key (fst x), snd x)) (x # xs)) ++ contents s"
    using s1(4) s'(4) by (auto simp: fun_eq_iff map_add_def split: option.splits)
  with s1(1,3) s'(1-3) show ?case by (intro exI[of _ s']) (simp only: put_all.simps bind.simps)
qed simp

text \<open>A property of every stored value holds of every value found.\<close>

lemma put_all_values:
  assumes "inv s" and "\<forall>k v. contents s k = Some v \<longrightarrow> P v" and "\<forall>x \<in> set xs. P (snd x)"
    and "put_all put xs s = Some s'" and "contents s' k = Some v"
  shows "P v"
proof -
  from put_all_first[OF assms(1), of xs] assms(4,5)
  have "map_of (map (\<lambda>x. (key (fst x), snd x)) xs) k = Some v \<or> contents s k = Some v" by auto
  then show ?thesis using assms(2,3) by (auto dest!: map_of_SomeD)
qed

lemma put_all_clear:
  assumes "inv s"
  shows "\<exists>s1 s2. put_all put xs s = Some s1 \<and>
    contents s1 = map_of (map (\<lambda>x. (key (fst x), snd x)) xs) ++ contents s \<and>
    clear s1 = Some s2 \<and> inv s2 \<and> contents s2 = Map.empty \<and> others s2 = others s"
  using put_all_first[OF assms, of xs] clear_law by metis

end

definition cache_put :: "string \<Rightarrow> string \<Rightarrow> equus \<Rightarrow> equus option" where
  "cache_put name d s = map_option snd (cache_store name d s)"

definition cache_others :: "equus \<Rightarrow> addr set" where
  "cache_others s = dom (cells (heap s)) - set (owned (cached s))"

interpretation agent_cache:
  module_cache cache_wf cache_map cache_others cstr cache_put equus_local_cache_clear
proof
  fix s n v
  assume "cache_wf s"
  from cache_store_wf[OF this, of n v] obtain a s' where "cache_store n v s = Some (a, s')" "cache_wf s'"
    "cache_map s' = (if cache_map s (cstr n) = None then (cache_map s)(cstr n \<mapsto> v) else cache_map s)"
    "dom (cells (heap s')) = (dom (cells (heap s)) - set (owned (cached s))) \<union> set (owned (cached s'))"
    "set (owned (cached s')) \<inter> dom (cells (heap s)) \<subseteq> set (owned (cached s))" by metis
  then show "\<exists>s'. cache_put n v s = Some s' \<and> cache_wf s' \<and>
      cache_others s' = cache_others s \<and> cache_map s' =
        (if cache_map s (cstr n) = None then (cache_map s)(cstr n \<mapsto> v) else cache_map s)"
    by (intro exI[of _ s']) (auto simp: cache_put_def cache_others_def)
next
  fix s
  assume wf: "cache_wf s"
  from cache_clear_wf[OF this] obtain s' where "equus_local_cache_clear s = Some s'" "cache_wf s'"
    "cache_map s' = Map.empty" "cached s' = []" "heap s' = without (set (owned (cached s))) (heap s)" by metis
  moreover have "dom (cells (without A h)) = dom (cells h) - A" for A h
    by (auto split: if_splits)
  ultimately show "\<exists>s'. equus_local_cache_clear s = Some s' \<and> cache_wf s' \<and>
      cache_others s' = cache_others s \<and> cache_map s' = Map.empty" by (simp add: cache_others_def)
qed

lemma cache_wf_start [simp]: "cache_wf start" and cache_map_start [simp]: "cache_map start = Map.empty"
  and cache_others_start [simp]: "cache_others start = {}"
proof -
  have "cached start = []" by (simp add: start_def equus_init_def entries_def)
  then show "cache_wf start" "cache_map start = Map.empty" "cache_others start = {}"
    using log_wf_start cache_wfI[of start "[]"]
    by (simp_all add: cache_map_def cache_others_def start_def equus_init_def)
qed

section \<open>Properties\<close>

text \<open>
  (C36) The cache is a map in which the first code stored under a name stays: any sequence of
  stores returns, afterwards the cache holds for each name the code stored first, and clearing
  it then releases every block of the cache and no other.
\<close>

theorem cache_keeps_first:
  assumes "cache_wf s"
  shows "\<exists>s1 s2. put_all cache_put xs s = Some s1 \<and>
    cache_map s1 = map_of (map (\<lambda>x. (cstr (fst x), snd x)) xs) ++ cache_map s \<and>
    equus_local_cache_clear s1 = Some s2 \<and> cache_wf s2 \<and> cache_map s2 = Map.empty \<and>
    cache_others s2 = cache_others s"
  by (rule agent_cache.put_all_clear[OF assms])

theorem cache_keeps_first_witness:
  "\<exists>s1. put_all cache_put [(''m.lua'', ''a''), (''n.lua'', ''b''), (''m.lua'', ''c'')] start = Some s1 \<and>
     cache_map s1 ''m.lua'' = Some ''a'' \<and> cache_map s1 ''n.lua'' = Some ''b''"
  using cache_keeps_first[OF cache_wf_start, of "[(''m.lua'', ''a''), (''n.lua'', ''b''), (''m.lua'', ''c'')]"]
  by auto

text \<open>
  The pointer that a look-up returns is valid only until the cache is cleared: the mutex is
  released before the entry is used, and when another thread clears the cache in between, the
  entry, its name and its code are freed memory.
\<close>

theorem cache_clear_frees_found_entry:
  assumes "cache_wf s" and "cache_map s (cstr name) \<noteq> None"
  shows "\<exists>e s1 s2. equus_local_cache_find name s = Some (e, s1) \<and> e \<noteq> NULL \<and>
    get_eql (heap s1) e \<noteq> None \<and> equus_local_cache_clear s1 = Some s2 \<and> get_eql (heap s2) e = None"
proof -
  let ?e = "find_entry name (cached s)"
  note w = cache_wfD[OF assms(1)]
  from assms(2) obtain d where m: "map_of (map entry_value (cached s)) (cstr name) = Some d"
    by (auto simp: cache_map_def)
  from find_entry_Some[OF m] obtain bs where e: "(?e, (cstr name, d), bs) \<in> set (cached s)"
    by (metis in_set_conv_decomp)
  have own: "?e \<in> set (owned (cached s))" using entry_in_owned[OF e] by auto
  have nn: "?e \<noteq> NULL" using find_entry_NULL[OF w(1)] m by simp
  have "get_eql (heap s) ?e \<noteq> None"
    using chain_entry[OF w(1) e] by (auto simp: eql_node_Some)
  moreover from cache_clear_wf[OF assms(1)] obtain s2 where "equus_local_cache_clear s = Some s2"
    "heap s2 = without (set (owned (cached s))) (heap s)" by metis
  ultimately show ?thesis using own nn cache_find_eq[OF assms(1), of name] by (auto simp: get_eql_def)
qed

theorem cache_clear_frees_found_entry_witness:
  "\<exists>s e s1 s2. cache_put ''m'' ''code'' start = Some s \<and> equus_local_cache_find ''m'' s = Some (e, s1) \<and>
     equus_local_cache_clear s1 = Some s2 \<and> get_eql (heap s1) e \<noteq> None \<and> get_eql (heap s2) e = None"
proof -
  from agent_cache.put_law[OF cache_wf_start, of "''m''" "''code''"] obtain s where
    "cache_put ''m'' ''code'' start = Some s" "cache_wf s" "cache_map s (cstr ''m'') \<noteq> None" by auto
  with cache_clear_frees_found_entry[of s "''m''"] show ?thesis by blast
qed

end
