(* ===== verification/Lua_Stack.thy ===== *)
theory Lua_Stack
  imports Complex_Main "HOL-Library.AList" Equus_Prelude
begin

text \<open>
  The Lua stack as the C code of the agent uses it: the functions of \<open>lapi.c\<close> and \<open>lauxlib.c\<close>
  that read, push, move and remove values, and that read and set fields of tables. A stack is
  the list of the values between \<open>L->base\<close> and \<open>L->top\<close>; a table is a list of fields without
  metatable. The compiler and the interpreter of Lua are not modelled: a chunk that was loaded is
  the function value of its name and its text.
\<close>

section \<open>Values and states\<close>

datatype lua_function = C_function string | Chunk string string

datatype lua_value =
    LNil
  | LBoolean bool
  | LLightUserdata nat
  | LNumber real
  | LString string
  | LTable nat
  | LFunction lua_function
  | LUserdata nat
  | LThread nat

type_synonym lua_table = "(lua_value \<times> lua_value) list"

record lua_State =
  stk :: "lua_value list"
  l_gt :: nat
  l_registry :: nat
  tables :: "nat \<Rightarrow> lua_table"
  l_hook :: "string option"

datatype lua_type_e =
    LUA_TNONE | LUA_TNIL | LUA_TBOOLEAN | LUA_TLIGHTUSERDATA | LUA_TNUMBER | LUA_TSTRING
  | LUA_TTABLE | LUA_TFUNCTION | LUA_TUSERDATA | LUA_TTHREAD

primrec ttype :: "lua_value \<Rightarrow> lua_type_e" where
  "ttype LNil = LUA_TNIL"
| "ttype (LBoolean b) = LUA_TBOOLEAN"
| "ttype (LLightUserdata p) = LUA_TLIGHTUSERDATA"
| "ttype (LNumber n) = LUA_TNUMBER"
| "ttype (LString s) = LUA_TSTRING"
| "ttype (LTable t) = LUA_TTABLE"
| "ttype (LFunction f) = LUA_TFUNCTION"
| "ttype (LUserdata p) = LUA_TUSERDATA"
| "ttype (LThread p) = LUA_TTHREAD"

text \<open>What a C function called from Lua does: it returns a number of values or raises an error.\<close>

datatype lua_result = Results int | Error string

section \<open>Indices\<close>

abbreviation LUA_REGISTRYINDEX :: int where
  "LUA_REGISTRYINDEX \<equiv> -10000"

abbreviation LUA_GLOBALSINDEX :: int where
  "LUA_GLOBALSINDEX \<equiv> -10002"

datatype place = Slot nat | Nilobject | Registry | Globals

text \<open>
  The place an index names. An index outside the stack that \<open>api_check\<close> would refuse, and the
  upvalue indices, which the agent does not use, have no defined place.
\<close>

definition index2adr :: "lua_State \<Rightarrow> int \<Rightarrow> place option" where
  "index2adr L idx =
     (if idx > 0 then
        (if nat (idx - 1) < length (stk L) then Some (Slot (nat (idx - 1))) else Some Nilobject)
      else if idx > LUA_REGISTRYINDEX then
        (if idx \<noteq> 0 \<and> nat (- idx) \<le> length (stk L) then Some (Slot (length (stk L) - nat (- idx)))
         else None)
      else if idx = LUA_REGISTRYINDEX then Some Registry
      else if idx = LUA_GLOBALSINDEX then Some Globals
      else None)"

definition place_value :: "lua_State \<Rightarrow> place \<Rightarrow> lua_value" where
  "place_value L p =
     (case p of Slot i \<Rightarrow> stk L ! i | Nilobject \<Rightarrow> LNil
      | Registry \<Rightarrow> LTable (l_registry L) | Globals \<Rightarrow> LTable (l_gt L))"

definition lua_value_at :: "lua_State \<Rightarrow> int \<Rightarrow> lua_value option" where
  "lua_value_at L idx = map_option (place_value L) (index2adr L idx)"

section \<open>Moving values\<close>

definition lua_gettop :: "lua_State \<Rightarrow> int" where
  "lua_gettop L = int (length (stk L))"

definition lua_settop :: "int \<Rightarrow> lua_State \<Rightarrow> lua_State option" where
  "lua_settop idx L =
     (if idx \<ge> 0
      then Some (L\<lparr>stk := take (nat idx) (stk L @ replicate (nat idx - length (stk L)) LNil)\<rparr>)
      else if nat (- (idx + 1)) \<le> length (stk L)
           then Some (L\<lparr>stk := take (length (stk L) - nat (- (idx + 1))) (stk L)\<rparr>)
           else None)"

definition lua_remove :: "int \<Rightarrow> lua_State \<Rightarrow> lua_State option" where
  "lua_remove idx L =
     (case index2adr L idx of
        Some (Slot i) \<Rightarrow> Some (L\<lparr>stk := take i (stk L) @ drop (Suc i) (stk L)\<rparr>)
      | _ \<Rightarrow> None)"

definition lua_insert :: "int \<Rightarrow> lua_State \<Rightarrow> lua_State option" where
  "lua_insert idx L =
     (case index2adr L idx of
        Some (Slot i) \<Rightarrow> Some (L\<lparr>stk := take i (stk L) @ [last (stk L)] @ drop i (butlast (stk L))\<rparr>)
      | _ \<Rightarrow> None)"

definition lua_push :: "lua_value \<Rightarrow> lua_State \<Rightarrow> lua_State" where
  "lua_push v L = L\<lparr>stk := stk L @ [v]\<rparr>"

definition lua_pushvalue :: "int \<Rightarrow> lua_State \<Rightarrow> lua_State option" where
  "lua_pushvalue idx L = map_option (\<lambda>v. lua_push v L) (lua_value_at L idx)"

definition lua_pushnil :: "lua_State \<Rightarrow> lua_State" where
  "lua_pushnil L = lua_push LNil L"

definition lua_pushnumber :: "real \<Rightarrow> lua_State \<Rightarrow> lua_State" where
  "lua_pushnumber n L = lua_push (LNumber n) L"

definition lua_pushinteger :: "int \<Rightarrow> lua_State \<Rightarrow> lua_State" where
  "lua_pushinteger n L = lua_push (LNumber (of_int n)) L"

definition lua_pushboolean :: "int \<Rightarrow> lua_State \<Rightarrow> lua_State" where
  "lua_pushboolean b L = lua_push (LBoolean (b \<noteq> 0)) L"

definition lua_pushlstring :: "string \<Rightarrow> lua_State \<Rightarrow> lua_State" where
  "lua_pushlstring bs L = lua_push (LString bs) L"

definition lua_pushstring :: "string option \<Rightarrow> lua_State \<Rightarrow> lua_State" where
  "lua_pushstring p L =
     (case p of None \<Rightarrow> lua_pushnil L | Some bs \<Rightarrow> lua_pushlstring (take (strlen bs) bs) L)"

text \<open>\<open>lua_pushcclosure\<close> with no upvalues, which is \<open>lua_pushcfunction\<close>.\<close>

definition lua_pushcfunction :: "string \<Rightarrow> lua_State \<Rightarrow> lua_State" where
  "lua_pushcfunction f L = lua_push (LFunction (C_function f)) L"

section \<open>Reading values\<close>

definition lua_type :: "lua_State \<Rightarrow> int \<Rightarrow> lua_type_e option" where
  "lua_type L idx =
     (case index2adr L idx of
        None \<Rightarrow> None
      | Some Nilobject \<Rightarrow> Some LUA_TNONE
      | Some p \<Rightarrow> Some (ttype (place_value L p)))"

definition lua_toboolean :: "lua_State \<Rightarrow> int \<Rightarrow> bool option" where
  "lua_toboolean L idx =
     map_option (\<lambda>v. v \<noteq> LNil \<and> v \<noteq> LBoolean False) (lua_value_at L idx)"

text \<open>
  \<open>lua_tolstring\<close> changes a number on the stack into the string it returns; \<open>num_text\<close> is the
  text of a number. The inner \<^term>\<open>None\<close> is the null pointer.
\<close>

definition lua_tolstring ::
  "(real \<Rightarrow> string) \<Rightarrow> int \<Rightarrow> lua_State \<Rightarrow> (string option \<times> lua_State) option" where
  "lua_tolstring num_text idx L =
     (case index2adr L idx of
        None \<Rightarrow> None
      | Some p \<Rightarrow>
          (case place_value L p of
             LString bs \<Rightarrow> Some (Some bs, L)
           | LNumber n \<Rightarrow>
               (case p of
                  Slot i \<Rightarrow> Some (Some (num_text n), L\<lparr>stk := (stk L)[i := LString (num_text n)]\<rparr>)
                | _ \<Rightarrow> None)
           | _ \<Rightarrow> Some (None, L)))"

text \<open>
  \<open>luaL_checklstring\<close>: the string, or an error that names the argument and the two types, of
  which only the position is kept here.
\<close>

definition luaL_checklstring ::
  "(real \<Rightarrow> string) \<Rightarrow> int \<Rightarrow> lua_State \<Rightarrow> ((string + string) \<times> lua_State) option" where
  "luaL_checklstring num_text narg L = do {
     (s, L) \<leftarrow> lua_tolstring num_text narg L;
     Some (case s of None \<Rightarrow> (Inl (''bad argument #'' @ show_int narg), L) | Some bs \<Rightarrow> (Inr bs, L))
   }"

text \<open>\<open>luaH_getn\<close> on the tables the agent asks: the number of fields 1, 2, 3 without a gap.\<close>

definition table_get :: "lua_table \<Rightarrow> lua_value \<Rightarrow> lua_value" where
  "table_get t k = (case map_of t k of None \<Rightarrow> LNil | Some v \<Rightarrow> v)"

definition table_set :: "lua_table \<Rightarrow> lua_value \<Rightarrow> lua_value \<Rightarrow> lua_table" where
  "table_set t k v = (if v = LNil then AList.delete k t else AList.update k v t)"

definition luaH_getn :: "lua_table \<Rightarrow> nat" where
  "luaH_getn t =
     length (takeWhile (\<lambda>n. table_get t (LNumber (real (Suc n))) \<noteq> LNil) [0..<length t])"

definition lua_objlen :: "lua_State \<Rightarrow> int \<Rightarrow> nat option" where
  "lua_objlen L idx = do {
     v \<leftarrow> lua_value_at L idx;
     (case v of
        LString bs \<Rightarrow> Some (length bs)
      | LTable t \<Rightarrow> Some (luaH_getn (tables L t))
      | LNumber n \<Rightarrow> None
      | LUserdata p \<Rightarrow> None
      | _ \<Rightarrow> Some 0)
   }"

section \<open>Tables\<close>

text \<open>
  \<open>luaV_gettable\<close> and \<open>luaV_settable\<close> on a table; the error they raise for another value is not
  reached from the agent and has no defined result here.
\<close>

definition lua_gettable :: "int \<Rightarrow> lua_State \<Rightarrow> lua_State option" where
  "lua_gettable idx L = do {
     t \<leftarrow> lua_value_at L idx;
     k \<leftarrow> lua_value_at L (-1);
     (case t of
        LTable i \<Rightarrow> Some (L\<lparr>stk := butlast (stk L) @ [table_get (tables L i) k]\<rparr>)
      | _ \<Rightarrow> None)
   }"

definition lua_getfield :: "int \<Rightarrow> string \<Rightarrow> lua_State \<Rightarrow> lua_State option" where
  "lua_getfield idx k L = do {
     t \<leftarrow> lua_value_at L idx;
     (case t of
        LTable i \<Rightarrow> Some (lua_push (table_get (tables L i) (LString k)) L)
      | _ \<Rightarrow> None)
   }"

definition lua_settable :: "int \<Rightarrow> lua_State \<Rightarrow> lua_State option" where
  "lua_settable idx L = do {
     t \<leftarrow> lua_value_at L idx;
     k \<leftarrow> lua_value_at L (-2);
     v \<leftarrow> lua_value_at L (-1);
     (case t of
        LTable i \<Rightarrow>
          if k = LNil then None
          else Some (L\<lparr>tables := (tables L)(i := table_set (tables L i) k v),
                       stk := butlast (butlast (stk L))\<rparr>)
      | _ \<Rightarrow> None)
   }"

definition lua_setfield :: "int \<Rightarrow> string \<Rightarrow> lua_State \<Rightarrow> lua_State option" where
  "lua_setfield idx k L = do {
     t \<leftarrow> lua_value_at L idx;
     v \<leftarrow> lua_value_at L (-1);
     (case t of
        LTable i \<Rightarrow>
          Some (L\<lparr>tables := (tables L)(i := table_set (tables L i) (LString k) v),
                  stk := butlast (stk L)\<rparr>)
      | _ \<Rightarrow> None)
   }"

abbreviation lua_getglobal :: "string \<Rightarrow> lua_State \<Rightarrow> lua_State option" where
  "lua_getglobal \<equiv> lua_getfield LUA_GLOBALSINDEX"

abbreviation lua_setglobal :: "string \<Rightarrow> lua_State \<Rightarrow> lua_State option" where
  "lua_setglobal \<equiv> lua_setfield LUA_GLOBALSINDEX"

definition lua_register :: "string \<Rightarrow> string \<Rightarrow> lua_State \<Rightarrow> lua_State option" where
  "lua_register n f L = lua_setglobal n (lua_pushcfunction f L)"

text \<open>\<open>lua_sethook\<close>: a mask of 0 removes the hook, whatever the function.\<close>

definition lua_sethook :: "string \<Rightarrow> int \<Rightarrow> lua_State \<Rightarrow> lua_State" where
  "lua_sethook func msk L = L\<lparr>l_hook := (if msk = 0 then None else Some func)\<rparr>"

abbreviation lua_pop :: "int \<Rightarrow> lua_State \<Rightarrow> lua_State option" where
  "lua_pop n \<equiv> lua_settop (- n - 1)"

lemmas push_defs = lua_push_def lua_pushnil_def lua_pushnumber_def lua_pushinteger_def
  lua_pushboolean_def lua_pushlstring_def lua_pushcfunction_def

section \<open>Laws of the stack\<close>

lemma value_at_neg:
  assumes "stk L = xs @ ys" and "0 < k" and "k \<le> length ys" and "k < 10000"
  shows "lua_value_at L (- int k) = Some (ys ! (length ys - k))"
  using assms by (auto simp: lua_value_at_def index2adr_def place_value_def nth_append)

lemma value_at_top [simp]:
  "lua_value_at (L\<lparr>stk := xs @ [a]\<rparr>) (-1) = Some a"
  "lua_value_at (L\<lparr>stk := xs @ [b, a]\<rparr>) (-1) = Some a"
  "lua_value_at (L\<lparr>stk := xs @ [c, b, a]\<rparr>) (-1) = Some a"
  "lua_value_at (L\<lparr>stk := xs @ [d, c, b, a]\<rparr>) (-1) = Some a"
  "lua_value_at (L\<lparr>stk := xs @ [e, d, c, b, a]\<rparr>) (-1) = Some a"
  "lua_value_at (L\<lparr>stk := xs @ [b, a]\<rparr>) (-2) = Some b"
  "lua_value_at (L\<lparr>stk := xs @ [c, b, a]\<rparr>) (-2) = Some b"
  "lua_value_at (L\<lparr>stk := xs @ [d, c, b, a]\<rparr>) (-2) = Some b"
  "lua_value_at (L\<lparr>stk := xs @ [e, d, c, b, a]\<rparr>) (-2) = Some b"
  "lua_value_at (L\<lparr>stk := xs @ [c, b, a]\<rparr>) (-3) = Some c"
  "lua_value_at (L\<lparr>stk := xs @ [d, c, b, a]\<rparr>) (-3) = Some c"
  "lua_value_at (L\<lparr>stk := xs @ [e, d, c, b, a]\<rparr>) (-3) = Some c"
  "lua_value_at (L\<lparr>stk := xs @ [d, c, b, a]\<rparr>) (-4) = Some d"
  "lua_value_at (L\<lparr>stk := xs @ [e, d, c, b, a]\<rparr>) (-4) = Some d"
  by (simp_all add: lua_value_at_def index2adr_def place_value_def nth_append numeral_eq_Suc)

lemma value_at_lit:
  "stk L \<noteq> [] \<Longrightarrow> lua_value_at L (-1) = Some (stk L ! (length (stk L) - 1))"
  "2 \<le> length (stk L) \<Longrightarrow> lua_value_at L (-2) = Some (stk L ! (length (stk L) - 2))"
  "3 \<le> length (stk L) \<Longrightarrow> lua_value_at L (-3) = Some (stk L ! (length (stk L) - 3))"
  "4 \<le> length (stk L) \<Longrightarrow> lua_value_at L (-4) = Some (stk L ! (length (stk L) - 4))"
  by (auto simp: lua_value_at_def index2adr_def place_value_def Suc_le_eq)

lemma value_at_globals [simp]: "lua_value_at L LUA_GLOBALSINDEX = Some (LTable (l_gt L))"
  by (simp add: lua_value_at_def index2adr_def place_value_def)

lemma lua_type_value:
  "lua_value_at L idx = Some v \<Longrightarrow> idx < 0 \<Longrightarrow> lua_type L idx = Some (ttype v)"
  by (auto simp: lua_type_def lua_value_at_def index2adr_def split: if_splits)

lemma lua_settop_restore:
  "n = int (length xs) \<Longrightarrow> lua_settop n (L\<lparr>stk := xs @ ys\<rparr>) = Some (L\<lparr>stk := xs\<rparr>)"
  by (simp add: lua_settop_def)

lemma lua_insert_below:
  "lua_insert (-2) (L\<lparr>stk := xs @ [a, b]\<rparr>) = Some (L\<lparr>stk := xs @ [b, a]\<rparr>)"
  by (simp add: lua_insert_def index2adr_def butlast_append)

lemma table_get_set [simp]:
  "table_get (table_set t k v) k' = (if k' = k then v else table_get t k')"
  by (simp add: table_get_def table_set_def update_conv' delete_conv')

text \<open>The length of a table whose fields are an array, and its growth.\<close>

definition is_array :: "lua_table \<Rightarrow> nat \<Rightarrow> bool" where
  "is_array t n \<longleftrightarrow> (\<forall>i. table_get t (LNumber (real (Suc i))) \<noteq> LNil \<longleftrightarrow> i < n)"

lemma array_length_le:
  assumes "is_array t n"
  shows "n \<le> length t"
proof -
  have "(\<lambda>i. LNumber (real (Suc i))) ` {..<n} \<subseteq> fst ` set t"
  proof
    fix k
    assume "k \<in> (\<lambda>i. LNumber (real (Suc i))) ` {..<n}"
    then obtain i where k: "k = LNumber (real (Suc i))" "i < n" by auto
    then have "table_get t k \<noteq> LNil" using assms by (simp add: is_array_def)
    then obtain v where "map_of t k = Some v" by (auto simp: table_get_def split: option.splits)
    then show "k \<in> fst ` set t" by (force dest: map_of_SomeD)
  qed
  then have "card ((\<lambda>i. LNumber (real (Suc i))) ` {..<n}) \<le> card (fst ` set t)"
    by (intro card_mono) auto
  also have "\<dots> \<le> length t" by (metis card_length length_map list.set_map)
  finally show ?thesis by (simp add: card_image inj_on_def)
qed

lemma takeWhile_upt: "n \<le> m \<Longrightarrow> takeWhile (\<lambda>i. i < n) [0..<m] = [0..<n]"
  by (induction m) (auto simp: takeWhile_append le_Suc_eq)

lemma luaH_getn_array:
  assumes "is_array t n"
  shows "luaH_getn t = n"
proof -
  have "takeWhile (\<lambda>i. table_get t (LNumber (real (Suc i))) \<noteq> LNil) [0..<length t]
      = takeWhile (\<lambda>i. i < n) [0..<length t]"
    using assms by (simp only: is_array_def)
  then show ?thesis using takeWhile_upt[OF array_length_le[OF assms]] by (simp add: luaH_getn_def)
qed

lemma is_array_append:
  assumes "is_array t n" and "v \<noteq> LNil"
  shows "is_array (table_set t (LNumber (real n + 1)) v) (Suc n)"
  using assms by (auto simp: is_array_def less_Suc_eq)

end
