(* ===== verification/Equus_Debugger.thy ===== *)
theory Equus_Debugger
  imports Equus_Log Lua_Stack "HOL-Library.Sublist"
begin

text \<open>
  The Lua debugger (\<open>mojosetup_luadebugger.c\<close>): the list of breakpoints, the hooks that watch
  lines, the stack backtrace built in a fixed buffer, and the command loop.
\<close>

section \<open>Breakpoints\<close>

definition breakpoint_add :: "string \<Rightarrow> int \<Rightarrow> equus \<Rightarrow> equus option" where
  "breakpoint_add name line s = do {
     let (n, h) = malloc (heap s);
     (nm, h) \<leftarrow> strdup name h;
     h \<leftarrow> store n (Bp_cell \<lparr>bp_name = nm, bp_line = line, bp_next = breakpoint_head s\<rparr>) h;
     Some (s\<lparr>heap := h, breakpoint_head := n\<rparr>)
   }"

text \<open>The loop of \<open>breakpoint_clear\<close>, with its variables \<open>prev\<close> and \<open>tmp\<close>.\<close>

partial_function (option) breakpoint_clear_from ::
  "string \<Rightarrow> int \<Rightarrow> addr \<Rightarrow> addr \<Rightarrow> equus \<Rightarrow> equus option" where
  "breakpoint_clear_from name line prev tmp s =
     (if tmp = NULL then Some s
      else do {
        t \<leftarrow> get_bp (heap s) tmp;
        hit \<leftarrow> (if bp_line t = line
                then do { n \<leftarrow> load_str (heap s) (bp_name t); Some (streq n name) }
                else Some False);
        (tmp, s) \<leftarrow>
          (if hit then do {
             s \<leftarrow> (if prev \<noteq> NULL then do {
                     p \<leftarrow> get_bp (heap s) prev;
                     h \<leftarrow> store prev (Bp_cell (p\<lparr>bp_next := bp_next t\<rparr>)) (heap s);
                     Some (s\<lparr>heap := h\<rparr>)
                   } else Some (s\<lparr>breakpoint_head := NULL\<rparr>));
             h \<leftarrow> free (bp_name t) (heap s);
             h \<leftarrow> free tmp h;
             Some (prev, s\<lparr>heap := h\<rparr>)
           } else Some (tmp, s));
        t \<leftarrow> get_bp (heap s) tmp;
        breakpoint_clear_from name line tmp (bp_next t) s
      })"

definition breakpoint_clear :: "string \<Rightarrow> int \<Rightarrow> equus \<Rightarrow> equus option" where
  "breakpoint_clear name line s = breakpoint_clear_from name line NULL (breakpoint_head s) s"

partial_function (option) breakpoint_free_from :: "addr \<Rightarrow> heap \<Rightarrow> heap option" where
  "breakpoint_free_from tmp h =
     (if tmp = NULL then Some h
      else do {
        t \<leftarrow> get_bp h tmp;
        h \<leftarrow> free (bp_name t) h;
        h \<leftarrow> free tmp h;
        breakpoint_free_from (bp_next t) h
      })"

definition breakpoint_clearall :: "equus \<Rightarrow> equus option" where
  "breakpoint_clearall s = do {
     h \<leftarrow> breakpoint_free_from (breakpoint_head s) (heap s);
     Some (s\<lparr>heap := h, breakpoint_head := NULL\<rparr>)
   }"

section \<open>Hooks\<close>

text \<open>\<open>lua_Debug\<close> as \<open>lua_getinfo\<close> fills it; the name is a null pointer for a function without one.\<close>

record lua_Debug =
  ar_name :: "string option"
  ar_namewhat :: string
  ar_what :: string
  ar_source :: string
  ar_currentline :: int
  ar_short_src :: string

text \<open>The breakpoint at which a line event stops, if there is one.\<close>

partial_function (option) breakpoint_search :: "lua_Debug \<Rightarrow> addr \<Rightarrow> heap \<Rightarrow> breakpoint_t option option" where
  "breakpoint_search ar tmp h =
     (if tmp = NULL then Some None
      else do {
        t \<leftarrow> get_bp h tmp;
        hit \<leftarrow> (if bp_line t = ar_currentline ar \<or> bp_line t = 0
                then do { n \<leftarrow> load_str h (bp_name t); Some (\<not> streq (ar_source ar) n) }
                else Some False);
        if hit then Some (Some t) else breakpoint_search ar (bp_next t) h
      })"

text \<open>\<open>debugger\<close> is the command loop below; the hook only ever receives line events.\<close>

definition debugger_breakpoint ::
  "(lua_State \<Rightarrow> equus \<Rightarrow> (lua_State \<times> equus) option) \<Rightarrow> lua_Debug \<Rightarrow> lua_State \<Rightarrow> equus \<Rightarrow>
   (lua_State \<times> equus) option" where
  "debugger_breakpoint debugger ar L s =
     (if ar_currentline ar \<noteq> -1 \<and> streq (ar_what ar) ''Lua'' then do {
        hit \<leftarrow> breakpoint_search ar (breakpoint_head s) (heap s);
        (case hit of
           None \<Rightarrow> Some (L, s)
         | Some t \<Rightarrow> do {
             n \<leftarrow> load_str (heap s) (bp_name t);
             s \<leftarrow> fwrite (''Breakpoint hit at '' @ n @ '':'' @ show_int (bp_line t) @ [LF, LF]) Stderr s;
             debugger L s
           })
      } else Some (L, s))"

definition debugger_trace :: "lua_Debug \<Rightarrow> equus \<Rightarrow> equus option" where
  "debugger_trace ar s =
     (if streq (ar_what ar) ''Lua''
      then fwrite (''L['' @ cstr (ar_source ar) @ '':'' @ show_int (ar_currentline ar) @ '']'' @ [LF]) Stderr s
      else Some s)"

section \<open>The command loop\<close>

text \<open>\<open>strrchr(buf, ':')\<close>: the string cut at the last colon.\<close>

definition cut_last_colon :: "string \<Rightarrow> string \<times> string option" where
  "cut_last_colon buf =
     (if CHR '':'' \<in> set buf
      then (take (length buf - Suc (length (takeWhile (\<lambda>c. c \<noteq> CHR '':'') (rev buf)))) buf,
            Some (rev (takeWhile (\<lambda>c. c \<noteq> CHR '':'') (rev buf))))
      else (buf, None))"

text \<open>The file and the line of a command \<^verbatim>\<open>break <file>:<line>\<close> or \<^verbatim>\<open>clear <file>:<line>\<close>.\<close>

definition location :: "string \<Rightarrow> string \<times> int" where
  "location buf =
     (let (b, l) = cut_last_colon buf
      in (drop 6 b, case l of None \<Rightarrow> 0 | Some l \<Rightarrow> atoi l))"

definition chomp :: "string \<Rightarrow> string" where
  "chomp buf = rev (dropWhile (\<lambda>c. c = LF \<or> c = CR) (rev (cstr buf)))"

function pop_until :: "int \<Rightarrow> lua_State \<Rightarrow> lua_State option" where
  "pop_until origtop L =
     (if lua_gettop L = origtop then Some L
      else if stk L = [] then None else pop_until origtop (L\<lparr>stk := butlast (stk L)\<rparr>))"
  by pat_completeness auto
termination
  by (relation "measure (\<lambda>(n, L). length (stk L))") auto

declare pop_until.simps [simp del]

text \<open>
  Loading and calling a chunk typed in: the error value or the results, or \<^term>\<open>None\<close> for a chunk that never
  returns; \<open>text_of\<close> is what \<open>printf\<close> shows of the error value.
\<close>

type_synonym evaluator =
  "string \<Rightarrow> lua_State \<Rightarrow> equus \<Rightarrow> ((lua_value + lua_value list) \<times> lua_State \<times> equus) option"

definition debugger_eval ::
  "evaluator \<Rightarrow> (lua_value \<Rightarrow> string) \<Rightarrow> int \<Rightarrow> string \<Rightarrow> lua_State \<Rightarrow> equus \<Rightarrow> (lua_State \<times> equus) option" where
  "debugger_eval eval text_of origtop buf L s =
     (case eval buf L s of
        None \<Rightarrow> None
      | Some (Inl msg, L, s) \<Rightarrow> do {
          let L = lua_push msg L;
          let s = printf (text_of msg @ [LF]) s;
          L \<leftarrow> lua_pop 1 L;
          Some (L, s)
        }
      | Some (Inr vs, L, s) \<Rightarrow> do {
          let L = L\<lparr>stk := stk L @ vs\<rparr>;
          let s = printf (''Returned '' @ show_int (lua_gettop L - origtop) @ '' values.'' @ [LF]) s;
          L \<leftarrow> pop_until origtop L;
          Some (L, printf [LF] s)
        })"

text \<open>One command; the boolean says whether the loop goes on.\<close>

definition debugger_command ::
  "evaluator \<Rightarrow> (lua_value \<Rightarrow> string) \<Rightarrow> equus_log_level_e \<Rightarrow> int \<Rightarrow> string \<Rightarrow> lua_State \<Rightarrow> equus \<Rightarrow>
   (bool \<times> lua_State \<times> equus) option" where
  "debugger_command eval text_of origloglevel origtop buf L s =
     (if buf = ''q'' \<or> buf = ''quit'' \<or> buf = ''exit'' then Some (False, L, s)
      else if strneq 6 buf ''break '' then do {
        let (file, lineno) = location buf;
        s \<leftarrow> breakpoint_add file lineno s;
        let s = printf (''Adding breakpoing to '' @ file @ '' at line '' @ show_int lineno @ [LF]) s;
        Some (True, lua_sethook ''debugger_breakpoint'' 4 L, s)
      }
      else if strneq 6 buf ''clear '' then do {
        let (file, lineno) = location buf;
        s \<leftarrow> breakpoint_clear file lineno s;
        let s = printf (''Clearing breakpoing to '' @ file @ '' at line '' @ show_int lineno @ [LF]) s;
        Some (True, lua_sethook ''debugger_breakpoint'' 0 L, s)
      }
      else if buf = ''clearall'' then do {
        s \<leftarrow> breakpoint_clearall s;
        Some (True, lua_sethook ''debugger_breakpoint'' 0 L, printf (''All breakpoints cleared'' @ [LF]) s)
      }
      else if buf = ''trace'' then
        (if \<not> debugger_trace_enabled s
         then Some (True, lua_sethook ''debugger_trace'' 4 L,
                printf (''Tracing enabled!'' @ [LF]) (s\<lparr>debugger_trace_enabled := True\<rparr>))
         else Some (True, lua_sethook ''debugger_trace'' 0 L,
                printf (''Tracing disabled!'' @ [LF]) (s\<lparr>debugger_trace_enabled := False\<rparr>)))
      else do {
        let (buf, s) = (if buf = ''bt'' then (''equus_stackwalk()'', equus_log_level_set EQUUS_LOG_EVERYTHING s)
                        else (buf, s));
        (L, s) \<leftarrow> debugger_eval eval text_of origtop buf L s;
        Some (True, L, equus_log_level_set origloglevel s)
      })"

partial_function (option) debugger_loop ::
  "evaluator \<Rightarrow> (lua_value \<Rightarrow> string) \<Rightarrow> equus_log_level_e \<Rightarrow> int \<Rightarrow> lua_State \<Rightarrow> equus \<Rightarrow>
   (lua_State \<times> equus) option" where
  "debugger_loop eval text_of origloglevel origtop L s =
     (let s = printf ''> '' s in
      case fgets 131072 (stdin_data s) of
        None \<Rightarrow> Some (L, printf ([LF, LF] @ ''  fgets() on stdin failed: '') s)
      | Some (l, rest) \<Rightarrow> do {
          (more, L, s) \<leftarrow> debugger_command eval text_of origloglevel origtop (chomp l) L
                          (s\<lparr>stdin_data := rest\<rparr>);
          if more then debugger_loop eval text_of origloglevel origtop L s else Some (L, s)
        })"

definition luahook_debugger ::
  "evaluator \<Rightarrow> (lua_value \<Rightarrow> string) \<Rightarrow> lua_State \<Rightarrow> equus \<Rightarrow> (lua_State \<times> equus) option" where
  "luahook_debugger eval text_of L s = do {
     let origloglevel = equus_log_level_get s;
     let L = lua_pushcfunction ''luahook_stackwalk'' L;
     let origtop = lua_gettop L;
     let s = printf (''Quick and dirty Lua debugger. Type 'exit' to quit.'' @ [LF]) s;
     (L, s) \<leftarrow> debugger_loop eval text_of origloglevel origtop L s;
     L \<leftarrow> lua_pop 1 L;
     Some (L, printf (''exiting debugger...'' @ [LF]) s)
   }"

definition luaopen_equus_debugger :: "lua_State \<Rightarrow> lua_State option" where
  "luaopen_equus_debugger L = do {
     L \<leftarrow> lua_register ''equus_debugger'' ''luahook_debugger'' L;
     lua_register ''equus_stackwalk'' ''luahook_stackwalk'' L
   }"

section \<open>The list in memory\<close>

definition bp_node :: "(string \<times> int) reader" where
  "bp_node h a =
     (case get_bp h a of None \<Rightarrow> None | Some b \<Rightarrow>
      (case get_chars h (bp_name b) of None \<Rightarrow> None | Some n \<Rightarrow>
        if n \<noteq> [] \<and> last n = NUL \<and> is_cstr (butlast n)
        then Some ((butlast n, bp_line b), [bp_name b], bp_next b) else None))"

lemma bp_node_Some:
  "bp_node h a = Some ((n, l), bs, q) \<longleftrightarrow>
     (\<exists>x. bs = [x] \<and> get_bp h a = Some \<lparr>bp_name = x, bp_line = l, bp_next = q\<rparr>
        \<and> is_cstr n \<and> get_chars h x = Some (n @ [NUL]))"
  by (auto simp: bp_node_def split: option.splits if_splits) (metis append_butlast_last_id)

interpretation bp: heap_list bp_node
proof
  fix h a v bs q h'
  assume e: "bp_node h a = Some (v, bs, q)"
  obtain n l where v: "v = (n, l)" by (cases v)
  from e obtain x where bs: "bs = [x]" and g: "get_bp h a = Some \<lparr>bp_name = x, bp_line = l, bp_next = q\<rparr>"
      "is_cstr n" "get_chars h x = Some (n @ [NUL])" by (auto simp: v bp_node_Some)
  show "set (a # bs) \<subseteq> dom (cells h)" using bs g by (auto dest: get_dom)
  assume "same_on (set (a # bs)) h h'"
  then show "bp_node h' a = Some (v, bs, q)"
    using bs g by (auto simp: v bp_node_Some same_on_def get_cong[of h' _ h])
qed

abbreviation bps :: "equus \<Rightarrow> (string \<times> int) entry list" where
  "bps s \<equiv> entries bp_node (heap s) (breakpoint_head s)"

text \<open>The breakpoints as pairs of a file and a line, the newest first.\<close>

definition breakpoints :: "equus \<Rightarrow> (string \<times> int) list" where
  "breakpoints s = map entry_value (bps s)"

definition bp_wf :: "equus \<Rightarrow> bool" where
  "bp_wf s \<longleftrightarrow> log_wf s \<and> list_wf bp_node (heap s) (breakpoint_head s)
     \<and> g_equus_log_path s \<notin> set (owned (bps s))"

lemma bp_wfD:
  assumes "bp_wf s"
  shows "chain bp_node (heap s) (breakpoint_head s) (bps s)" "distinct (owned (bps s))"
    "heap_wf (heap s)" "log_wf s" "g_equus_log_path s \<notin> set (owned (bps s))"
  using assms by (auto simp: bp_wf_def list_wf_def dest: log_wf_heapD)

lemma bp_wfI:
  assumes "log_wf s" and "chain bp_node (heap s) (breakpoint_head s) es"
    and "distinct (owned es)" and "g_equus_log_path s \<notin> set (owned es)"
  shows "bp_wf s" and "bps s = es" and "breakpoints s = map entry_value es"
proof -
  from bp.list_wfI[OF assms(2) log_wf_heapD[OF assms(1)] assms(3)]
  have "list_wf bp_node (heap s) (breakpoint_head s)" and e: "bps s = es" by auto
  with assms show "bp_wf s" by (simp add: bp_wf_def)
  from e show "bps s = es" and "breakpoints s = map entry_value es" by (simp_all add: breakpoints_def)
qed

section \<open>Clearing one breakpoint\<close>

text \<open>One node of the loop: whether it matches, and the memory after it was unlinked from \<open>prev\<close>.\<close>

lemma bp_match:
  assumes "bp_node h a = Some (v, bs, q)"
  shows "\<exists>t. get_bp h a = Some t \<and> bp_next t = q \<and> bs = [bp_name t] \<and>
    (if bp_line t = line then do { n \<leftarrow> load_str h (bp_name t); Some (streq n name) } else Some False)
      = Some (v = (cstr name, line))"
proof -
  obtain n l where v: "v = (n, l)" by (cases v)
  with assms show ?thesis by (auto simp: bp_node_Some load_str_def streq_def)
qed

definition bp_unlinked :: "addr \<Rightarrow> breakpoint_t \<Rightarrow> addr \<Rightarrow> addr \<Rightarrow> heap \<Rightarrow> heap" where
  "bp_unlinked prev p a x h = without {a, x} (h\<lparr>cells := (cells h)(prev \<mapsto> Bp_cell p)\<rparr>)"

lemma bp_unlinked_eq:
  assumes p: "get_bp h prev = Some p" and a: "bp_node h a = Some (v, [x], q)"
    and d: "distinct [prev, a, x]" and wf: "heap_wf h"
  shows "\<exists>h1 h2. store prev (Bp_cell p') h = Some h1 \<and> free x h1 = Some h2 \<and>
    free a h2 = Some (bp_unlinked prev p' a x h)"
proof -
  have live: "cells h prev \<noteq> None" "cells h a \<noteq> None" "cells h x \<noteq> None"
    using get_dom(5)[OF p] bp.rd_live[OF a] by auto
  then have nn: "a \<noteq> NULL" "x \<noteq> NULL" using wf by (metis heap_wf_NULL)+
  let ?c = "(cells h)(prev \<mapsto> Bp_cell p')"
  have "store prev (Bp_cell p') h = Some (h\<lparr>cells := ?c\<rparr>)" using live by (simp add: store_def)
  moreover have "free x (h\<lparr>cells := ?c\<rparr>) = Some (h\<lparr>cells := ?c(x := None)\<rparr>)"
    using live nn d by (auto simp: free_def)
  moreover have "free a (h\<lparr>cells := ?c(x := None)\<rparr>) = Some (bp_unlinked prev p' a x h)"
    using live nn d by (auto simp: free_def bp_unlinked_def without_def restrict_map_def fun_eq_iff)
  ultimately show ?thesis by blast
qed

lemma bp_unlinked_wf: "heap_wf h \<Longrightarrow> cells h prev \<noteq> None \<Longrightarrow> heap_wf (bp_unlinked prev p a x h)"
  unfolding bp_unlinked_def
  by (intro heap_wf_without, erule heap_wf_change) (auto split: if_splits)

lemma clear_tail:
  "bp_node (heap s) prev = Some (vp, bsp, tmp) \<Longrightarrow> chain bp_node (heap s) tmp rest \<Longrightarrow>
   distinct (prev # bsp @ owned rest) \<Longrightarrow> heap_wf (heap s) \<Longrightarrow>
   \<exists>h. breakpoint_clear_from name line prev tmp s = Some (s\<lparr>heap := h\<rparr>) \<and> heap_wf h \<and>
     chain bp_node h prev ((prev, vp, bsp) # filter (\<lambda>e. entry_value e \<noteq> (cstr name, line)) rest) \<and>
     same_on (- set (prev # owned rest)) (heap s) h \<and>
     dom (cells h) = dom (cells (heap s)) -
       set (owned (filter (\<lambda>e. entry_value e = (cstr name, line)) rest))"
proof (induction rest arbitrary: s prev vp bsp tmp)
  case Nil
  then have "prev \<noteq> NULL" using bp.rd_live heap_wf_not_NULL by fastforce
  with Nil show ?case
    by (intro exI[of _ "heap s"]) (simp add: breakpoint_clear_from.simps[of name line prev NULL])
next
  case (Cons e rest)
  obtain a v bs where e: "e = (a, v, bs)" by (metis prod.exhaust)
  from Cons.prems(2) e obtain q where a: "tmp = a" "a \<noteq> NULL" "bp_node (heap s) a = Some (v, bs, q)"
    and c: "chain bp_node (heap s) q rest" by auto
  from bp_match[OF a(3), of line name] obtain t where t: "get_bp (heap s) a = Some t" "bp_next t = q"
    "bs = [bp_name t]" and hit: "(if bp_line t = line
      then do { n \<leftarrow> load_str (heap s) (bp_name t); Some (streq n name) } else Some False)
      = Some (v = (cstr name, line))" by blast
  have pn: "prev \<noteq> NULL" "cells (heap s) prev \<noteq> None"
    using bp.rd_live[OF Cons.prems(1)] heap_wf_not_NULL[OF Cons.prems(4)] by auto
  show ?case
  proof (cases "v = (cstr name, line)")
    case False
    have "distinct (a # bs @ owned rest)" using Cons.prems(3) e by simp
    from Cons.IH[OF a(3) c this Cons.prems(4)] obtain h where
      h: "breakpoint_clear_from name line a q s = Some (s\<lparr>heap := h\<rparr>)" "heap_wf h"
      and ch: "chain bp_node h a ((a, v, bs) # filter (\<lambda>e. entry_value e \<noteq> (cstr name, line)) rest)"
      and same: "same_on (- set (a # owned rest)) (heap s) h"
      and dom: "dom (cells h) = dom (cells (heap s)) -
        set (owned (filter (\<lambda>e. entry_value e = (cstr name, line)) rest))" by blast
    have "bp_node h prev = Some (vp, bsp, tmp)"
      using Cons.prems(3) e by (intro bp.rd_local[OF Cons.prems(1)] same_on_mono[OF same]) auto
    moreover have "same_on (- set (prev # owned (e # rest))) (heap s) h"
      using e by (intro same_on_mono[OF same]) auto
    ultimately show ?thesis
      using h ch dom a(1,2) t hit False e pn(1)
      by (intro exI[of _ h]) (simp add: breakpoint_clear_from.simps[of name line prev a])
  next
    case True
    from Cons.prems(1) obtain xp where bp: "bsp = [xp]"
      "get_bp (heap s) prev = Some \<lparr>bp_name = xp, bp_line = snd vp, bp_next = tmp\<rparr>"
      "is_cstr (fst vp)" "get_chars (heap s) xp = Some (fst vp @ [NUL])"
      by (cases vp) (auto simp: bp_node_Some)
    let ?x = "bp_name t"
    let ?p = "\<lparr>bp_name = xp, bp_line = snd vp, bp_next = q\<rparr>"
    let ?h = "bp_unlinked prev ?p a ?x (heap s)"
    have d: "distinct [prev, a, ?x]" "distinct (prev # bsp @ owned rest)" "{prev, xp} \<inter> {a, ?x} = {}"
      "set (owned rest) \<inter> {prev, a, ?x} = {}" "xp \<noteq> prev"
      using Cons.prems(3) e t bp(1) by auto
    have nd: "bp_node ?h prev = Some (vp, bsp, q)"
      using bp d by (cases vp) (simp add: bp_node_Some bp_unlinked_def get_bp_def get_chars_def)
    have ch: "chain bp_node ?h q rest"
      using d(4) by (intro bp.chain_frame[OF c]) (auto simp: same_on_def bp_unlinked_def)
    have wf: "heap_wf ?h" using bp_unlinked_wf[OF Cons.prems(4) pn(2)] .
    from Cons.IH[of "s\<lparr>heap := ?h\<rparr>" prev vp bsp q] nd ch d(2) wf obtain h where
      h: "breakpoint_clear_from name line prev q (s\<lparr>heap := ?h\<rparr>) = Some (s\<lparr>heap := h\<rparr>)" "heap_wf h"
      "chain bp_node h prev ((prev, vp, bsp) # filter (\<lambda>e. entry_value e \<noteq> (cstr name, line)) rest)"
      and same: "same_on (- set (prev # owned rest)) ?h h"
      and dom: "dom (cells h) = dom (cells ?h) -
        set (owned (filter (\<lambda>e. entry_value e = (cstr name, line)) rest))" by auto
    have "same_on (- {prev, a, ?x}) (heap s) ?h" by (auto simp: same_on_def bp_unlinked_def)
    then have same': "same_on (- set (prev # owned (e # rest))) (heap s) h"
      using e t(3) by (intro same_on_trans[OF same_on_mono same_on_mono[OF same]]) auto
    have "dom (cells ?h) = dom (cells (heap s)) - {a, ?x}"
      using pn(2) by (auto simp: bp_unlinked_def split: if_splits)
    then have dom': "dom (cells h) = dom (cells (heap s)) -
        set (owned (filter (\<lambda>e. entry_value e = (cstr name, line)) (e # rest)))"
      using dom True e t(3) by auto
    obtain h1 h2 where st: "store prev (Bp_cell ?p) (heap s) = Some h1" "free ?x h1 = Some h2"
      "free a h2 = Some ?h"
      using bp_unlinked_eq[OF bp(2) _ d(1) Cons.prems(4)] a(3) t(3) by metis
    have g: "get_bp ?h prev = Some ?p" using nd bp by (cases vp) (auto simp: bp_node_Some)
    show ?thesis
      using h same' dom' True e a(1,2) t hit pn(1) bp(2) st g
      by (intro exI[of _ h]) (simp add: breakpoint_clear_from.simps[of name line prev a])
  qed
qed

lemma owned_partition:
  assumes "distinct (owned es)"
  shows "set (owned es) - set (owned (filter P es)) = set (owned (filter (\<lambda>e. \<not> P e) es))"
  using assms
proof (induction es)
  case (Cons e es)
  have sub: "set (owned (filter Q es)) \<subseteq> set (owned es)" for Q by (auto simp: owned_def)
  have d: "set (entry_owned e) \<inter> set (owned es) = {}" using Cons.prems by simp
  have "set (owned es) - set (owned (filter P es)) = set (owned (filter (\<lambda>e. \<not> P e) es))"
    using Cons by simp
  with sub[of P] sub[of "\<lambda>e. \<not> P e"] d show ?case by (cases "P e") (simp, blast)+
qed simp

text \<open>The loop from the head: a match there is a null pointer dereference.\<close>

lemma breakpoint_clear_cases:
  assumes wf: "bp_wf s"
  shows "breakpoints s = [] \<Longrightarrow> breakpoint_clear name line s = Some s"
    and "breakpoints s = (cstr name, line) # vs \<Longrightarrow> breakpoint_clear name line s = None"
    and "breakpoints s = v # vs \<Longrightarrow> v \<noteq> (cstr name, line) \<Longrightarrow>
      \<exists>s'. breakpoint_clear name line s = Some s' \<and> bp_wf s' \<and>
        breakpoints s' = filter (\<lambda>v. v \<noteq> (cstr name, line)) (breakpoints s) \<and>
        s' = s\<lparr>heap := heap s'\<rparr> \<and> same_on (- set (owned (bps s))) (heap s) (heap s') \<and>
        dom (cells (heap s')) = dom (cells (heap s)) - set (owned (bps s)) \<union> set (owned (bps s')) \<and>
        set (owned (bps s')) \<subseteq> set (owned (bps s))"
proof -
  note w = bp_wfD[OF wf]
  {
    assume "breakpoints s = []"
    with w(1) show "breakpoint_clear name line s = Some s"
      by (simp add: breakpoints_def breakpoint_clear_def breakpoint_clear_from.simps)
  next
    assume b: "breakpoints s = (cstr name, line) # vs"
    then obtain a bs es where e: "bps s = (a, (cstr name, line), bs) # es"
      by (auto simp: breakpoints_def)
    with w(1) obtain q where a: "breakpoint_head s = a" "a \<noteq> NULL"
      "bp_node (heap s) a = Some ((cstr name, line), bs, q)" by auto
    from bp_match[OF a(3), of line name] obtain t where t: "get_bp (heap s) a = Some t"
      "bs = [bp_name t]" and hit: "(if bp_line t = line
        then do { n \<leftarrow> load_str (heap s) (bp_name t); Some (streq n name) } else Some False) = Some True"
      by auto
    have live: "a \<in> dom (cells (heap s))" "bp_name t \<in> dom (cells (heap s))" "bp_name t \<noteq> a"
      using bp.rd_live[OF a(3)] t(2) w(2) e by auto
    have nn: "bp_name t \<noteq> NULL" using heap_wf_not_NULL[OF w(3)] live(2) by blast
    have nul: "cells (heap s) NULL = None" using w(3) by simp
    have fr: "free (bp_name t) (heap s) = Some ((heap s)\<lparr>cells := (cells (heap s))(bp_name t := None)\<rparr>)"
      "free a ((heap s)\<lparr>cells := (cells (heap s))(bp_name t := None)\<rparr>) =
        Some ((heap s)\<lparr>cells := (cells (heap s))(bp_name t := None, a := None)\<rparr>)"
      using live nn a(2) by (auto simp: free_def)
    show "breakpoint_clear name line s = None"
      unfolding breakpoint_clear_def a(1)
      by (subst breakpoint_clear_from.simps) (use a(2) t(1) hit fr nul in \<open>simp add: get_bp_def\<close>)
  next
    assume b: "breakpoints s = v # vs" and v: "v \<noteq> (cstr name, line)"
    then obtain a bs es where e: "bps s = (a, v, bs) # es" by (auto simp: breakpoints_def)
    with w(1) obtain q where a: "breakpoint_head s = a" "a \<noteq> NULL"
      "bp_node (heap s) a = Some (v, bs, q)" and c: "chain bp_node (heap s) q es" by auto
    from bp_match[OF a(3), of line name] obtain t where t: "get_bp (heap s) a = Some t" "bp_next t = q"
      and hit: "(if bp_line t = line
        then do { n \<leftarrow> load_str (heap s) (bp_name t); Some (streq n name) } else Some False) = Some False"
      using v by auto
    have "distinct (a # bs @ owned es)" using w(2) e by simp
    from clear_tail[OF a(3) c this w(3), of name line] obtain h where
      h: "breakpoint_clear_from name line a q s = Some (s\<lparr>heap := h\<rparr>)" "heap_wf h"
      "chain bp_node h a ((a, v, bs) # filter (\<lambda>e. entry_value e \<noteq> (cstr name, line)) es)"
      and same: "same_on (- set (a # owned es)) (heap s) h"
      and dom: "dom (cells h) = dom (cells (heap s)) -
        set (owned (filter (\<lambda>e. entry_value e = (cstr name, line)) es))" by blast
    let ?es = "(a, v, bs) # filter (\<lambda>e. entry_value e \<noteq> (cstr name, line)) es"
    have sub: "set (owned (filter P xs)) \<subseteq> set (owned xs)" and
      dst: "distinct (owned xs) \<Longrightarrow> distinct (owned (filter P xs))" for P and xs :: "(string \<times> int) entry list"
      by (induction xs) (auto simp: owned_def)
    have p: "g_equus_log_path s \<notin> set (owned (bps s))" by (rule w(5))
    then have path: "cells h (g_equus_log_path s) = cells (heap s) (g_equus_log_path s)"
      using e by (intro same_onD[OF same]) auto
    have "log_wf (s\<lparr>heap := h\<rparr>)" using w(4) h(2) path by (intro log_wf_heap) auto
    moreover have "distinct (owned ?es)" using w(2) e dst[of es] sub[of _ es] by fastforce
    moreover have "g_equus_log_path (s\<lparr>heap := h\<rparr>) \<notin> set (owned ?es)" using p e sub[of _ es] by fastforce
    ultimately have i: "bp_wf (s\<lparr>heap := h\<rparr>)" "bps (s\<lparr>heap := h\<rparr>) = ?es"
      "breakpoints (s\<lparr>heap := h\<rparr>) = map entry_value ?es"
      using bp_wfI[of "s\<lparr>heap := h\<rparr>" ?es] h(3) a(1) by simp_all
    have "distinct (owned es)" "set (a # bs) \<inter> set (owned es) = {}" using w(2) e by auto
    then have "set (owned es) - set (owned (filter (\<lambda>e. entry_value e = (cstr name, line)) es))
        = set (owned (filter (\<lambda>e. entry_value e \<noteq> (cstr name, line)) es))"
      by (intro owned_partition)
    then have "dom (cells h) = dom (cells (heap s)) - set (owned (bps s)) \<union> set (owned ?es)"
      using dom bp.chain_live[OF w(1)] e \<open>set (a # bs) \<inter> set (owned es) = {}\<close>
        sub[of "\<lambda>e. entry_value e = (cstr name, line)" es] by auto
    moreover have "same_on (- set (owned (bps s))) (heap s) h"
      using e by (intro same_on_mono[OF same]) auto
    moreover have "set (owned ?es) \<subseteq> set (owned (bps s))" using e sub[of _ es] by auto
    moreover note i
    moreover have "map entry_value ?es = filter (\<lambda>v. v \<noteq> (cstr name, line)) (breakpoints s)"
      using v e by (simp add: breakpoints_def filter_map comp_def)
    moreover have "breakpoint_clear name line s = Some (s\<lparr>heap := h\<rparr>)"
      unfolding breakpoint_clear_def a(1)
      by (subst breakpoint_clear_from.simps) (use a(2) t hit h(1) in simp)
    ultimately show "\<exists>s'. breakpoint_clear name line s = Some s' \<and> bp_wf s' \<and>
        breakpoints s' = filter (\<lambda>v. v \<noteq> (cstr name, line)) (breakpoints s) \<and>
        s' = s\<lparr>heap := heap s'\<rparr> \<and> same_on (- set (owned (bps s))) (heap s) (heap s') \<and>
        dom (cells (heap s')) = dom (cells (heap s)) - set (owned (bps s)) \<union> set (owned (bps s')) \<and>
        set (owned (bps s')) \<subseteq> set (owned (bps s))"
      by (intro exI[of _ "s\<lparr>heap := h\<rparr>"]) simp
  }
qed

section \<open>Adding breakpoints, clearing all\<close>

definition bp_added :: "string \<Rightarrow> int \<Rightarrow> addr \<Rightarrow> heap \<Rightarrow> heap" where
  "bp_added name line q h =
     h\<lparr>brk := Suc (Suc (brk h)),
       cells := (cells h)(brk h \<mapsto> Bp_cell \<lparr>bp_name = Suc (brk h), bp_line = line, bp_next = q\<rparr>,
                          Suc (brk h) \<mapsto> Chars (cstr name @ [NUL]))\<rparr>"

lemma breakpoint_add_eq:
  "breakpoint_add name line s =
   Some (s\<lparr>heap := bp_added name line (breakpoint_head s) (heap s), breakpoint_head := brk (heap s)\<rparr>)"
  by (simp add: breakpoint_add_def malloc_def strdup_def new_eq store_def bp_added_def fun_upd_twist)

lemma breakpoint_add_wf:
  assumes wf: "bp_wf s"
  shows "\<exists>s'. breakpoint_add name line s = Some s' \<and> bp_wf s' \<and>
    breakpoints s' = (cstr name, line) # breakpoints s \<and>
    bps s' = (brk (heap s), (cstr name, line), [Suc (brk (heap s))]) # bps s"
proof -
  let ?b = "brk (heap s)" and ?h = "bp_added name line (breakpoint_head s) (heap s)"
  let ?s = "s\<lparr>heap := ?h, breakpoint_head := ?b\<rparr>" and ?es = "(?b, (cstr name, line), [Suc ?b]) # bps s"
  note w = bp_wfD[OF wf]
  have same: "same_on (dom (cells (heap s))) (heap s) ?h"
    using w(3) by (auto simp: bp_added_def same_on_def dest: heap_wf_less)
  have hwf: "heap_wf ?h" using w(3) by (rule heap_wf_change) (auto simp: bp_added_def split: if_splits)
  have fresh: "a \<notin> set (owned (bps s))" if "?b \<le> a" for a
    using bp.chain_live[OF w(1)] heap_wf_ge[OF w(3) that] by blast
  have live: "g_equus_log_path s \<noteq> NULL \<Longrightarrow> g_equus_log_path s \<in> dom (cells (heap s))"
    using log_wf_path_live[OF w(4)] .
  have path: "g_equus_log_path s < ?b"
    using live heap_wf_less[OF w(3)] heap_wf_brk[OF w(3)] by (cases "g_equus_log_path s = NULL") auto
  have l: "log_wf ?s"
    using same_onD[OF same] live by (simp, intro log_wf_heap w(4) hwf) auto
  have "bp_node ?h ?b = Some ((cstr name, line), [Suc ?b], breakpoint_head s)"
    by (simp add: bp_node_Some bp_added_def get_bp_def get_chars_def)
  then have c: "chain bp_node (heap ?s) (breakpoint_head ?s) ?es"
    using bp.chain_frame[OF w(1) same_on_mono[OF same bp.chain_live[OF w(1)]]] heap_wf_brk[OF w(3)] by simp
  have d: "distinct (owned ?es)" using w(2) fresh by simp
  have p: "g_equus_log_path ?s \<notin> set (owned ?es)" using w(5) path by simp
  from bp_wfI[OF l c d p]
  have "bp_wf ?s" "breakpoints ?s = (cstr name, line) # breakpoints s" "bps ?s = ?es"
    by (simp_all add: breakpoints_def)
  then show ?thesis by (simp add: breakpoint_add_eq)
qed

lemma breakpoint_free_eq:
  "chain bp_node h p es \<Longrightarrow> distinct (owned es) \<Longrightarrow> heap_wf h \<Longrightarrow>
   breakpoint_free_from p h = Some (without (set (owned es)) h)"
proof (induction es arbitrary: p h)
  case Nil
  then show ?case by (simp add: breakpoint_free_from.simps)
next
  case (Cons e es)
  obtain a v bs where e: "e = (a, v, bs)" by (metis prod.exhaust)
  from Cons.prems(1) e obtain q where q: "p = a" "a \<noteq> NULL" "bp_node h a = Some (v, bs, q)"
    "chain bp_node h q es" by auto
  from bp_match[OF q(3)] obtain t where t: "get_bp h a = Some t" "bp_next t = q" "bs = [bp_name t]" by blast
  let ?x = "bp_name t" and ?h = "without {a, bp_name t} h"
  have d: "a \<noteq> ?x" "distinct (owned es)" "set (owned es) \<inter> {a, ?x} = {}"
    using Cons.prems(2) e t(3) by auto
  have live: "a \<in> dom (cells h)" "?x \<in> dom (cells h)" using bp.rd_live[OF q(3)] t(3) by auto
  have xn: "?x \<noteq> NULL" using heap_wf_not_NULL[OF Cons.prems(3)] live(2) by blast
  have c: "chain bp_node ?h q es"
    using d(3) by (intro bp.chain_frame[OF q(4)] same_on_mono[OF same_on_without]) auto
  have w: "h\<lparr>cells := (cells h)(?x := None, a := None)\<rparr> = ?h"
    by (simp add: without_def fun_eq_iff restrict_map_def)
  have "breakpoint_free_from a h = breakpoint_free_from q ?h"
    using q(2) t live xn d(1) by (subst breakpoint_free_from.simps) (auto simp: free_def w[symmetric])
  also have "\<dots> = Some (without (set (owned es)) ?h)"
    by (rule Cons.IH[OF c d(2) heap_wf_without[OF Cons.prems(3)]])
  finally show ?case using e q(1) t(3) by (simp add: without_without)
qed

lemma breakpoint_clearall_wf:
  assumes wf: "bp_wf s"
  shows "\<exists>s'. breakpoint_clearall s = Some s' \<and> bp_wf s' \<and> breakpoints s' = [] \<and>
    heap s' = without (set (owned (bps s))) (heap s)"
proof -
  note w = bp_wfD[OF wf]
  let ?s = "s\<lparr>heap := without (set (owned (bps s))) (heap s), breakpoint_head := NULL\<rparr>"
  have "breakpoint_clearall s = Some ?s"
    using breakpoint_free_eq[OF w(1-3)] by (simp add: breakpoint_clearall_def)
  moreover have "log_wf ?s" using w(3-5) by (simp, intro log_wf_heap) auto
  from bp_wfI[OF this, of "[]"] have "bp_wf ?s" "breakpoints ?s = []" by simp_all
  ultimately show ?thesis by simp
qed

section \<open>Where a breakpoint stops\<close>

lemma breakpoint_search_eq:
  "chain bp_node h p es \<Longrightarrow> \<exists>r. breakpoint_search ar p h = Some r \<and>
   map_option (\<lambda>t. bp_line t) r = map_option snd (List.find
     (\<lambda>v. (snd v = ar_currentline ar \<or> snd v = 0) \<and> cstr (ar_source ar) \<noteq> fst v) (map entry_value es))"
proof (induction es arbitrary: p)
  case Nil
  then show ?case by (simp add: breakpoint_search.simps)
next
  case (Cons e es)
  obtain a n l bs where e: "e = (a, (n, l), bs)" by (metis prod.exhaust)
  from Cons.prems e obtain q where a: "p = a" "a \<noteq> NULL" "bp_node h a = Some ((n, l), bs, q)"
    "chain bp_node h q es" by auto
  then obtain x where "get_bp h a = Some \<lparr>bp_name = x, bp_line = l, bp_next = q\<rparr>" "is_cstr n"
    "load_str h x = Some n" by (auto simp: bp_node_Some load_str_def)
  moreover from Cons.IH[OF a(4)] obtain r where "breakpoint_search ar q h = Some r"
    "map_option (\<lambda>t. bp_line t) r = map_option snd (List.find
     (\<lambda>v. (snd v = ar_currentline ar \<or> snd v = 0) \<and> cstr (ar_source ar) \<noteq> fst v) (map entry_value es))"
    by blast
  ultimately show ?case
    using a(1,2) e by (auto simp: breakpoint_search.simps[of ar a] streq_def)
qed

section \<open>The command loop\<close>

lemma bp_wf_update [simp]:
  "bp_wf (s\<lparr>stdin_data := t\<rparr>) = bp_wf s" "bp_wf (s\<lparr>stdout_data := t\<rparr>) = bp_wf s"
  "bp_wf (s\<lparr>g_equus_log_level := lvl\<rparr>) = bp_wf s" "bp_wf (s\<lparr>debugger_trace_enabled := b\<rparr>) = bp_wf s"
  by (simp_all add: bp_wf_def)

text \<open>
  What is known of a chunk that returns: \<open>lua_pcall\<close> leaves the stack below its results as it was. The chunk
  may have read from standard input, run the debugger itself or set and cleared breakpoints, as long as
  it leaves a well-formed list.
\<close>

definition eval_ok :: "evaluator \<Rightarrow> bool" where
  "eval_ok eval \<longleftrightarrow> (\<forall>buf L s r L' s'. bp_wf s \<longrightarrow> eval buf L s = Some (r, L', s') \<longrightarrow>
     stk L' = stk L \<and> bp_wf s' \<and> suffix (stdin_data s') (stdin_data s))"

text \<open>
  A chunk that never returns: a part of the input, or the one that \<^verbatim>\<open>bt\<close> stands for, run on the stack of the
  debugger with well-formed breakpoints and a rest of the input.
\<close>

definition hanging_chunk :: "evaluator \<Rightarrow> lua_value list \<Rightarrow> string \<Rightarrow> bool" where
  "hanging_chunk eval stack inp \<longleftrightarrow>
     (\<exists>buf L s. eval buf L s = None \<and> (buf = ''equus_stackwalk()'' \<or> sublist buf inp) \<and>
        stk L = stack \<and> bp_wf s \<and> suffix (stdin_data s) inp)"

lemma chunk_returns:
  "\<not> hanging_chunk eval (stk L) inp \<Longrightarrow> buf = ''equus_stackwalk()'' \<or> sublist buf inp \<Longrightarrow> bp_wf s \<Longrightarrow>
   suffix (stdin_data s) inp \<Longrightarrow> eval buf L s \<noteq> None"
  unfolding hanging_chunk_def by metis

lemma prefix_chomp: "prefix (chomp l) l"
proof -
  have "prefix (chomp l) (cstr l)"
    unfolding chomp_def by (metis prefix_def append_Nil2 rev_append rev_rev_ident takeWhile_dropWhile_id)
  moreover have "prefix (cstr l) l" unfolding cstr_def by (rule takeWhile_is_prefix)
  ultimately show ?thesis by (rule prefix_order.trans)
qed

lemma fgets_append: "fgets n inp = Some (l, r) \<Longrightarrow> inp = l @ r"
  by (auto simp: fgets_def fgets_take_append split: if_splits)

lemma sublist_chomp: "fgets n inp = Some (l, r) \<Longrightarrow> suffix inp inp0 \<Longrightarrow> sublist (chomp l) inp0 \<and> suffix r inp0"
  using prefix_chomp[of l] fgets_append[of n inp l r]
  by (auto simp: prefix_def suffix_def sublist_def) (metis append.assoc)

lemma strneq_sublist: "strneq 6 l ''clear '' \<Longrightarrow> sublist ''clear '' l"
proof -
  assume "strneq 6 l ''clear ''"
  then have "take 6 (cstr l) = ''clear ''" by (simp add: strneq_def cstr_def)
  then have "prefix ''clear '' (cstr l)" by (metis take_is_prefix)
  then show ?thesis unfolding cstr_def by (metis takeWhile_is_prefix prefix_imp_sublist sublist_order.order.trans)
qed

lemma pop_until_append: "pop_until (int (length xs)) (L\<lparr>stk := xs @ ys\<rparr>) = Some (L\<lparr>stk := xs\<rparr>)"
proof (induction ys rule: rev_induct)
  case Nil
  then show ?case by (simp add: pop_until.simps lua_gettop_def)
next
  case (snoc y ys)
  then show ?case by (subst pop_until.simps) (simp add: lua_gettop_def butlast_append)
qed

lemma debugger_eval_ok:
  assumes "eval_ok eval" and "bp_wf s" and "origtop = lua_gettop L" and "eval buf L s \<noteq> None"
  shows "\<exists>L' s'. debugger_eval eval text_of origtop buf L s = Some (L', s') \<and> stk L' = stk L \<and>
    bp_wf s' \<and> suffix (stdin_data s') (stdin_data s)"
proof -
  obtain r L1 s1 where e: "eval buf L s = Some (r, L1, s1)" using assms(4) by (metis not_None_eq prod.exhaust)
  have k: "stk L1 = stk L" "bp_wf s1" "suffix (stdin_data s1) (stdin_data s)"
    using assms(1,2) e unfolding eval_ok_def by blast+
  show ?thesis
  proof (cases r)
    case (Inl msg)
    with e k show ?thesis by (simp add: debugger_eval_def lua_push_def lua_settop_def printf_def)
  next
    case (Inr vs)
    have "pop_until origtop (L1\<lparr>stk := stk L1 @ vs\<rparr>) = Some (L1\<lparr>stk := stk L1\<rparr>)"
      using pop_until_append[where xs = "stk L1" and L = L1 and ys = vs] assms(3) k(1) by (simp add: lua_gettop_def)
    with Inr e k show ?thesis by (simp add: debugger_eval_def printf_def)
  qed
qed

lemma debugger_command_ok:
  assumes "eval_ok eval" and "bp_wf s" and "lua_gettop L = origtop" and "\<not> strneq 6 buf ''clear ''"
    and "g_equus_log_level s = lvl" and "sublist buf inp" and "\<not> hanging_chunk eval (stk L) inp"
    and "suffix (stdin_data s) inp"
  shows "\<exists>more L' s'. debugger_command eval text_of lvl origtop buf L s = Some (more, L', s') \<and>
    stk L' = stk L \<and> bp_wf s' \<and> suffix (stdin_data s') (stdin_data s) \<and> g_equus_log_level s' = lvl"
proof -
  consider "buf = ''q'' \<or> buf = ''quit'' \<or> buf = ''exit''"
    | "\<not> (buf = ''q'' \<or> buf = ''quit'' \<or> buf = ''exit'')" "strneq 6 buf ''break ''"
    | "\<not> strneq 6 buf ''break ''" "buf = ''clearall''"
    | "\<not> strneq 6 buf ''break ''" "buf = ''trace''"
    | "\<not> (buf = ''q'' \<or> buf = ''quit'' \<or> buf = ''exit'')" "\<not> strneq 6 buf ''break ''"
      "buf \<noteq> ''clearall''" "buf \<noteq> ''trace''" by blast
  then show ?thesis
  proof cases
    case 1
    with assms show ?thesis by (auto simp: debugger_command_def)
  next
    case 2
    obtain f n where l: "location buf = (f, n)" by (cases "location buf")
    from breakpoint_add_wf[OF assms(2), of f n] have "bp_wf (s\<lparr>heap := bp_added f n (breakpoint_head s) (heap s),
        breakpoint_head := brk (heap s)\<rparr>)" by (simp add: breakpoint_add_eq)
    with 2 assms l show ?thesis
      by (intro exI[of _ True]) (simp add: debugger_command_def breakpoint_add_eq printf_def lua_sethook_def)
  next
    case 3
    from breakpoint_clearall_wf[OF assms(2)] obtain s' where
      c: "breakpoint_clearall s = Some s'" "bp_wf s'" by blast
    then have "stdin_data s' = stdin_data s" "g_equus_log_level s' = lvl"
      using assms(5) by (auto simp: breakpoint_clearall_def bind_eq_Some_conv)
    with 3 assms(4) c show ?thesis
      by (intro exI[of _ True]) (simp add: debugger_command_def printf_def lua_sethook_def)
  next
    case 4
    with assms show ?thesis by (auto simp: debugger_command_def printf_def lua_sethook_def)
  next
    case 5
    let ?b = "if buf = ''bt'' then ''equus_stackwalk()'' else buf"
    let ?s = "if buf = ''bt'' then equus_log_level_set EQUUS_LOG_EVERYTHING s else s"
    have s: "bp_wf ?s" "stdin_data ?s = stdin_data s"
      using assms(2) by (simp_all add: equus_log_level_set_def)
    have "eval ?b L ?s \<noteq> None" by (rule chunk_returns[OF assms(7)]) (use assms(6,8) s in auto)
    from debugger_eval_ok[OF assms(1) s(1) _ this, of origtop text_of] assms(3) obtain L' s' where
      "debugger_eval eval text_of origtop ?b L ?s = Some (L', s')" "stk L' = stk L" "bp_wf s'"
      "suffix (stdin_data s') (stdin_data ?s)" by blast
    with 5 assms(4) s show ?thesis
      by (auto simp: debugger_command_def equus_log_level_set_def split: if_splits)
  qed
qed

lemma debugger_loop_ok:
  assumes "eval_ok eval" and "\<not> hanging_chunk eval stack inp" and "\<not> sublist ''clear '' inp"
  shows "bp_wf s \<Longrightarrow> stk L = stack \<Longrightarrow> g_equus_log_level s = lvl \<Longrightarrow> suffix (stdin_data s) inp \<Longrightarrow>
    origtop = int (length stack) \<Longrightarrow>
    \<exists>L' s'. debugger_loop eval text_of lvl origtop L s = Some (L', s') \<and> stk L' = stk L \<and> bp_wf s' \<and>
      g_equus_log_level s' = lvl"
proof (induction "stdin_data s" arbitrary: s L rule: length_induct)
  case (1 s L)
  let ?s = "printf ''> '' s"
  have sd: "stdin_data ?s = stdin_data s" by (simp add: printf_def)
  show ?case
  proof (cases "fgets 131072 (stdin_data s)")
    case None
    then have "debugger_loop eval text_of lvl origtop L s =
        Some (L, printf ([LF, LF] @ ''  fgets() on stdin failed: '') ?s)"
      by (subst debugger_loop.simps) (simp add: sd)
    with 1(2,4) show ?thesis by (simp add: printf_def)
  next
    case (Some lr)
    obtain l r where f: "fgets 131072 (stdin_data s) = Some (l, r)" using Some by (cases lr) auto
    have len: "length r < length (stdin_data s)" using fgets_shorter[OF _ f] by simp
    from sublist_chomp[OF f 1(5)] have sub: "sublist (chomp l) inp" "suffix r inp" by auto
    have "\<not> strneq 6 (chomp l) ''clear ''" using strneq_sublist sub(1) assms(3) sublist_order.order.trans by blast
    moreover have "bp_wf (?s\<lparr>stdin_data := r\<rparr>)" "g_equus_log_level (?s\<lparr>stdin_data := r\<rparr>) = lvl"
      using 1(2,4) by (simp_all add: printf_def)
    ultimately obtain more L1 s1 where c: "debugger_command eval text_of lvl origtop (chomp l) L
        (?s\<lparr>stdin_data := r\<rparr>) = Some (more, L1, s1)" "stk L1 = stk L" "bp_wf s1"
        "suffix (stdin_data s1) r" "g_equus_log_level s1 = lvl"
      using debugger_command_ok[of eval "?s\<lparr>stdin_data := r\<rparr>" L origtop "chomp l" lvl inp text_of] assms(1,2) 1(3,6) sub
      by (fastforce simp: lua_gettop_def)
    have step: "debugger_loop eval text_of lvl origtop L s =
        (if more then debugger_loop eval text_of lvl origtop L1 s1 else Some (L1, s1))"
      by (subst debugger_loop.simps) (simp add: sd f c(1))
    have top: "stk L1 = stack" using c(2) 1(3) by simp
    have "length (stdin_data s1) < length (stdin_data s)" using suffix_length_le[OF c(4)] len by simp
    from 1(1)[rule_format, OF this refl c(3) top c(5) suffix_order.trans[OF c(4) sub(2)] 1(6)] obtain L' s' where
      "debugger_loop eval text_of lvl origtop L1 s1 = Some (L', s')" "stk L' = stk L1" "bp_wf s'"
      "g_equus_log_level s' = lvl" by blast
    with step c show ?thesis by (cases more) auto
  qed
qed

section \<open>Properties\<close>


text \<open>A chunk that reads a character of the input, and every other chunk returns a number.\<close>

definition example_eval :: evaluator where
  "example_eval buf L s =
     Some (if buf = ''io.read(1)'' then (Inr [LNil], L, s\<lparr>stdin_data := tl (stdin_data s)\<rparr>) else (Inr [LNumber 1], L, s))"

lemma bp_wf_start [simp]: "bp_wf start" "bp_wf (start\<lparr>stdin_data := t\<rparr>)"
proof -
  show "bp_wf start" using log_wf_start bp_wfI[of start "[]"] by (simp add: start_def equus_init_def)
  then show "bp_wf (start\<lparr>stdin_data := t\<rparr>)" by simp
qed


text \<open>
  Clearing a breakpoint works except at the head of the list: on a list whose newest breakpoint
  is the one to clear the code follows a null pointer; on any other list it returns and removes
  exactly the breakpoints of that file and line.
\<close>

theorem breakpoint_clear_correct:
  assumes "bp_wf s"
  shows "(breakpoint_clear name line s = None \<longleftrightarrow>
      breakpoints s \<noteq> [] \<and> hd (breakpoints s) = (cstr name, line)) \<and>
    (\<forall>s'. breakpoint_clear name line s = Some s' \<longrightarrow>
      bp_wf s' \<and> breakpoints s' = filter (\<lambda>v. v \<noteq> (cstr name, line)) (breakpoints s))"
proof (cases "breakpoints s")
  case Nil
  with breakpoint_clear_cases(1)[OF assms] assms show ?thesis by simp
next
  case (Cons v vs)
  show ?thesis
  proof (cases "v = (cstr name, line)")
    case True
    with Cons breakpoint_clear_cases(2)[OF assms] show ?thesis by simp
  next
    case False
    with breakpoint_clear_cases(3)[OF assms Cons] Cons show ?thesis by fastforce
  qed
qed

theorem breakpoint_clear_correct_witness:
  "\<exists>s. breakpoint_add ''a.lua'' 3 start = Some s \<and> breakpoint_clear ''a.lua'' 3 s = None"
proof -
  from breakpoint_add_wf[OF bp_wf_start(1), of "''a.lua''" 3] obtain s where
    s: "breakpoint_add ''a.lua'' 3 start = Some s" "bp_wf s"
    "breakpoints s = (cstr ''a.lua'', 3) # breakpoints start" by blast
  then have "breakpoint_clear ''a.lua'' 3 s = None"
    using breakpoint_clear_correct[OF s(2), of "''a.lua''" 3] by simp
  with s show ?thesis by blast
qed

text \<open>
  A breakpoint stops in every file but its own: a line event stops if and only if some
  breakpoint has that line, or no line, and names a file other than the one that is running.
\<close>

theorem breakpoint_stops_in_other_files:
  assumes "bp_wf s"
  shows "\<exists>hit. breakpoint_search ar (breakpoint_head s) (heap s) = Some hit \<and>
    (hit \<noteq> None \<longleftrightarrow> (\<exists>n l. (n, l) \<in> set (breakpoints s) \<and> (l = ar_currentline ar \<or> l = 0) \<and>
       n \<noteq> cstr (ar_source ar)))"
proof -
  from breakpoint_search_eq[OF bp_wfD(1)[OF assms], of ar] obtain r where
    r: "breakpoint_search ar (breakpoint_head s) (heap s) = Some r"
    and eq: "map_option (\<lambda>t. bp_line t) r = map_option snd (List.find
     (\<lambda>v. (snd v = ar_currentline ar \<or> snd v = 0) \<and> cstr (ar_source ar) \<noteq> fst v) (breakpoints s))"
    by (auto simp: breakpoints_def)
  have "r = None \<longleftrightarrow> \<not> (\<exists>v. v \<in> set (breakpoints s) \<and>
      (snd v = ar_currentline ar \<or> snd v = 0) \<and> cstr (ar_source ar) \<noteq> fst v)"
    using arg_cong[OF eq, of "\<lambda>x. x = None"] by (simp only: map_option_is_None find_None_iff)
  then have "r \<noteq> None \<longleftrightarrow> (\<exists>n l. (n, l) \<in> set (breakpoints s) \<and> (l = ar_currentline ar \<or> l = 0) \<and>
       n \<noteq> cstr (ar_source ar))" by (metis fst_conv snd_conv surj_pair)
  with r show ?thesis by blast
qed

theorem breakpoint_stops_in_other_files_witness:
  "\<exists>s hit. breakpoint_add ''a.lua'' 3 start = Some s \<and>
     breakpoint_search \<lparr>ar_name = None, ar_namewhat = [], ar_what = ''Lua'', ar_source = ''b.lua'',
       ar_currentline = 3, ar_short_src = ''b.lua''\<rparr> (breakpoint_head s) (heap s) = Some hit \<and> hit \<noteq> None"
proof -
  from breakpoint_add_wf[OF bp_wf_start(1), of "''a.lua''" 3] obtain s where
    s: "breakpoint_add ''a.lua'' 3 start = Some s" "bp_wf s"
    "breakpoints s = (cstr ''a.lua'', 3) # breakpoints start" by blast
  with breakpoint_stops_in_other_files[OF s(2), of "\<lparr>ar_name = None, ar_namewhat = [], ar_what = ''Lua'',
      ar_source = ''b.lua'', ar_currentline = 3, ar_short_src = ''b.lua''\<rparr>"] show ?thesis
    by (fastforce simp: cstr_def)
qed

end
