(* ===== verification/Equus_Invariant.thy ===== *)
theory Equus_Invariant
  imports Equus_Results Equus_Conf Equus_Cache Equus_Debugger
begin

text \<open>
  The components together. They share one memory: the results, the cache, the breakpoints, the
  configuration, the path of the log file and the results a Lua script has taken but not yet
  released all live in it. Each of these parts owns blocks; the invariant says that every part is
  well formed and that no block has two owners. \<open>api\<close> lists the calls that the scripts, the signal
  handlers and the debugger make; whatever their order, as long as scripts release only what they hold,
  the invariant holds, no call is stuck except the ones with a known defect, and the only blocks that
  are lost are the list nodes of the results taken.
\<close>

section \<open>Owning blocks\<close>

text \<open>
  What a part promises, \<open>p\<close> being the pointer to it: its blocks are live, and it depends on
  nothing else.
\<close>

locale owner =
  fixes wf :: "'p \<Rightarrow> heap \<Rightarrow> bool"
    and blocks :: "'p \<Rightarrow> heap \<Rightarrow> addr set"
  assumes live: "wf p h \<Longrightarrow> heap_wf h \<Longrightarrow> blocks p h \<subseteq> dom (cells h)"
    and frame: "wf p h \<Longrightarrow> heap_wf h \<Longrightarrow> heap_wf h' \<Longrightarrow> same_on (blocks p h) h h' \<Longrightarrow>
      wf p h' \<and> blocks p h' = blocks p h"

sublocale heap_list \<subseteq> list_owner: owner "\<lambda>p h. list_wf rd h p" "\<lambda>p h. set (owned (entries rd h p))"
proof
  fix p h
  assume "list_wf rd h p"
  then show "set (owned (entries rd h p)) \<subseteq> dom (cells h)" unfolding list_wf_def using chain_live by blast
next
  fix p h h'
  assume "list_wf rd h p" and "heap_wf h'" and "same_on (set (owned (entries rd h p))) h h'"
  then show "list_wf rd h' p \<and> set (owned (entries rd h' p)) = set (owned (entries rd h p))"
    by (metis list_wf_frame)
qed

text \<open>The path of the log file.\<close>

definition path_wf :: "addr \<Rightarrow> heap \<Rightarrow> bool" where
  "path_wf p h \<longleftrightarrow> p \<noteq> NULL \<longrightarrow> get_chars h p \<noteq> None"

interpretation log_owner: owner path_wf "\<lambda>p h. {p} - {NULL}"
  by unfold_locales (auto simp: path_wf_def same_on_def get_chars_def split: option.splits)

text \<open>The configuration.\<close>

definition conf_part_wf :: "addr \<Rightarrow> heap \<Rightarrow> bool" where
  "conf_part_wf p h \<longleftrightarrow> p \<noteq> NULL \<longrightarrow> (\<exists>v. conf_obj h p v)"

lemma conf_owned_NULL: "heap_wf h \<Longrightarrow> conf_owned h NULL = {}"
  by (simp add: conf_owned_def get_conf_def)

interpretation conf_owner: owner conf_part_wf "\<lambda>p h. conf_owned h p"
proof
  fix p h
  assume "conf_part_wf p h" and "heap_wf h"
  then show "conf_owned h p \<subseteq> dom (cells h)"
    by (cases "p = NULL") (auto simp: conf_part_wf_def conf_owned_NULL dest!: conf_obj_live)
next
  fix p h h'
  assume "conf_part_wf p h" and "heap_wf h" "heap_wf h'" and "same_on (conf_owned h p) h h'"
  then show "conf_part_wf p h' \<and> conf_owned h' p = conf_owned h p"
    using conf_obj_frame[of h p _ h']
    by (cases "p = NULL") (auto simp: conf_part_wf_def conf_owned_NULL)
qed

text \<open>The results that a script has taken from the list and still holds.\<close>

definition result_blocks :: "heap \<Rightarrow> addr \<Rightarrow> addr list" where
  "result_blocks h r = (case get_result h r of None \<Rightarrow> [] | Some c \<Rightarrow> [r, res_data c])"

definition result_obj :: "heap \<Rightarrow> addr \<Rightarrow> bool" where
  "result_obj h r \<longleftrightarrow> (\<exists>d v. get_result h r = Some \<lparr>res_data = d, res_length = int (length v)\<rparr> \<and>
     get_chars h d = Some (v @ [NUL]))"

definition held_blocks :: "addr list \<Rightarrow> heap \<Rightarrow> addr list" where
  "held_blocks rs h = concat (map (result_blocks h) rs)"

definition held_wf :: "addr list \<Rightarrow> heap \<Rightarrow> bool" where
  "held_wf rs h \<longleftrightarrow> distinct (held_blocks rs h) \<and> (\<forall>r \<in> set rs. result_obj h r)"

lemma result_obj_frame:
  assumes "result_obj h r" and "same_on (set (result_blocks h r)) h h'"
  shows "result_obj h' r \<and> result_blocks h' r = result_blocks h r"
  using assms by (auto simp: result_obj_def result_blocks_def same_on_def get_cong[of h' _ h])

lemma result_obj_live: "result_obj h r \<Longrightarrow> set (result_blocks h r) \<subseteq> dom (cells h)"
  by (auto simp: result_obj_def result_blocks_def dest: get_dom)

interpretation held_owner: owner held_wf "\<lambda>rs h. set (held_blocks rs h)"
proof
  fix rs h
  assume "held_wf rs h"
  then show "set (held_blocks rs h) \<subseteq> dom (cells h)"
    using result_obj_live by (auto simp: held_wf_def held_blocks_def)
next
  fix rs h h'
  assume wf: "held_wf rs h" and s: "same_on (set (held_blocks rs h)) h h'"
  have "result_obj h' r \<and> result_blocks h' r = result_blocks h r" if "r \<in> set rs" for r
    using wf that s by (intro result_obj_frame) (auto simp: held_wf_def held_blocks_def same_on_def)
  then have "held_blocks rs h' = held_blocks rs h" and "\<forall>r \<in> set rs. result_obj h' r"
    by (auto simp: held_blocks_def cong: map_cong)
  with wf show "held_wf rs h' \<and> set (held_blocks rs h') = set (held_blocks rs h)"
    by (simp add: held_wf_def)
qed

section \<open>The parts\<close>

text \<open>The agent with the results that scripts hold.\<close>

type_synonym client = "addr list \<times> equus"

datatype part = Log_path | Results | Cache | Breakpoints | Conf | Held

primrec part_root :: "part \<Rightarrow> client \<Rightarrow> addr list" where
  "part_root Log_path c = [g_equus_log_path (snd c)]"
| "part_root Results c = [head (snd c)]"
| "part_root Cache c = [cache_head (snd c)]"
| "part_root Breakpoints c = [breakpoint_head (snd c)]"
| "part_root Conf c = [global_conf (snd c)]"
| "part_root Held c = fst c"

primrec part_wf :: "part \<Rightarrow> client \<Rightarrow> bool" where
  "part_wf Log_path c = path_wf (g_equus_log_path (snd c)) (heap (snd c))"
| "part_wf Results c = list_wf eqr_node (heap (snd c)) (head (snd c))"
| "part_wf Cache c = list_wf eql_node (heap (snd c)) (cache_head (snd c))"
| "part_wf Breakpoints c = list_wf bp_node (heap (snd c)) (breakpoint_head (snd c))"
| "part_wf Conf c = conf_part_wf (global_conf (snd c)) (heap (snd c))"
| "part_wf Held c = held_wf (fst c) (heap (snd c))"

primrec part_blocks :: "part \<Rightarrow> client \<Rightarrow> addr set" where
  "part_blocks Log_path c = {g_equus_log_path (snd c)} - {NULL}"
| "part_blocks Results c = set (owned (results (snd c)))"
| "part_blocks Cache c = set (owned (cached (snd c)))"
| "part_blocks Breakpoints c = set (owned (bps (snd c)))"
| "part_blocks Conf c = conf_blocks (snd c)"
| "part_blocks Held c = set (held_blocks (fst c) (heap (snd c)))"

lemma part_live: "part_wf P c \<Longrightarrow> heap_wf (heap (snd c)) \<Longrightarrow> part_blocks P c \<subseteq> dom (cells (heap (snd c)))"
  using log_owner.live eqr.list_owner.live eql.list_owner.live bp.list_owner.live
    conf_owner.live held_owner.live
  by (cases P) simp_all

lemma part_frame:
  assumes "part_wf P c" and "part_root P c' = part_root P c" and "heap_wf (heap (snd c))"
    and "heap_wf (heap (snd c'))" and "same_on (part_blocks P c) (heap (snd c)) (heap (snd c'))"
  shows "part_wf P c' \<and> part_blocks P c' = part_blocks P c"
  using assms log_owner.frame[of "g_equus_log_path (snd c)" "heap (snd c)" "heap (snd c')"]
    eqr.list_owner.frame[of "heap (snd c)" "head (snd c)" "heap (snd c')"]
    eql.list_owner.frame[of "heap (snd c)" "cache_head (snd c)" "heap (snd c')"]
    bp.list_owner.frame[of "heap (snd c)" "breakpoint_head (snd c)" "heap (snd c')"]
    conf_owner.frame[of "global_conf (snd c)" "heap (snd c)" "heap (snd c')"]
    held_owner.frame[of "fst c" "heap (snd c)" "heap (snd c')"]
  by (cases P) simp_all

section \<open>The invariant\<close>

definition client_wf :: "client \<Rightarrow> bool" where
  "client_wf c \<longleftrightarrow> log_wf (snd c) \<and> args_wf (snd c) \<and> \<not> resmtx (snd c) \<and> \<not> cachemtx (snd c) \<and>
     (\<forall>P. part_wf P c) \<and> (\<forall>P Q. P \<noteq> Q \<longrightarrow> part_blocks P c \<inter> part_blocks Q c = {})"

text \<open>The live blocks that no part owns: nobody can release them any more.\<close>

definition unowned :: "client \<Rightarrow> addr set" where
  "unowned c = dom (cells (heap (snd c))) - (\<Union>P. part_blocks P c)"

text \<open>
  An operation that owned the blocks \<open>A\<close> and leaves \<open>B\<close>: it keeps all others, and what it adds was
  not allocated before.
\<close>

definition transfer :: "addr set \<Rightarrow> addr set \<Rightarrow> heap \<Rightarrow> heap \<Rightarrow> bool" where
  "transfer A B h h' \<longleftrightarrow> same_on (dom (cells h) - A) h h' \<and>
     dom (cells h') = (dom (cells h) - A) \<union> B \<and> B \<inter> dom (cells h) \<subseteq> A"

lemma transfer_refl: "A \<subseteq> dom (cells h) \<Longrightarrow> transfer A A h h"
  by (auto simp: transfer_def)

lemma client_wfD:
  assumes "client_wf (held, s)"
  shows "log_wf s" "args_wf s" "\<not> resmtx s" "\<not> cachemtx s" "part_wf P (held, s)"
    and "P \<noteq> Q \<Longrightarrow> part_blocks P (held, s) \<inter> part_blocks Q (held, s) = {}"
    and "heap_wf (heap s)" and "part_blocks P (held, s) \<subseteq> dom (cells (heap s))"
proof -
  show w: "log_wf s" "args_wf s" "\<not> resmtx s" "\<not> cachemtx s" "part_wf P (held, s)"
    "P \<noteq> Q \<Longrightarrow> part_blocks P (held, s) \<inter> part_blocks Q (held, s) = {}"
    using assms by (simp_all add: client_wf_def)
  show h: "heap_wf (heap s)" using w(1) by (rule log_wf_heapD)
  show "part_blocks P (held, s) \<subseteq> dom (cells (heap s))"
    using part_live[OF w(5)] h by simp
qed

lemma disjoint_fresh: "X \<inter> A = {} \<Longrightarrow> X \<subseteq> D \<Longrightarrow> B \<inter> D \<subseteq> A \<Longrightarrow> X \<inter> B = {}"
  by blast

lemma disjoint_mono: "X \<inter> B = {} \<Longrightarrow> Y \<subseteq> B \<Longrightarrow> X \<inter> Y = {}"
  by blast

lemma UN_disjoint: "(\<And>P. P \<notin> S \<Longrightarrow> X P \<inter> B = {}) \<Longrightarrow> (\<Union>P \<in> - S. X P) \<inter> B = {}"
  by blast

lemma unowned_transfer:
  assumes "D' = (D - A) \<union> (B \<union> L)" and "(B \<union> L) \<inter> D \<subseteq> A"
    and "O1 = R \<union> A" and "O2 = R \<union> B" and "R \<inter> (B \<union> L) = {}" and "B \<inter> L = {}" and "A \<subseteq> D"
    and "U = D - O1" and "U' = D' - O2"
  shows "U' = U \<union> L \<and> U \<inter> L = {}"
  using assms by blast

text \<open>
  The frame rule: an operation on the parts \<open>Ps\<close> that loses the blocks \<open>L\<close> keeps the invariant, and
  those blocks are what it adds to the unowned ones.
\<close>

lemma client_step:
  assumes wf: "client_wf (held, s)"
    and globals: "log_wf s'" "args_wf s'" "\<not> resmtx s'" "\<not> cachemtx s'"
    and others: "\<And>P. P \<notin> Ps \<Longrightarrow> part_root P (held', s') = part_root P (held, s)"
    and t: "transfer (\<Union>P \<in> Ps. part_blocks P (held, s)) ((\<Union>P \<in> Ps. part_blocks P (held', s')) \<union> L)
      (heap s) (heap s')"
    and own: "\<And>P. P \<in> Ps \<Longrightarrow> part_wf P (held', s')"
    and apart: "\<And>P Q. P \<in> Ps \<Longrightarrow> Q \<in> Ps \<Longrightarrow> P \<noteq> Q \<Longrightarrow>
      part_blocks P (held', s') \<inter> part_blocks Q (held', s') = {}"
    and lost: "\<And>P. P \<in> Ps \<Longrightarrow> part_blocks P (held', s') \<inter> L = {}"
  shows "client_wf (held', s') \<and> unowned (held', s') = unowned (held, s) \<union> L \<and>
    unowned (held, s) \<inter> L = {}"
proof -
  let ?c = "(held, s)" and ?c' = "(held', s')"
  let ?A = "\<Union>P \<in> Ps. part_blocks P ?c" and ?B = "(\<Union>P \<in> Ps. part_blocks P ?c') \<union> L"
  note w = client_wfD[OF wf]
  from t have same: "same_on (dom (cells (heap s)) - ?A) (heap s) (heap s')"
    and dom: "dom (cells (heap s')) = (dom (cells (heap s)) - ?A) \<union> ?B"
    and fresh: "?B \<inter> dom (cells (heap s)) \<subseteq> ?A" by (simp_all add: transfer_def)
  have out: "part_blocks P ?c \<inter> ?A = {}" if "P \<notin> Ps" for P
    using w(6)[of P] that by (simp add: disjoint_iff) metis
  have keep: "part_wf P ?c' \<and> part_blocks P ?c' = part_blocks P ?c" if P: "P \<notin> Ps" for P
  proof (rule part_frame[OF w(5) others[OF P]])
    show "same_on (part_blocks P ?c) (heap (snd ?c)) (heap (snd ?c'))"
      using same_on_mono[OF same] w(8)[of P] out[OF P] by simp blast
  qed (use w(7) log_wf_heapD[OF globals(1)] in simp_all)
  have away: "part_blocks P ?c' \<inter> ?B = {}" if P: "P \<notin> Ps" for P
    unfolding conjunct2[OF keep[OF P]] by (rule disjoint_fresh[OF out[OF P] w(8) fresh])
  have "part_wf P ?c'" for P using own keep by (cases "P \<in> Ps") blast+
  moreover have "part_blocks P ?c' \<inter> part_blocks Q ?c' = {}" if PQ: "P \<noteq> Q" for P Q
  proof -
    have sub: "part_blocks R ?c' \<subseteq> ?B" if "R \<in> Ps" for R using that by blast
    consider "P \<in> Ps" "Q \<in> Ps" | "P \<in> Ps" "Q \<notin> Ps" | "P \<notin> Ps" "Q \<in> Ps" | "P \<notin> Ps" "Q \<notin> Ps" by blast
    then show ?thesis
    proof cases
      case 1 then show ?thesis using apart PQ by blast
    next
      case 2 then show ?thesis using disjoint_mono[OF away[of Q] sub[of P]] by (simp add: Int_commute)
    next
      case 3 then show ?thesis using disjoint_mono[OF away[of P] sub[of Q]] by simp
    next
      case 4 then show ?thesis using keep w(6)[OF PQ] by simp
    qed
  qed
  moreover have "unowned ?c' = unowned ?c \<union> L \<and> unowned ?c \<inter> L = {}"
  proof (rule unowned_transfer[OF dom fresh])
    show "(\<Union>P. part_blocks P ?c) = (\<Union>P \<in> - Ps. part_blocks P ?c) \<union> ?A" by blast
    show "(\<Union>P. part_blocks P ?c') = (\<Union>P \<in> - Ps. part_blocks P ?c) \<union> (\<Union>P \<in> Ps. part_blocks P ?c')"
    proof -
      have "(\<Union>P. part_blocks P ?c') = (\<Union>P \<in> - Ps. part_blocks P ?c') \<union> (\<Union>P \<in> Ps. part_blocks P ?c')" by blast
      moreover have "(\<Union>P \<in> - Ps. part_blocks P ?c') = (\<Union>P \<in> - Ps. part_blocks P ?c)"
        using keep by (intro SUP_cong) auto
      ultimately show ?thesis by simp
    qed
    show "(\<Union>P \<in> - Ps. part_blocks P ?c) \<inter> ?B = {}"
      using away keep by (intro UN_disjoint) simp
    show "(\<Union>P \<in> Ps. part_blocks P ?c') \<inter> L = {}" using lost by blast
    show "(\<Union>P \<in> Ps. part_blocks P ?c) \<subseteq> dom (cells (heap s))" using w(8) by blast
  qed (simp_all add: unowned_def)
  ultimately show ?thesis using globals by (simp add: client_wf_def)
qed

section \<open>Calls\<close>

datatype api =
    Push string int
  | Pop
  | Free addr
  | Store string string
  | Clear_cache
  | Load_config
  | Break string int
  | Unbreak string int
  | Unbreak_all
  | Log equus_log_level_e string
  | Rotate
  | Set_path "string option"
  | Set_level equus_log_level_e

fun api_call :: "build \<Rightarrow> api \<Rightarrow> client \<Rightarrow> client option" where
  "api_call b (Push bytes len) (held, s) = map_option (Pair held) (equus_push_result bytes len s)"
| "api_call b Pop (held, s) = do {
     (r, s) \<leftarrow> equus_pop_result s;
     Some (if r = NULL then held else r # held, s)
   }"
| "api_call b (Free r) (held, s) = map_option (Pair (remove1 r held)) (equus_free_result r s)"
| "api_call b (Store name d) (held, s) = map_option (\<lambda>(a, s). (held, s)) (cache_store name d s)"
| "api_call b Clear_cache (held, s) = map_option (Pair held) (equus_local_cache_clear s)"
| "api_call b Load_config (held, s) = map_option (\<lambda>(rv, s). (held, s)) (equus_load_config b s)"
| "api_call b (Break name line) (held, s) = map_option (Pair held) (breakpoint_add name line s)"
| "api_call b (Unbreak name line) (held, s) = map_option (Pair held) (breakpoint_clear name line s)"
| "api_call b Unbreak_all (held, s) = map_option (Pair held) (breakpoint_clearall s)"
| "api_call b (Log level str) (held, s) = map_option (Pair held) (equus_log level str s)"
| "api_call b Rotate (held, s) = map_option (\<lambda>(rv, s). (held, s)) (equus_log_rotate s)"
| "api_call b (Set_path path) (held, s) = map_option (\<lambda>(rv, s). (held, s)) (equus_log_set_path path s)"
| "api_call b (Set_level level) (held, s) = Some (held, equus_log_level_set level s)"

text \<open>
  A caller releases only a result that it has taken and not released yet, or the null pointer. The calls
  that will be shown to return are those for which, besides, the length fits the buffer, the newest
  breakpoint is not cleared by name, and the log does not go back to standard error.
\<close>

fun releases_held :: "api \<Rightarrow> client \<Rightarrow> bool" where
  "releases_held (Free r) c \<longleftrightarrow> r = NULL \<or> r \<in> set (fst c)"
| "releases_held _ c \<longleftrightarrow> True"

fun allowed :: "api \<Rightarrow> client \<Rightarrow> bool" where
  "allowed (Push bytes len) c \<longleftrightarrow> 0 \<le> len \<and> len \<le> int (length bytes)"
| "allowed (Free r) c \<longleftrightarrow> r = NULL \<or> r \<in> set (fst c)"
| "allowed (Unbreak name line) c \<longleftrightarrow> \<not> (\<exists>vs. breakpoints (snd c) = (cstr name, line) # vs)"
| "allowed (Set_path path) c \<longleftrightarrow> \<not> (to_stderr path \<and> g_equus_log_path (snd c) \<noteq> NULL)"
| "allowed _ c \<longleftrightarrow> True"

text \<open>The results a call takes from the list.\<close>

definition taken :: "api \<Rightarrow> client \<Rightarrow> nat" where
  "taken a c = (if a = Pop \<and> waiting (snd c) \<noteq> [] then 1 else 0)"

text \<open>The call returns, keeps the invariant and loses \<open>n\<close> blocks.\<close>

definition keeps :: "nat \<Rightarrow> client \<Rightarrow> client option \<Rightarrow> bool" where
  "keeps n c r \<longleftrightarrow> (\<exists>c' L. r = Some c' \<and> client_wf c' \<and> unowned c' = unowned c \<union> L \<and>
     unowned c \<inter> L = {} \<and> finite L \<and> card L = n)"

lemma keeps_0: "keeps 0 c r \<longleftrightarrow> (\<exists>c'. r = Some c' \<and> client_wf c' \<and> unowned c' = unowned c)"
  by (auto simp: keeps_def card_0_eq conj_commute cong: conj_cong)

lemma keeps_none: "client_wf c' \<and> unowned c' = unowned c \<Longrightarrow> keeps 0 c (Some c')"
  by (simp add: keeps_0)

lemma keeps_part:
  assumes wf: "client_wf (held, s)"
    and globals: "log_wf s'" "args_wf s'" "\<not> resmtx s'" "\<not> cachemtx s'"
    and others: "\<And>Q. Q \<noteq> P \<Longrightarrow> part_root Q (held', s') = part_root Q (held, s)"
    and t: "transfer (part_blocks P (held, s)) (part_blocks P (held', s')) (heap s) (heap s')"
    and own: "part_wf P (held', s')"
  shows "keeps 0 (held, s) (Some (held', s'))"
  using client_step[of held s s' "{P}" held' "{}"] assms by (intro keeps_none) simp

lemma keeps_same:
  assumes wf: "client_wf (held, s)"
    and globals: "log_wf s'" "args_wf s'" "\<not> resmtx s'" "\<not> cachemtx s'"
    and same: "\<And>P. part_root P (held, s') = part_root P (held, s)" "heap s' = heap s"
  shows "keeps 0 (held, s) (Some (held, s'))"
  using client_step[of held s s' "{}" held "{}"] assms transfer_refl[of "{}"]
  by (intro keeps_none) simp

lemma client_wf_path:
  assumes wf: "client_wf (held, s)" and "P \<noteq> Log_path"
  shows "g_equus_log_path s \<notin> part_blocks P (held, s)"
proof (cases "g_equus_log_path s = NULL")
  case True
  then show ?thesis using client_wfD(7,8)[OF wf] heap_wf_not_NULL by fastforce
next
  case False
  then show ?thesis using client_wfD(6)[OF wf assms(2)] by simp
qed

lemma client_wf_parts:
  assumes wf: "client_wf (held, s)"
  shows "results_wf s" "cache_wf s" "bp_wf s" "conf_wf s"
proof -
  note w = client_wfD[OF wf] and path = client_wf_path[OF wf]
  show "results_wf s" using w(1,3) w(5)[of Results] path[of Results] by (simp add: results_wf_def)
  show "cache_wf s" using w(1,4) w(5)[of Cache] path[of Cache] by (simp add: cache_wf_def)
  show "bp_wf s" using w(1) w(5)[of Breakpoints] path[of Breakpoints] by (simp add: bp_wf_def)
  show "conf_wf s" using w(2,7) w(5)[of Conf] by (simp add: conf_wf_def conf_part_wf_def)
qed

section \<open>Every call keeps the invariant\<close>

lemma args_wf_part [simp]:
  "args_wf (s\<lparr>resmtx := m\<rparr>) = args_wf s" "args_wf (s\<lparr>head := a\<rparr>) = args_wf s"
  "args_wf (s\<lparr>cachemtx := m\<rparr>) = args_wf s" "args_wf (s\<lparr>cache_head := a\<rparr>) = args_wf s"
  "args_wf (s\<lparr>breakpoint_head := a\<rparr>) = args_wf s" "args_wf (s\<lparr>g_equus_log_path := a\<rparr>) = args_wf s"
  "args_wf (s\<lparr>g_equus_log_level := l\<rparr>) = args_wf s" "args_wf (s\<lparr>g_equus_log_fp := f\<rparr>) = args_wf s"
  "args_wf (s\<lparr>streams := t\<rparr>) = args_wf s" "args_wf (s\<lparr>next_stream := n\<rparr>) = args_wf s"
  "args_wf (log_spec level str s) = args_wf s"
  by (simp_all add: args_wf_def arguments_def)

lemma keeps_log:
  assumes wf: "client_wf (held, s)"
  shows "keeps 0 (held, s) (Some (held, log_spec level str s))"
proof (rule keeps_same[OF wf])
  show "part_root P (held, log_spec level str s) = part_root P (held, s)" for P by (cases P) simp_all
qed (use client_wfD(1-4)[OF wf] in simp_all)

lemma transfer_grow:
  assumes "same_on (dom (cells h)) h h'" and "dom (cells h') = dom (cells h) \<union> N"
    and "N \<inter> dom (cells h) = {}" and "A \<subseteq> dom (cells h)"
  shows "transfer A (A \<union> N) h h'"
  using assms by (auto simp: transfer_def intro: same_on_mono)

lemma pushed_transfer:
  assumes "heap_wf h" and "A \<subseteq> dom (cells h)"
  shows "transfer A (A \<union> {brk h, Suc (brk h), Suc (Suc (brk h))}) h (pushed_heap v q h)"
  using heap_wf_ge[OF assms(1)] assms(2)
  by (intro transfer_grow pushed_heap_same[OF assms(1)]) (auto simp: pushed_heap_def)

lemma keeps_push:
  assumes wf: "client_wf (held, s)" and l: "0 \<le> len" "len \<le> int (length bytes)"
  shows "keeps 0 (held, s) (map_option (Pair held) (equus_push_result bytes len s))"
proof -
  note w = client_wfD[OF wf] and r = client_wf_parts(1)[OF wf]
  let ?v = "take (nat len) bytes" and ?b = "brk (heap s)"
  let ?s = "(log_spec EQUUS_LOG_INFO (pushing len) s)\<lparr>resmtx := False,
    heap := pushed_heap ?v (head s) (heap s), head := Suc (Suc ?b)\<rparr>"
  from push_results_wf[OF r l] equus_push_result_eq[OF r l] have r': "results_wf ?s" by auto
  have p: "results ?s = (Suc (Suc ?b), ?v, [?b, Suc ?b]) # results s"
    using pushed_results[OF w(7)] w(5)[of Results] by simp
  have "keeps 0 (held, s) (Some (held, ?s))"
  proof (rule keeps_part[OF wf, where P = Results])
    show "transfer (part_blocks Results (held, s)) (part_blocks Results (held, ?s)) (heap s) (heap ?s)"
    proof -
      have "part_blocks Results (held, ?s) = part_blocks Results (held, s) \<union> {?b, Suc ?b, Suc (Suc ?b)}"
        using p by auto
      moreover have "transfer (part_blocks Results (held, s))
          (part_blocks Results (held, s) \<union> {?b, Suc ?b, Suc (Suc ?b)}) (heap s) (heap ?s)"
        using pushed_transfer[OF w(7) w(8)[of Results]] by simp
      ultimately show ?thesis by simp
    qed
    show "part_root Q (held, ?s) = part_root Q (held, s)" if "Q \<noteq> Results" for Q using that by (cases Q) simp_all
    show "args_wf ?s" using w(2) by simp
  qed (use r' w(4) in \<open>simp_all add: results_wf_def\<close>)
  then show ?thesis by (simp add: equus_push_result_eq[OF r l])
qed

lemma keeps_store:
  assumes wf: "client_wf (held, s)"
  shows "keeps 0 (held, s) (map_option (\<lambda>(a, s). (held, s)) (cache_store name d s))"
proof -
  note w = client_wfD[OF wf] and c = client_wf_parts(2)[OF wf]
  from cache_store_wf[OF c] obtain a s' where st: "cache_store name d s = Some (a, s')" "cache_wf s'"
    and dom: "dom (cells (heap s')) = (dom (cells (heap s)) - set (owned (cached s))) \<union> set (owned (cached s'))"
    and same: "same_on (dom (cells (heap s))) (heap s) (heap s')"
    and fresh: "set (owned (cached s')) \<inter> dom (cells (heap s)) \<subseteq> set (owned (cached s))" by metis
  have s': "s' = s\<lparr>cachemtx := False, heap := heap s', cache_head := cache_head s'\<rparr>"
    using st(1) entry_push_new[OF c, of name d] entry_push_old[OF c, of name d]
    by (cases "cache_map s (cstr name) = None") auto
  have g: "args_wf s'" "\<not> resmtx s'" using w(2,3) by (subst s', simp)+
  have "keeps 0 (held, s) (Some (held, s'))"
  proof (rule keeps_part[OF wf, where P = Cache])
    show "transfer (part_blocks Cache (held, s)) (part_blocks Cache (held, s')) (heap s) (heap s')"
      using dom fresh same_on_mono[OF same] by (simp add: transfer_def)
    show "part_root Q (held, s') = part_root Q (held, s)" if "Q \<noteq> Cache" for Q
      using that by (cases Q) (subst s', simp)+
  qed (use st(2) g in \<open>simp_all add: cache_wf_def\<close>)
  then show ?thesis by (simp add: st(1))
qed


lemma transfer_release:
  "A = B \<union> R \<Longrightarrow> B \<inter> R = {} \<Longrightarrow> A \<subseteq> dom (cells h) \<Longrightarrow> transfer A B h (without R h)"
  by (auto simp: transfer_def same_on_def split: if_splits)

lemma keeps_clear_cache:
  assumes wf: "client_wf (held, s)"
  shows "keeps 0 (held, s) (map_option (Pair held) (equus_local_cache_clear s))"
proof -
  note w = client_wfD[OF wf] and c = client_wf_parts(2)[OF wf]
  let ?s = "s\<lparr>cachemtx := False, heap := without (set (owned (cached s))) (heap s), cache_head := NULL\<rparr>"
  from cache_clear_wf[OF c] have wf': "cache_wf ?s" "cached ?s = []" using cache_clear_eq[OF c] by auto
  have "keeps 0 (held, s) (Some (held, ?s))"
  proof (rule keeps_part[OF wf, where P = Cache])
    show "transfer (part_blocks Cache (held, s)) (part_blocks Cache (held, ?s)) (heap s) (heap ?s)"
      using transfer_release[OF _ _ w(8)[of Cache], of "{}"] wf'(2) by simp
    show "part_root Q (held, ?s) = part_root Q (held, s)" if "Q \<noteq> Cache" for Q using that by (cases Q) simp_all
  qed (use wf'(1) w(2,3) in \<open>simp_all add: cache_wf_def\<close>)
  then show ?thesis by (simp add: cache_clear_eq[OF c])
qed

lemma keeps_load:
  assumes wf: "client_wf (held, s)"
  shows "keeps 0 (held, s) (map_option (\<lambda>(rv, s). (held, s)) (equus_load_config b s))"
proof -
  note w = client_wfD[OF wf]
  from equus_load_config_loaded[OF client_wf_parts(4)[OF wf], of b] obtain rv s' where
    st: "equus_load_config b s = Some (rv, s')" and l: "loaded b s s'" by blast
  from l have s': "s' = s\<lparr>global_conf := global_conf s', heap := heap s', out_log := out_log s'\<rparr>"
    and c: "conf_wf s'" and t: "transfer (conf_blocks s) (conf_blocks s') (heap s) (heap s')"
    unfolding loaded_def transfer_def by blast+
  have path: "g_equus_log_path s \<notin> conf_blocks s"
    using client_wf_path[OF wf, of Conf] by simp
  have "cells (heap s') (g_equus_log_path s) = cells (heap s) (g_equus_log_path s)"
    if "g_equus_log_path s \<noteq> NULL"
    using t path log_wf_path_live[OF w(1) that] by (auto simp: transfer_def same_on_def)
  with w(1) c have "log_wf (s\<lparr>heap := heap s'\<rparr>)" by (intro log_wf_heap) (auto simp: conf_wf_def)
  then have g: "log_wf s'" by (subst s') (simp add: log_wf_def clock_ok_def current_files_def)
  have m: "\<not> resmtx s'" "\<not> cachemtx s'" using w(3,4) by (subst s', simp)+
  have "keeps 0 (held, s) (Some (held, s'))"
  proof (rule keeps_part[OF wf, where P = Conf])
    show "transfer (part_blocks Conf (held, s)) (part_blocks Conf (held, s')) (heap s) (heap s')"
      using t by simp
    show "part_root Q (held, s') = part_root Q (held, s)" if "Q \<noteq> Conf" for Q
      using that by (cases Q) (subst s', simp)+
  qed (use c g m in \<open>simp_all add: conf_wf_def conf_part_wf_def\<close>)
  then show ?thesis by (simp add: st)
qed

lemma keeps_break:
  assumes wf: "client_wf (held, s)"
  shows "keeps 0 (held, s) (map_option (Pair held) (breakpoint_add name line s))"
proof -
  note w = client_wfD[OF wf] and c = client_wf_parts(3)[OF wf]
  let ?b = "brk (heap s)" and ?h = "bp_added name line (breakpoint_head s) (heap s)"
  let ?s = "s\<lparr>heap := ?h, breakpoint_head := ?b\<rparr>"
  from breakpoint_add_wf[OF c, of name line] have wf': "bp_wf ?s"
    and b: "bps ?s = (?b, (cstr name, line), [Suc ?b]) # bps s" by (auto simp: breakpoint_add_eq)
  have "same_on (dom (cells (heap s))) (heap s) ?h"
    using w(7) by (auto simp: bp_added_def same_on_def dest: heap_wf_less)
  then have t: "transfer A (A \<union> {?b, Suc ?b}) (heap s) ?h" if "A \<subseteq> dom (cells (heap s))" for A
    using that heap_wf_ge[OF w(7)] by (intro transfer_grow) (auto simp: bp_added_def)
  have "keeps 0 (held, s) (Some (held, ?s))"
  proof (rule keeps_part[OF wf, where P = Breakpoints])
    show "transfer (part_blocks Breakpoints (held, s)) (part_blocks Breakpoints (held, ?s)) (heap s) (heap ?s)"
      using t[OF w(8)[of Breakpoints]] b by (simp add: Un_commute)
    show "part_root Q (held, ?s) = part_root Q (held, s)" if "Q \<noteq> Breakpoints" for Q using that by (cases Q) simp_all
  qed (use wf' w(2-4) in \<open>simp_all add: bp_wf_def\<close>)
  then show ?thesis by (simp add: breakpoint_add_eq)
qed

lemma keeps_unbreak:
  assumes wf: "client_wf (held, s)" and a: "\<not> (\<exists>vs. breakpoints s = (cstr name, line) # vs)"
  shows "keeps 0 (held, s) (map_option (Pair held) (breakpoint_clear name line s))"
proof (cases "breakpoints s")
  case Nil
  have "keeps 0 (held, s) (Some (held, s))" using wf by (simp add: keeps_none)
  then show ?thesis using breakpoint_clear_cases(1)[OF client_wf_parts(3)[OF wf] Nil] by simp
next
  case (Cons v vs)
  note w = client_wfD[OF wf]
  have "v \<noteq> (cstr name, line)" using a Cons by simp
  from breakpoint_clear_cases(3)[OF client_wf_parts(3)[OF wf] Cons this] obtain s' where
    st: "breakpoint_clear name line s = Some s'" and wf': "bp_wf s'" and s': "s' = s\<lparr>heap := heap s'\<rparr>"
    and t: "same_on (- set (owned (bps s))) (heap s) (heap s')"
      "dom (cells (heap s')) = dom (cells (heap s)) - set (owned (bps s)) \<union> set (owned (bps s'))"
      "set (owned (bps s')) \<subseteq> set (owned (bps s))" by blast
  have g: "args_wf s'" "\<not> resmtx s'" "\<not> cachemtx s'" using w(2-4) by (subst s', simp)+
  have "keeps 0 (held, s) (Some (held, s'))"
  proof (rule keeps_part[OF wf, where P = Breakpoints])
    show "transfer (part_blocks Breakpoints (held, s)) (part_blocks Breakpoints (held, s')) (heap s) (heap s')"
      using t by (auto simp: transfer_def same_on_def)
    show "part_root Q (held, s') = part_root Q (held, s)" if "Q \<noteq> Breakpoints" for Q
      by (cases Q) (subst s', simp)+
  qed (use wf' g in \<open>simp_all add: bp_wf_def\<close>)
  then show ?thesis by (simp add: st)
qed

lemma keeps_unbreak_all:
  assumes wf: "client_wf (held, s)"
  shows "keeps 0 (held, s) (map_option (Pair held) (breakpoint_clearall s))"
proof -
  note w = client_wfD[OF wf] and c = client_wf_parts(3)[OF wf]
  let ?s = "s\<lparr>heap := without (set (owned (bps s))) (heap s), breakpoint_head := NULL\<rparr>"
  have eq: "breakpoint_clearall s = Some ?s"
    using breakpoint_free_eq[OF bp_wfD(1-3)[OF c]] by (simp add: breakpoint_clearall_def)
  with breakpoint_clearall_wf[OF c] have wf': "bp_wf ?s" "bps ?s = []" by (auto simp: breakpoints_def)
  have "keeps 0 (held, s) (Some (held, ?s))"
  proof (rule keeps_part[OF wf, where P = Breakpoints])
    show "transfer (part_blocks Breakpoints (held, s)) (part_blocks Breakpoints (held, ?s)) (heap s) (heap ?s)"
      using transfer_release[OF _ _ w(8)[of Breakpoints], of "{}"] wf'(2) by simp
    show "part_root Q (held, ?s) = part_root Q (held, s)" if "Q \<noteq> Breakpoints" for Q using that by (cases Q) simp_all
  qed (use wf'(1) w(2-4) in \<open>simp_all add: bp_wf_def\<close>)
  then show ?thesis by (simp add: eq)
qed

lemma keeps_rotate_spec:
  assumes wf: "client_wf (held, s)"
  shows "keeps 0 (held, s) (Some (held, snd (rotate_spec s)))"
proof (rule keeps_same[OF wf])
  show "part_root P (held, snd (rotate_spec s)) = part_root P (held, s)" for P
    by (cases P) (auto simp: rotate_spec_def split: option.splits)
qed (use client_wfD(1-4)[OF wf] log_wf_rotate_spec[of s] in
     \<open>auto simp: rotate_spec_def split: option.splits\<close>)

lemma keeps_rotate:
  assumes wf: "client_wf (held, s)"
  shows "keeps 0 (held, s) (map_option (\<lambda>(rv, s). (held, s)) (equus_log_rotate s))"
  using keeps_rotate_spec[OF wf] equus_log_rotate_eq_spec[OF client_wfD(1)[OF wf]]
  by (cases "rotate_spec s") simp

lemma keeps_trans: "keeps 0 c (Some c') \<Longrightarrow> keeps 0 c' r \<Longrightarrow> keeps 0 c r"
  by (auto simp: keeps_0)

lemma keeps_with_path:
  assumes wf: "client_wf (held, s)"
  shows "keeps 0 (held, s) (Some (held, with_path p s))"
proof (rule keeps_part[OF wf, where P = Log_path])
  note w = client_wfD[OF wf]
  show l: "log_wf (with_path p s)" by (rule log_wf_with_path(1)[OF w(1)])
  then show "part_wf Log_path (held, with_path p s)" by (simp add: log_wf_def path_wf_def)
  have n: "cells (heap s) (brk (heap s)) = None" "brk (heap s) \<noteq> NULL" "g_equus_log_path s \<noteq> brk (heap s)"
    using heap_wf_fresh[OF w(7)] heap_wf_brk[OF w(7)] log_wf_with_path(3)[OF w(1)] by auto
  then show "transfer (part_blocks Log_path (held, s)) (part_blocks Log_path (held, with_path p s))
      (heap s) (heap (with_path p s))"
    using heap_wf_NULL[OF w(7)] by (auto simp: with_path_def transfer_def same_on_def)
  show "part_root Q (held, with_path p s) = part_root Q (held, s)" if "Q \<noteq> Log_path" for Q
    using that by (cases Q) (simp_all add: with_path_def)
qed (use client_wfD(2-4)[OF wf] in \<open>simp_all add: with_path_def\<close>)

lemma keeps_set_path:
  assumes wf: "client_wf (held, s)" and a: "\<not> (to_stderr path \<and> g_equus_log_path s \<noteq> NULL)"
  shows "keeps 0 (held, s) (map_option (\<lambda>(rv, s). (held, s)) (equus_log_set_path path s))"
proof (cases "to_stderr path")
  case True
  with a keeps_rotate_spec[OF wf] equus_log_set_path_stderr[OF client_wfD(1)[OF wf] True]
  show ?thesis by (simp add: case_prod_unfold)
next
  case False
  then obtain p where p: "path = Some p" "\<not> streq p ''-''" by (cases path) auto
  from keeps_with_path[OF wf, of p] have k: "keeps 0 (held, s) (Some (held, with_path p s))" .
  then have "client_wf (held, with_path p s)" by (auto simp: keeps_def)
  from keeps_trans[OF k keeps_rotate_spec[OF this]] equus_log_set_path_file[OF client_wfD(1)[OF wf] p(2)]
  show ?thesis by (simp add: p(1) case_prod_unfold)
qed

lemma keeps_level:
  assumes wf: "client_wf (held, s)"
  shows "keeps 0 (held, s) (Some (held, equus_log_level_set level s))"
proof (rule keeps_same[OF wf])
  show "part_root P (held, equus_log_level_set level s) = part_root P (held, s)" for P
    by (cases P) (simp_all add: equus_log_level_set_def)
qed (use client_wfD(1-4)[OF wf] in \<open>simp_all add: equus_log_level_set_def\<close>)

text \<open>A popped result passes to the script that holds it; its list node is lost.\<close>

lemma keeps_pop:
  assumes wf: "client_wf (held, s)" and v: "waiting s = v # vs"
  shows "keeps 1 (held, s) (api_call b Pop (held, s))"
proof -
  note w = client_wfD[OF wf] and c = client_wf_parts(1)[OF wf]
  from pop_shape[OF c v] obtain r d s' where p: "equus_pop_result s = Some (r, s')"
    and s': "s' = s\<lparr>head := head s'\<rparr>" and r: "results s = (head s, v, [r, d]) # results s'"
    and l: "list_wf eqr_node (heap s) (head s')"
    and g: "get_result (heap s) r = Some \<lparr>res_data = d, res_length = int (length v)\<rparr>"
      "get_chars (heap s) d = Some (v @ [NUL])" .
  have h: "heap s' = heap s" and glob: "log_wf s'" "args_wf s'" "\<not> resmtx s'" "\<not> cachemtx s'"
    using w(1-4) by (subst s', simp)+
  have hb: "held_blocks (r # held) (heap s) = [r, d] @ held_blocks held (heap s)"
    using g by (simp add: held_blocks_def result_blocks_def)
  have dist: "distinct (owned (results s))" using w(5)[of Results] by (simp add: list_wf_def)
  have apart: "set (owned (results s)) \<inter> set (held_blocks held (heap s)) = {}"
    using w(6)[of Results Held] by simp
  have "client_wf (r # held, s') \<and> unowned (r # held, s') = unowned (held, s) \<union> {head s} \<and>
    unowned (held, s) \<inter> {head s} = {}"
  proof (rule client_step[OF wf glob, where Ps = "{Results, Held}"])
    fix P assume "P \<notin> {Results, Held}"
    then show "part_root P (r # held, s') = part_root P (held, s)" by (cases P) (subst s', simp)+
  next
    have "(\<Union>P \<in> {Results, Held}. part_blocks P (r # held, s')) \<union> {head s} =
        (\<Union>P \<in> {Results, Held}. part_blocks P (held, s))"
      using r hb by (auto simp: h)
    then show "transfer (\<Union>P \<in> {Results, Held}. part_blocks P (held, s))
        ((\<Union>P \<in> {Results, Held}. part_blocks P (r # held, s')) \<union> {head s}) (heap s) (heap s')"
      unfolding h using w(8)[of Results] w(8)[of Held] by (simp add: transfer_refl)
  next
    fix P assume "P \<in> {Results, Held}"
    moreover have "part_wf Results (r # held, s')" using l h by simp
    moreover have "part_wf Held (r # held, s')"
      using w(5)[of Held] dist apart r hb g by (auto simp: h held_wf_def result_obj_def)
    ultimately show "part_wf P (r # held, s')" by blast
    show "part_blocks P (r # held, s') \<inter> {head s} = {}"
      using \<open>P \<in> _\<close> dist apart r hb by (auto simp: h)
  next
    fix P Q assume "P \<in> {Results, Held}" "Q \<in> {Results, Held}" "P \<noteq> Q"
    then show "part_blocks P (r # held, s') \<inter> part_blocks Q (r # held, s') = {}"
      using dist apart r hb by (auto simp: h)
  qed
  moreover have "r \<noteq> NULL" using get_dom(2)[OF g(1)] heap_wf_not_NULL[OF w(7)] by blast
  ultimately show ?thesis using p by (force simp: keeps_def)
qed

text \<open>Releasing a held result releases its two blocks.\<close>

lemma keeps_free:
  assumes wf: "client_wf (held, s)" and r: "r \<in> set held"
  shows "keeps 0 (held, s) (map_option (Pair (remove1 r held)) (equus_free_result r s))"
proof -
  note w = client_wfD[OF wf]
  have hw: "held_wf held (heap s)" using w(5)[of Held] by simp
  from split_list_first[OF r] obtain xs ys where h: "held = xs @ r # ys" "r \<notin> set xs" by blast
  then have rm: "remove1 r held = xs @ ys" by (simp add: remove1_append)
  from hw r obtain d v where g: "get_result (heap s) r = Some \<lparr>res_data = d, res_length = int (length v)\<rparr>"
    "get_chars (heap s) d = Some (v @ [NUL])" by (auto simp: held_wf_def result_obj_def)
  have live: "r \<in> dom (cells (heap s))" "d \<in> dom (cells (heap s))" using g by (auto dest: get_dom)
  then have nn: "r \<noteq> NULL" "d \<noteq> NULL" using heap_wf_not_NULL[OF w(7)] by blast+
  let ?H = "\<lambda>rs. held_blocks rs (heap s)" and ?h = "without {r, d} (heap s)"
  have split: "?H held = ?H xs @ [r, d] @ ?H ys" using g by (simp add: h held_blocks_def result_blocks_def)
  then have dist: "distinct (?H xs @ [r, d] @ ?H ys)" using hw by (simp add: held_wf_def)
  have sub: "held_wf (xs @ ys) (heap s)" using hw dist by (auto simp: held_wf_def h held_blocks_def)
  have "same_on (set (?H (xs @ ys))) (heap s) ?h"
    using dist by (auto simp: same_on_def held_blocks_def)
  from held_owner.frame[OF sub w(7) heap_wf_without[OF w(7)] this]
  have f: "held_wf (xs @ ys) ?h" "set (held_blocks (xs @ ys) ?h) = set (?H (xs @ ys))" by auto
  let ?s = "s\<lparr>heap := ?h\<rparr>"
  have "r \<noteq> d" using dist by simp
  then have "(cells (heap s))(d := None, r := None) = cells ?h" by (auto simp: fun_eq_iff)
  then have eq: "equus_free_result r s = Some ?s"
    using g(1) live nn \<open>r \<noteq> d\<close> by (simp add: equus_free_result_def free_eq without_def)
  have p: "g_equus_log_path s \<notin> {r, d}" using client_wf_path[OF wf, of Held] split by auto
  have "keeps 0 (held, s) (Some (xs @ ys, ?s))"
  proof (rule keeps_part[OF wf, where P = Held])
    show "log_wf ?s" using w(1,7) p by (intro log_wf_heap) auto
    show "transfer (part_blocks Held (held, s)) (part_blocks Held (xs @ ys, ?s)) (heap s) (heap ?s)"
    proof -
      have "set (?H held) = set (?H (xs @ ys)) \<union> {r, d}" and "set (?H (xs @ ys)) \<inter> {r, d} = {}"
        using split dist by (auto simp: held_blocks_def)
      from transfer_release[OF this] w(8)[of Held] f(2) show ?thesis by simp
    qed
    show "part_root Q (xs @ ys, ?s) = part_root Q (held, s)" if "Q \<noteq> Held" for Q using that by (cases Q) simp_all
  qed (use w(2-4) f(1) in simp_all)
  then show ?thesis by (simp add: eq rm)
qed

lemma held_not_NULL:
  assumes "client_wf (held, s)"
  shows "NULL \<notin> set held"
proof
  assume "NULL \<in> set held"
  then have "NULL \<in> dom (cells (heap s))"
    using client_wfD(5)[OF assms, of Held] get_dom(2) by (fastforce simp: held_wf_def result_obj_def)
  then show False using heap_wf_not_NULL[OF client_wfD(7)[OF assms]] by blast
qed

lemma free_NULL_call:
  assumes "client_wf (held, s)"
  shows "api_call b (Free NULL) (held, s) = Some (held, s)"
  using held_not_NULL[OF assms] by (simp add: equus_free_result_def remove1_idem)

text \<open>A result that has been released cannot be released again.\<close>

lemma free_twice:
  assumes "equus_free_result r s = Some s'" and "r \<noteq> NULL"
  shows "equus_free_result r s' = None"
proof -
  from assms obtain h where "free r h = Some (heap s')" by (auto simp: equus_free_result_def split: bind_splits)
  then have "heap s' = h\<lparr>cells := (cells h)(r := None)\<rparr>" using assms(2) by (simp add: free_def split: if_splits)
  then have "r \<notin> dom (cells (heap s'))" by simp
  then have "get_result (heap s') r = None" using get_dom(2)[of "heap s'" r] by (cases "get_result (heap s') r") auto
  then show ?thesis using assms(2) by (simp add: equus_free_result_def)
qed

text \<open>All calls.\<close>

lemma api_call_keeps:
  assumes "client_wf c" and "allowed a c"
  shows "keeps (taken a c) c (api_call b a c)"
proof -
  obtain held s where c: "c = (held, s)" by (cases c)
  show ?thesis
  proof (cases a)
    case Pop
    show ?thesis
    proof (cases "waiting s")
      case Nil
      with assms c pop_empty[OF client_wf_parts(1)] show ?thesis
        by (simp add: Pop taken_def keeps_none)
    next
      case (Cons v vs)
      with assms c keeps_pop show ?thesis by (simp add: Pop taken_def)
    qed
  next
    case (Log level str)
    with assms(1) have "log_ok s" using client_wfD(1) by (auto simp: c)
    with assms(1) Log keeps_log show ?thesis by (simp add: c taken_def equus_log_eq_spec)
  next
    case (Free r)
    then show ?thesis
    proof (cases "r = NULL")
      case True
      with assms(1) free_NULL_call[of held s b] Free show ?thesis
        by (simp add: c taken_def keeps_none del: api_call.simps)
    qed (use assms keeps_free[of held s r] Free in \<open>simp add: c taken_def\<close>)
  qed (use assms in \<open>simp_all add: c taken_def keeps_push keeps_store keeps_clear_cache
      keeps_load keeps_break keeps_unbreak keeps_unbreak_all keeps_rotate keeps_set_path keeps_level\<close>)
qed

section \<open>Reachable states\<close>

text \<open>
  The states that calls lead to from the start of the program: any call may follow that returns, and
  only results that are held are released; the number counts the results taken so far. At the start the globals have their initial values
  and \<open>main\<close> has stored the arguments.
\<close>

definition program_start ::
  "(string \<Rightarrow> bool) \<Rightarrow> (string \<rightharpoonup> string) \<Rightarrow> (nat \<Rightarrow> string) \<Rightarrow> (int \<Rightarrow> string) \<Rightarrow> string list \<Rightarrow> client" where
  "program_start app files clk err argv =
     ([], equus_set_argv (int (length argv)) argv (equus_init app files clk err))"

inductive reachable :: "build \<Rightarrow> client \<Rightarrow> nat \<Rightarrow> client \<Rightarrow> bool" for b c0 where
  start: "reachable b c0 0 c0"
| call: "reachable b c0 n c \<Longrightarrow> releases_held a c \<Longrightarrow> api_call b a c = Some c' \<Longrightarrow>
    reachable b c0 (n + taken a c) c'"

lemma client_wf_program_start:
  assumes "\<forall>n. length (clk n) = 25 \<and> is_cstr (clk n)" and "\<forall>a \<in> set argv. is_cstr a"
  shows "client_wf (program_start app files clk err argv)" and "unowned (program_start app files clk err argv) = {}"
proof -
  let ?s = "equus_set_argv (int (length argv)) argv (equus_init app files clk err)"
  have "log_wf ?s" using log_wf_init[OF assms(1)] by (simp add: equus_set_argv_def)
  moreover have "args_wf ?s" using assms(2) by (simp add: equus_set_argv_def args_wf_def arguments_def)
  moreover have "part_wf P ([], ?s) \<and> part_blocks P ([], ?s) = {}" for P
    by (cases P) (simp_all add: equus_set_argv_def equus_init_def path_wf_def conf_part_wf_def held_wf_def
        held_blocks_def list_wf_def entries_def conf_owned_def get_conf_def)
  ultimately show "client_wf (program_start app files clk err argv)"
    by (simp add: client_wf_def program_start_def) (simp add: equus_set_argv_def equus_init_def)
  show "unowned (program_start app files clk err argv) = {}"
    by (simp add: unowned_def program_start_def equus_set_argv_def equus_init_def)
qed

text \<open>The calls that break \<open>allowed\<close> have no defined result, apart from the release of what is not held.\<close>

lemma not_allowed_undefined:
  assumes wf: "client_wf c" and "\<not> allowed a c" and "releases_held a c"
  shows "api_call b a c = None"
proof -
  obtain held s where c: "c = (held, s)" by (cases c)
  with wf have wf: "client_wf (held, s)" by simp
  have "log_ok s" using client_wfD(1)[OF wf] by blast
  then show ?thesis
    using assms(2,3) breakpoint_clear_cases(2)[OF client_wf_parts(3)[OF wf]]
      equus_push_result_bad_length[of s] equus_log_set_path_stderr[OF client_wfD(1)[OF wf]]
    by (cases a) (auto simp: c not_le)
qed

lemma reachable_invariant:
  assumes "reachable b c0 n c" and "client_wf c0" and "unowned c0 = {}"
  shows "client_wf c \<and> finite (unowned c) \<and> card (unowned c) = n"
  using assms(1)
proof induction
  case start
  then show ?case using assms by simp
next
  case (call n c a c')
  then have "allowed a c" using not_allowed_undefined[of c a b] by auto
  with call obtain L where L: "client_wf c'" "unowned c' = unowned c \<union> L" "unowned c \<inter> L = {}"
    "finite L" "card L = taken a c"
    using api_call_keeps[of c a b] by (auto simp: keeps_def)
  then show ?case using call.IH by (simp add: card_Un_disjoint)
qed

section \<open>Properties\<close>

text \<open>
  (C2) Along every sequence of calls of the scripts, the signal handlers and the debugger from the start of
  the program, in whatever order, in which each call returns and only results that are held are
  released: the two lists, the cache, the breakpoints, the configuration and the log file stay well
  formed, no block belongs to two of them, and exactly one block is lost for each result taken from the
  list.
\<close>

theorem reachable_states_well_formed:
  assumes "\<forall>n. length (clk n) = 25 \<and> is_cstr (clk n)" and "\<forall>a \<in> set argv. is_cstr a"
    and "reachable b (program_start app files clk err argv) n c"
  shows "client_wf c \<and> card (unowned c) = n"
  using reachable_invariant[OF assms(3) client_wf_program_start[OF assms(1,2)]] by simp_all

definition example_start :: client where
  "example_start = program_start (\<lambda>_. True) Map.empty epoch (\<lambda>_. ''error'') [''agent'']"

lemma example_wf: "client_wf example_start"
  unfolding example_start_def by (rule client_wf_program_start) (simp_all add: epoch_ok)

lemma example_taken: "\<exists>c. reachable example_build example_start 1 c"
proof -
  obtain held s where c: "example_start = (held, s)" by (cases example_start)
  note r = client_wf_parts(1)[OF example_wf[unfolded c]]
  have "allowed (Push ''hi'' 2) example_start" by simp
  from api_call_keeps[OF example_wf this, of example_build] obtain c1 where
    c1: "api_call example_build (Push ''hi'' 2) example_start = Some c1" "client_wf c1"
    unfolding keeps_def by blast
  from reachable.call[OF reachable.start _ c1(1)]
  have 1: "reachable example_build example_start 0 c1" by (simp add: taken_def)
  have "0 \<le> (2 :: int)" "2 \<le> int (length ''hi'')" by simp_all
  from push_results_wf[OF r this] obtain s1 where "equus_push_result ''hi'' 2 s = Some s1"
    "waiting s1 = take (nat 2) ''hi'' # waiting s" by metis
  then have "waiting (snd c1) \<noteq> []" using c1(1) by (auto simp: c)
  moreover from api_call_keeps[OF c1(2), of Pop example_build] obtain c2 where
    "api_call example_build Pop c1 = Some c2" unfolding keeps_def by auto
  ultimately have "reachable example_build example_start 1 c2"
    using reachable.call[OF 1, of Pop c2] by (simp add: taken_def)
  then show ?thesis by blast
qed

theorem reachable_states_well_formed_witness:
  "\<exists>c. reachable example_build example_start 1 c \<and> client_wf c \<and> card (unowned c) = 1"
proof -
  from example_taken obtain c where c: "reachable example_build example_start 1 c" ..
  have "\<forall>n. length (epoch n) = 25 \<and> is_cstr (epoch n)" and "\<forall>a \<in> set [''agent'']. is_cstr a"
    by (simp_all add: epoch_ok)
  from reachable_states_well_formed[OF this c[unfolded example_start_def]] c show ?thesis by blast
qed

text \<open>
  (C3) In every state that is reachable in this way a call that is not a release returns, unless it pushes
  with a length beyond the buffer, clears the newest breakpoint by name or sends the log back to standard
  error; these three have no defined result. A result that is held can be released, once: releasing it a
  second time has no defined result. Releasing the null pointer does nothing.
\<close>

theorem calls_defined_iff_allowed:
  assumes "\<forall>n. length (clk n) = 25 \<and> is_cstr (clk n)" and "\<forall>a \<in> set argv. is_cstr a"
    and "reachable b (program_start app files clk err argv) n c"
  shows "((\<forall>r. a \<noteq> Free r) \<longrightarrow> (api_call b a c = None \<longleftrightarrow>
      (\<exists>bytes len. a = Push bytes len \<and> (len < 0 \<or> int (length bytes) < len)) \<or>
      (\<exists>name line vs. a = Unbreak name line \<and> breakpoints (snd c) = (cstr name, line) # vs) \<or>
      (\<exists>path. a = Set_path path \<and> to_stderr path \<and> g_equus_log_path (snd c) \<noteq> NULL))) \<and>
    (\<forall>r \<in> set (fst c). \<exists>c'. api_call b (Free r) c = Some c' \<and> api_call b (Free r) c' = None) \<and>
    api_call b (Free NULL) c = Some c"
proof -
  obtain held s where c: "c = (held, s)" by (cases c)
  have wf: "client_wf c"
    using reachable_invariant[OF assms(3) client_wf_program_start[OF assms(1,2)]] by simp
  have ret: "\<exists>c'. api_call b a c = Some c'" if "allowed a c" for a
    using api_call_keeps[OF wf that, of b] unfolding keeps_def by blast
  have "api_call b a c = None \<longleftrightarrow> \<not> allowed a c" if n: "\<forall>r. a \<noteq> Free r"
  proof (cases "allowed a c")
    case False
    moreover have "releases_held a c" using n by (cases a) simp_all
    ultimately show ?thesis using not_allowed_undefined[OF wf, of a b] by simp
  qed (use ret[of a] in auto)
  moreover have "\<not> allowed a c \<longleftrightarrow>
      (\<exists>bytes len. a = Push bytes len \<and> (len < 0 \<or> int (length bytes) < len)) \<or>
      (\<exists>name line vs. a = Unbreak name line \<and> breakpoints (snd c) = (cstr name, line) # vs) \<or>
      (\<exists>path. a = Set_path path \<and> to_stderr path \<and> g_equus_log_path (snd c) \<noteq> NULL)" if "\<forall>r. a \<noteq> Free r"
    using that by (cases a) (auto simp: not_le)
  moreover have "\<exists>c'. api_call b (Free r) c = Some c' \<and> api_call b (Free r) c' = None" if r: "r \<in> set (fst c)" for r
  proof -
    from ret[of "Free r"] r obtain s' where s': "equus_free_result r s = Some s'" by (auto simp: c)
    have "r \<noteq> NULL" using held_not_NULL[of held s] wf r by (metis c fst_conv)
    with s' free_twice[OF s'] show ?thesis by (simp add: c)
  qed
  moreover have "api_call b (Free NULL) c = Some c" using free_NULL_call[of held s b] wf by (simp add: c)
  ultimately show ?thesis by (intro conjI impI ballI) simp_all
qed

theorem calls_defined_iff_allowed_witness:
  "(\<exists>c'. api_call example_build Load_config example_start = Some c') \<and>
   api_call example_build (Push ''ab'' 3) example_start = None"
proof -
  have e: "\<forall>n. length (epoch n) = 25 \<and> is_cstr (epoch n)" "\<forall>a \<in> set [''agent'']. is_cstr a"
    by (simp_all add: epoch_ok)
  have "reachable example_build example_start 0 example_start" by (rule reachable.start)
  note p = calls_defined_iff_allowed[OF e this[unfolded example_start_def], folded example_start_def]
  show ?thesis using p[of Load_config] p[of "Push ''ab'' 3"] by (simp del: api_call.simps)
qed

end
