(* ===== verification/Equus_Stackwalk.thy ===== *)
theory Equus_Stackwalk
  imports Equus_Debugger
begin

text \<open>
  The stack backtrace of the Lua debugger (\<open>luahook_stackwalk\<close>): each frame is described in one
  buffer of 128 kilobytes, which the calls of \<open>snprintfcat\<close> fill piece by piece, and then logged.
  The activation records that \<open>lua_getstack\<close> and \<open>lua_getinfo\<close> give are a list, with
  \<^term>\<open>None\<close> where \<open>lua_getinfo\<close> fails.
\<close>

section \<open>The buffer\<close>

abbreviation scratch_size :: nat where
  "scratch_size \<equiv> 131072"

type_synonym cursor = "string \<times> nat \<times> nat"

text \<open>
  \<open>vsnprintf\<close> into the rest of the buffer, then the pointer and the length are advanced by what
  it returned, which is the full length of the text; the length is a \<open>size_t\<close>.
\<close>

definition snprintfcat :: "string \<Rightarrow> cursor \<Rightarrow> (cursor \<times> nat) option" where
  "snprintfcat text cur =
     (let (buf, ptr, len) = cur; bw = length text
      in do {
        buf \<leftarrow> (if len = 0 then Some buf else memcpy buf ptr (take (len - 1) text @ [NUL]));
        Some ((buf, ptr + bw, (len + 2 ^ 64 - bw) mod 2 ^ 64), bw)
      })"

definition cat :: "string \<Rightarrow> cursor \<Rightarrow> cursor option" where
  "cat text cur = map_option fst (snprintfcat text cur)"

primrec cat_spaces :: "nat \<Rightarrow> cursor \<Rightarrow> cursor option" where
  "cat_spaces 0 cur = Some cur"
| "cat_spaces (Suc n) cur = do { cur \<leftarrow> cat '' '' cur; cat_spaces n cur }"

definition retvalString :: "string option \<Rightarrow> lua_State \<Rightarrow> lua_State" where
  "retvalString str L = (case str of None \<Rightarrow> lua_pushnil L | Some p \<Rightarrow> lua_pushstring (Some p) L)"

section \<open>The walk\<close>

text \<open>Where the code of a frame is; \<open>%s\<close> of a null name has no defined result.\<close>

definition cat_place :: "lua_Debug \<Rightarrow> cursor \<Rightarrow> cursor option" where
  "cat_place ar cur =
     (if streq (ar_what ar) ''C'' then cat ''in native code'' cur
      else if streq (ar_what ar) ''tail'' then cat ''in Lua code'' cur
      else if streq (ar_source ar) ''=?'' \<and> ar_currentline ar = 0
      then cat ''in Lua code (debug info stripped)'' cur
      else do {
        cur \<leftarrow> cat (''in Lua code at '' @ ar_short_src ar) cur;
        cur \<leftarrow> (if ar_currentline ar \<noteq> -1 then cat ('':'' @ show_int (ar_currentline ar)) cur else Some cur);
        name \<leftarrow> ar_name ar;
        cat ('' '' @ name @ ''()'') cur
      })"

definition walk_frame :: "nat \<Rightarrow> lua_Debug option \<Rightarrow> string \<Rightarrow> equus \<Rightarrow> (string \<times> equus) option" where
  "walk_frame i info buf s = do {
     (cur, bw) \<leftarrow> snprintfcat (''#'' @ show_int (int i - 1)) (buf, 0, scratch_size);
     cur \<leftarrow> cat_spaces (4 - bw) cur;
     (case info of
        None \<Rightarrow> do {
          cur \<leftarrow> cat (''???'' @ [LF]) cur;
          s \<leftarrow> logDbg (cstr (fst cur)) s;
          Some (fst cur, s)
        }
      | Some ar \<Rightarrow> do {
          cur \<leftarrow> (if ar_namewhat ar \<noteq> [] then cat (ar_namewhat ar @ '' '') cur else Some cur);
          cur \<leftarrow> (case ar_name ar of
                    Some n \<Rightarrow> if n \<noteq> [] then cat (''function '' @ n @ '' ()'') cur
                             else cat (if streq (ar_what ar) ''main'' then ''mainline of chunk''
                                       else if streq (ar_what ar) ''tail'' then ''tail call''
                                       else ''unidentifiable function'') cur
                  | None \<Rightarrow> cat (if streq (ar_what ar) ''main'' then ''mainline of chunk''
                                 else if streq (ar_what ar) ''tail'' then ''tail call''
                                 else ''unidentifiable function'') cur);
          let cur = (fst cur, 0, scratch_size);
          cur \<leftarrow> cat_spaces 4 cur;
          cur \<leftarrow> cat_place ar cur;
          s \<leftarrow> logDbg (cstr (fst cur)) s;
          Some (fst cur, s)
        })
   }"

primrec walk_frames :: "nat \<Rightarrow> lua_Debug option list \<Rightarrow> string \<Rightarrow> equus \<Rightarrow> (string \<times> equus) option" where
  "walk_frames i [] buf s = Some (buf, s)"
| "walk_frames i (f # fs) buf s = do { (buf, s) \<leftarrow> walk_frame i f buf s; walk_frames (Suc i) fs buf s }"

definition luahook_stackwalk ::
  "(real \<Rightarrow> string) \<Rightarrow> lua_Debug option list \<Rightarrow> string \<Rightarrow> lua_State \<Rightarrow> equus \<Rightarrow>
   (lua_result \<times> lua_State \<times> string \<times> equus) option" where
  "luahook_stackwalk num_text frames buf L s = do {
     (errstr, L) \<leftarrow> lua_tolstring num_text 1 L;
     s \<leftarrow> (case errstr of None \<Rightarrow> Some s | Some e \<Rightarrow> logDbg (cstr e) s);
     s \<leftarrow> logDbg ''Lua stack backtrace:'' s;
     (buf, s) \<leftarrow> walk_frames 1 frames buf s;
     Some (Results 1, retvalString (Some (case errstr of None \<Rightarrow> [] | Some e \<Rightarrow> e)) L, buf, s)
   }"

section \<open>What the buffer holds\<close>

text \<open>The buffer after the pieces \<open>pre\<close>, with room for more.\<close>

definition filled :: "string \<Rightarrow> cursor \<Rightarrow> bool" where
  "filled pre cur \<longleftrightarrow> (case cur of (buf, ptr, len) \<Rightarrow>
     length buf = scratch_size \<and> ptr = length pre \<and> ptr < scratch_size \<and> len = scratch_size - ptr \<and>
     take ptr buf = pre \<and> (pre \<noteq> [] \<longrightarrow> buf ! ptr = NUL))"

lemma filled_start: "length buf = scratch_size \<Longrightarrow> filled [] (buf, 0, scratch_size)"
  by (simp add: filled_def)

lemma snprintfcat_filled:
  assumes "filled pre cur" and "length pre + length text < scratch_size" and "text \<noteq> []"
  shows "\<exists>cur'. snprintfcat text cur = Some (cur', length text) \<and> filled (pre @ text) cur'"
proof -
  obtain buf ptr len where cur: "cur = (buf, ptr, len)" by (metis prod.exhaust)
  from assms(1) cur have f: "length buf = scratch_size" "ptr = length pre" "ptr < scratch_size"
    "len = scratch_size - ptr" "take ptr buf = pre" by (auto simp: filled_def)
  have t: "take (len - 1) text = text" using assms(2) f by simp
  obtain buf' where b: "memcpy buf ptr (text @ [NUL]) = Some buf'" "length buf' = length buf"
    "take (ptr + length (text @ [NUL])) buf' = pre @ text @ [NUL]"
    using memcpy_after[OF f(5), of "text @ [NUL]"] assms(2) f(1,2) by auto
  have len: "(len + 2 ^ 64 - length text) mod 2 ^ 64 = len - length text"
    using assms(2) f(2,4) by (simp add: mod_if)
  have "take (ptr + length text) buf' = take (ptr + length text) (take (ptr + length (text @ [NUL])) buf')"
    by simp
  also have "\<dots> = pre @ text" unfolding b(3) using f(2) by simp
  finally have tk: "take (ptr + length text) buf' = pre @ text" .
  have "buf' ! (ptr + length text) = take (ptr + length (text @ [NUL])) buf' ! (ptr + length text)" by simp
  also have "\<dots> = NUL" unfolding b(3) using f(2) by (simp add: nth_append)
  finally have nul: "buf' ! (ptr + length text) = NUL" .
  have "snprintfcat text cur = Some ((buf', ptr + length text, len - length text), length text)"
    using cur b(1) t len f(2,3,4) by (simp add: snprintfcat_def Let_def)
  moreover have "filled (pre @ text) (buf', ptr + length text, len - length text)"
    using b(2) f tk nul assms(2) by (simp add: filled_def)
  ultimately show ?thesis by blast
qed

lemma cat_filled:
  "filled pre cur \<Longrightarrow> length (pre @ text) < scratch_size \<Longrightarrow> text \<noteq> [] \<Longrightarrow>
   \<exists>cur'. cat text cur = Some cur' \<and> filled (pre @ text) cur'"
  using snprintfcat_filled[of pre cur "text"] by (auto simp: cat_def)

lemma cat_spaces_filled:
  "filled pre cur \<Longrightarrow> length pre + n < scratch_size \<Longrightarrow>
   \<exists>cur'. cat_spaces n cur = Some cur' \<and> filled (pre @ replicate n CHR '' '') cur'"
proof (induction n arbitrary: pre cur)
  case (Suc n)
  from cat_filled[OF Suc.prems(1), of "'' ''"] Suc.prems(2) obtain c where
    "cat '' '' cur = Some c" "filled (pre @ '' '') c" by auto
  with Suc.IH[of "pre @ '' ''" c] Suc.prems(2) show ?case by auto
qed simp

lemma filled_cstr: "filled pre cur \<Longrightarrow> is_cstr pre \<Longrightarrow> pre \<noteq> [] \<Longrightarrow> cstr (fst cur) = pre"
proof -
  assume f: "filled pre cur" and c: "is_cstr pre" "pre \<noteq> []"
  obtain buf ptr len where cur: "cur = (buf, ptr, len)" by (metis prod.exhaust)
  with f c have "take ptr buf = pre" "buf ! ptr = NUL" "ptr < length buf" by (auto simp: filled_def)
  then have "buf = pre @ NUL # drop (Suc ptr) buf" by (metis id_take_nth_drop)
  then have "cstr buf = cstr (pre @ NUL # drop (Suc ptr) buf)" by simp
  then show "cstr (fst cur) = pre" using cur c by simp
qed

section \<open>The lines of a backtrace\<close>

text \<open>The two halves of the description of a frame.\<close>

definition frame_number :: "nat \<Rightarrow> string" where
  "frame_number i = (let n = ''#'' @ show_int (int i - 1) in n @ replicate (4 - length n) CHR '' '')"

definition frame_head :: "nat \<Rightarrow> lua_Debug \<Rightarrow> string" where
  "frame_head i ar = frame_number i @ (if ar_namewhat ar \<noteq> [] then ar_namewhat ar @ '' '' else []) @
     (if ar_name ar = None \<or> ar_name ar = Some []
      then (if streq (ar_what ar) ''main'' then ''mainline of chunk''
            else if streq (ar_what ar) ''tail'' then ''tail call'' else ''unidentifiable function'')
      else ''function '' @ the (ar_name ar) @ '' ()'')"

definition frame_place :: "lua_Debug \<Rightarrow> string option" where
  "frame_place ar =
     (if streq (ar_what ar) ''C'' then Some ''in native code''
      else if streq (ar_what ar) ''tail'' then Some ''in Lua code''
      else if streq (ar_source ar) ''=?'' \<and> ar_currentline ar = 0
      then Some ''in Lua code (debug info stripped)''
      else map_option (\<lambda>name. ''in Lua code at '' @ ar_short_src ar @
        (if ar_currentline ar \<noteq> -1 then '':'' @ show_int (ar_currentline ar) else []) @
        '' '' @ name @ ''()'') (ar_name ar))"

definition frame_line :: "nat \<Rightarrow> lua_Debug option \<Rightarrow> string option" where
  "frame_line i info =
     (case info of
        None \<Rightarrow> Some (frame_number i @ ''???'' @ [LF])
      | Some ar \<Rightarrow> map_option (\<lambda>p. ''    '' @ p) (frame_place ar))"

text \<open>A frame whose texts fit the buffer.\<close>

definition frame_fits :: "nat \<Rightarrow> lua_Debug option \<Rightarrow> bool" where
  "frame_fits i info \<longleftrightarrow>
     (case info of
        None \<Rightarrow> length (frame_number i) < 131000
      | Some ar \<Rightarrow> length (frame_head i ar) < scratch_size \<and>
          length (ar_short_src ar) + length (show_int (ar_currentline ar)) +
            (case ar_name ar of None \<Rightarrow> 0 | Some n \<Rightarrow> length n) < 131000 \<and>
          is_cstr (ar_short_src ar) \<and> (\<forall>n. ar_name ar = Some n \<longrightarrow> is_cstr n))"

lemma frame_number_filled:
  assumes "length buf = scratch_size" and "length (frame_number i) < scratch_size"
  shows "\<exists>cur bw cur'. snprintfcat (''#'' @ show_int (int i - 1)) (buf, 0, scratch_size) = Some (cur, bw) \<and>
    cat_spaces (4 - bw) cur = Some cur' \<and> filled (frame_number i) cur'"
proof -
  let ?n = "''#'' @ show_int (int i - 1)"
  have "length ?n < scratch_size" and l: "length ?n + (4 - length ?n) < scratch_size"
    using assms(2) by (simp_all add: frame_number_def Let_def)
  with snprintfcat_filled[OF filled_start[OF assms(1)], of ?n] obtain cur where
    c: "snprintfcat ?n (buf, 0, scratch_size) = Some (cur, length ?n)" "filled ?n cur" by auto
  from cat_spaces_filled[OF c(2) l] c(1) show ?thesis by (auto simp: frame_number_def Let_def)
qed

lemma cat_place_filled:
  assumes "filled ''    '' cur" and "frame_fits i (Some ar)" and "frame_place ar = Some p"
  shows "\<exists>cur'. cat_place ar cur = Some cur' \<and> filled (''    '' @ p) cur'"
proof -
  have short: "\<exists>cur'. cat t cur = Some cur' \<and> filled (''    '' @ t) cur'" if "t \<noteq> []" "length t < 100" for t
    using cat_filled[OF assms(1), of t] that by simp
  consider "streq (ar_what ar) ''C''" | "\<not> streq (ar_what ar) ''C''" "streq (ar_what ar) ''tail''"
    | "\<not> streq (ar_what ar) ''C''" "\<not> streq (ar_what ar) ''tail''"
      "streq (ar_source ar) ''=?'' \<and> ar_currentline ar = 0"
    | n where "\<not> streq (ar_what ar) ''C''" "\<not> streq (ar_what ar) ''tail''"
      "\<not> (streq (ar_source ar) ''=?'' \<and> ar_currentline ar = 0)" "ar_name ar = Some n"
    using assms(3) by (cases "ar_name ar") (auto simp: frame_place_def split: if_splits)
  then show ?thesis
  proof cases
    case 4
    let ?a = "''in Lua code at '' @ ar_short_src ar"
    let ?l = "if ar_currentline ar \<noteq> -1 then '':'' @ show_int (ar_currentline ar) else []"
    have b: "length (ar_short_src ar) + length (show_int (ar_currentline ar)) + length n < 131000"
      using assms(2) 4(4) by (simp add: frame_fits_def)
    from cat_filled[OF assms(1), of ?a] b obtain c1 where
      c1: "cat ?a cur = Some c1" "filled (''    '' @ ?a) c1" by auto
    obtain c2 where c2: "(if ar_currentline ar \<noteq> -1 then cat ('':'' @ show_int (ar_currentline ar)) c1
        else Some c1) = Some c2" "filled ((''    '' @ ?a) @ ?l) c2"
      using c1(2) cat_filled[OF c1(2), of "'':'' @ show_int (ar_currentline ar)"] b
      by (cases "ar_currentline ar = -1") auto
    have "length ?l \<le> Suc (length (show_int (ar_currentline ar)))" by simp
    with b have "length (((''    '' @ ?a) @ ?l) @ '' '' @ n @ ''()'') < scratch_size"
      by (simp del: append.simps)
    from cat_filled[OF c2(2) this] obtain c3 where
      c3: "cat ('' '' @ n @ ''()'') c2 = Some c3" "filled (((''    '' @ ?a) @ ?l) @ '' '' @ n @ ''()'') c3"
      by blast
    have "cat_place ar cur = Some c3"
      using 4 c1(1) c2(1) c3(1) by (auto simp: cat_place_def)
    moreover have "''    '' @ p = ((''    '' @ ?a) @ ?l) @ '' '' @ n @ ''()''"
      using 4 assms(3) by (auto simp: frame_place_def)
    ultimately show ?thesis using c3(2) by metis
  qed (use short assms(3) in \<open>auto simp: cat_place_def frame_place_def\<close>)
qed

lemma filled_buffer: "filled pre cur \<Longrightarrow> length (fst cur) = scratch_size"
  by (auto simp: filled_def split: prod.splits)

lemma cat_place_undefined: "frame_place ar = None \<Longrightarrow> cat_place ar cur = None"
  by (auto simp: frame_place_def cat_place_def bind_eq_None_conv split: if_splits)

lemma is_cstr_frame_number [simp]: "is_cstr (frame_number i)"
proof -
  have "is_cstr (replicate n CHR '' '')" for n by (simp add: is_cstr_def)
  then show ?thesis by (simp add: frame_number_def Let_def)
qed

lemma is_cstr_frame_line:
  "frame_fits i info \<Longrightarrow> frame_line i info = Some l \<Longrightarrow> is_cstr l \<and> l \<noteq> []"
  by (cases info) (auto simp: frame_fits_def frame_line_def frame_place_def split: if_splits)

text \<open>The first half of a frame fills the buffer, and only then the second half replaces it.\<close>

lemma frame_head_filled:
  assumes "filled (frame_number i) cur" and "frame_fits i (Some ar)"
  shows "\<exists>c1 c2. (if ar_namewhat ar \<noteq> [] then cat (ar_namewhat ar @ '' '') cur else Some cur) = Some c1 \<and>
    (case ar_name ar of
       Some n \<Rightarrow> if n \<noteq> [] then cat (''function '' @ n @ '' ()'') c1
                else cat (if streq (ar_what ar) ''main'' then ''mainline of chunk''
                          else if streq (ar_what ar) ''tail'' then ''tail call''
                          else ''unidentifiable function'') c1
     | None \<Rightarrow> cat (if streq (ar_what ar) ''main'' then ''mainline of chunk''
                    else if streq (ar_what ar) ''tail'' then ''tail call''
                    else ''unidentifiable function'') c1) = Some c2 \<and> filled (frame_head i ar) c2"
proof -
  let ?w = "if ar_namewhat ar \<noteq> [] then ar_namewhat ar @ '' '' else []"
  let ?t = "if ar_name ar = None \<or> ar_name ar = Some []
      then (if streq (ar_what ar) ''main'' then ''mainline of chunk''
            else if streq (ar_what ar) ''tail'' then ''tail call'' else ''unidentifiable function'')
      else ''function '' @ the (ar_name ar) @ '' ()''"
  have len: "length ((frame_number i @ ?w) @ ?t) < scratch_size"
    using assms(2) by (simp add: frame_fits_def frame_head_def)
  obtain c1 where c1: "(if ar_namewhat ar \<noteq> [] then cat (ar_namewhat ar @ '' '') cur else Some cur) = Some c1"
    "filled (frame_number i @ ?w) c1"
    using cat_filled[OF assms(1), of "ar_namewhat ar @ '' ''"] assms(1) len
    by (cases "ar_namewhat ar = []") auto
  have "?t \<noteq> []" by simp
  from cat_filled[OF c1(2) len this] obtain c2 where
    c2: "cat ?t c1 = Some c2" "filled ((frame_number i @ ?w) @ ?t) c2" by blast
  have eq: "(case ar_name ar of
       Some n \<Rightarrow> if n \<noteq> [] then cat (''function '' @ n @ '' ()'') c1
                else cat (if streq (ar_what ar) ''main'' then ''mainline of chunk''
                          else if streq (ar_what ar) ''tail'' then ''tail call''
                          else ''unidentifiable function'') c1
     | None \<Rightarrow> cat (if streq (ar_what ar) ''main'' then ''mainline of chunk''
                    else if streq (ar_what ar) ''tail'' then ''tail call''
                    else ''unidentifiable function'') c1) = cat ?t c1"
    by (cases "ar_name ar") auto
  have h: "(frame_number i @ ?w) @ ?t = frame_head i ar" by (simp add: frame_head_def)
  show ?thesis
    using c1(1) eq[unfolded c2(1)] c2(2)[unfolded h] by (intro exI[of _ c1] exI[of _ c2] conjI)
qed

lemma walk_frame_eq:
  assumes "length buf = scratch_size" and "frame_fits i info" and "log_ok s"
  shows "case frame_line i info of
      None \<Rightarrow> walk_frame i info buf s = None
    | Some l \<Rightarrow> \<exists>buf'. walk_frame i info buf s = Some (buf', log_spec EQUUS_LOG_DEBUG l s) \<and>
        length buf' = scratch_size"
proof (cases info)
  case None
  then have "length (frame_number i) < scratch_size" using assms(2) by (simp add: frame_fits_def)
  from frame_number_filled[OF assms(1) this] obtain cur bw c1 where
    n: "snprintfcat (''#'' @ show_int (int i - 1)) (buf, 0, scratch_size) = Some (cur, bw)"
    "cat_spaces (4 - bw) cur = Some c1" "filled (frame_number i) c1" by blast
  from cat_filled[OF n(3), of "''???'' @ [LF]"] None assms(2) obtain c2 where
    c2: "cat (''???'' @ [LF]) c1 = Some c2" "filled (frame_number i @ ''???'' @ [LF]) c2"
    by (auto simp: frame_fits_def)
  have "cstr (fst c2) = frame_number i @ ''???'' @ [LF]" using filled_cstr[OF c2(2)] by simp
  with None n c2 assms(3) filled_buffer[OF c2(2)] show ?thesis
    by (simp add: walk_frame_def frame_line_def)
next
  case (Some ar)
  have fits: "frame_fits i (Some ar)" using assms(2) Some by simp
  then have "length (frame_number i) < scratch_size" by (auto simp: frame_fits_def frame_head_def)
  from frame_number_filled[OF assms(1) this] obtain cur bw c1 where
    n: "snprintfcat (''#'' @ show_int (int i - 1)) (buf, 0, scratch_size) = Some (cur, bw)"
    "cat_spaces (4 - bw) cur = Some c1" "filled (frame_number i) c1" by blast
  from frame_head_filled[OF n(3) fits] obtain c2 c3 where
    c2: "(if ar_namewhat ar \<noteq> [] then cat (ar_namewhat ar @ '' '') c1 else Some c1) = Some c2"
    and c3: "(case ar_name ar of
       Some n \<Rightarrow> if n \<noteq> [] then cat (''function '' @ n @ '' ()'') c2
                else cat (if streq (ar_what ar) ''main'' then ''mainline of chunk''
                          else if streq (ar_what ar) ''tail'' then ''tail call''
                          else ''unidentifiable function'') c2
     | None \<Rightarrow> cat (if streq (ar_what ar) ''main'' then ''mainline of chunk''
                    else if streq (ar_what ar) ''tail'' then ''tail call''
                    else ''unidentifiable function'') c2) = Some c3"
    and f3: "filled (frame_head i ar) c3" by blast
  have r4: "replicate 4 CHR '' '' = ''    ''" by (simp add: numeral_eq_Suc)
  have "length ([] :: string) + 4 < scratch_size" by simp
  from cat_spaces_filled[OF filled_start[OF filled_buffer[OF f3]] this] obtain c4 where
    c4: "cat_spaces 4 (fst c3, 0, scratch_size) = Some c4" "filled ''    '' c4"
    unfolding r4 append.simps by blast
  have step: "walk_frame i info buf s = do {
      cur \<leftarrow> cat_place ar c4; s \<leftarrow> logDbg (cstr (fst cur)) s; Some (fst cur, s) }"
    using Some n(1,2) c2 c3 c4(1) by (simp add: walk_frame_def)
  show ?thesis
  proof (cases "frame_place ar")
    case None
    with Some step cat_place_undefined[OF None] show ?thesis by (simp add: frame_line_def)
  next
    case p: (Some p)
    from cat_place_filled[OF c4(2) fits p] obtain c5 where
      c5: "cat_place ar c4 = Some c5" "filled (''    '' @ p) c5" by blast
    have l: "frame_line i info = Some (''    '' @ p)" using Some p by (simp add: frame_line_def)
    with is_cstr_frame_line[OF assms(2)] filled_cstr[OF c5(2)] have "cstr (fst c5) = ''    '' @ p" by blast
    with step c5 l assms(3) filled_buffer[OF c5(2)] show ?thesis by simp
  qed
qed

lemma walk_frames_eq:
  assumes "length buf = scratch_size" and "log_ok s"
    and "\<forall>j < length fs. frame_fits (i + j) (fs ! j) \<and> frame_line (i + j) (fs ! j) = Some (ls ! j)"
    and "length ls = length fs"
  shows "\<exists>buf'. walk_frames i fs buf s = Some (buf', fold (log_spec EQUUS_LOG_DEBUG) ls s)"
  using assms
proof (induction fs arbitrary: i buf s ls)
  case (Cons f fs)
  from Cons.prems(4) obtain l ls' where ls: "ls = l # ls'" by (cases ls) auto
  from Cons.prems(3)[rule_format, of 0] ls have f: "frame_fits i f" "frame_line i f = Some l" by auto
  from walk_frame_eq[OF Cons.prems(1) f(1) Cons.prems(2)] f(2) obtain b where
    b: "walk_frame i f buf s = Some (b, log_spec EQUUS_LOG_DEBUG l s)" "length b = scratch_size" by auto
  have "\<forall>j < length fs. frame_fits (Suc i + j) (fs ! j) \<and> frame_line (Suc i + j) (fs ! j) = Some (ls' ! j)"
    using Cons.prems(3) ls by (metis Suc_less_eq add_Suc add_Suc_right length_Cons nth_Cons_Suc)
  from Cons.IH[OF b(2) log_ok_spec[OF Cons.prems(2)] this] Cons.prems(4) ls obtain b' where
    "walk_frames (Suc i) fs b (log_spec EQUUS_LOG_DEBUG l s) =
      Some (b', fold (log_spec EQUUS_LOG_DEBUG) ls' (log_spec EQUUS_LOG_DEBUG l s))" by auto
  with b(1) ls show ?case by auto
qed simp

lemma walk_frames_undefined:
  "length buf = scratch_size \<Longrightarrow> log_ok s \<Longrightarrow> \<forall>j < length fs. frame_fits (i + j) (fs ! j) \<Longrightarrow>
   k < length fs \<Longrightarrow> frame_line (i + k) (fs ! k) = None \<Longrightarrow> walk_frames i fs buf s = None"
proof (induction fs arbitrary: i buf s k)
  case (Cons f fs)
  have f: "frame_fits i f" using Cons.prems(3)[rule_format, of 0] by simp
  note w = walk_frame_eq[OF Cons.prems(1) f Cons.prems(2)]
  show ?case
  proof (cases "frame_line i f")
    case None
    with w show ?thesis by simp
  next
    case (Some l)
    with w obtain b where b: "walk_frame i f buf s = Some (b, log_spec EQUUS_LOG_DEBUG l s)"
      "length b = scratch_size" by auto
    from Some Cons.prems(5) have "k \<noteq> 0" by (cases k) auto
    then obtain k' where k: "k = Suc k'" by (cases k) auto
    have "\<forall>j < length fs. frame_fits (Suc i + j) (fs ! j)"
      using Cons.prems(3) by (metis Suc_less_eq add_Suc add_Suc_right length_Cons nth_Cons_Suc)
    then have "walk_frames (Suc i) fs b (log_spec EQUUS_LOG_DEBUG l s) = None"
      using Cons.prems(4,5) k by (intro Cons.IH[OF b(2) log_ok_spec[OF Cons.prems(2)], of _ k']) auto
    with b show ?thesis by simp
  qed
qed simp

section \<open>Properties\<close>

text \<open>
  A backtrace has one line per frame and stays inside its buffer: if every frame fits, the walk
  returns unless a Lua frame has no name, and then it has logged the header and, for each frame, the
  line \<^term>\<open>frame_line\<close> gives, which holds the place of the frame but not its function.
\<close>

theorem stackwalk_logs_places:
  assumes "length buf = scratch_size" and "log_ok s" and "stk L = []"
    and "\<forall>j < length fs. frame_fits (Suc j) (fs ! j)"
  shows "case those (map (\<lambda>j. frame_line (Suc j) (fs ! j)) [0..<length fs]) of
      None \<Rightarrow> luahook_stackwalk num_text fs buf L s = None
    | Some ls \<Rightarrow> \<exists>buf'. luahook_stackwalk num_text fs buf L s =
        Some (Results 1, L\<lparr>stk := [LString []]\<rparr>, buf',
          fold (log_spec EQUUS_LOG_DEBUG) (''Lua stack backtrace:'' # ls) s)"
proof -
  let ?m = "map (\<lambda>j. frame_line (Suc j) (fs ! j)) [0..<length fs]"
  have top: "lua_tolstring num_text 1 L = Some (None, L)"
    using assms(3) by (simp add: lua_tolstring_def index2adr_def place_value_def)
  have ret: "retvalString (Some []) L = L\<lparr>stk := [LString []]\<rparr>"
    using assms(3) by (simp add: retvalString_def lua_pushstring_def push_defs strlen_def)
  let ?s = "log_spec EQUUS_LOG_DEBUG ''Lua stack backtrace:'' s"
  have ok: "log_ok ?s" using assms(2) by simp
  have step: "luahook_stackwalk num_text fs buf L s = do { (buf, s) \<leftarrow> walk_frames 1 fs buf ?s;
      Some (Results 1, L\<lparr>stk := [LString []]\<rparr>, buf, s) }"
    using top ret assms(2) by (simp add: luahook_stackwalk_def)
  have those_Some: "those xs = Some ys \<longleftrightarrow> xs = map Some ys" for xs :: "string option list" and ys
    by (induction xs arbitrary: ys) (auto split: option.splits)
  show ?thesis
  proof (cases "those ?m")
    case None
    have "\<exists>k < length fs. frame_line (Suc k) (fs ! k) = None"
    proof (rule ccontr)
      assume "\<not> ?thesis"
      then have "?m = map Some (map (\<lambda>j. the (frame_line (Suc j) (fs ! j))) [0..<length fs])" by auto
      with None show False using those_Some by (metis option.distinct(1))
    qed
    then obtain k where "k < length fs" "frame_line (1 + k) (fs ! k) = None" by auto
    with walk_frames_undefined[OF assms(1) ok, of fs 1 k] assms(4) None step show ?thesis by simp
  next
    case (Some ls)
    with those_Some have m: "?m = map Some ls" by blast
    then have len: "length ls = length fs" by (metis length_map length_upt diff_zero)
    have "frame_line (1 + j) (fs ! j) = Some (ls ! j)" if "j < length fs" for j
      using arg_cong[OF m, of "\<lambda>xs. xs ! j"] that len by simp
    with walk_frames_eq[OF assms(1) ok, of fs 1 ls] assms(4) len Some step show ?thesis by auto
  qed
qed

theorem stackwalk_logs_places_witness:
  "\<exists>buf' s. luahook_stackwalk (\<lambda>_. []) [Some \<lparr>ar_name = Some ''f'', ar_namewhat = ''global'', ar_what = ''Lua'',
       ar_source = ''a.lua'', ar_currentline = 7, ar_short_src = ''a.lua''\<rparr>]
     (replicate scratch_size NUL) \<lparr>stk = [], l_gt = 0, l_registry = 1, tables = (\<lambda>_. []), l_hook = None\<rparr> start =
     Some (Results 1, \<lparr>stk = [LString []], l_gt = 0, l_registry = 1, tables = (\<lambda>_. []), l_hook = None\<rparr>, buf', s)"
proof -
  let ?ar = "\<lparr>ar_name = Some ''f'', ar_namewhat = ''global'', ar_what = ''Lua'',
       ar_source = ''a.lua'', ar_currentline = 7, ar_short_src = ''a.lua''\<rparr>"
  let ?L = "\<lparr>stk = [], l_gt = 0, l_registry = 1, tables = (\<lambda>_. []), l_hook = None\<rparr>"
  have n: "length (show_int 0) = 1" "length (show_int 7) = 1"
    by (simp_all add: show_int_def show_nat.simps digit_char_def)
  have fit: "frame_fits 1 (Some ?ar)" using n by (simp add: frame_fits_def frame_head_def frame_number_def Let_def)
  have "frame_place ?ar \<noteq> None" by (simp add: frame_place_def)
  then obtain l where l: "frame_line 1 (Some ?ar) = Some l" by (auto simp: frame_line_def)
  have "length (replicate scratch_size NUL) = scratch_size" by (rule length_replicate)
  from stackwalk_logs_places[OF this, of start ?L "[Some ?ar]" "\<lambda>_. []"] fit l
  show ?thesis by (auto split: option.splits)
qed

end
