(* ===== verification/Equus_Loader.thy ===== *)
theory Equus_Loader
  imports Equus_Cache Equus_Conf Lua_Stack
begin

text \<open>
  The loaders of \<open>equus_loader.c\<close> and the check of signatures in \<open>equus_util.c\<close>: the built-in
  modules, the module cache as Lua sees it, the loader of local modules, the registration of all
  of them in a Lua state, and the client \<open>http_loader.lua\<close> that fetches a module, checks its
  signature and caches it.

  Arguments of the definitions stand for code that is not modelled: \<open>compile\<close> for the Lua
  compiler (\<^term>\<open>None\<close> where a chunk compiles, otherwise the status and the message), \<open>num_text\<close> for
  the text of a number, the generated tables of built-in and local modules, and the cryptographic
  library.
\<close>

section \<open>Signatures\<close>

text \<open>
  The cryptographic library: the key a PEM text holds, and the result of \<open>EVP_VerifyFinal\<close> for a
  key, an input and a signature. The third field is the public key compiled into the agent.
\<close>

record 'k crypto =
  PEM_read_bio_PUBKEY :: "string \<Rightarrow> 'k option"
  EVP_VerifyFinal :: "'k \<Rightarrow> string \<Rightarrow> string \<Rightarrow> int"
  equus_pubkey :: string

text \<open>\<open>keybuf\<close> is \<^term>\<open>None\<close> for a null pointer; a length outside its buffer has no defined result.\<close>

definition equus_verify ::
  "'k crypto \<Rightarrow> string \<Rightarrow> int \<Rightarrow> string \<Rightarrow> int \<Rightarrow> string option \<Rightarrow> int \<Rightarrow> int finish option" where
  "equus_verify crypto input len sigbuf siglen keybuf keylen =
     (let (keybuf, keylen) =
        (if keylen = 0 \<or> keybuf = None
         then (equus_pubkey crypto, int (length (equus_pubkey crypto))) else (the keybuf, keylen));
          key = (if keylen < 0 then cstr keybuf else take (nat keylen) keybuf)
      in if int (length keybuf) < keylen then None
         else case PEM_read_bio_PUBKEY crypto key of
                None \<Rightarrow> Some Aborted
              | Some pubkey \<Rightarrow>
                  if len < 0 \<or> int (length input) < len \<or> siglen < 0 \<or> int (length sigbuf) < siglen
                  then None
                  else (let rv = EVP_VerifyFinal crypto pubkey (take (nat len) input) (take (nat siglen) sigbuf)
                        in Some (Returned (if rv = 1 then 0 else -1))))"

section \<open>Chunks\<close>

type_synonym compiler = "string \<Rightarrow> string \<Rightarrow> (int \<times> string) option"

definition luaL_loadbuffer :: "compiler \<Rightarrow> string \<Rightarrow> string \<Rightarrow> lua_State \<Rightarrow> int \<times> lua_State" where
  "luaL_loadbuffer compile bs name L =
     (case compile name bs of
        None \<Rightarrow> (0, lua_push (LFunction (Chunk name bs)) L)
      | Some (status, msg) \<Rightarrow> (status, lua_push (LString msg) L))"

definition quoted :: "string \<Rightarrow> string" where
  "quoted name = [CHR 0x27] @ cstr name @ [CHR 0x27]"

section \<open>Built-in modules\<close>

definition equus_loader_load ::
  "compiler \<Rightarrow> (real \<Rightarrow> string) \<Rightarrow> (string \<Rightarrow> int) \<Rightarrow> (string \<Rightarrow> int \<times> string) \<Rightarrow>
   lua_State \<Rightarrow> (lua_result \<times> lua_State) option" where
  "equus_loader_load compile num_text equus_loader_has_module equus_loader_get_module L = do {
     (arg, L) \<leftarrow> luaL_checklstring num_text 1 L;
     (case arg of
        Inl err \<Rightarrow> Some (Error err, L)
      | Inr name \<Rightarrow>
          let name = cstr name; rv = equus_loader_has_module name in
          if rv \<noteq> 0 then Some (Results 1, lua_pushnil L)
          else let (rv, p) = equus_loader_get_module name in
          if rv \<noteq> 0 then Some (Results 1, lua_pushnil L)
          else let (rv, L) = luaL_loadbuffer compile p name L in
          if rv \<noteq> 0 then Some (Error (''error loading equus module '' @ quoted name), L)
          else Some (Results 1, L))
   }"

section \<open>The cache as Lua sees it\<close>

definition load_aux :: "lua_State \<Rightarrow> int \<Rightarrow> (lua_result \<times> lua_State) option" where
  "load_aux L status =
     (if status = 0 then Some (Results 1, L)
      else do {
        L \<leftarrow> lua_insert (-2) (lua_pushnil L);
        Some (Results 2, L)
      })"

definition equus_local_cache_get ::
  "compiler \<Rightarrow> (real \<Rightarrow> string) \<Rightarrow> lua_State \<Rightarrow> equus \<Rightarrow> (lua_result \<times> lua_State \<times> equus) option" where
  "equus_local_cache_get compile num_text L s = do {
     (arg, L) \<leftarrow> luaL_checklstring num_text 1 L;
     (case arg of
        Inl err \<Rightarrow> Some (Error err, L, s)
      | Inr name \<Rightarrow> do {
          (e, s) \<leftarrow> equus_local_cache_find name s;
          if e = NULL then Some (Error (''cache miss for '' @ quoted name), L, s)
          else do {
            c \<leftarrow> get_eql (heap s) e;
            data \<leftarrow> get_chars (heap s) (eql_data c);
            n \<leftarrow> load_str (heap s) (eql_name c);
            if eql_len c < 0 \<or> int (length data) < eql_len c then None
            else do {
              let (status, L) = luaL_loadbuffer compile (take (nat (eql_len c)) data) n L;
              (r, L) \<leftarrow> load_aux L status;
              Some (r, L, s)
            }
          }
        })
   }"

text \<open>
  The second Lua state \<open>lvm\<close> compiles the module, and its bytecode (\<open>dump\<close>) is left on the stack
  of \<open>lvm\<close>; the entry is made from the top of the stack of \<open>L\<close>.
\<close>

definition luaL_newstate :: lua_State where
  "luaL_newstate = \<lparr>stk = [], l_gt = 0, l_registry = 1, tables = (\<lambda>_. []), l_hook = None\<rparr>"

definition equus_local_cache_add ::
  "compiler \<Rightarrow> (string \<Rightarrow> string \<Rightarrow> string) \<Rightarrow> (real \<Rightarrow> string) \<Rightarrow> lua_State \<Rightarrow> equus \<Rightarrow>
   (lua_result \<times> lua_State \<times> equus) option" where
  "equus_local_cache_add compile dump num_text L s = do {
     (arg, L) \<leftarrow> luaL_checklstring num_text 1 L;
     (case arg of
        Inl err \<Rightarrow> Some (Error err, L, s)
      | Inr name \<Rightarrow> do {
          (arg, L) \<leftarrow> luaL_checklstring num_text 2 L;
          (case arg of
             Inl err \<Rightarrow> Some (Error err, L, s)
           | Inr md \<Rightarrow> do {
               mlen \<leftarrow> lua_objlen L 2;
               lvm \<leftarrow> lua_settop 0 luaL_newstate;
               let (rv, lvm) = luaL_loadbuffer compile (take mlen md) (cstr name) lvm;
               if rv \<noteq> 0 then Some (Results rv, L, s)
               else do {
                 let lvm = lua_pushlstring (dump (cstr name) md) lvm;
                 (d, L) \<leftarrow> lua_tolstring num_text (-1) L;
                 (c, s) \<leftarrow> cache_store name (case d of None \<Rightarrow> [] | Some d \<Rightarrow> d) s;
                 Some (Results 0, L, s)
               }
             })
        })
   }"

section \<open>Local modules\<close>

record localdev =
  equus_localdev_has_module :: "string \<Rightarrow> int"
  equus_localdev_get_module :: "string \<Rightarrow> int \<times> string"
  equus_localdev_get_signature :: "string \<Rightarrow> int \<times> string"
  equus_localdev_get_pubkey :: "string \<Rightarrow> int \<times> string"

text \<open>\<^term>\<open>None\<close> for an abort too: the loader then does not return.\<close>

definition equus_local_load ::
  "compiler \<Rightarrow> (real \<Rightarrow> string) \<Rightarrow> 'k crypto \<Rightarrow> localdev \<Rightarrow> lua_State \<Rightarrow> (lua_result \<times> lua_State) option" where
  "equus_local_load compile num_text crypto dev L = do {
     (arg, L) \<leftarrow> luaL_checklstring num_text 1 L;
     (case arg of
        Inl err \<Rightarrow> Some (Error err, L)
      | Inr name \<Rightarrow>
          let name = cstr name; rv = equus_localdev_has_module dev name in
          if rv \<noteq> 0 then Some (Results 1, lua_pushnil L)
          else let (rv, p) = equus_localdev_get_module dev name in
          if rv \<noteq> 0 then Some (Results 1, lua_pushnil L)
          else let (rv, sigp) = equus_localdev_get_signature dev name in
          if rv \<noteq> 0 then Some (Results 1, lua_pushnil L)
          else let (rv, keyp) = equus_localdev_get_pubkey dev name in
          if rv \<noteq> 0 then Some (Results 1, lua_pushnil L)
          else do {
            out \<leftarrow> equus_verify crypto p (int (length p)) sigp (int (length sigp))
                     (Some keyp) (int (length keyp));
            (case out of
               Aborted \<Rightarrow> None
             | Returned rv \<Rightarrow>
                 if rv \<noteq> 0 then Some (Error
                   (''error loading (local) equus module: Signature Validation Failed: '' @ quoted name), L)
                 else let (rv, L) = luaL_loadbuffer compile p name L in
                 if rv \<noteq> 0 then Some (Error (''error loading (local) equus module '' @ quoted name), L)
                 else Some (Results 1, L))
          })
   }"

section \<open>The HTTP loader\<close>

text \<open>
  \<open>load\<close> of \<open>http_loader.lua\<close>. The result of an HTTP request is the body and the code,
  \<^term>\<open>None\<close> where the request returned nil; \<open>.*/(.*)\<close> matches up to the last slash. The four
  assertions come first nil and code of the signature, then of the data; the codes are compared
  with a string, and the code of a request is a number.
\<close>

definition after_slash :: "string \<Rightarrow> string option" where
  "after_slash url =
     (if CHR ''/'' \<in> set url then Some (rev (takeWhile (\<lambda>c. c \<noteq> CHR ''/'') (rev url))) else None)"

type_synonym http = "string \<Rightarrow> string option \<times> lua_value"

text \<open>A C function called from Lua with its own stack; the first of its results, nil without any.\<close>

definition first_result :: "lua_result \<Rightarrow> lua_State \<Rightarrow> string + lua_value" where
  "first_result r L =
     (case r of Error err \<Rightarrow> Inl err
      | Results n \<Rightarrow> if 0 < n \<and> nat n \<le> length (stk L) then Inr (stk L ! (length (stk L) - nat n))
                     else Inr LNil)"

definition call_frame :: "lua_value list \<Rightarrow> lua_State" where
  "call_frame args = luaL_newstate\<lparr>stk := args\<rparr>"

definition cache_lookup ::
  "compiler \<Rightarrow> (real \<Rightarrow> string) \<Rightarrow> string option \<Rightarrow> equus \<Rightarrow> ((string + lua_value) \<times> equus) option" where
  "cache_lookup compile num_text md s = do {
     (r, L, s) \<leftarrow> equus_local_cache_get compile num_text
                   (call_frame [case md of None \<Rightarrow> LNil | Some m \<Rightarrow> LString m]) s;
     Some (first_result r L, s)
   }"

text \<open>The part of \<open>load\<close> after the signature was accepted.\<close>

definition fetched ::
  "compiler \<Rightarrow> (string \<Rightarrow> string \<Rightarrow> string) \<Rightarrow> (real \<Rightarrow> string) \<Rightarrow> string option \<Rightarrow> string \<Rightarrow> equus \<Rightarrow>
   ((string + lua_value) \<times> equus) option" where
  "fetched compile dump num_text md data s = do {
     (r, L, s) \<leftarrow> equus_local_cache_add compile dump num_text
       (call_frame [case md of None \<Rightarrow> LNil | Some m \<Rightarrow> LString m, LString data]) s;
     (case r of Error err \<Rightarrow> Some (Inl err, s) | Results _ \<Rightarrow> cache_lookup compile num_text md s)
   }"

definition http_load ::
  "compiler \<Rightarrow> (string \<Rightarrow> string \<Rightarrow> string) \<Rightarrow> (real \<Rightarrow> string) \<Rightarrow> 'k crypto \<Rightarrow> http \<Rightarrow> build \<Rightarrow>
   string \<Rightarrow> equus \<Rightarrow> ((string + lua_value) \<times> equus) option" where
  "http_load compile dump num_text crypto http b modulename s = do {
     url \<leftarrow> equus_url b s;
     (case url of
        None \<Rightarrow> Some (Inl ''attempt to concatenate local 'url' (a nil value)'', s)
      | Some url \<Rightarrow> do {
          let url = url @ modulename;
          let luaurl = url @ ''.lua'';
          let md = after_slash luaurl;
          (hit, s) \<leftarrow> cache_lookup compile num_text md s;
          (case hit of
             Inr data \<Rightarrow> Some (Inr data, s)
           | Inl _ \<Rightarrow> do {
               let sigurl = url @ ''.sig'';
               let (data, datac) = http luaurl;
               let (sig, sigc) = http sigurl;
               (case sig of
                  None \<Rightarrow> Some (Inl ''Signature is null'', s)
                | Some sig \<Rightarrow>
                    if sigc = LString ''200'' then Some (Inl ''Signature http code is not 200'', s)
                    else case data of
                      None \<Rightarrow> Some (Inl ''Data is null'', s)
                    | Some data \<Rightarrow>
                        if datac = LString ''200'' then Some (Inl ''Data http code is not 200'', s)
                        else do {
                          out \<leftarrow> equus_verify crypto data (int (length data)) sig (int (length sig))
                                   (Some []) 0;
                          (case out of
                             Aborted \<Rightarrow> None
                           | Returned rc \<Rightarrow>
                               if rc \<noteq> 0 then Some (Inl (''module '' @ modulename @ '' (from '' @
                                 quoted luaurl @ '') signature does not verify''), s)
                               else fetched compile dump num_text md data s)
                        })
             })
        })
   }"

section \<open>Properties of the cache functions\<close>

lemma checklstring_first [simp]:
  "luaL_checklstring num_text 1 (call_frame (LString m # args)) = Some (Inr m, call_frame (LString m # args))"
  "luaL_checklstring num_text 2 (call_frame (v # LString d # args)) = Some (Inr d, call_frame (v # LString d # args))"
  by (simp_all add: luaL_checklstring_def lua_tolstring_def index2adr_def call_frame_def place_value_def)

lemma checklstring_nil [simp]:
  "luaL_checklstring num_text 1 (call_frame (LNil # args)) =
     Some (Inl (''bad argument #'' @ show_int 1), call_frame (LNil # args))"
  by (simp add: luaL_checklstring_def lua_tolstring_def index2adr_def call_frame_def place_value_def)

lemma stk_call_frame [simp]: "stk (call_frame args) = args"
  by (simp add: call_frame_def)

lemma lua_push_call_frame [simp]: "lua_push v (call_frame args) = call_frame (args @ [v])"
  by (simp add: call_frame_def lua_push_def)

text \<open>What a hit reads: exactly the bytes that were stored.\<close>

lemma cache_hit_read:
  assumes wf: "cache_wf s" and hit: "cache_map s (cstr name) = Some d"
  obtains c where "find_entry name (cached s) \<noteq> NULL"
    and "get_eql (heap s) (find_entry name (cached s)) = Some c"
    and "eql_len c = int (length d)" and "get_chars (heap s) (eql_data c) = Some d"
    and "load_str (heap s) (eql_name c) = Some (cstr name)"
proof -
  note w = cache_wfD[OF wf]
  from hit have m: "map_of (map entry_value (cached s)) (cstr name) = Some d"
    by (simp add: cache_map_def)
  from find_entry_Some[OF this] obtain es1 bs es2 where
    es: "cached s = es1 @ (find_entry name (cached s), (cstr name, d), bs) # es2" .
  then have "(find_entry name (cached s), (cstr name, d), bs) \<in> set (cached s)" by (metis in_set_conv_decomp)
  from chain_entry[OF w(1) this] obtain q where
    "eql_node (heap s) (find_entry name (cached s)) = Some ((cstr name, d), bs, q)" by blast
  then obtain x y where
    "get_eql (heap s) (find_entry name (cached s)) =
      Some \<lparr>eql_len = int (length d), eql_name = x, eql_data = y, eql_next = q\<rparr>"
    "get_chars (heap s) x = Some (cstr name @ [NUL])" "get_chars (heap s) y = Some d"
    by (auto simp: eql_node_Some)
  moreover have "find_entry name (cached s) \<noteq> NULL"
    using find_entry_NULL[OF w(1)] m by simp
  ultimately show thesis using that by (simp add: load_str_def)
qed

definition lookup_spec :: "compiler \<Rightarrow> string option \<Rightarrow> equus \<Rightarrow> string + lua_value" where
  "lookup_spec compile md s =
     (case md of
        None \<Rightarrow> Inl (''bad argument #'' @ show_int 1)
      | Some m \<Rightarrow>
          (case cache_map s (cstr m) of
             None \<Rightarrow> Inl (''cache miss for '' @ quoted m)
           | Some d \<Rightarrow>
               (case compile (cstr m) d of
                  None \<Rightarrow> Inr (LFunction (Chunk (cstr m) d))
                | Some (status, msg) \<Rightarrow> Inr (if status = 0 then LString msg else LNil))))"

lemma cache_lookup_eq:
  assumes wf: "cache_wf s"
  shows "cache_lookup compile num_text md s = Some (lookup_spec compile md s, s)"
proof (cases md)
  case None
  then show ?thesis
    by (simp add: cache_lookup_def equus_local_cache_get_def lookup_spec_def first_result_def)
next
  case (Some m)
  show ?thesis
  proof (cases "cache_map s (cstr m)")
    case None
    then have "find_entry m (cached s) = NULL"
      using find_entry_NULL[OF cache_wfD(1)[OF wf]] by (simp add: cache_map_def)
    with Some None show ?thesis
      by (simp add: cache_lookup_def equus_local_cache_get_def cache_find_eq[OF wf] lookup_spec_def
          first_result_def)
  next
    case hit: (Some d)
    obtain c where "find_entry m (cached s) \<noteq> NULL" "get_eql (heap s) (find_entry m (cached s)) = Some c"
      "eql_len c = int (length d)" "get_chars (heap s) (eql_data c) = Some d"
      "load_str (heap s) (eql_name c) = Some (cstr m)" using cache_hit_read[OF wf hit] .
    moreover have "lua_insert (-2) (call_frame [LString m, LString msg, LNil]) =
        Some (call_frame [LString m, LNil, LString msg])" for msg
      using lua_insert_below[where L = luaL_newstate and xs = "[LString m]" and a = "LString msg" and b = LNil] by (simp add: call_frame_def)
    ultimately show ?thesis
      using Some hit
      by (cases "compile (cstr m) d")
        (auto simp: cache_lookup_def equus_local_cache_get_def cache_find_eq[OF wf] lookup_spec_def
          first_result_def luaL_loadbuffer_def load_aux_def lua_pushnil_def)
  qed
qed

text \<open>What \<open>equus_local_cache_add\<close> does, called with a name and a text.\<close>

lemma cache_add_wf:
  assumes wf: "cache_wf s"
  obtains r L s' where
    "equus_local_cache_add compile dump num_text (call_frame [LString m, LString d]) s = Some (r, L, s')"
    and "cache_wf s'" and "\<exists>n. r = Results n"
    and "cache_map s' = (if fst (luaL_loadbuffer compile d (cstr m) luaL_newstate) = 0 \<and>
          cache_map s (cstr m) = None then (cache_map s)(cstr m \<mapsto> d) else cache_map s)"
    and "dom (cells (heap s')) = (dom (cells (heap s)) - set (owned (cached s))) \<union> set (owned (cached s'))"
    and "same_on (dom (cells (heap s))) (heap s) (heap s')" and "global_conf s' = global_conf s"
proof -
  let ?L = "call_frame [LString m, LString d]"
  obtain rv lvm where lb: "luaL_loadbuffer compile d (cstr m) luaL_newstate = (rv, lvm)"
    by (cases "luaL_loadbuffer compile d (cstr m) luaL_newstate")
  have len: "lua_objlen ?L 2 = Some (length d)"
    by (simp add: lua_objlen_def lua_value_at_def index2adr_def place_value_def)
  have top: "lua_tolstring num_text (-1) ?L = Some (Some d, ?L)"
    by (simp add: lua_tolstring_def index2adr_def place_value_def)
  have ns: "lua_settop 0 luaL_newstate = Some luaL_newstate"
    by (simp add: lua_settop_def luaL_newstate_def)
  show thesis
  proof (cases "rv = 0")
    case False
    have "dom (cells (heap s)) = (dom (cells (heap s)) - set (owned (cached s))) \<union> set (owned (cached s))"
      using eql.chain_live[OF cache_wfD(1)[OF wf]] by auto
    with False show thesis
      using that[of "Results rv" ?L s] wf lb len ns by (simp add: equus_local_cache_add_def)
  next
    case True
    obtain a s' where st: "cache_store m d s = Some (a, s')" "cache_wf s'"
      "cache_map s' = (if cache_map s (cstr m) = None then (cache_map s)(cstr m \<mapsto> d) else cache_map s)"
      "dom (cells (heap s')) = (dom (cells (heap s)) - set (owned (cached s))) \<union> set (owned (cached s'))"
      "same_on (dom (cells (heap s))) (heap s) (heap s')" "global_conf s' = global_conf s"
      using cache_store_wf[OF wf] .
    have "equus_local_cache_add compile dump num_text ?L s = Some (Results 0, ?L, s')"
      using True lb len ns top st(1) by (simp add: equus_local_cache_add_def)
    with True lb st show thesis using that by simp
  qed
qed

section \<open>Loading a module over HTTP\<close>

text \<open>Code the public key of the agent vouches for, and a cache that holds no other.\<close>

definition signed :: "'k crypto \<Rightarrow> string \<Rightarrow> bool" where
  "signed crypto d \<longleftrightarrow> (\<exists>key sig. PEM_read_bio_PUBKEY crypto (equus_pubkey crypto) = Some key \<and>
     EVP_VerifyFinal crypto key d sig = 1)"

definition signed_cache :: "'k crypto \<Rightarrow> equus \<Rightarrow> bool" where
  "signed_cache crypto s \<longleftrightarrow> (\<forall>n d. cache_map s n = Some d \<longrightarrow> signed crypto d)"

lemma equus_verify_builtin:
  assumes "PEM_read_bio_PUBKEY crypto (equus_pubkey crypto) = Some key"
  shows "equus_verify crypto d (int (length d)) sig (int (length sig)) (Some []) 0 =
    Some (Returned (if EVP_VerifyFinal crypto key d sig = 1 then 0 else -1))"
  using assms by (simp add: equus_verify_def Let_def)

lemma lookup_spec_signed:
  "signed_cache crypto s \<Longrightarrow> lookup_spec compile md s = Inr (LFunction f) \<Longrightarrow>
   \<exists>n d. f = Chunk n d \<and> signed crypto d"
  by (auto simp: lookup_spec_def signed_cache_def split: option.splits prod.splits if_splits)

lemma equus_url_frame:
  assumes "same_on (dom (cells (heap s))) (heap s) (heap s')" and "global_conf s' = global_conf s"
    and "equus_url b s = Some u"
  shows "equus_url b s' = Some u"
proof -
  have eq: "cells (heap s') a = cells (heap s) a" if "cells (heap s) a \<noteq> None" for a
    using same_onD[OF assms(1)] that by blast
  show ?thesis
    using assms(2,3) eq by (auto simp: equus_url_def get_conf_def load_str_def get_chars_def
        bind_eq_Some_conv split: if_splits option.splits cell.splits)
qed

lemma fetched_wf:
  assumes wf: "cache_wf s"
  shows "\<exists>r s'. fetched compile dump num_text md data s = Some (r, s') \<and> cache_wf s' \<and>
    (md = None \<longrightarrow> (\<exists>err. r = Inl err) \<and> s' = s) \<and>
    (\<forall>m. md = Some m \<longrightarrow> r = lookup_spec compile md s' \<and>
      cache_map s' = (if fst (luaL_loadbuffer compile data (cstr m) luaL_newstate) = 0 \<and>
        cache_map s (cstr m) = None then (cache_map s)(cstr m \<mapsto> data) else cache_map s)) \<and>
    (equus_url b s = Some u \<longrightarrow> equus_url b s' = Some u)"
proof (cases md)
  case None
  with wf show ?thesis by (simp add: fetched_def equus_local_cache_add_def)
next
  case (Some m)
  from cache_add_wf[OF wf, of compile dump num_text m data] obtain r L s' where
    a: "equus_local_cache_add compile dump num_text (call_frame [LString m, LString data]) s = Some (r, L, s')"
    "cache_wf s'" "\<exists>n. r = Results n"
    "cache_map s' = (if fst (luaL_loadbuffer compile data (cstr m) luaL_newstate) = 0 \<and>
        cache_map s (cstr m) = None then (cache_map s)(cstr m \<mapsto> data) else cache_map s)"
    "same_on (dom (cells (heap s))) (heap s) (heap s')" "global_conf s' = global_conf s" by metis
  then have "fetched compile dump num_text md data s = Some (lookup_spec compile md s', s')"
    using Some cache_lookup_eq[OF a(2)] by (auto simp: fetched_def)
  moreover have "equus_url b s = Some u \<longrightarrow> equus_url b s' = Some u"
    using equus_url_frame[OF a(5,6)] by blast
  ultimately show ?thesis using Some a(2,4) by (intro exI[of _ "lookup_spec compile md s'"] exI[of _ s']) simp
qed

lemma http_load_hit:
  assumes "cache_wf s" and "equus_url b s = Some (Some url)"
    and "lookup_spec compile (after_slash (url @ md @ ''.lua'')) s = Inr v"
  shows "http_load compile dump num_text crypto http b md s = Some (Inr v, s)"
  using assms by (simp add: http_load_def cache_lookup_eq)

lemma http_load_miss:
  assumes "cache_wf s" and "equus_url b s = Some (Some url)"
    and "lookup_spec compile (after_slash (url @ md @ ''.lua'')) s = Inl e"
    and "PEM_read_bio_PUBKEY crypto (equus_pubkey crypto) = Some key"
  obtains (rejected) err where "http_load compile dump num_text crypto http b md s = Some (Inl err, s)"
  | (accepted) data sig where "http (url @ md @ ''.lua'') = (Some data, snd (http (url @ md @ ''.lua'')))"
      and "http (url @ md @ ''.sig'') = (Some sig, snd (http (url @ md @ ''.sig'')))"
      and "EVP_VerifyFinal crypto key data sig = 1"
      and "http_load compile dump num_text crypto http b md s =
        fetched compile dump num_text (after_slash (url @ md @ ''.lua'')) data s"
proof -
  obtain da dc sa sc where h: "http (url @ md @ ''.lua'') = (da, dc)" "http (url @ md @ ''.sig'') = (sa, sc)"
    by fastforce
  note v = equus_verify_builtin[OF assms(4)]
  note eq = cache_lookup_eq[OF assms(1)]
  show thesis
  proof (cases "sa = None \<or> sc = LString ''200'' \<or> da = None \<or> dc = LString ''200''")
    case True
    with assms h show thesis
      by (intro rejected[of "if sa = None then ''Signature is null''
           else if sc = LString ''200'' then ''Signature http code is not 200''
           else if da = None then ''Data is null'' else ''Data http code is not 200''"])
        (auto simp: http_load_def eq split: option.splits)
  next
    case False
    then obtain data sig where ds: "da = Some data" "sa = Some sig" by auto
    show thesis
    proof (cases "EVP_VerifyFinal crypto key data sig = 1")
      case True
      with False ds assms h show thesis
        by (intro accepted[of data sig]) (simp_all add: http_load_def eq v)
    next
      case no: False
      with False ds assms h show thesis
        by (intro rejected[of "''module '' @ md @ '' (from '' @ quoted (url @ md @ ''.lua'') @
              '') signature does not verify''"]) (simp add: http_load_def eq v)
    qed
  qed
qed

section \<open>Properties of the loaders\<close>

text \<open>
  (C1) The agent runs no module the public key does not vouch for: from a cache that holds signed
  code only, \<open>load\<close> of \<open>http_loader.lua\<close> returns, whatever the server answers, the cache stays of
  that kind, and a function it returns is the compiled text of a module whose signature the
  built-in key accepts.
\<close>

theorem http_load_only_signed:
  assumes "cache_wf s" and "equus_url b s = Some u" and "signed_cache crypto s"
    and "PEM_read_bio_PUBKEY crypto (equus_pubkey crypto) = Some key"
  shows "\<exists>r s'. http_load compile dump num_text crypto http b md s = Some (r, s') \<and> cache_wf s' \<and>
    signed_cache crypto s' \<and>
    (\<forall>f. r = Inr (LFunction f) \<longrightarrow> (\<exists>n d. f = Chunk n d \<and> signed crypto d))"
proof (cases u)
  case None
  with assms show ?thesis by (simp add: http_load_def)
next
  case (Some url)
  with assms(2) have u: "equus_url b s = Some (Some url)" by simp
  let ?key = "after_slash (url @ md @ ''.lua'')"
  show ?thesis
  proof (cases "lookup_spec compile ?key s")
    case (Inr v)
    have "http_load compile dump num_text crypto http b md s = Some (Inr v, s)"
      by (rule http_load_hit[OF assms(1) u Inr])
    moreover have "\<forall>f. v = LFunction f \<longrightarrow> (\<exists>n d. f = Chunk n d \<and> signed crypto d)"
      using lookup_spec_signed[OF assms(3)] Inr by blast
    ultimately show ?thesis using assms by simp
  next
    case (Inl e)
    show ?thesis using assms(1) u Inl assms(4)
    proof (cases rule: http_load_miss[where dump = dump and num_text = num_text and http = http])
      case (rejected err)
      with assms show ?thesis by auto
    next
      case (accepted data sig)
      from fetched_wf[OF assms(1), of compile dump num_text ?key data] obtain r s' where
        f: "fetched compile dump num_text ?key data s = Some (r, s')" "cache_wf s'"
        and none: "?key = None \<Longrightarrow> (\<exists>err. r = Inl err) \<and> s' = s"
        and some: "\<And>m. ?key = Some m \<Longrightarrow> r = lookup_spec compile ?key s' \<and>
          cache_map s' = (if fst (luaL_loadbuffer compile data (cstr m) luaL_newstate) = 0 \<and>
            cache_map s (cstr m) = None then (cache_map s)(cstr m \<mapsto> data) else cache_map s)" by blast
      have "signed crypto data" using accepted(3) assms(4) by (auto simp: signed_def)
      then have sc: "signed_cache crypto s'"
        using assms(3) none some by (cases ?key) (auto simp: signed_cache_def split: if_splits)
      have "\<exists>n d. g = Chunk n d \<and> signed crypto d" if "r = Inr (LFunction g)" for g
        using that none some lookup_spec_signed[OF sc] by (cases ?key) auto
      with accepted(4) f sc show ?thesis by auto
    qed
  qed
qed

text \<open>A server and a library for examples: every answer is the requested path, signatures repeat the code.\<close>

definition example_crypto :: "unit crypto" where
  "example_crypto = \<lparr>PEM_read_bio_PUBKEY = (\<lambda>_. Some ()),
     EVP_VerifyFinal = (\<lambda>_ d sig. if d = sig then 1 else 0), equus_pubkey = ''key''\<rparr>"

definition example_http :: http where
  "example_http url = (Some ''return 1'', LNumber 200)"

lemma example_url: "EQUUS_BOOTSTRAP_URL b = Some u \<Longrightarrow> equus_url b start = Some (Some u)"
  by (simp add: equus_url_def start_def equus_init_def)

theorem http_load_only_signed_witness:
  "\<exists>r s'. http_load (\<lambda>_ _. None) (\<lambda>_ _. []) (\<lambda>_. []) example_crypto example_http
       \<lparr>EQUUS_PLATFORM = ''linux'', EQUUS_BOOTSTRAP_URL = Some ''http://c.com/''\<rparr> ''m'' start = Some (r, s') \<and>
     cache_wf s' \<and> signed_cache example_crypto s' \<and>
     (\<forall>f. r = Inr (LFunction f) \<longrightarrow> (\<exists>n d. f = Chunk n d \<and> signed example_crypto d))"
  by (rule http_load_only_signed[OF cache_wf_start example_url])
    (simp_all add: signed_cache_def example_crypto_def)

text \<open>
  (C35) A module is fetched once: when its text is signed and compiles, \<open>load\<close> returns exactly the
  text the server sent, and every later \<open>load\<close> of it returns the same function, whatever the
  server answers then.
\<close>

theorem module_is_fetched_once:
  assumes "cache_wf s" and "equus_url b s = Some (Some url)"
    and "after_slash (url @ md @ ''.lua'') = Some m" and "cache_map s (cstr m) = None"
    and "http (url @ md @ ''.lua'') = (Some data, LNumber 200)"
    and "http (url @ md @ ''.sig'') = (Some sig, LNumber 200)"
    and "PEM_read_bio_PUBKEY crypto (equus_pubkey crypto) = Some key"
    and "EVP_VerifyFinal crypto key data sig = 1" and "compile (cstr m) data = None"
  shows "\<exists>s'. http_load compile dump num_text crypto http b md s =
      Some (Inr (LFunction (Chunk (cstr m) data)), s') \<and>
    (\<forall>http'. http_load compile dump num_text crypto http' b md s' =
      Some (Inr (LFunction (Chunk (cstr m) data)), s'))"
proof -
  let ?key = "after_slash (url @ md @ ''.lua'')"
  have miss: "lookup_spec compile ?key s = Inl (''cache miss for '' @ quoted m)"
    using assms(3,4) by (simp add: lookup_spec_def)
  have load: "http_load compile dump num_text crypto http b md s =
      fetched compile dump num_text ?key data s"
    using assms(2,5-8) miss equus_verify_builtin[OF assms(7)]
    by (simp add: http_load_def cache_lookup_eq[OF assms(1)])
  from fetched_wf[OF assms(1), of compile dump num_text ?key data b "Some url"] obtain s' where
    f: "fetched compile dump num_text ?key data s = Some (lookup_spec compile ?key s', s')" "cache_wf s'"
    and map: "cache_map s' = (cache_map s)(cstr m \<mapsto> data)" and u: "equus_url b s' = Some (Some url)"
    using assms(2,3,4,9) by (auto simp: luaL_loadbuffer_def)
  have hit: "lookup_spec compile ?key s' = Inr (LFunction (Chunk (cstr m) data))"
    using assms(3,9) map by (simp add: lookup_spec_def)
  show ?thesis
    using load f hit by (intro exI[of _ s']) (simp add: http_load_hit[OF f(2) u hit])
qed

theorem module_is_fetched_once_witness:
  "\<exists>s'. http_load (\<lambda>_ _. None) (\<lambda>_ _. []) (\<lambda>_. []) example_crypto example_http
       \<lparr>EQUUS_PLATFORM = ''linux'', EQUUS_BOOTSTRAP_URL = Some ''http://c.com/''\<rparr> ''m'' start =
     Some (Inr (LFunction (Chunk ''m.lua'' ''return 1'')), s')"
  using module_is_fetched_once[OF cache_wf_start example_url,
      of "\<lparr>EQUUS_PLATFORM = ''linux'', EQUUS_BOOTSTRAP_URL = Some ''http://c.com/''\<rparr>" "''http://c.com/''"
         "''m''" "''m.lua''" example_http "''return 1''" "''return 1''" example_crypto "()"
         "\<lambda>_ _. None" "\<lambda>_ _. []" "\<lambda>_. []"]
  by (auto simp: after_slash_def example_http_def example_crypto_def)

text \<open>
  \<open>equus_verify\<close> accepts exactly what the library accepts: it returns 0 if and only if the key,
  the built-in one when none is given, can be read and \<open>EVP_VerifyFinal\<close> returns 1; for any other
  value, its error value included, it returns -1, and it aborts if and only if the key cannot be read.
\<close>

theorem equus_verify_accepts_iff:
  assumes "len = int (length input)" and "siglen = int (length sigbuf)" and "keylen = int (length keybuf)"
  shows "let pem = PEM_read_bio_PUBKEY crypto (if keybuf = [] then equus_pubkey crypto else keybuf);
      out = equus_verify crypto input len sigbuf siglen (Some keybuf) keylen
    in (out = Some (Returned 0) \<longleftrightarrow> (\<exists>key. pem = Some key \<and> EVP_VerifyFinal crypto key input sigbuf = 1)) \<and>
       (out = Some (Returned (-1)) \<longleftrightarrow> (\<exists>key. pem = Some key \<and> EVP_VerifyFinal crypto key input sigbuf \<noteq> 1)) \<and>
       (out = Some Aborted \<longleftrightarrow> pem = None)"
  using assms by (cases "PEM_read_bio_PUBKEY crypto (if keybuf = [] then equus_pubkey crypto else keybuf)")
    (auto simp: equus_verify_def Let_def split: if_splits)

theorem equus_verify_accepts_iff_witness:
  "equus_verify example_crypto ''code'' 4 ''sig'' 3 (Some []) 0 = Some (Returned 0) \<longleftrightarrow>
     EVP_VerifyFinal example_crypto () ''code'' ''sig'' = 1"
proof -
  have p: "4 = int (length ''code'')" "3 = int (length ''sig'')" "0 = int (length ([] :: string))"
    by simp_all
  note t = equus_verify_accepts_iff[OF p, of example_crypto, unfolded Let_def, THEN conjunct1]
  have "(\<exists>key. PEM_read_bio_PUBKEY example_crypto
      (if ([] :: string) = [] then equus_pubkey example_crypto else []) = Some key \<and>
      EVP_VerifyFinal example_crypto key ''code'' ''sig'' = 1) \<longleftrightarrow>
      EVP_VerifyFinal example_crypto () ''code'' ''sig'' = 1"
    by (simp add: example_crypto_def)
  with t show ?thesis by (rule trans)
qed

text \<open>
  The loader of local modules hands out signed code only: if it leaves a function on the stack,
  that function is the compiled text of the module of that name, and \<open>EVP_VerifyFinal\<close> returned 1
  for that text.
\<close>

theorem equus_local_load_only_signed:
  assumes "equus_local_load compile num_text crypto dev (call_frame [LString name]) = Some (r, L)"
    and "last (stk L) = LFunction f"
  shows "r = Results 1 \<and> f = Chunk (cstr name) (snd (equus_localdev_get_module dev (cstr name))) \<and>
    (\<exists>key. EVP_VerifyFinal crypto key (snd (equus_localdev_get_module dev (cstr name)))
       (snd (equus_localdev_get_signature dev (cstr name))) = 1)"
proof -
  obtain p where p: "equus_localdev_get_module dev (cstr name) = p" by blast
  show ?thesis
    using assms
    by (auto simp: equus_local_load_def Let_def equus_verify_def luaL_loadbuffer_def lua_pushnil_def
        bind_eq_Some_conv split: if_splits prod.splits option.splits finish.splits)
qed

definition example_dev :: localdev where
  "example_dev = \<lparr>equus_localdev_has_module = (\<lambda>_. 0), equus_localdev_get_module = (\<lambda>_. (0, ''return 2'')),
     equus_localdev_get_signature = (\<lambda>_. (0, ''return 2'')), equus_localdev_get_pubkey = (\<lambda>_. (0, ''key''))\<rparr>"

theorem equus_local_load_only_signed_witness:
  "\<exists>L key. equus_local_load (\<lambda>_ _. None) (\<lambda>_. []) example_crypto example_dev (call_frame [LString ''m'']) =
     Some (Results 1, L) \<and> last (stk L) = LFunction (Chunk ''m'' ''return 2'') \<and>
     EVP_VerifyFinal example_crypto key ''return 2'' ''return 2'' = 1"
proof -
  let ?L = "call_frame [LString ''m'', LFunction (Chunk ''m'' ''return 2'')]"
  have r: "equus_local_load (\<lambda>_ _. None) (\<lambda>_. []) example_crypto example_dev (call_frame [LString ''m'']) =
      Some (Results 1, ?L)"
    by (simp add: equus_local_load_def equus_verify_def example_dev_def example_crypto_def luaL_loadbuffer_def)
  have "last (stk ?L) = LFunction (Chunk ''m'' ''return 2'')" by simp
  from equus_local_load_only_signed[OF r this] r this show ?thesis by (auto simp: example_dev_def)
qed

text \<open>
  What is cached is the text, not bytecode: whatever \<open>lua_dump\<close> produces, the entry that
  \<open>equus_local_cache_add\<close> makes holds the module text itself, because it is read from the stack of
  the caller and not from the state that compiled it. And when the text does not compile, the status
  of the compiler is returned as the number of results, although the stack holds two values.
\<close>

theorem cache_add_stores_text:
  assumes "cache_wf s" and "cache_map s (cstr m) = None"
  shows "\<exists>r s'. equus_local_cache_add compile dump num_text (call_frame [LString m, LString d]) s =
      Some (r, call_frame [LString m, LString d], s') \<and>
    (case compile (cstr m) d of
       None \<Rightarrow> r = Results 0 \<and> cache_map s' = (cache_map s)(cstr m \<mapsto> d)
     | Some (status, msg) \<Rightarrow> status \<noteq> 0 \<longrightarrow> r = Results status \<and> s' = s)"
proof (cases "compile (cstr m) d")
  case None
  have len: "lua_objlen (call_frame [LString m, LString d]) 2 = Some (length d)"
    by (simp add: lua_objlen_def lua_value_at_def index2adr_def place_value_def)
  have top: "lua_tolstring num_text (-1) (call_frame [LString m, LString d]) =
      Some (Some d, call_frame [LString m, LString d])"
    by (simp add: lua_tolstring_def index2adr_def place_value_def)
  from cache_store_wf[OF assms(1), of m d] assms(2) obtain a s' where
    "cache_store m d s = Some (a, s')" "cache_map s' = (cache_map s)(cstr m \<mapsto> d)" by metis
  with None len top show ?thesis
    by (simp add: equus_local_cache_add_def lua_settop_def luaL_loadbuffer_def)
next
  case (Some e)
  obtain r L s' where "equus_local_cache_add compile dump num_text (call_frame [LString m, LString d]) s
      = Some (r, L, s')" using cache_add_wf[OF assms(1)] by metis
  with Some show ?thesis
    by (cases e) (auto simp: equus_local_cache_add_def lua_settop_def luaL_loadbuffer_def lua_objlen_def
        lua_value_at_def index2adr_def place_value_def lua_tolstring_def bind_eq_Some_conv split: if_splits)
qed

theorem cache_add_stores_text_witness:
  "\<exists>r s'. equus_local_cache_add (\<lambda>_ _. Some (3, ''syntax'')) (\<lambda>_ _. ''bytecode'') (\<lambda>_. [])
      (call_frame [LString ''m'', LString ''x = '']) start =
      Some (r, call_frame [LString ''m'', LString ''x = ''], s') \<and> r = Results 3"
  using cache_add_stores_text[OF cache_wf_start, of "''m''" "\<lambda>_ _. Some (3, ''syntax'')"] by simp

end
