(* ===== verification/Equus_Registry.thy ===== *)
theory Equus_Registry
  imports Equus_Loader Equus_Debugger
begin

text \<open>
  How a Lua state of the agent is set up (\<open>equus_loader_preload\<close> and \<open>luaopen_equus_loader\<close> of
  \<open>equus_loader.c\<close>): the C functions it can call, the C modules it can require, and the order of
  the searchers of \<open>package.loaders\<close>; and the dump of a Lua stack into the log.
\<close>

section \<open>Dumping a stack\<close>

text \<open>\<open>fmt_g\<close> renders a number, \<open>fmt_p\<close> the address of a value.\<close>

definition dump_line :: "(real \<Rightarrow> string) \<Rightarrow> (lua_value \<Rightarrow> string) \<Rightarrow> int \<Rightarrow> lua_value \<Rightarrow> string" where
  "dump_line fmt_g fmt_p i v = show_int i @ '':  '' @
     (case v of
        LString bs \<Rightarrow> [CHR 0x27] @ cstr bs @ [CHR 0x27]
      | LUserdata p \<Rightarrow> ''<userdata '' @ fmt_p v @ ''>''
      | LLightUserdata p \<Rightarrow> ''<lightuserdata '' @ fmt_p v @ ''>''
      | LNil \<Rightarrow> ''NIL''
      | LBoolean b \<Rightarrow> if b then ''true'' else ''false''
      | LNumber n \<Rightarrow> fmt_g n
      | LTable t \<Rightarrow> ''<table '' @ fmt_p v @ ''>''
      | LThread p \<Rightarrow> ''<thread '' @ fmt_p v @ ''>''
      | LFunction f \<Rightarrow> ''<function '' @ fmt_p v @ ''>'')"

text \<open>The loop over the indices; \<open>vs\<close> are the values from index \<open>i\<close> on.\<close>

primrec dump_from ::
  "(real \<Rightarrow> string) \<Rightarrow> (lua_value \<Rightarrow> string) \<Rightarrow> int \<Rightarrow> lua_value list \<Rightarrow> equus \<Rightarrow> equus option" where
  "dump_from fmt_g fmt_p i [] s = Some s"
| "dump_from fmt_g fmt_p i (v # vs) s = do {
     s \<leftarrow> logErr (dump_line fmt_g fmt_p i v) s;
     dump_from fmt_g fmt_p (i + 1) vs s
   }"

definition lua_stack_dump ::
  "(real \<Rightarrow> string) \<Rightarrow> (lua_value \<Rightarrow> string) \<Rightarrow> lua_State \<Rightarrow> string \<Rightarrow> equus \<Rightarrow> equus option" where
  "lua_stack_dump fmt_g fmt_p L msg s = do {
     let otop = lua_gettop L;
     s \<leftarrow> logErr (''Lua Stack Dump: '' @ cstr msg @ '' starting at '' @ show_int otop) s;
     dump_from fmt_g fmt_p 1 (take (nat otop) (stk L)) s
   }"

definition equus_lua_stack_dump ::
  "(real \<Rightarrow> string) \<Rightarrow> (real \<Rightarrow> string) \<Rightarrow> (lua_value \<Rightarrow> string) \<Rightarrow> lua_State \<Rightarrow> equus \<Rightarrow>
   (lua_result \<times> lua_State \<times> equus) option" where
  "equus_lua_stack_dump num_text fmt_g fmt_p L s = do {
     (arg, L) \<leftarrow> luaL_checklstring num_text 1 L;
     (case arg of
        Inl err \<Rightarrow> Some (Error err, L, s)
      | Inr name \<Rightarrow> do { s \<leftarrow> lua_stack_dump fmt_g fmt_p L name s; Some (Results 0, L, s) })
   }"

section \<open>Registration\<close>

text \<open>
  The modules bundled in \<open>extern\<close>, as the pairs of \<open>lua_pushcfunction\<close> and \<open>lua_setfield\<close> in
  the order of the code.
\<close>

definition preload_modules :: "bool \<Rightarrow> (string \<times> string) list" where
  "preload_modules win32 =
     [(''socket.core'', ''luaopen_socket_core'')] @
     (if win32 then [] else [(''socket.unix'', ''luaopen_socket_unix'')]) @
     [(''mime.core'', ''luaopen_mime_core''),
      (''ssl.context'', ''luaopen_ssl_context''),
      (''ssl.core'', ''luaopen_ssl_core''),
      (''alien.core'', ''luaopen_alien_core''),
      (''alien.struct'', ''luaopen_alien_struct''),
      (''pack'', ''luaopen_pack''),
      (''lua51-lanes'', ''luaopen_lanes'')]"

primrec preload_fields :: "(string \<times> string) list \<Rightarrow> lua_State \<Rightarrow> lua_State option" where
  "preload_fields [] L = Some L"
| "preload_fields (m # ms) L = do {
     L \<leftarrow> lua_setfield (-2) (fst m) (lua_pushcfunction (snd m) L);
     preload_fields ms L
   }"

text \<open>\<open>win32\<close> is the macro \<open>_WIN32\<close>: the Unix sockets are left out there.\<close>

definition equus_loader_preload :: "bool \<Rightarrow> lua_State \<Rightarrow> lua_State finish option" where
  "equus_loader_preload win32 L = do {
     let otop = lua_gettop L;
     L \<leftarrow> lua_getglobal ''package'' L;
     t \<leftarrow> lua_type L (-1);
     if t \<noteq> LUA_TTABLE then Some Aborted
     else do {
       L \<leftarrow> lua_gettable (-2) (lua_pushlstring ''preload'' L);
       t \<leftarrow> lua_type L (-1);
       if t \<noteq> LUA_TTABLE then Some Aborted
       else do {
         L \<leftarrow> preload_fields (preload_modules win32) L;
         L \<leftarrow> lua_settop otop L;
         Some (Returned L)
       }
     }
   }"

text \<open>
  \<open>lua_pcall(L, 1, 1, 0)\<close> of the function below the argument: it pops both and pushes one value,
  the result or the error. \<open>pcall\<close> gives the status, that value and the tables afterwards.
\<close>

type_synonym pcall = "lua_value \<Rightarrow> lua_value \<Rightarrow> lua_State \<Rightarrow> int \<times> lua_value \<times> (nat \<Rightarrow> lua_table)"

definition lua_pcall_1_1 :: "pcall \<Rightarrow> lua_State \<Rightarrow> (int \<times> lua_State) option" where
  "lua_pcall_1_1 pcall L = do {
     f \<leftarrow> lua_value_at L (-2);
     a \<leftarrow> lua_value_at L (-1);
     let (rv, v, ts) = pcall f a L;
     Some (rv, L\<lparr>tables := ts, stk := butlast (butlast (stk L)) @ [v]\<rparr>)
   }"

text \<open>The end of \<open>luaopen_equus_loader\<close>, from the searcher of built-in modules on.\<close>

definition append_field :: "string \<Rightarrow> lua_State \<Rightarrow> lua_State option" where
  "append_field f L = do {
     n \<leftarrow> lua_objlen L (-1);
     lua_settable (-3) (lua_pushcfunction f (lua_pushnumber (real n + 1) L))
   }"

definition open_loaders :: "bool \<Rightarrow> pcall \<Rightarrow> int \<Rightarrow> lua_State \<Rightarrow> equus \<Rightarrow> (lua_State \<times> equus) finish option" where
  "open_loaders local_dev pcall otop L s = do {
     L \<leftarrow> append_field ''equus_loader_load'' L;
     if local_dev then do {
       L \<leftarrow> append_field ''equus_local_load'' L;
       L \<leftarrow> lua_settop otop L;
       Some (Returned (L, s))
     } else do {
       L \<leftarrow> lua_getglobal ''require'' L;
       t \<leftarrow> lua_type L (-1);
       if t \<noteq> LUA_TFUNCTION then Some Aborted
       else do {
         (rv, L) \<leftarrow> lua_pcall_1_1 pcall (lua_pushlstring ''http_loader'' L);
         if rv \<noteq> 0 then Some Aborted
         else do {
           L \<leftarrow> lua_getglobal ''package'' L;
           L \<leftarrow> lua_gettable (-2) (lua_pushlstring ''loaders'' L);
           n \<leftarrow> lua_objlen L (-1);
           L \<leftarrow> lua_pushvalue (-4) (lua_pushnumber (real n + 1) L);
           L \<leftarrow> lua_settable (-3) L;
           L \<leftarrow> lua_settop otop L;
           Some (Returned (L, s))
         }
       }
     }
   }"

definition luaopen_equus_loader ::
  "bool \<Rightarrow> bool \<Rightarrow> pcall \<Rightarrow> lua_State \<Rightarrow> equus \<Rightarrow> (lua_State \<times> equus) finish option" where
  "luaopen_equus_loader win32 local_dev pcall L s = do {
     L \<leftarrow> lua_register ''equus_local_cache_add'' ''equus_local_cache_add'' L;
     L \<leftarrow> lua_register ''equus_local_cache_get'' ''equus_local_cache_get'' L;
     L \<leftarrow> lua_register ''equus_lua_stack_dump'' ''equus_lua_stack_dump'' L;
     L \<leftarrow> luaopen_equus_debugger L;
     L \<leftarrow> lua_register ''equus_popen_capture'' ''equus_popen_capture'' L;
     L \<leftarrow> (if win32 then lua_register ''equus_exec_call_win32_core'' ''equus_exec_call_win32_core'' L
           else lua_register ''equus_exec_call_unix_core'' ''equus_exec_call_unix_core'' L);
     p \<leftarrow> equus_loader_preload win32 L;
     (case p of
        Aborted \<Rightarrow> Some Aborted
      | Returned L \<Rightarrow> do {
          let otop = lua_gettop L;
          L \<leftarrow> lua_getglobal ''package'' L;
          t \<leftarrow> lua_type L (-1);
          if t \<noteq> LUA_TTABLE then Some Aborted
          else do {
            L \<leftarrow> lua_gettable (-2) (lua_pushlstring ''loaders'' L);
            t \<leftarrow> lua_type L (-1);
            if t \<noteq> LUA_TTABLE then Some Aborted else open_loaders local_dev pcall otop L s
          }
        })
   }"

section \<open>What the registration leaves\<close>

text \<open>Two states that differ at most in their tables.\<close>

definition same_frame :: "lua_State \<Rightarrow> lua_State \<Rightarrow> bool" where
  "same_frame L L' \<longleftrightarrow> L' = L\<lparr>tables := tables L'\<rparr>"

lemma same_frame_refl [simp]: "same_frame L L"
  by (simp add: same_frame_def)

lemma same_frame_trans: "same_frame L L' \<Longrightarrow> same_frame L' L'' \<Longrightarrow> same_frame L L''"
  unfolding same_frame_def by (metis lua_State.update_convs(4) lua_State.surjective)

lemma same_frameD: "same_frame L L' \<Longrightarrow> stk L' = stk L \<and> l_gt L' = l_gt L"
  by (metis (no_types, lifting) lua_State.select_convs(1,2) lua_State.surjective lua_State.update_convs(4) same_frame_def)

text \<open>The tables a standard Lua state has: the packages, their preloaded modules, the searchers.\<close>

definition lua_libs :: "lua_State \<Rightarrow> nat \<Rightarrow> nat \<Rightarrow> nat \<Rightarrow> nat \<Rightarrow> lua_function \<Rightarrow> bool" where
  "lua_libs L pk pre lo n req \<longleftrightarrow>
     table_get (tables L (l_gt L)) (LString ''package'') = LTable pk \<and>
     table_get (tables L pk) (LString ''preload'') = LTable pre \<and>
     table_get (tables L pk) (LString ''loaders'') = LTable lo \<and>
     table_get (tables L (l_gt L)) (LString ''require'') = LFunction req \<and>
     distinct [l_gt L, pk, pre, lo] \<and> is_array (tables L lo) n"

definition registered :: "string \<Rightarrow> string \<Rightarrow> lua_State \<Rightarrow> lua_State" where
  "registered n f L = L\<lparr>tables := (tables L)(l_gt L :=
     table_set (tables L (l_gt L)) (LString n) (LFunction (C_function f)))\<rparr>"

lemma lua_register_eq: "lua_register n f L = Some (registered n f L)"
proof -
  have "lua_value_at (lua_pushcfunction f L) (-1) = Some (LFunction (C_function f))"
    by (simp add: push_defs)
  then show ?thesis by (cases L) (simp add: lua_register_def lua_setfield_def push_defs registered_def)
qed

lemma lua_libs_register:
  "lua_libs L pk pre lo n req \<Longrightarrow> m \<noteq> ''package'' \<Longrightarrow> m \<noteq> ''require'' \<Longrightarrow>
   lua_libs (registered m f L) pk pre lo n req"
  by (simp add: lua_libs_def registered_def)

lemma registered_frame [simp]:
  "stk (registered m f L) = stk L" "l_gt (registered m f L) = l_gt L"
  "t \<noteq> l_gt L \<Longrightarrow> tables (registered m f L) t = tables L t"
  by (simp_all add: registered_def)

lemma setfield_top:
  assumes "stk L = xs @ [LTable t]"
  shows "\<exists>L'. lua_setfield (-2) n (lua_pushcfunction f L) = Some L' \<and> same_frame L L' \<and>
    tables L' = (tables L)(t := table_set (tables L t) (LString n) (LFunction (C_function f)))"
proof -
  have "lua_value_at (lua_pushcfunction f L) (-2) = Some (LTable t)"
    "lua_value_at (lua_pushcfunction f L) (-1) = Some (LFunction (C_function f))"
    using assms by (simp_all add: push_defs)
  then show ?thesis
    using assms by (cases L) (simp add: lua_setfield_def same_frame_def push_defs butlast_append)
qed

lemma preload_fields_eq:
  assumes "stk L = xs @ [LTable t]" and "distinct (map fst ms)"
  shows "\<exists>L'. preload_fields ms L = Some L' \<and> same_frame L L' \<and> (\<forall>u. u \<noteq> t \<longrightarrow> tables L' u = tables L u) \<and>
    (\<forall>m \<in> set ms. table_get (tables L' t) (LString (fst m)) = LFunction (C_function (snd m))) \<and>
    (\<forall>k. k \<notin> (\<lambda>m. LString (fst m)) ` set ms \<longrightarrow> table_get (tables L' t) k = table_get (tables L t) k)"
  using assms
proof (induction ms arbitrary: L)
  case (Cons m ms)
  from setfield_top[OF Cons.prems(1), of "fst m" "snd m"] obtain L1 where
    L1: "lua_setfield (-2) (fst m) (lua_pushcfunction (snd m) L) = Some L1" "same_frame L L1"
    "tables L1 = (tables L)(t := table_set (tables L t) (LString (fst m)) (LFunction (C_function (snd m))))"
    by blast
  have "stk L1 = xs @ [LTable t]" using same_frameD[OF L1(2)] Cons.prems(1) by simp
  moreover have d: "distinct (map fst ms)" "fst m \<notin> set (map fst ms)" using Cons.prems(2) by auto
  ultimately obtain L2 where L2: "preload_fields ms L1 = Some L2" "same_frame L1 L2"
    "\<forall>u. u \<noteq> t \<longrightarrow> tables L2 u = tables L1 u"
    "\<forall>m \<in> set ms. table_get (tables L2 t) (LString (fst m)) = LFunction (C_function (snd m))"
    "\<forall>k. k \<notin> (\<lambda>m. LString (fst m)) ` set ms \<longrightarrow> table_get (tables L2 t) k = table_get (tables L1 t) k"
    using Cons.IH by blast
  have "LString (fst m) \<notin> (\<lambda>m. LString (fst m)) ` set ms" using d(2) by auto
  with L2(5) L1(3) have "table_get (tables L2 t) (LString (fst m)) = LFunction (C_function (snd m))" by simp
  moreover have "\<forall>k. k \<notin> (\<lambda>m. LString (fst m)) ` set (m # ms) \<longrightarrow>
      table_get (tables L2 t) k = table_get (tables L t) k"
    using L2(5) L1(3) by auto
  moreover have "same_frame L L2" using same_frame_trans L1(2) L2(2) .
  ultimately show ?case using L1 L2 by (intro exI[of _ L2]) auto
qed simp

lemma distinct_preload [simp]: "distinct (map fst (preload_modules win32))"
  by (simp add: preload_modules_def)

text \<open>A table looked up in \<open>package\<close>, with both left on the stack.\<close>

lemma push_package:
  assumes "table_get (tables L (l_gt L)) (LString ''package'') = LTable pk"
    and "table_get (tables L pk) (LString k) = LTable t"
  shows "lua_getglobal ''package'' L = Some (L\<lparr>stk := stk L @ [LTable pk]\<rparr>)"
    and "lua_type (L\<lparr>stk := stk L @ [LTable pk]\<rparr>) (-1) = Some LUA_TTABLE"
    and "lua_gettable (-2) (lua_pushlstring k (L\<lparr>stk := stk L @ [LTable pk]\<rparr>)) =
      Some (L\<lparr>stk := stk L @ [LTable pk, LTable t]\<rparr>)"
    and "lua_type (L\<lparr>stk := stk L @ [LTable pk, LTable t]\<rparr>) (-1) = Some LUA_TTABLE"
  using assms
  by (simp_all add: lua_getfield_def push_defs lua_gettable_def lua_type_value butlast_append)

lemma equus_loader_preload_eq:
  assumes "lua_libs L pk pre lo n req"
  obtains L' where "equus_loader_preload win32 L = Some (Returned L')" and "same_frame L L'"
    and "\<forall>u. u \<noteq> pre \<longrightarrow> tables L' u = tables L u"
    and "\<forall>m \<in> set (preload_modules win32).
      table_get (tables L' pre) (LString (fst m)) = LFunction (C_function (snd m))"
proof -
  note p = push_package[of L pk "''preload''" pre]
  have g: "table_get (tables L (l_gt L)) (LString ''package'') = LTable pk"
    "table_get (tables L pk) (LString ''preload'') = LTable pre" using assms by (simp_all add: lua_libs_def)
  let ?L = "L\<lparr>stk := stk L @ [LTable pk, LTable pre]\<rparr>"
  obtain L1 where L1: "preload_fields (preload_modules win32) ?L = Some L1" "same_frame ?L L1"
    "\<forall>u. u \<noteq> pre \<longrightarrow> tables L1 u = tables L u"
    "\<forall>m \<in> set (preload_modules win32).
      table_get (tables L1 pre) (LString (fst m)) = LFunction (C_function (snd m))"
    using preload_fields_eq[of ?L "stk L @ [LTable pk]" pre "preload_modules win32"] by auto
  have "L1 = L\<lparr>stk := stk L @ [LTable pk, LTable pre], tables := tables L1\<rparr>"
    using L1(2) by (simp add: same_frame_def)
  then have st: "lua_settop (lua_gettop L) L1 = Some (L\<lparr>tables := tables L1\<rparr>)"
    by (cases L, cases L1) (simp add: lua_settop_def lua_gettop_def)
  show thesis
  proof (rule that)
    show "equus_loader_preload win32 L = Some (Returned (L\<lparr>tables := tables L1\<rparr>))"
      using p(1-4)[OF g] L1(1) st by (simp add: equus_loader_preload_def)
  qed (use L1(3,4) in \<open>simp_all add: same_frame_def\<close>)
qed

lemma append_field_eq:
  assumes "stk L = xs @ [LTable t]" and "is_array (tables L t) n"
  shows "append_field f L = Some (L\<lparr>tables := (tables L)(t :=
    table_set (tables L t) (LNumber (real n + 1)) (LFunction (C_function f)))\<rparr>)"
proof -
  have "lua_value_at L (-1) = Some (LTable t)" using assms(1) by (simp add: value_at_lit)
  then have "lua_objlen L (-1) = Some n" using luaH_getn_array[OF assms(2)] by (simp add: lua_objlen_def)
  then show ?thesis
    using assms(1) by (cases L) (simp add: append_field_def lua_settable_def push_defs butlast_append
        value_at_lit nth_append)
qed

text \<open>
  What \<open>require "http_loader"\<close> is relied on for: it returns a function, and the tables of the packages
  are as before.
\<close>

definition require_ok :: "pcall \<Rightarrow> lua_function \<Rightarrow> lua_function \<Rightarrow> nat \<Rightarrow> nat \<Rightarrow> nat \<Rightarrow> bool" where
  "require_ok pcall req ld pk pre lo \<longleftrightarrow>
     (\<forall>L. case pcall (LFunction req) (LString ''http_loader'') L of (rv, v, ts) \<Rightarrow>
        rv = 0 \<and> v = LFunction ld \<and> ts pk = tables L pk \<and> ts pre = tables L pre \<and> ts lo = tables L lo \<and>
        table_get (ts (l_gt L)) (LString ''package'') = table_get (tables L (l_gt L)) (LString ''package''))"

lemma open_loaders_eq:
  assumes "lua_libs L pk pre lo n req" and "require_ok pcall req ld pk pre lo"
  shows "\<exists>L'. open_loaders False pcall (lua_gettop L) (L\<lparr>stk := stk L @ [LTable pk, LTable lo]\<rparr>) s =
      Some (Returned (L', s)) \<and> stk L' = stk L \<and> tables L' pre = tables L pre \<and>
      tables L' lo = table_set (table_set (tables L lo)
        (LNumber (real n + 1)) (LFunction (C_function ''equus_loader_load'')))
        (LNumber (real n + 2)) (LFunction ld)"
proof -
  let ?t1 = "table_set (tables L lo) (LNumber (real n + 1)) (LFunction (C_function ''equus_loader_load''))"
  let ?L1 = "L\<lparr>stk := stk L @ [LTable pk, LTable lo], tables := (tables L)(lo := ?t1)\<rparr>"
  from assms(1) have g: "table_get (tables L (l_gt L)) (LString ''package'') = LTable pk"
    "table_get (tables L pk) (LString ''loaders'') = LTable lo"
    "table_get (tables L (l_gt L)) (LString ''require'') = LFunction req"
    and d: "l_gt L \<noteq> lo" "pk \<noteq> lo" "pre \<noteq> lo" and arr: "is_array (tables L lo) n"
    by (auto simp: lua_libs_def)
  have a: "append_field ''equus_loader_load'' (L\<lparr>stk := stk L @ [LTable pk, LTable lo]\<rparr>) = Some ?L1"
    using append_field_eq[of "L\<lparr>stk := stk L @ [LTable pk, LTable lo]\<rparr>" "stk L @ [LTable pk]" lo n] arr by simp
  let ?L2 = "?L1\<lparr>stk := stk L @ [LTable pk, LTable lo, LFunction req, LString ''http_loader'']\<rparr>"
  obtain ts where ts: "pcall (LFunction req) (LString ''http_loader'') ?L2 = (0, LFunction ld, ts)"
    "ts pk = tables L pk" "ts pre = tables L pre" "ts lo = ?t1"
    "table_get (ts (l_gt L)) (LString ''package'') = LTable pk"
    using assms(2)[unfolded require_ok_def, rule_format, of ?L2] d g by (auto split: prod.splits)
  have arr1: "is_array (ts lo) (Suc n)" using is_array_append[OF arr] ts(4) by simp
  have n2: "real (Suc n) + 1 = real n + 2" by simp
  have r: "lua_getglobal ''require'' ?L1 = Some (?L1\<lparr>stk := stk L @ [LTable pk, LTable lo, LFunction req]\<rparr>)"
    using g(3) d by (simp add: lua_getfield_def push_defs)
  have pc: "lua_pcall_1_1 pcall ?L2 = Some (0, ?L1\<lparr>stk := stk L @ [LTable pk, LTable lo, LFunction ld], tables := ts\<rparr>)"
    using ts(1) by (simp add: lua_pcall_1_1_def butlast_append value_at_lit nth_append)
  let ?L3 = "L\<lparr>stk := stk L @ [LTable pk, LTable lo, LFunction ld], tables := ts\<rparr>"
  have pk: "lua_getglobal ''package'' ?L3 = Some (L\<lparr>stk := stk L @ [LTable pk, LTable lo, LFunction ld, LTable pk], tables := ts\<rparr>)"
    using ts(5) by (simp add: lua_getfield_def push_defs)
  have lo: "lua_gettable (-2) (lua_pushlstring ''loaders'' (L\<lparr>stk := stk L @ [LTable pk, LTable lo, LFunction ld, LTable pk], tables := ts\<rparr>))
      = Some (L\<lparr>stk := stk L @ [LTable pk, LTable lo, LFunction ld, LTable pk, LTable lo], tables := ts\<rparr>)"
    using ts(2) g(2) by (simp add: lua_gettable_def push_defs butlast_append value_at_lit nth_append)
  let ?L4 = "L\<lparr>stk := stk L @ [LTable pk, LTable lo, LFunction ld, LTable pk, LTable lo], tables := ts\<rparr>"
  have len: "lua_objlen ?L4 (-1) = Some (Suc n)"
    using luaH_getn_array[OF arr1] by (simp add: lua_objlen_def value_at_lit nth_append)
  let ?L5 = "L\<lparr>stk := stk L @ [LTable pk, LTable lo, LFunction ld, LTable pk, LTable lo,
      LNumber (real n + 2), LFunction ld], tables := ts\<rparr>"
  have pv: "lua_pushvalue (-4) (lua_pushnumber (real (Suc n) + 1) ?L4) = Some ?L5"
    by (simp add: lua_pushvalue_def push_defs value_at_lit nth_append)
  have st: "lua_settable (-3) ?L5 = Some (L\<lparr>stk := stk L @ [LTable pk, LTable lo, LFunction ld, LTable pk, LTable lo],
      tables := ts(lo := table_set ?t1 (LNumber (real n + 2)) (LFunction ld))\<rparr>)"
    using ts(4) by (simp add: lua_settable_def value_at_lit nth_append butlast_append)
  show ?thesis
    using a r pc pk lo len pv st ts(3) d(3)
    by (simp add: open_loaders_def lua_type_value value_at_lit nth_append push_defs lua_settop_def lua_gettop_def)
qed

section \<open>The whole registration\<close>

lemma luaopen_equus_loader_spec:
  assumes "lua_libs L pk pre lo n req" and "require_ok pcall req ld pk pre lo"
  shows "\<exists>L'. luaopen_equus_loader win32 False pcall L s = Some (Returned (L', s)) \<and> stk L' = stk L \<and>
    (\<forall>m \<in> set (preload_modules win32).
       table_get (tables L' pre) (LString (fst m)) = LFunction (C_function (snd m))) \<and>
    (\<forall>i < n. table_get (tables L' lo) (LNumber (real i + 1)) = table_get (tables L lo) (LNumber (real i + 1))) \<and>
    table_get (tables L' lo) (LNumber (real n + 1)) = LFunction (C_function ''equus_loader_load'') \<and>
    table_get (tables L' lo) (LNumber (real n + 2)) = LFunction ld \<and> is_array (tables L' lo) (n + 2)"
proof -
  define exec where "exec = (if win32 then ''equus_exec_call_win32_core'' else ''equus_exec_call_unix_core'')"
  define L1 where "L1 = registered exec exec (registered ''equus_popen_capture'' ''equus_popen_capture''
    (registered ''equus_stackwalk'' ''luahook_stackwalk'' (registered ''equus_debugger'' ''luahook_debugger''
    (registered ''equus_lua_stack_dump'' ''equus_lua_stack_dump'' (registered ''equus_local_cache_get'' ''equus_local_cache_get''
    (registered ''equus_local_cache_add'' ''equus_local_cache_add'' L))))))"
  have libs: "lua_libs L1 pk pre lo n req"
    unfolding L1_def by (intro lua_libs_register assms(1)) (simp_all add: exec_def)
  have eq1: "stk L1 = stk L" "tables L1 lo = tables L lo" using assms(1) by (simp_all add: L1_def lua_libs_def)
  obtain L2 where L2: "equus_loader_preload win32 L1 = Some (Returned L2)" "same_frame L1 L2"
    "\<forall>u. u \<noteq> pre \<longrightarrow> tables L2 u = tables L1 u"
    "\<forall>m \<in> set (preload_modules win32).
      table_get (tables L2 pre) (LString (fst m)) = LFunction (C_function (snd m))"
    using equus_loader_preload_eq[OF libs] .
  have libs2: "lua_libs L2 pk pre lo n req"
    using libs L2(3) same_frameD[OF L2(2)] by (auto simp: lua_libs_def)
  from open_loaders_eq[OF libs2 assms(2), of s] obtain L3 where
    L3: "open_loaders False pcall (lua_gettop L2) (L2\<lparr>stk := stk L2 @ [LTable pk, LTable lo]\<rparr>) s =
      Some (Returned (L3, s))" "stk L3 = stk L2" "tables L3 pre = tables L2 pre"
    "tables L3 lo = table_set (table_set (tables L2 lo)
        (LNumber (real n + 1)) (LFunction (C_function ''equus_loader_load'')))
        (LNumber (real n + 2)) (LFunction ld)" by blast
  have g: "table_get (tables L2 (l_gt L2)) (LString ''package'') = LTable pk"
    "table_get (tables L2 pk) (LString ''loaders'') = LTable lo" using libs2 by (simp_all add: lua_libs_def)
  have "(if win32 then lua_register ''equus_exec_call_win32_core'' ''equus_exec_call_win32_core'' L'
      else lua_register ''equus_exec_call_unix_core'' ''equus_exec_call_unix_core'' L') = Some (registered exec exec L')" for L'
    by (simp add: lua_register_eq exec_def)
  then have run: "luaopen_equus_loader win32 False pcall L s = Some (Returned (L3, s))"
    using L2(1) L3(1) push_package[OF g]
    by (simp add: luaopen_equus_loader_def luaopen_equus_debugger_def lua_register_eq L1_def[symmetric])
  have lo: "tables L2 lo = tables L lo" using L2(3) libs eq1(2) by (simp add: lua_libs_def)
  have arr: "is_array (tables L3 lo) (n + 2)"
    using is_array_append[OF is_array_append[of "tables L lo" n "LFunction (C_function ''equus_loader_load'')"],
        of "LFunction ld"] assms(1) L3(4) lo by (simp add: lua_libs_def add.commute)
  have "stk L3 = stk L" using L3(2) same_frameD[OF L2(2)] eq1(1) by simp
  with run arr L2(4) L3(3,4) lo show ?thesis by (intro exI[of _ L3]) auto
qed

section \<open>Properties\<close>

text \<open>
  Setting up a Lua state: with the standard libraries opened, \<open>luaopen_equus_loader\<close> returns, the
  Lua stack is as before, the bundled C modules can be required, and the searchers of
  \<open>package.loaders\<close> are the ones that were there, then the built-in modules, then the HTTP loader.
\<close>

theorem luaopen_equus_loader_correct:
  assumes "lua_libs L pk pre lo n req" and "require_ok pcall req ld pk pre lo"
  shows "\<exists>L'. luaopen_equus_loader win32 False pcall L s = Some (Returned (L', s)) \<and> stk L' = stk L \<and>
    (\<forall>m \<in> set (preload_modules win32).
       table_get (tables L' pre) (LString (fst m)) = LFunction (C_function (snd m))) \<and>
    (\<forall>i < n. table_get (tables L' lo) (LNumber (real i + 1)) = table_get (tables L lo) (LNumber (real i + 1))) \<and>
    table_get (tables L' lo) (LNumber (real n + 1)) = LFunction (C_function ''equus_loader_load'') \<and>
    table_get (tables L' lo) (LNumber (real n + 2)) = LFunction ld \<and> is_array (tables L' lo) (n + 2)"
  by (rule luaopen_equus_loader_spec[OF assms])

definition example_state :: lua_State where
  "example_state = \<lparr>stk = [LNil], l_gt = 0, l_registry = 1, tables = (\<lambda>t.
     if t = 0 then [(LString ''package'', LTable 2), (LString ''require'', LFunction (C_function ''require''))]
     else if t = 2 then [(LString ''preload'', LTable 3), (LString ''loaders'', LTable 4)] else []), l_hook = None\<rparr>"

theorem luaopen_equus_loader_correct_witness:
  "\<exists>L'. luaopen_equus_loader False False (\<lambda>f a L. (0, LFunction (Chunk ''http_loader'' ''load''), tables L))
       example_state start = Some (Returned (L', start)) \<and> stk L' = [LNil] \<and>
     table_get (tables L' 3) (LString ''pack'') = LFunction (C_function ''luaopen_pack'')"
proof -
  have libs: "lua_libs example_state 2 3 4 0 (C_function ''require'')"
    by (simp add: lua_libs_def example_state_def table_get_def is_array_def)
  have req: "require_ok (\<lambda>f a L. (0, LFunction (Chunk ''http_loader'' ''load''), tables L))
      (C_function ''require'') (Chunk ''http_loader'' ''load'') 2 3 4" by (simp add: require_ok_def)
  have p: "(''pack'', ''luaopen_pack'') \<in> set (preload_modules False)" by (simp add: preload_modules_def)
  have "stk example_state = [LNil]" by (simp add: example_state_def)
  with luaopen_equus_loader_correct[OF libs req, of False start] p show ?thesis by fastforce
qed

lemma dump_from_eq:
  "log_ok s \<Longrightarrow> dump_from fmt_g fmt_p (int i) vs s =
   Some (fold (log_spec EQUUS_LOG_ERRORS) (map (\<lambda>j. dump_line fmt_g fmt_p (int (i + j)) (vs ! j)) [0..<length vs]) s)"
proof (induction vs arbitrary: i s)
  case (Cons v vs)
  have "map (\<lambda>j. dump_line fmt_g fmt_p (int (i + j)) ((v # vs) ! j)) [0..<length (v # vs)] =
      dump_line fmt_g fmt_p (int i) v #
      map (\<lambda>j. dump_line fmt_g fmt_p (int (Suc i + j)) (vs ! j)) [0..<length vs]"
    by (simp add: upt_conv_Cons map_Suc_upt[symmetric] comp_def ac_simps del: upt_Suc)
  with Cons.IH[of "log_spec EQUUS_LOG_ERRORS (dump_line fmt_g fmt_p (int i) v) s" "Suc i"] Cons.prems
  show ?case by (simp add: add.commute)
qed simp

text \<open>
  A stack dump shows the whole stack: it logs, at the level of errors, one header and then one line
  for each value from the bottom to the top, and changes nothing else.
\<close>

lemma lua_stack_dump_lines:
  assumes "log_ok s"
  shows "lua_stack_dump fmt_g fmt_p L msg s = Some (fold (log_spec EQUUS_LOG_ERRORS)
    ((''Lua Stack Dump: '' @ cstr msg @ '' starting at '' @ show_int (int (length (stk L)))) #
     map (\<lambda>j. dump_line fmt_g fmt_p (int (Suc j)) (stk L ! j)) [0..<length (stk L)]) s)"
  using assms dump_from_eq[of _ fmt_g fmt_p 1 "stk L"]
  by (simp add: lua_stack_dump_def lua_gettop_def)

lemma lua_stack_dump_lines_witness:
  "lua_stack_dump (\<lambda>_. []) (\<lambda>_. []) example_state ''x'' start = Some (fold (log_spec EQUUS_LOG_ERRORS)
    [''Lua Stack Dump: x starting at '' @ show_int 1, show_int 1 @ '':  NIL''] start)"
  using lua_stack_dump_lines[of start "\<lambda>_. []" "\<lambda>_. []" example_state "''x''"]
  by (simp add: example_state_def dump_line_def)

end
