(* ===== verification/Equus_Service.thy ===== *)
theory Equus_Service
  imports Equus_Log "HOL-Library.Word"
begin

text \<open>
  The Windows service commands of \<open>equus_service.c\<close>: install, delete, start, status and stop.

  The service control manager is a record of what its calls answer; a call that fails has an error
  code, which the code prints. It hands out fresh handles, and closing a handle that is not open is
  outside its contract. Time is the 32-bit millisecond counter of \<open>GetTickCount\<close>, which wraps
  around; it advances while the code sleeps and by \<open>scm_delay\<close> while the status is queried.
\<close>

section \<open>The service control manager\<close>

type_synonym DWORD = "32 word"

record SERVICE_STATUS_PROCESS =
  dwCurrentState :: DWORD
  dwWin32ExitCode :: DWORD
  dwCheckPoint :: DWORD
  dwWaitHint :: DWORD

abbreviation (input) SERVICE_STOPPED :: DWORD where
  "SERVICE_STOPPED \<equiv> 1"

abbreviation (input) SERVICE_START_PENDING :: DWORD where
  "SERVICE_START_PENDING \<equiv> 2"

abbreviation (input) SERVICE_STOP_PENDING :: DWORD where
  "SERVICE_STOP_PENDING \<equiv> 3"

abbreviation (input) SERVICE_RUNNING :: DWORD where
  "SERVICE_RUNNING \<equiv> 4"

abbreviation (input) SERVICE_CONTINUE_PENDING :: DWORD where
  "SERVICE_CONTINUE_PENDING \<equiv> 5"

abbreviation (input) SERVICE_PAUSE_PENDING :: DWORD where
  "SERVICE_PAUSE_PENDING \<equiv> 6"

abbreviation (input) SERVICE_PAUSED :: DWORD where
  "SERVICE_PAUSED \<equiv> 7"

text \<open>The answers: \<^term>\<open>None\<close> is success, \<^term>\<open>Some e\<close> failure with \<open>GetLastError() == e\<close>.\<close>

record scm =
  scm_module :: "DWORD option"
  scm_manager :: "DWORD option"
  scm_service :: "DWORD option"
  scm_create :: "DWORD option"
  scm_description :: "DWORD option"
  scm_actions :: "DWORD option"
  scm_delete :: "DWORD option"
  scm_start :: "DWORD option"
  scm_control :: "DWORD + SERVICE_STATUS_PROCESS"
  scm_query :: "nat \<Rightarrow> DWORD + SERVICE_STATUS_PROCESS"
  scm_delay :: "nat \<Rightarrow> DWORD"

record service =
  agent :: equus
  sc_open :: "nat set"
  sc_next :: nat
  sc_time :: DWORD
  sc_queries :: nat

definition fresh_handle :: "service \<Rightarrow> nat \<times> service" where
  "fresh_handle s = (sc_next s, s\<lparr>sc_open := insert (sc_next s) (sc_open s), sc_next := Suc (sc_next s)\<rparr>)"

definition open_handle :: "DWORD option \<Rightarrow> service \<Rightarrow> (DWORD + nat) \<times> service" where
  "open_handle answer s =
     (case answer of Some err \<Rightarrow> (Inl err, s) | None \<Rightarrow> (let (h, s) = fresh_handle s in (Inr h, s)))"

definition CloseServiceHandle :: "nat \<Rightarrow> service \<Rightarrow> service option" where
  "CloseServiceHandle h s = (if h \<in> sc_open s then Some (s\<lparr>sc_open := sc_open s - {h}\<rparr>) else None)"

definition QueryServiceStatusEx :: "scm \<Rightarrow> service \<Rightarrow> (DWORD + SERVICE_STATUS_PROCESS) \<times> service" where
  "QueryServiceStatusEx m s =
     (scm_query m (sc_queries s),
      s\<lparr>sc_queries := Suc (sc_queries s), sc_time := sc_time s + scm_delay m (sc_queries s)\<rparr>)"

text \<open>\<open>Sleep(INFINITE)\<close> never returns.\<close>

definition Sleep :: "DWORD \<Rightarrow> service \<Rightarrow> service option" where
  "Sleep ms s = (if ms = - 1 then None else Some (s\<lparr>sc_time := sc_time s + ms\<rparr>))"

definition say :: "string \<Rightarrow> service \<Rightarrow> service" where
  "say line s = s\<lparr>agent := printf line (agent s)\<rparr>"

definition log_to :: "equus_log_level_e \<Rightarrow> string \<Rightarrow> service \<Rightarrow> service option" where
  "log_to level line s = do { a \<leftarrow> equus_log level line (agent s); Some (s\<lparr>agent := a\<rparr>) }"

text \<open>\<open>%d\<close> prints a \<open>DWORD\<close> as a signed number.\<close>

definition show_dword :: "DWORD \<Rightarrow> string" where
  "show_dword w = show_int (sint w)"

definition failed :: "string \<Rightarrow> DWORD \<Rightarrow> string" where
  "failed call err = call @ '' failed ('' @ show_dword err @ '')'' @ [LF]"

text \<open>The two calls that end every function that got as far as the service handle.\<close>

definition close_both :: "nat \<Rightarrow> nat \<Rightarrow> service \<Rightarrow> service option" where
  "close_both sv mgr s = do { s \<leftarrow> CloseServiceHandle sv s; CloseServiceHandle mgr s }"

section \<open>Installation\<close>

datatype install_result = INSTALL_FAILURE | INSTALL_PREVIOUSLY | INSTALL_INSTALLED

definition changed :: "DWORD option \<Rightarrow> string \<Rightarrow> service \<Rightarrow> service option" where
  "changed answer done_text s =
     (case answer of
        Some err \<Rightarrow> log_to EQUUS_LOG_ERRORS (''ChangeServiceConfig2 error: '' @ show_dword err @ [LF]) s
      | None \<Rightarrow> log_to EQUUS_LOG_INFO (done_text @ [LF]) s)"

definition win32_service_install :: "scm \<Rightarrow> service \<Rightarrow> (install_result \<times> service) option" where
  "win32_service_install m s =
     (case scm_module m of
        Some err \<Rightarrow> do {
          s \<leftarrow> log_to EQUUS_LOG_CRITICAL (''Cannot get module file name ('' @ show_dword err @ '')'' @ [LF]) s;
          Some (INSTALL_FAILURE, s)
        }
      | None \<Rightarrow>
          (case open_handle (scm_manager m) s of
             (Inl err, s) \<Rightarrow> do {
               s \<leftarrow> log_to EQUUS_LOG_CRITICAL (failed ''OpenSCManager'' err) s;
               Some (INSTALL_FAILURE, s)
             }
           | (Inr mgr, s) \<Rightarrow>
               (case open_handle (scm_service m) s of
                  (Inr sv, s) \<Rightarrow> do { s \<leftarrow> close_both sv mgr s; Some (INSTALL_PREVIOUSLY, s) }
                | (Inl _, s) \<Rightarrow>
                    (case open_handle (scm_create m) s of
                       (Inl err, s) \<Rightarrow> do {
                         s \<leftarrow> CloseServiceHandle mgr s;
                         s \<leftarrow> log_to EQUUS_LOG_CRITICAL (failed ''CreateService'' err) s;
                         Some (INSTALL_FAILURE, s)
                       }
                     | (Inr sv, s) \<Rightarrow> do {
                         s \<leftarrow> log_to EQUUS_LOG_INFO (''Service installed successfully'' @ [LF]) s;
                         s \<leftarrow> changed (scm_description m) ''Service description updated successfully.'' s;
                         s \<leftarrow> changed (scm_actions m) ''Service failure actions updated successfully.'' s;
                         s \<leftarrow> close_both sv mgr s;
                         Some (INSTALL_INSTALLED, s)
                       }))))"

section \<open>Deletion and status\<close>

text \<open>The beginning the other four functions share.\<close>

definition with_service :: "scm \<Rightarrow> (nat \<Rightarrow> nat \<Rightarrow> service \<Rightarrow> service option) \<Rightarrow> service \<Rightarrow> service option" where
  "with_service m body s =
     (case open_handle (scm_manager m) s of
        (Inl err, s) \<Rightarrow> Some (say (failed ''OpenSCManager'' err) s)
      | (Inr mgr, s) \<Rightarrow>
          (case open_handle (scm_service m) s of
             (Inl err, s) \<Rightarrow> CloseServiceHandle mgr (say (failed ''OpenService'' err) s)
           | (Inr sv, s) \<Rightarrow> body sv mgr s))"

definition win32_service_delete :: "scm \<Rightarrow> service \<Rightarrow> service option" where
  "win32_service_delete m = with_service m (\<lambda>sv mgr s.
     close_both sv mgr (say
       (case scm_delete m of Some err \<Rightarrow> failed ''DeleteService'' err
        | None \<Rightarrow> ''Service deleted successfully'' @ [LF]) s))"

definition field_line :: "string \<Rightarrow> DWORD \<Rightarrow> string" where
  "field_line name v = ''  '' @ name @ '': '' @ show_dword v @ [LF]"

definition details :: "SERVICE_STATUS_PROCESS \<Rightarrow> string" where
  "details st = field_line ''Exit Code'' (dwWin32ExitCode st) @ field_line ''Check Point'' (dwCheckPoint st) @
     field_line ''Wait Hint'' (dwWaitHint st)"

definition state_name :: "DWORD \<Rightarrow> string" where
  "state_name st =
     (if st = SERVICE_CONTINUE_PENDING then ''Continue Pending''
      else if st = SERVICE_PAUSE_PENDING then ''Pause Pending''
      else if st = SERVICE_PAUSED then ''Paused''
      else if st = SERVICE_RUNNING then ''Running''
      else if st = SERVICE_START_PENDING then ''Start Pending''
      else if st = SERVICE_STOP_PENDING then ''Stop Pending''
      else if st = SERVICE_STOPPED then ''Stopped''
      else show_dword st)"

definition win32_service_status :: "scm \<Rightarrow> service \<Rightarrow> service option" where
  "win32_service_status m = with_service m (\<lambda>sv mgr s.
     (case QueryServiceStatusEx m s of
        (Inl err, s) \<Rightarrow> close_both sv mgr (say (failed ''QueryServiceStatusEx'' err) s)
      | (Inr st, s) \<Rightarrow> close_both sv mgr (say
          (''  Current State: '' @ state_name (dwCurrentState st) @ [LF] @ details st) s)))"

section \<open>Starting\<close>

definition wait_time :: "DWORD \<Rightarrow> DWORD" where
  "wait_time hint =
     (let t = hint div 10 in if t < 1000 then 1000 else if t > 10000 then 10000 else t)"

datatype wait_end =
    Settled SERVICE_STATUS_PROCESS
  | Query_failed DWORD SERVICE_STATUS_PROCESS
  | Timed_out SERVICE_STATUS_PROCESS

text \<open>
  The two waiting loops of \<open>win32_service_start\<close>, which differ in the state they wait for and in what
  is done when a query fails or the time is up. \<open>began\<close> and \<open>old\<close> are the tick count and the check
  point of the last progress.
\<close>

partial_function (option) pending_loop ::
  "scm \<Rightarrow> DWORD \<Rightarrow> SERVICE_STATUS_PROCESS \<Rightarrow> DWORD \<Rightarrow> DWORD \<Rightarrow> service \<Rightarrow> (wait_end \<times> service) option" where
  "pending_loop m pending st began old s =
     (if dwCurrentState st \<noteq> pending then Some (Settled st, s)
      else do {
        s \<leftarrow> Sleep (wait_time (dwWaitHint st)) s;
        (case QueryServiceStatusEx m s of
           (Inl err, s) \<Rightarrow> Some (Query_failed err st, s)
         | (Inr st, s) \<Rightarrow>
             if dwCheckPoint st > old then pending_loop m pending st (sc_time s) (dwCheckPoint st) s
             else if sc_time s - began > dwWaitHint st then Some (Timed_out st, s)
             else pending_loop m pending st began old s)
      })"

declare pending_loop.simps [code]

definition report_start :: "SERVICE_STATUS_PROCESS \<Rightarrow> string" where
  "report_start st =
     (if dwCurrentState st = SERVICE_RUNNING then ''Service started successfully.'' @ [LF]
      else ''Service not started. '' @ [LF] @ field_line ''Current State'' (dwCurrentState st) @ details st)"

definition started :: "scm \<Rightarrow> nat \<Rightarrow> nat \<Rightarrow> service \<Rightarrow> service option" where
  "started m sv mgr s =
     (case QueryServiceStatusEx m s of
        (Inl err, s) \<Rightarrow> close_both sv mgr (say (failed ''QueryServiceStatusEx'' err) s)
      | (Inr st, s) \<Rightarrow> do {
          (e, s) \<leftarrow> pending_loop m SERVICE_START_PENDING st (sc_time s) (dwCheckPoint st) s;
          close_both sv mgr
            (case e of
               Settled st \<Rightarrow> say (report_start st) s
             | Timed_out st \<Rightarrow> say (report_start st) s
             | Query_failed err st \<Rightarrow> say (report_start st) (say (failed ''QueryServiceStatusEx'' err) s))
        })"

definition win32_service_start :: "scm \<Rightarrow> service \<Rightarrow> service option" where
  "win32_service_start m = with_service m (\<lambda>sv mgr s.
     (case QueryServiceStatusEx m s of
        (Inl err, s) \<Rightarrow> close_both sv mgr (say (failed ''QueryServiceStatusEx'' err) s)
      | (Inr st, s) \<Rightarrow>
          if dwCurrentState st \<noteq> SERVICE_STOPPED \<and> dwCurrentState st \<noteq> SERVICE_STOP_PENDING then
            close_both sv mgr (say (''Cannot start the service because it is already running'' @ [LF]) s)
          else do {
            (e, s) \<leftarrow> pending_loop m SERVICE_STOP_PENDING st (sc_time s) (dwCheckPoint st) s;
            (case e of
               Query_failed err _ \<Rightarrow> close_both sv mgr (say (failed ''QueryServiceStatusEx'' err) s)
             | Timed_out _ \<Rightarrow> close_both sv mgr (say (''Timeout waiting for service to stop'' @ [LF]) s)
             | Settled _ \<Rightarrow>
                 (case scm_start m of
                    Some err \<Rightarrow> close_both sv mgr (say (failed ''StartService'' err) s)
                  | None \<Rightarrow> started m sv mgr (say (''Service start pending...'' @ [LF]) s)))
          }))"

section \<open>Stopping\<close>

abbreviation (input) dwTimeout :: DWORD where
  "dwTimeout \<equiv> 30000"

text \<open>A loop goes on with a status, or jumps to the end of the function after printing.\<close>

partial_function (option) stop_pending_loop ::
  "scm \<Rightarrow> DWORD \<Rightarrow> SERVICE_STATUS_PROCESS \<Rightarrow> service \<Rightarrow> (SERVICE_STATUS_PROCESS option \<times> service) option" where
  "stop_pending_loop m began st s =
     (if dwCurrentState st \<noteq> SERVICE_STOP_PENDING then Some (Some st, s)
      else do {
        s \<leftarrow> Sleep (wait_time (dwWaitHint st)) (say (''Service stop pending...'' @ [LF]) s);
        (case QueryServiceStatusEx m s of
           (Inl err, s) \<Rightarrow> Some (None, say (failed ''QueryServiceStatusEx'' err) s)
         | (Inr st, s) \<Rightarrow>
             if dwCurrentState st = SERVICE_STOPPED then
               Some (None, say (''Service stopped successfully.'' @ [LF]) s)
             else if sc_time s - began > dwTimeout then Some (None, say (''Service stop timed out.'' @ [LF]) s)
             else stop_pending_loop m began st s)
      })"

partial_function (option) stop_wait_loop ::
  "scm \<Rightarrow> DWORD \<Rightarrow> SERVICE_STATUS_PROCESS \<Rightarrow> service \<Rightarrow> service option" where
  "stop_wait_loop m began st s =
     (if dwCurrentState st = SERVICE_STOPPED then Some (say (''Service stopped successfully'' @ [LF]) s)
      else do {
        s \<leftarrow> Sleep (dwWaitHint st) s;
        (case QueryServiceStatusEx m s of
           (Inl err, s) \<Rightarrow> Some (say (failed ''QueryServiceStatusEx'' err) s)
         | (Inr st, s) \<Rightarrow>
             if dwCurrentState st = SERVICE_STOPPED then
               Some (say (''Service stopped successfully'' @ [LF]) s)
             else if sc_time s - began > dwTimeout then Some (say (''Wait timed out'' @ [LF]) s)
             else stop_wait_loop m began st s)
      })"

declare stop_pending_loop.simps [code] stop_wait_loop.simps [code]

definition stopping :: "scm \<Rightarrow> DWORD \<Rightarrow> service \<Rightarrow> service option" where
  "stopping m began s =
     (case QueryServiceStatusEx m s of
        (Inl err, s) \<Rightarrow> Some (say (failed ''QueryServiceStatusEx'' err) s)
      | (Inr st, s) \<Rightarrow>
          if dwCurrentState st = SERVICE_STOPPED then Some (say (''Service is already stopped.'' @ [LF]) s)
          else do {
            (st, s) \<leftarrow> stop_pending_loop m began st s;
            (case st of
               None \<Rightarrow> Some s
             | Some st \<Rightarrow>
                 (case scm_control m of
                    Inl err \<Rightarrow> Some (say (failed ''ControlService'' err) s)
                  | Inr st \<Rightarrow> stop_wait_loop m began st s))
          })"

definition win32_service_stop :: "scm \<Rightarrow> service \<Rightarrow> service option" where
  "win32_service_stop m s =
     (let began = sc_time s in
      with_service m (\<lambda>sv mgr s. do { s \<leftarrow> stopping m began s; close_both sv mgr s }) s)"

section \<open>Handles\<close>

definition sc_wf :: "service \<Rightarrow> bool" where
  "sc_wf s \<longleftrightarrow> (\<forall>h \<in> sc_open s. h < sc_next s)"

lemma sc_frame [simp, frame]:
  "sc_open (say line s) = sc_open s" "sc_next (say line s) = sc_next s"
  "sc_time (say line s) = sc_time s" "sc_queries (say line s) = sc_queries s"
  by (simp_all add: say_def)

lemma close_both_open:
  "{sv, mgr} \<subseteq> sc_open s \<Longrightarrow> sv \<noteq> mgr \<Longrightarrow>
    close_both sv mgr s = Some (s\<lparr>sc_open := sc_open s - {sv, mgr}\<rparr>)"
  by (auto simp: close_both_def CloseServiceHandle_def Diff_insert2[symmetric])

text \<open>
  A command that opens the two handles keeps the account of the handles if the part after the opening
  closes them.
\<close>

lemma with_service_closes:
  assumes "sc_wf s"
    and body: "\<And>sv mgr s1. sv \<noteq> mgr \<Longrightarrow> sc_open s1 = sc_open s \<union> {sv, mgr} \<Longrightarrow> {sv, mgr} \<inter> sc_open s = {} \<Longrightarrow>
      sc_time s1 = sc_time s \<Longrightarrow> sc_queries s1 = sc_queries s \<Longrightarrow>
      \<exists>s2. body sv mgr s1 = Some s2 \<and> sc_open s2 = sc_open s1 - {sv, mgr}"
  shows "\<exists>s'. with_service m body s = Some s' \<and> sc_open s' = sc_open s"
proof -
  have fresh: "sc_next s \<notin> sc_open s" "Suc (sc_next s) \<notin> sc_open s" using assms(1) by (auto simp: sc_wf_def)
  show ?thesis
  proof (cases "scm_manager m")
    case None
    then show ?thesis
    proof (cases "scm_service m")
      case none: None
      let ?s = "s\<lparr>sc_open := insert (Suc (sc_next s)) (insert (sc_next s) (sc_open s)), sc_next := Suc (Suc (sc_next s))\<rparr>"
      obtain s2 where "body (Suc (sc_next s)) (sc_next s) ?s = Some s2"
        "sc_open s2 = sc_open ?s - {Suc (sc_next s), sc_next s}"
        using body[of "Suc (sc_next s)" "sc_next s" ?s] fresh by auto
      with None none fresh show ?thesis by (auto simp: with_service_def open_handle_def fresh_handle_def)
    qed (use fresh in \<open>auto simp: with_service_def open_handle_def fresh_handle_def CloseServiceHandle_def\<close>)
  qed (auto simp: with_service_def open_handle_def fresh_handle_def)
qed

section \<open>Waiting\<close>

text \<open>
  What the loops rely on: a query takes at most \<open>D\<close> milliseconds and the wait hint it answers is at
  most \<open>W\<close>.
\<close>

definition responsive :: "nat \<Rightarrow> nat \<Rightarrow> scm \<Rightarrow> bool" where
  "responsive W D m \<longleftrightarrow> (\<forall>n. unat (scm_delay m n) \<le> D) \<and>
     (\<forall>n st. scm_query m n = Inr st \<longrightarrow> unat (dwWaitHint st) \<le> W)"

lemma unat_less_32: "unat (w :: DWORD) < 2 ^ 32"
  using unsigned_less[of w, where 'a = nat] by simp

lemma unat_add_small: "unat a + unat b < 2 ^ 32 \<Longrightarrow> unat (a + b :: DWORD) = unat a + unat b"
  by (simp add: unat_word_ariths)

lemma elapsed_add:
  "unat (t - began) + (unat a + unat b) < 2 ^ 32 \<Longrightarrow>
    unat (t + a + b - began :: DWORD) = unat (t - began) + (unat a + unat b)"
proof -
  assume *: "unat (t - began) + (unat a + unat b) < 2 ^ 32"
  have eq: "t + a + b - began = t - began + (a + b)" by (simp add: algebra_simps)
  have "unat (a + b) = unat a + unat b" using * by (intro unat_add_small) simp
  then show ?thesis unfolding eq using * unat_add_small[of "t - began" "a + b"] by simp
qed

lemma unat_minus_1: "unat (- 1 :: DWORD) = 2 ^ 32 - 1"
  by (simp add: unsigned_minus_1_eq_mask mask_eq_exp_minus_1)

lemma wait_time_bounds: "1000 \<le> unat (wait_time h)" "unat (wait_time h) \<le> 10000" "wait_time h \<noteq> - 1"
proof -
  show "1000 \<le> unat (wait_time h)" and le: "unat (wait_time h) \<le> 10000"
    by (auto simp: wait_time_def Let_def word_less_nat_alt)
  show "wait_time h \<noteq> - 1" using le unat_minus_1 by auto
qed

lemma pending_loop_returns:
  assumes "responsive W D m" and "W + D + 10000 < 2 ^ 32" and "unat (sc_time s - began) \<le> W"
  shows "\<exists>e s'. pending_loop m pending st began old s = Some (e, s') \<and> sc_open s' = sc_open s"
  using assms(3)
proof (induction "(2 ^ 32 - unat old, W - unat (sc_time s - began))" arbitrary: st began old s
    rule: wf_induct_rule[OF wf_lex_prod[OF wf_less_than wf_less_than]])
  case 1
  show ?case
  proof (cases "dwCurrentState st = pending")
    case False
    then show ?thesis by (simp add: pending_loop.simps)
  next
    case pend: True
    let ?w = "wait_time (dwWaitHint st)"
    let ?d = "scm_delay m (sc_queries s)"
    let ?s = "s\<lparr>sc_queries := Suc (sc_queries s), sc_time := sc_time s + ?w + ?d\<rparr>"
    note w = wait_time_bounds[of "dwWaitHint st"]
    have d: "unat ?d \<le> D" using assms(1) by (simp add: responsive_def)
    have el: "unat (sc_time ?s - began) = unat (sc_time s - began) + (unat ?w + unat ?d)"
      using elapsed_add[of "sc_time s" began ?w ?d] "1.prems" w d assms(2) by simp
    have step: "pending_loop m pending st began old s = (case scm_query m (sc_queries s) of
        Inl err \<Rightarrow> Some (Query_failed err st, ?s)
      | Inr st \<Rightarrow> if dwCheckPoint st > old then pending_loop m pending st (sc_time ?s) (dwCheckPoint st) ?s
          else if sc_time ?s - began > dwWaitHint st then Some (Timed_out st, ?s)
          else pending_loop m pending st began old ?s)"
      using pend w(3) by (simp add: pending_loop.simps[of m pending st] Sleep_def QueryServiceStatusEx_def
          split: sum.split)
    show ?thesis
    proof (cases "scm_query m (sc_queries s)")
      case (Inl err)
      then show ?thesis using step by simp
    next
      case (Inr st')
      have W: "unat (dwWaitHint st') \<le> W" using assms(1) Inr by (auto simp: responsive_def)
      consider "dwCheckPoint st' > old" | "\<not> dwCheckPoint st' > old" "sc_time ?s - began > dwWaitHint st'"
        | "\<not> dwCheckPoint st' > old" "\<not> sc_time ?s - began > dwWaitHint st'" by blast
      then show ?thesis
      proof cases
        case 1
        have "2 ^ 32 - unat (dwCheckPoint st') < 2 ^ 32 - unat old"
          using 1 unat_less_32[of "dwCheckPoint st'"] by (simp add: word_less_nat_alt)
        then have "\<exists>e s'. pending_loop m pending st' (sc_time ?s) (dwCheckPoint st') ?s = Some (e, s') \<and> sc_open s' = sc_open ?s"
          by (intro "1.hyps") simp_all
        with 1 step Inr show ?thesis by simp
      next
        case 2
        then show ?thesis using step Inr by simp
      next
        case 3
        then have le: "unat (sc_time ?s - began) \<le> W" using W by (simp add: word_less_nat_alt)
        then have "W - unat (sc_time ?s - began) < W - unat (sc_time s - began)" using el w(1) by simp
        then have "\<exists>e s'. pending_loop m pending st' began old ?s = Some (e, s') \<and> sc_open s' = sc_open ?s"
          by (intro "1.hyps" le) simp
        with 3 step Inr show ?thesis by simp
      qed
    qed
  qed
qed

text \<open>
  The loops of \<open>win32_service_stop\<close> count from the call of the function, so that they end whatever
  the service reports, as soon as the counter moves.
\<close>

lemma stop_pending_loop_returns:
  assumes "responsive W D m" and "2 * D + 40000 < 2 ^ 32" and "unat (sc_time s - began) \<le> 30000 + D"
  shows "\<exists>r s'. stop_pending_loop m began st s = Some (r, s') \<and> sc_open s' = sc_open s \<and>
    unat (sc_time s' - began) \<le> 40000 + 2 * D"
  using assms(3)
proof (induction "30000 + D - unat (sc_time s - began)" arbitrary: st s rule: less_induct)
  case less
  show ?case
  proof (cases "dwCurrentState st = SERVICE_STOP_PENDING")
    case False
    then show ?thesis using less.prems by (simp add: stop_pending_loop.simps)
  next
    case pend: True
    let ?w = "wait_time (dwWaitHint st)"
    let ?d = "scm_delay m (sc_queries s)"
    let ?s = "(say (''Service stop pending...'' @ [LF]) s)
      \<lparr>sc_queries := Suc (sc_queries s), sc_time := sc_time s + ?w + ?d\<rparr>"
    note w = wait_time_bounds[of "dwWaitHint st"]
    have d: "unat ?d \<le> D" using assms(1) by (simp add: responsive_def)
    have el: "unat (sc_time ?s - began) = unat (sc_time s - began) + (unat ?w + unat ?d)"
      using elapsed_add[of "sc_time s" began ?w ?d] less.prems w d assms(2) by simp
    have step: "stop_pending_loop m began st s = (case scm_query m (sc_queries s) of
        Inl err \<Rightarrow> Some (None, say (failed ''QueryServiceStatusEx'' err) ?s)
      | Inr st \<Rightarrow> if dwCurrentState st = SERVICE_STOPPED then
            Some (None, say (''Service stopped successfully.'' @ [LF]) ?s)
          else if sc_time ?s - began > dwTimeout then Some (None, say (''Service stop timed out.'' @ [LF]) ?s)
          else stop_pending_loop m began st ?s)"
      using pend w(3) by (simp add: stop_pending_loop.simps[of m began st] Sleep_def QueryServiceStatusEx_def
          split: sum.split)
    have bound: "unat (sc_time ?s - began) \<le> 40000 + 2 * D" using el less.prems w(2) d by simp
    show ?thesis
    proof (cases "scm_query m (sc_queries s)")
      case (Inl err)
      then show ?thesis using step bound by simp
    next
      case (Inr st')
      show ?thesis
      proof (cases "dwCurrentState st' = SERVICE_STOPPED \<or> sc_time ?s - began > dwTimeout")
        case True
        then show ?thesis using step Inr bound by auto
      next
        case False
        then have le: "unat (sc_time ?s - began) \<le> 30000" by (simp add: word_less_nat_alt)
        then have "30000 + D - unat (sc_time ?s - began) < 30000 + D - unat (sc_time s - began)"
          using el w(1) by linarith
        from less.hyps[OF this, of st'] le False step Inr show ?thesis by auto
      qed
    qed
  qed
qed

lemma stop_wait_loop_returns:
  assumes "responsive W D m" and "\<forall>n. scm_delay m n \<noteq> 0" and "3 * D + W + 40000 < 2 ^ 32"
    and "unat (sc_time s - began) \<le> 40000 + 2 * D" and "unat (dwWaitHint st) \<le> W"
  shows "\<exists>s'. stop_wait_loop m began st s = Some s' \<and> sc_open s' = sc_open s"
  using assms(4,5)
proof (induction "40000 + 2 * D - unat (sc_time s - began)" arbitrary: st s rule: less_induct)
  case less
  show ?case
  proof (cases "dwCurrentState st = SERVICE_STOPPED")
    case True
    then show ?thesis by (simp add: stop_wait_loop.simps)
  next
    case pend: False
    let ?w = "dwWaitHint st"
    let ?d = "scm_delay m (sc_queries s)"
    let ?s = "s\<lparr>sc_queries := Suc (sc_queries s), sc_time := sc_time s + ?w + ?d\<rparr>"
    have d: "unat ?d \<le> D" using assms(1) by (simp add: responsive_def)
    have d0: "0 < unat ?d" using assms(2) by (simp add: unat_gt_0)
    have w: "?w \<noteq> - 1" using less.prems(2) assms(3) unat_minus_1 by auto
    have el: "unat (sc_time ?s - began) = unat (sc_time s - began) + (unat ?w + unat ?d)"
      using elapsed_add[of "sc_time s" began ?w ?d] less.prems d assms(3) by simp
    have step: "stop_wait_loop m began st s = (case scm_query m (sc_queries s) of
        Inl err \<Rightarrow> Some (say (failed ''QueryServiceStatusEx'' err) ?s)
      | Inr st \<Rightarrow> if dwCurrentState st = SERVICE_STOPPED then
            Some (say (''Service stopped successfully'' @ [LF]) ?s)
          else if sc_time ?s - began > dwTimeout then Some (say (''Wait timed out'' @ [LF]) ?s)
          else stop_wait_loop m began st ?s)"
      using pend w by (simp add: stop_wait_loop.simps[of m began st] Sleep_def QueryServiceStatusEx_def
          split: sum.split)
    show ?thesis
    proof (cases "scm_query m (sc_queries s)")
      case (Inl err)
      then show ?thesis using step by simp
    next
      case (Inr st')
      have W: "unat (dwWaitHint st') \<le> W" using assms(1) Inr by (auto simp: responsive_def)
      show ?thesis
      proof (cases "dwCurrentState st' = SERVICE_STOPPED \<or> sc_time ?s - began > dwTimeout")
        case True
        then show ?thesis using step Inr by auto
      next
        case False
        then have le: "unat (sc_time ?s - began) \<le> 30000" by (simp add: word_less_nat_alt)
        then have "40000 + 2 * D - unat (sc_time ?s - began) < 40000 + 2 * D - unat (sc_time s - began)"
          using el d0 by linarith
        from less.hyps[OF this, of st'] le W False step Inr show ?thesis by auto
      qed
    qed
  qed
qed

section \<open>The properties\<close>

text \<open>
  \<open>win32_service_install\<close> reports what it did: it returns on every answer of the service control
  manager, installs exactly when it could open the manager, found no service and could create one,
  finds a previous one exactly when the service opens, and every handle it opened is closed.
\<close>

theorem service_install_correct:
  assumes "sc_wf s" and "log_ok (agent s)"
  shows "\<exists>s'. win32_service_install m s = Some
     (if scm_module m \<noteq> None \<or> scm_manager m \<noteq> None then INSTALL_FAILURE
      else if scm_service m = None then INSTALL_PREVIOUSLY
      else if scm_create m = None then INSTALL_INSTALLED else INSTALL_FAILURE, s') \<and>
    sc_open s' = sc_open s \<and> log_ok (agent s')"
proof -
  have fresh: "sc_next s \<notin> sc_open s" "Suc (sc_next s) \<notin> sc_open s" using assms(1) by (auto simp: sc_wf_def)
  show ?thesis
    using fresh assms(2)
    by (simp add: win32_service_install_def open_handle_def fresh_handle_def close_both_open
        CloseServiceHandle_def changed_def log_to_def equus_log_eq_spec split: option.split)
qed

text \<open>A manager in which the service is stopping for three queries and then starts.\<close>

definition example_status :: "DWORD \<Rightarrow> SERVICE_STATUS_PROCESS" where
  "example_status st = \<lparr>dwCurrentState = st, dwWin32ExitCode = 0, dwCheckPoint = 0, dwWaitHint = 20000\<rparr>"

definition example_scm :: scm where
  "example_scm = \<lparr>scm_module = None, scm_manager = None, scm_service = None, scm_create = None,
     scm_description = None, scm_actions = None, scm_delete = None, scm_start = None,
     scm_control = Inr (example_status SERVICE_STOP_PENDING),
     scm_query = (\<lambda>n. Inr (example_status (if n < 3 then SERVICE_STOP_PENDING else if n = 3 then SERVICE_STOPPED
       else SERVICE_RUNNING))),
     scm_delay = (\<lambda>_. 15)\<rparr>"

definition example_service :: service where
  "example_service = \<lparr>agent = start, sc_open = {}, sc_next = 0, sc_time = - 1, sc_queries = 0\<rparr>"

lemma example_scm_responsive: "responsive 20000 15 example_scm"
  by (simp add: responsive_def example_scm_def example_status_def)

lemma example_service_wf: "sc_wf example_service"
  by (simp add: sc_wf_def example_service_def)

theorem service_install_correct_witness:
  "\<exists>s'. win32_service_install example_scm example_service = Some (INSTALL_PREVIOUSLY, s') \<and> sc_open s' = {}"
  using service_install_correct[OF example_service_wf, of example_scm]
  by (auto simp: example_scm_def example_service_def log_wf_ok[OF log_wf_start])

text \<open>
  (C17) Starting the service ends: if the service control manager answers within \<open>D\<close> milliseconds and
  its wait hints stay below \<open>W\<close>, both small against the 32-bit counter, \<open>win32_service_start\<close>
  returns, whatever states, check points and errors are reported, and every handle is closed.
\<close>

theorem service_start_returns:
  assumes "sc_wf s" and "responsive W D m" and "W + D + 10000 < 2 ^ 32"
  shows "\<exists>s'. win32_service_start m s = Some s' \<and> sc_open s' = sc_open s"
  unfolding win32_service_start_def
proof (rule with_service_closes[OF assms(1)])
  fix sv mgr and s1 :: service
  assume ne: "sv \<noteq> mgr" and o: "sc_open s1 = sc_open s \<union> {sv, mgr}"
  let ?q = "\<lambda>s :: service. s\<lparr>sc_queries := Suc (sc_queries s), sc_time := sc_time s + scm_delay m (sc_queries s)\<rparr>"
  have close: "\<exists>s2'. close_both sv mgr s2 = Some s2' \<and> sc_open s2' = sc_open s1 - {sv, mgr}"
    if "sc_open s2 = sc_open s1" for s2
    using that ne o by (simp add: close_both_open)
  note loop = pending_loop_returns[OF assms(2,3)]
  have st: "\<exists>s2'. started m sv mgr s2 = Some s2' \<and> sc_open s2' = sc_open s1 - {sv, mgr}"
    if eq: "sc_open s2 = sc_open s1" for s2
  proof (cases "scm_query m (sc_queries s2)")
    case (Inr st)
    from loop[of "?q s2" "sc_time (?q s2)" SERVICE_START_PENDING st "dwCheckPoint st"] obtain e s3 where
      "pending_loop m SERVICE_START_PENDING st (sc_time (?q s2)) (dwCheckPoint st) (?q s2) = Some (e, s3)"
      "sc_open s3 = sc_open s1" using eq by auto
    with Inr close show ?thesis by (auto simp: started_def QueryServiceStatusEx_def split: wait_end.split)
  qed (use eq close in \<open>auto simp: started_def QueryServiceStatusEx_def\<close>)
  show "\<exists>s2. (case QueryServiceStatusEx m s1 of
        (Inl err, s) \<Rightarrow> close_both sv mgr (say (failed ''QueryServiceStatusEx'' err) s)
      | (Inr st, s) \<Rightarrow>
          if dwCurrentState st \<noteq> SERVICE_STOPPED \<and> dwCurrentState st \<noteq> SERVICE_STOP_PENDING then
            close_both sv mgr (say (''Cannot start the service because it is already running'' @ [LF]) s)
          else do {
            (e, s) \<leftarrow> pending_loop m SERVICE_STOP_PENDING st (sc_time s) (dwCheckPoint st) s;
            (case e of
               Query_failed err _ \<Rightarrow> close_both sv mgr (say (failed ''QueryServiceStatusEx'' err) s)
             | Timed_out _ \<Rightarrow> close_both sv mgr (say (''Timeout waiting for service to stop'' @ [LF]) s)
             | Settled _ \<Rightarrow>
                 (case scm_start m of
                    Some err \<Rightarrow> close_both sv mgr (say (failed ''StartService'' err) s)
                  | None \<Rightarrow> started m sv mgr (say (''Service start pending...'' @ [LF]) s)))
          }) = Some s2 \<and> sc_open s2 = sc_open s1 - {sv, mgr}"
  proof (cases "scm_query m (sc_queries s1)")
    case (Inr st')
    from loop[of "?q s1" "sc_time (?q s1)" SERVICE_STOP_PENDING st' "dwCheckPoint st'"] obtain e s3 where
      "pending_loop m SERVICE_STOP_PENDING st' (sc_time (?q s1)) (dwCheckPoint st') (?q s1) = Some (e, s3)"
      "sc_open s3 = sc_open s1" by auto
    with Inr close st show ?thesis
      by (auto simp: QueryServiceStatusEx_def split: wait_end.split option.split)
  qed (use close in \<open>auto simp: QueryServiceStatusEx_def\<close>)
qed

theorem service_start_returns_witness:
  "\<exists>s'. win32_service_start example_scm example_service = Some s' \<and> sc_open s' = {}"
  using service_start_returns[OF example_service_wf example_scm_responsive]
  by (simp add: example_service_def)

text \<open>
  (C18) Stopping the service ends: under the same bounds, and if the counter moves while the status is
  queried, \<open>win32_service_stop\<close> returns, whatever is reported, and every handle is closed.
\<close>

theorem service_stop_returns:
  assumes "sc_wf s" and "responsive W D m" and "\<forall>n. scm_delay m n \<noteq> 0" and "3 * D + W + 40000 < 2 ^ 32"
    and "\<forall>st. scm_control m = Inr st \<longrightarrow> unat (dwWaitHint st) \<le> W"
  shows "\<exists>s'. win32_service_stop m s = Some s' \<and> sc_open s' = sc_open s"
  unfolding win32_service_stop_def Let_def
proof (rule with_service_closes[OF assms(1)])
  fix sv mgr and s1 :: service
  assume ne: "sv \<noteq> mgr" and o: "sc_open s1 = sc_open s \<union> {sv, mgr}" and t: "sc_time s1 = sc_time s"
  let ?d = "scm_delay m (sc_queries s1)"
  let ?s = "s1\<lparr>sc_queries := Suc (sc_queries s1), sc_time := sc_time s1 + ?d\<rparr>"
  have el: "unat (sc_time ?s - sc_time s) \<le> 30000 + D" using t assms(2) by (simp add: responsive_def trans_le_add2)
  have "\<exists>s2. stopping m (sc_time s) s1 = Some s2 \<and> sc_open s2 = sc_open s1"
  proof (cases "scm_query m (sc_queries s1)")
    case (Inr st)
    from stop_pending_loop_returns[OF assms(2) _ el, of st] assms(4) obtain r s3 where
      3: "stop_pending_loop m (sc_time s) st ?s = Some (r, s3)" "sc_open s3 = sc_open s1"
        "unat (sc_time s3 - sc_time s) \<le> 40000 + 2 * D" by auto
    have "\<exists>s4. stop_wait_loop m (sc_time s) st s3 = Some s4 \<and> sc_open s4 = sc_open s1"
      if "scm_control m = Inr st" for st
      using stop_wait_loop_returns[OF assms(2-4) 3(3), of st] that assms(5) 3(2) by auto
    with 3 Inr show ?thesis
      by (auto simp: stopping_def QueryServiceStatusEx_def split: option.split sum.split)
  qed (simp add: stopping_def QueryServiceStatusEx_def)
  then show "\<exists>s2. (do { s \<leftarrow> stopping m (sc_time s) s1; close_both sv mgr s }) = Some s2 \<and>
      sc_open s2 = sc_open s1 - {sv, mgr}"
    using ne o by (auto simp: close_both_open)
qed

theorem service_stop_returns_witness:
  "\<exists>s'. win32_service_stop example_scm example_service = Some s' \<and> sc_open s' = {}"
  using service_stop_returns[OF example_service_wf example_scm_responsive]
  by (simp add: example_service_def) (simp add: example_scm_def example_status_def)

end
