(* ===== verification/Equus_Main.thy ===== *)
theory Equus_Main
  imports Equus_Registry Equus_Service
begin

text \<open>
  The program itself (\<open>equus.c\<close>): the Lua virtual machine, the signal handlers, \<open>main_core\<close> with its
  restart loop, and on Windows the service entry points and the command line.

  The parts of the program that are generated or third-party are fields of a record: the table of
  bootstrap modules, the standard libraries of Lua, the SWIG module, the compiler and the running of a
  chunk. Running the bootstrap chunk is running the agent: it may change the whole state through the
  functions the other theories describe, and it may never return.
\<close>

section \<open>The Lua virtual machine\<close>

record program =
  prog_build :: build
  prog_win32 :: bool
  prog_local_dev :: bool
  prog_test :: bool
  prog_bootstrap :: "string \<Rightarrow> int \<times> string"
  prog_openlibs :: "lua_State \<Rightarrow> lua_State"
  prog_luaopen_equus :: "lua_State \<Rightarrow> lua_State"
  prog_require :: pcall
  prog_compile :: compiler
  prog_num_text :: "real \<Rightarrow> string"
  prog_run :: "lua_function \<Rightarrow> lua_State \<Rightarrow> equus \<Rightarrow> (int \<times> lua_value \<times> equus) option"

definition equus_lua_load_modules :: "program \<Rightarrow> lua_State \<Rightarrow> equus \<Rightarrow> (lua_State \<times> equus) finish option" where
  "equus_lua_load_modules P L s =
     luaopen_equus_loader (prog_win32 P) (prog_local_dev P) (prog_require P) (prog_luaopen_equus P L) s"

definition equus_lua_vm :: "program \<Rightarrow> equus \<Rightarrow> (lua_State \<times> equus) finish option" where
  "equus_lua_vm P s = equus_lua_load_modules P (prog_openlibs P luaL_newstate) s"

section \<open>Restarting\<close>

definition equus_restart_get :: "equus \<Rightarrow> int" where
  "equus_restart_get s = g_equus_restart s"

definition equus_restart_set :: "int \<Rightarrow> equus \<Rightarrow> equus" where
  "equus_restart_set i s = s\<lparr>g_equus_restart := i\<rparr>"

section \<open>Signals\<close>

datatype disposition = SIG_DFL | SIG_IGN | Hup_handler | Usr1_handler

record signals =
  sig_hup :: disposition
  sig_usr1 :: disposition

text \<open>How a part of the program ends: it goes on, or the process exits with a code or aborts.\<close>

datatype 'a flow = Goes_on 'a | Exits int equus | Aborts

definition hup_handler :: "equus \<Rightarrow> equus option" where
  "hup_handler s = map_option snd (equus_log_rotate s)"

definition usr1_handler :: "build \<Rightarrow> equus \<Rightarrow> equus flow option" where
  "usr1_handler b s = do {
     s \<leftarrow> equus_log_infof (Some ''Re-reading config file'') s;
     (rv, s) \<leftarrow> equus_load_config b s;
     if rv < 0 then do {
       s \<leftarrow> equus_log_criticalf (Some ''Failed loading config file, exiting'') s;
       Some (Exits 1 s)
     } else Some (Goes_on (equus_restart_set 1 s))
   }"

definition install_handler :: "disposition \<Rightarrow> disposition \<Rightarrow> disposition" where
  "install_handler handler old = (if old = SIG_IGN then SIG_IGN else handler)"

definition install_handlers :: "signals \<Rightarrow> signals" where
  "install_handlers sg = sg\<lparr>sig_hup := install_handler Hup_handler (sig_hup sg),
     sig_usr1 := install_handler Usr1_handler (sig_usr1 sg)\<rparr>"

section \<open>\<open>main_core\<close>\<close>

abbreviation (input) EXIT_FAILURE :: int where
  "EXIT_FAILURE \<equiv> 1"

abbreviation (input) EXIT_SUCCESS :: int where
  "EXIT_SUCCESS \<equiv> 0"

definition BOOTSTRAP_MODULE :: "program \<Rightarrow> string" where
  "BOOTSTRAP_MODULE P =
     (if prog_test P then ''bootstrap-test''
      else if prog_local_dev P then ''bootstrap-local'' else ''bootstrap-http'')"

text \<open>The critical message for an error object on the top of the stack; \<open>%s\<close> of a null pointer is undefined.\<close>

definition report :: "program \<Rightarrow> string \<Rightarrow> string \<Rightarrow> lua_State \<Rightarrow> equus \<Rightarrow> equus option" where
  "report P what ending L s = do {
     (lua_err, L) \<leftarrow> lua_tolstring (prog_num_text P) (-1) L;
     msg \<leftarrow> lua_err;
     equus_log_criticalf (Some (what @ cstr msg @ ending)) s
   }"

text \<open>One round of the loop: \<open>Goes_on\<close> means that the loop condition is tested next.\<close>

definition run_once :: "program \<Rightarrow> string \<Rightarrow> equus \<Rightarrow> equus flow option" where
  "run_once P p s = do {
     let s = equus_restart_set 0 s;
     let s = s\<lparr>g_equus_run_count := g_equus_run_count s + 1\<rparr>;
     vm \<leftarrow> equus_lua_vm P s;
     (case vm of
        Aborted \<Rightarrow> Some Aborts
      | Returned (L, s) \<Rightarrow>
          (case luaL_loadbuffer (prog_compile P) p ''bootstrap.lua'' L of
             (status, L) \<Rightarrow>
               if status \<noteq> 0 then do {
                 s \<leftarrow> report P ''Load Buffer Error: '' [LF, LF] L s;
                 Some (Exits EXIT_FAILURE s)
               } else do {
                 f \<leftarrow> lua_value_at L (-1);
                 (case f of
                    LFunction g \<Rightarrow> do {
                      (status, err, s) \<leftarrow> prog_run P g L s;
                      if status \<noteq> 0 then do {
                        s \<leftarrow> report P ''Runtime Error: '' [] (lua_push err (L\<lparr>stk := butlast (stk L)\<rparr>)) s;
                        Some (Exits EXIT_FAILURE s)
                      } else do {
                        s \<leftarrow> equus_local_cache_clear s;
                        Some (Goes_on s)
                      }
                    }
                  | _ \<Rightarrow> None)
               }))
   }"

partial_function (option) main_loop :: "program \<Rightarrow> string \<Rightarrow> equus \<Rightarrow> (int \<times> equus) finish option" where
  "main_loop P p s = do {
     r \<leftarrow> run_once P p s;
     (case r of
        Aborts \<Rightarrow> Some Aborted
      | Exits code s \<Rightarrow> Some (Returned (code, s))
      | Goes_on s \<Rightarrow> if equus_restart_get s = 1 then main_loop P p s else Some (Returned (0, s)))
   }"

declare main_loop.simps [code]

definition main_core ::
  "program \<Rightarrow> int \<Rightarrow> string list \<Rightarrow> signals \<Rightarrow> equus \<Rightarrow> ((int \<times> equus) finish \<times> signals) option" where
  "main_core P argc argv sg s = do {
     let s = equus_set_argv argc argv s;
     (rv, s) \<leftarrow> equus_util_init (prog_build P) s;
     if rv < 0 then Some (Returned (EXIT_FAILURE, s), sg)
     else do {
       let sg = (if prog_win32 P then sg else install_handlers sg);
       let (status, p) = prog_bootstrap P (BOOTSTRAP_MODULE P);
       if status \<noteq> 0 then do {
         s \<leftarrow> equus_log_criticalf (Some (''Errorcode: bootstrap broken.'' @ [LF])) s;
         Some (Returned (EXIT_FAILURE, s), sg)
       } else do {
         r \<leftarrow> main_loop P p s;
         Some (r, sg)
       }
     }
   }"

section \<open>The Windows service\<close>

record SERVICE_STATUS =
  svc_dwCurrentState :: DWORD
  svc_dwServiceType :: DWORD
  svc_dwControlsAccepted :: DWORD
  svc_dwWin32ExitCode :: DWORD
  svc_dwServiceSpecificExitCode :: DWORD

abbreviation (input) ERROR_SERVICE_SPECIFIC_ERROR :: DWORD where
  "ERROR_SERVICE_SPECIFIC_ERROR \<equiv> 1066"

abbreviation (input) SERVICE_CONTROL_STOP :: DWORD where
  "SERVICE_CONTROL_STOP \<equiv> 1"

record win_service =
  g_service_status :: SERVICE_STATUS
  g_stop_event :: bool
  reported :: "SERVICE_STATUS list"

definition SetServiceStatus :: "win_service \<Rightarrow> win_service" where
  "SetServiceStatus w = w\<lparr>reported := reported w @ [g_service_status w]\<rparr>"

definition win32_service_handler :: "DWORD \<Rightarrow> win_service \<Rightarrow> win_service" where
  "win32_service_handler dwControl w =
     SetServiceStatus
      (if dwControl = SERVICE_CONTROL_STOP
       then w\<lparr>g_service_status := (g_service_status w)\<lparr>svc_dwCurrentState := SERVICE_STOP_PENDING\<rparr>,
              g_stop_event := True\<rparr>
       else w)"

text \<open>
  What can happen while \<open>WaitForMultipleObjects\<close> waits: the control handler is called, or the thread of
  the agent ends with an exit code. If nothing more happens, the wait does not return.
\<close>

datatype service_event = Control DWORD | Thread_end DWORD

fun service_wait :: "service_event list \<Rightarrow> win_service \<Rightarrow> win_service option" where
  "service_wait [] w = None"
| "service_wait (Control c # es) w =
     (let w = win32_service_handler c w in if g_stop_event w then Some w else service_wait es w)"
| "service_wait (Thread_end code # es) w =
     Some (w\<lparr>g_service_status := (g_service_status w)\<lparr>svc_dwServiceSpecificExitCode := code\<rparr>\<rparr>)"

definition service_stopped :: "DWORD option \<Rightarrow> win_service \<Rightarrow> win_service" where
  "service_stopped err w = SetServiceStatus (w\<lparr>g_service_status :=
     (let st = (case err of Some e \<Rightarrow> (g_service_status w)\<lparr>svc_dwWin32ExitCode := e\<rparr> | None \<Rightarrow> g_service_status w)
      in st\<lparr>svc_dwCurrentState := SERVICE_STOPPED\<rparr>)\<rparr>)"

text \<open>
  The answers are those of \<open>RegisterServiceCtrlHandler\<close> (does it give a handle), \<open>CreateEvent\<close> and
  \<open>CreateThread\<close> (the error, if any).
\<close>

definition win32_service_main ::
  "bool \<Rightarrow> DWORD option \<Rightarrow> DWORD option \<Rightarrow> service_event list \<Rightarrow> win_service \<Rightarrow> win_service option" where
  "win32_service_main registers event thread es w =
     (if \<not> registers then Some w
      else let w = SetServiceStatus (w\<lparr>g_service_status := (g_service_status w)
             \<lparr>svc_dwCurrentState := SERVICE_RUNNING, svc_dwServiceType := 16, svc_dwControlsAccepted := 1\<rparr>\<rparr>)
        in (case event of
             Some e \<Rightarrow> Some (service_stopped (Some e) w)
           | None \<Rightarrow>
               (case thread of
                  Some e \<Rightarrow> Some (service_stopped (Some e) w)
                | None \<Rightarrow> do {
                    w \<leftarrow> service_wait es w;
                    Some (service_stopped
                      (if svc_dwServiceSpecificExitCode (g_service_status w) \<noteq> 0
                       then Some ERROR_SERVICE_SPECIFIC_ERROR else None) w)
                  })))"

text \<open>\<open>%NAME%\<close> at the start of a path stays as it is if there is no variable of that name.\<close>

definition ExpandEnvironmentString :: "(string \<rightharpoonup> string) \<Rightarrow> string \<Rightarrow> string \<Rightarrow> string" where
  "ExpandEnvironmentString env name rest =
     (case env name of Some v \<Rightarrow> v | None \<Rightarrow> CHR 0x25 # name @ [CHR 0x25]) @ rest"

text \<open>\<open>CreateFile\<close> with \<open>CREATE_NEW\<close>: an empty file where there was none and the directory exists.\<close>

definition CreateNew :: "(string \<Rightarrow> bool) \<Rightarrow> string \<Rightarrow> equus \<Rightarrow> equus" where
  "CreateNew creatable path s =
     (if readable s path = None \<and> creatable path then s\<lparr>readable := (readable s)(path \<mapsto> [])\<rparr> else s)"

definition thread_config_path :: "(string \<rightharpoonup> string) \<Rightarrow> string" where
  "thread_config_path env =
     ExpandEnvironmentString env ''ProgrmFiles'' (CHR 0x5C # ''Cloudkick'' @ CHR 0x5C # ''etc'' @ CHR 0x5C # ''cloudkick.cfg'')"

text \<open>The path \<open>equus_conf_init\<close> builds on Windows.\<close>

definition config_path_win32 :: "string \<Rightarrow> string" where
  "config_path_win32 programfiles =
     programfiles @ CHR 0x5C # ''Cloudkick Agent'' @ CHR 0x5C # ''etc'' @ CHR 0x5C # ''cloudkick.cfg''"

definition win32_thread_proc ::
  "program \<Rightarrow> (string \<rightharpoonup> string) \<Rightarrow> (string \<Rightarrow> bool) \<Rightarrow> int \<Rightarrow> string list \<Rightarrow> signals \<Rightarrow> equus \<Rightarrow>
   ((int \<times> equus) finish \<times> signals) option" where
  "win32_thread_proc P env creatable argc argv sg s =
     main_core P argc argv sg ((CreateNew creatable (thread_config_path env) s)\<lparr>g_equus_win_service := 1\<rparr>)"

section \<open>The command line on Windows\<close>

definition lower :: "char \<Rightarrow> char" where
  "lower c = (if 65 \<le> (of_char c :: nat) \<and> (of_char c :: nat) \<le> 90 then char_of (of_char c + 32 :: nat) else c)"

definition stricmp_eq :: "string \<Rightarrow> string \<Rightarrow> bool" where
  "stricmp_eq a b \<longleftrightarrow> map lower (cstr a) = map lower (cstr b)"

datatype command = Install | Delete | Start | Status | Stop | Noservice

definition command_of :: "string \<Rightarrow> command option" where
  "command_of arg =
     (if stricmp_eq arg ''--install'' then Some Install
      else if stricmp_eq arg ''--delete'' then Some Delete
      else if stricmp_eq arg ''--start'' then Some Start
      else if stricmp_eq arg ''--status'' then Some Status
      else if stricmp_eq arg ''--stop'' then Some Stop
      else if stricmp_eq arg ''--noservice'' then Some Noservice
      else None)"

fun first_command :: "string list \<Rightarrow> command option" where
  "first_command [] = None"
| "first_command (arg # args) = (case command_of arg of Some c \<Rightarrow> Some c | None \<Rightarrow> first_command args)"

text \<open>
  What \<open>main\<close> does: a service command and return 0, the agent in the foreground, or the dispatcher of
  the service control manager, whose success ends the process.
\<close>

datatype main_action = Command command | Foreground | Dispatcher

definition main_action :: "bool \<Rightarrow> string list \<Rightarrow> main_action" where
  "main_action win32 argv =
     (if \<not> win32 then Foreground
      else case first_command (drop 1 argv) of
          Some Noservice \<Rightarrow> Foreground
        | Some c \<Rightarrow> Command c
        | None \<Rightarrow> if length argv = 1 then Dispatcher else Foreground)"

definition win32_run_service :: "bool \<Rightarrow> service \<Rightarrow> (int \<times> service) option" where
  "win32_run_service dispatches s =
     (if dispatches then Some (EXIT_SUCCESS, s)
      else do { s \<leftarrow> log_to EQUUS_LOG_CRITICAL ''StartServiceCtrlDispatcher: failed'' s; Some (EXIT_FAILURE, s) })"

primrec run_command :: "scm \<Rightarrow> command \<Rightarrow> service \<Rightarrow> service option" where
  "run_command m Install s = map_option snd (win32_service_install m s)"
| "run_command m Delete s = win32_service_delete m s"
| "run_command m Start s = win32_service_start m s"
| "run_command m Status s = win32_service_status m s"
| "run_command m Stop s = win32_service_stop m s"
| "run_command m Noservice s = Some s"

definition main ::
  "program \<Rightarrow> scm \<Rightarrow> bool \<Rightarrow> string list \<Rightarrow> signals \<Rightarrow> service \<Rightarrow> (int finish \<times> signals \<times> service) option" where
  "main P m dispatches argv sg s =
     (case main_action (prog_win32 P) argv of
        Command c \<Rightarrow> do { s \<leftarrow> run_command m c s; Some (Returned 0, sg, s) }
      | Dispatcher \<Rightarrow> do { (code, s) \<leftarrow> win32_run_service dispatches s; Some (Returned code, sg, s) }
      | Foreground \<Rightarrow> do {
          (r, sg) \<leftarrow> main_core P (int (length argv)) argv sg (agent s);
          Some (case r of Returned (code, a) \<Rightarrow> (Returned code, sg, s\<lparr>agent := a\<rparr>)
                | Aborted \<Rightarrow> (Aborted, sg, s))
        })"

section \<open>Starting and restarting\<close>

text \<open>Loading the first configuration leaves the blocks of the cache alone.\<close>

lemma loaded_log_wf:
  assumes "log_wf s" and "loaded b s s'" and "g_equus_log_path s \<notin> conf_blocks s"
  shows "log_wf s'"
proof -
  from assms(2) have s': "s' = s\<lparr>global_conf := global_conf s', heap := heap s', out_log := out_log s'\<rparr>"
    and c: "conf_wf s'" and same: "same_on (dom (cells (heap s)) - conf_blocks s) (heap s) (heap s')"
    by (simp_all add: loaded_def)
  have "heap_wf (heap s')" using c by (simp add: conf_wf_def)
  then have "log_wf (s\<lparr>heap := heap s'\<rparr>)"
  proof (rule log_wf_heap[OF assms(1)])
    assume "g_equus_log_path s \<noteq> NULL"
    then have "g_equus_log_path s \<in> dom (cells (heap s)) - conf_blocks s"
      using assms(1,3) by (auto simp: log_wf_def get_chars_def split: option.splits)
    with same show "cells (heap s') (g_equus_log_path s) = cells (heap s) (g_equus_log_path s)"
      by (auto simp: same_on_def)
  qed
  then have "log_wf (s\<lparr>global_conf := global_conf s', heap := heap s', out_log := out_log s'\<rparr>)"
    by (simp add: log_wf_def clock_ok_def current_files_def)
  then show ?thesis using s' by simp
qed

lemma no_conf_blocks: "conf_wf s \<Longrightarrow> global_conf s = NULL \<Longrightarrow> conf_blocks s = {}"
  by (simp add: conf_owned_def get_conf_def conf_wf_def)

text \<open>A state in which no module is cached and no restart is asked for.\<close>

definition run_ready :: "equus \<Rightarrow> bool" where
  "run_ready s \<longleftrightarrow> cache_wf s \<and> cache_map s = Map.empty \<and> g_equus_restart s = 0"

text \<open>What the program relies on: the Lua libraries are there and the bootstrap module compiles.\<close>

definition program_ok :: "program \<Rightarrow> string \<Rightarrow> bool" where
  "program_ok P p \<longleftrightarrow> \<not> prog_local_dev P \<and> prog_bootstrap P (BOOTSTRAP_MODULE P) = (0, p) \<and>
     prog_compile P ''bootstrap.lua'' p = None \<and>
     (\<exists>pk pre lo n req ld. lua_libs (prog_luaopen_equus P (prog_openlibs P luaL_newstate)) pk pre lo n req \<and>
        require_ok (prog_require P) req ld pk pre lo)"

lemma equus_lua_vm_returns:
  assumes "program_ok P p"
  obtains L where "equus_lua_vm P s = Some (Returned (L, s))"
proof -
  from assms obtain pk pre lo n req ld where
    "lua_libs (prog_luaopen_equus P (prog_openlibs P luaL_newstate)) pk pre lo n req"
    "require_ok (prog_require P) req ld pk pre lo" by (auto simp: program_ok_def)
  from luaopen_equus_loader_spec[OF this, of "prog_win32 P" s] assms that show thesis
    by (auto simp: equus_lua_vm_def equus_lua_load_modules_def program_ok_def)
qed

text \<open>The bootstrap chunk as the loop sees it: it returns, and asks for a restart in the first \<open>N\<close> runs only.\<close>

definition restarts_until :: "program \<Rightarrow> string \<Rightarrow> int \<Rightarrow> bool" where
  "restarts_until P p N \<longleftrightarrow> (\<forall>L s. run_ready s \<longrightarrow>
     (\<exists>err s'. prog_run P (Chunk ''bootstrap.lua'' p) L s = Some (0, err, s') \<and> cache_wf s' \<and>
        g_equus_run_count s' = g_equus_run_count s \<and> (g_equus_restart s' = 1 \<longleftrightarrow> g_equus_run_count s < N)))"

lemma cache_wf_update [simp]:
  "cache_wf (s\<lparr>g_equus_restart := i\<rparr>) = cache_wf s" "cache_wf (s\<lparr>g_equus_run_count := i\<rparr>) = cache_wf s"
  "cache_map (s\<lparr>g_equus_restart := i\<rparr>) = cache_map s" "cache_map (s\<lparr>g_equus_run_count := i\<rparr>) = cache_map s"
  by (simp_all add: cache_wf_def cache_map_def)

lemma cache_clear_frame:
  "cache_wf s \<Longrightarrow> equus_local_cache_clear s = Some s' \<Longrightarrow>
    g_equus_restart s' = g_equus_restart s \<and> g_equus_run_count s' = g_equus_run_count s"
  by (auto simp: cache_clear_eq)

lemma run_once_returns:
  assumes "program_ok P p" and "restarts_until P p N" and "cache_wf s" and "cache_map s = Map.empty"
  obtains s' where "run_once P p s = Some (Goes_on s')" and "cache_wf s'" and "cache_map s' = Map.empty"
    and "g_equus_run_count s' = g_equus_run_count s + 1"
    and "g_equus_restart s' = 1 \<longleftrightarrow> g_equus_run_count s + 1 < N"
proof -
  let ?s = "(equus_restart_set 0 s)\<lparr>g_equus_run_count := g_equus_run_count s + 1\<rparr>"
  have ready: "run_ready ?s" using assms(3,4) by (simp add: run_ready_def equus_restart_set_def)
  obtain L where vm: "equus_lua_vm P ?s = Some (Returned (L, ?s))"
    using equus_lua_vm_returns[OF assms(1)] by blast
  have ld: "luaL_loadbuffer (prog_compile P) p ''bootstrap.lua'' L =
      (0, lua_push (LFunction (Chunk ''bootstrap.lua'' p)) L)"
    using assms(1) by (simp add: program_ok_def luaL_loadbuffer_def)
  from assms(2) ready obtain err s1 where
    run: "prog_run P (Chunk ''bootstrap.lua'' p) (lua_push (LFunction (Chunk ''bootstrap.lua'' p)) L) ?s = Some (0, err, s1)"
    "cache_wf s1" "g_equus_run_count s1 = g_equus_run_count s + 1"
    "g_equus_restart s1 = 1 \<longleftrightarrow> g_equus_run_count s + 1 < N"
    unfolding restarts_until_def by fastforce
  obtain s2 where s2: "equus_local_cache_clear s1 = Some s2" "cache_wf s2" "cache_map s2 = Map.empty"
    using cache_clear_wf[OF run(2)] by metis
  have "run_once P p s = Some (Goes_on s2)"
    using vm ld run(1) s2(1)
    by (simp add: run_once_def Let_def equus_restart_set_def lua_push_def value_at_lit nth_append)
  with that s2 cache_clear_frame[OF run(2) s2(1)] run(3,4) show thesis by simp
qed

lemma main_loop_returns:
  assumes "program_ok P p" and "restarts_until P p N"
  shows "cache_wf s \<Longrightarrow> cache_map s = Map.empty \<Longrightarrow> g_equus_run_count s < N \<Longrightarrow>
    \<exists>s'. main_loop P p s = Some (Returned (0, s')) \<and> cache_wf s' \<and> cache_map s' = Map.empty \<and>
      g_equus_run_count s' = N \<and> g_equus_restart s' \<noteq> 1"
proof (induction "nat (N - g_equus_run_count s)" arbitrary: s rule: less_induct)
  case less
  from run_once_returns[OF assms less.prems(1,2)] obtain s1 where
    s1: "run_once P p s = Some (Goes_on s1)" "cache_wf s1" "cache_map s1 = Map.empty"
      "g_equus_run_count s1 = g_equus_run_count s + 1" "g_equus_restart s1 = 1 \<longleftrightarrow> g_equus_run_count s + 1 < N" by metis
  show ?case
  proof (cases "g_equus_restart s1 = 1")
    case True
    with s1(5) have "g_equus_run_count s1 < N" using s1(4) by simp
    with less.hyps[of s1] s1(2-4) less.prems(3) have "\<exists>s'. main_loop P p s1 = Some (Returned (0, s')) \<and>
      cache_wf s' \<and> cache_map s' = Map.empty \<and> g_equus_run_count s' = N \<and> g_equus_restart s' \<noteq> 1" by simp
    with True s1(1) show ?thesis by (simp add: main_loop.simps[of P p s] equus_restart_get_def)
  next
    case False
    with s1 less.prems(3) show ?thesis by (simp add: main_loop.simps[of P p s] equus_restart_get_def)
  qed
qed

lemma equus_util_init_cases:
  assumes "conf_wf s"
  obtains s' where "equus_util_init b s = Some (0, s')" and "s' = equus_loader_init (equus_verify_init s)"
  | s' where "equus_util_init b s = Some (fst (conf_result b s), s')"
    and "loaded b (equus_loader_init (equus_verify_init s)) s'"
proof -
  let ?s = "equus_loader_init (equus_verify_init s)"
  have s: "?s = s\<lparr>atexit_handlers := Equus_loader_atexit # Equus_util_atexit # atexit_handlers s\<rparr>"
    by (simp add: equus_loader_init_def equus_verify_init_def)
  have wf: "conf_wf ?s" and args: "args_wf ?s" using assms by (simp_all add: s) (simp_all add: conf_wf_def)
  obtain h where h: "is_help_switch_present ?s = Some h"
    using help_switch_from_eq[OF args, of 1] by (auto simp: is_help_switch_present_def)
  from equus_load_config_loaded[OF wf, of b] obtain s1 where
    "equus_load_config b ?s = Some (fst (conf_result b s), s1)" "loaded b ?s s1" by (auto simp: s)
  with h that show thesis by (cases "h = 1") (auto simp: equus_util_init_def Let_def)
qed

lemma init_cache_wf:
  assumes "cache_wf s" and "cache_head s = NULL" and "conf_wf s" and "global_conf s = NULL"
    and "equus_util_init b s = Some (rv, s')"
  shows "cache_wf s' \<and> cache_map s' = Map.empty \<and> g_equus_run_count s' = g_equus_run_count s"
proof -
  let ?s = "equus_loader_init (equus_verify_init s)"
  have s: "?s = s\<lparr>atexit_handlers := Equus_loader_atexit # Equus_util_atexit # atexit_handlers s\<rparr>"
    by (simp add: equus_loader_init_def equus_verify_init_def)
  have log: "log_wf ?s" using cache_wfD(5)[OF assms(1)] by (simp add: s)
  have empty: "cache_wf t \<and> cache_map t = Map.empty" if "log_wf t" "\<not> cachemtx t" "cache_head t = NULL" for t
    using cache_wfI[OF that(1,2), of "[]"] that(3) by simp
  show ?thesis
  proof (rule equus_util_init_cases[OF assms(3), of b])
    fix t assume "equus_util_init b s = Some (0, t)" "t = ?s"
    with assms empty[OF log] cache_wfD(4)[OF assms(1)] show ?thesis by (auto simp: s)
  next
    fix t assume t: "equus_util_init b s = Some (fst (conf_result b s), t)" "loaded b ?s t"
    have "conf_blocks ?s = {}" by (rule no_conf_blocks) (simp_all add: s assms)
    then have l: "log_wf t" using loaded_log_wf[OF log t(2)] by simp
    have eq: "t = ?s\<lparr>global_conf := global_conf t, heap := heap t, out_log := out_log t\<rparr>"
      using t(2) by (simp add: loaded_def)
    have "\<not> cachemtx t" "cache_head t = NULL" "g_equus_run_count t = g_equus_run_count s"
      using cache_wfD(4)[OF assms(1)] assms(2) by (subst eq, simp add: s)+
    with empty[OF l] t(1) assms(5) show ?thesis by simp
  qed
qed

section \<open>Properties\<close>

text \<open>
  (C5) The agent runs until it is not asked to restart: if the configuration can be read, the bootstrap
  module is there and compiles, and each run of it returns, asking for a restart in all runs but the
  \<open>N\<close>-th, then \<open>main_core\<close> makes exactly \<open>N\<close> runs and returns 0. The run is only assumed to behave when
  it starts with an empty module cache and no pending restart, so every run does. Signals that were
  ignored when the program started stay ignored.
\<close>

theorem main_core_restarts:
  assumes "program_ok P p" and "restarts_until P p N" and "0 < N" and "\<not> prog_win32 P"
    and "cache_wf s" and "cache_head s = NULL" and "global_conf s = NULL" and "g_equus_run_count s = 0"
    and "conf_wf (equus_set_argv argc argv s)"
    and "0 \<le> fst (conf_result (prog_build P) (equus_set_argv argc argv s))"
  shows "\<exists>s' sg'. main_core P argc argv sg s = Some (Returned (0, s'), sg') \<and>
    g_equus_run_count s' = N \<and> g_equus_restart s' \<noteq> 1 \<and> cache_wf s' \<and> cache_map s' = Map.empty \<and>
    sig_hup sg' = (if sig_hup sg = SIG_IGN then SIG_IGN else Hup_handler) \<and>
    sig_usr1 sg' = (if sig_usr1 sg = SIG_IGN then SIG_IGN else Usr1_handler)"
proof -
  let ?s = "equus_set_argv argc argv s"
  have wf: "cache_wf ?s" "cache_head ?s = NULL" "global_conf ?s = NULL" "g_equus_run_count ?s = 0"
    using assms(5-8) by (simp_all add: equus_set_argv_def cache_wf_def)
  obtain rv s1 where init: "equus_util_init (prog_build P) ?s = Some (rv, s1)" "0 \<le> rv"
    using equus_util_init_cases[OF assms(9), of "prog_build P"] assms(10) by (metis order_refl)
  from init_cache_wf[OF wf(1,2) assms(9) wf(3) init(1)] wf(4)
  have s1: "cache_wf s1" "cache_map s1 = Map.empty" "g_equus_run_count s1 < N" using assms(3) by auto
  from main_loop_returns[OF assms(1,2) s1] obtain s' where
    "main_loop P p s1 = Some (Returned (0, s'))" "cache_wf s'" "cache_map s' = Map.empty"
    "g_equus_run_count s' = N" "g_equus_restart s' \<noteq> 1" by blast
  with init assms(1,4) show ?thesis
    by (simp add: main_core_def Let_def program_ok_def install_handlers_def install_handler_def)
qed

definition example_program :: "int \<Rightarrow> program" where
  "example_program N = \<lparr>prog_build = example_build, prog_win32 = False, prog_local_dev = False, prog_test = False,
     prog_bootstrap = (\<lambda>_. (0, ''run()'')), prog_openlibs = (\<lambda>_. example_state), prog_luaopen_equus = (\<lambda>L. L),
     prog_require = (\<lambda>f a L. (0, LFunction (Chunk ''http_loader'' ''load''), tables L)),
     prog_compile = (\<lambda>_ _. None), prog_num_text = (\<lambda>_. []),
     prog_run = (\<lambda>f L s. Some (0, LNil, s\<lparr>g_equus_restart := if g_equus_run_count s < N then 1 else 0\<rparr>))\<rparr>"

lemma example_program_ok: "program_ok (example_program N) ''run()''"
proof -
  have "lua_libs example_state 2 3 4 0 (C_function ''require'')"
    by (simp add: lua_libs_def example_state_def table_get_def is_array_def)
  moreover have "require_ok (\<lambda>f a L. (0, LFunction (Chunk ''http_loader'' ''load''), tables L))
      (C_function ''require'') (Chunk ''http_loader'' ''load'') 2 3 4" by (simp add: require_ok_def)
  ultimately show ?thesis unfolding program_ok_def by (simp add: example_program_def) blast
qed

lemma example_program_restarts: "restarts_until (example_program N) ''run()'' N"
  by (simp add: restarts_until_def example_program_def run_ready_def)

lemma example_conf_cache: "cache_wf (example_conf file)" "cache_head (example_conf file) = NULL"
proof -
  have eq: "example_conf file = start\<lparr>global_argc := 3, global_argv := Some [''agent'', ''-c'', ''/x''], readable := [''/x'' \<mapsto> file]\<rparr>"
    by (simp add: example_conf_def start_def equus_set_argv_def equus_init_def)
  have "log_wf (example_conf file)" using log_wf_start by (simp add: eq log_wf_def clock_ok_def current_files_def)
  moreover show "cache_head (example_conf file) = NULL" by (simp add: eq start_def equus_init_def)
  ultimately show "cache_wf (example_conf file)"
    using cache_wfI(1)[of "example_conf file" "[]"] by (simp add: eq start_def equus_init_def)
qed

theorem main_core_restarts_witness:
  "\<exists>s' sg'. main_core (example_program 3) 3 [''agent'', ''-c'', ''/x''] \<lparr>sig_hup = SIG_IGN, sig_usr1 = SIG_DFL\<rparr>
       (example_conf []) = Some (Returned (0, s'), sg') \<and>
     g_equus_run_count s' = 3 \<and> sig_hup sg' = SIG_IGN \<and> sig_usr1 sg' = Usr1_handler"
proof -
  have eq: "equus_set_argv 3 [''agent'', ''-c'', ''/x''] (example_conf []) = example_conf []"
    by (simp add: example_conf_def equus_set_argv_def equus_init_def)
  have r: "0 \<le> fst (conf_result (prog_build (example_program 3)) (example_conf []))"
    by (simp add: conf_result_def chunks.simps fgets_def last_value_def)
  have z: "global_conf (example_conf []) = NULL" "g_equus_run_count (example_conf []) = 0"
    by (simp_all add: example_conf_def equus_set_argv_def equus_init_def)
  from main_core_restarts[OF example_program_ok example_program_restarts[of 3] _ _ example_conf_cache z,
      of 3 "[''agent'', ''-c'', ''/x'']" "\<lparr>sig_hup = SIG_IGN, sig_usr1 = SIG_DFL\<rparr>"] r
  show ?thesis by (auto simp: eq example_program_def)
qed

lemma log_spec_conf_fields [simp]:
  "asprintf_fails (log_spec level str s) = asprintf_fails s" "readable (log_spec level str s) = readable s"
  "global_argc (log_spec level str s) = global_argc s"
  by (simp_all add: log_spec_def Let_def)

lemma conf_log_spec [simp]:
  "conf_wf (log_spec level str s) = conf_wf s" "conf_result b (log_spec level str s) = conf_result b s"
  by (simp_all add: conf_wf_def args_wf_def arguments_def conf_result_def cong: option.case_cong)

text \<open>
  \<open>SIGUSR1\<close> makes the agent read its configuration again: if that succeeds a restart is pending, the new
  configuration is in force and the invariants hold; if not, the process exits with the failure code.
\<close>

theorem usr1_handler_correct:
  assumes "log_wf s" and "conf_wf s" and "g_equus_log_path s \<notin> conf_blocks s"
  shows "if 0 \<le> fst (conf_result b s)
    then \<exists>s'. usr1_handler b s = Some (Goes_on s') \<and> equus_restart_get s' = 1 \<and> log_wf s' \<and> conf_wf s' \<and>
      equus_url b s' = Some (snd (conf_result b s))
    else \<exists>s'. usr1_handler b s = Some (Exits EXIT_FAILURE s')"
proof -
  let ?s = "log_spec EQUUS_LOG_INFO ''Re-reading config file'' s"
  have "conf_wf ?s" using assms(2) by simp
  from equus_load_config_loaded[OF this, of b] obtain s1 where
    s1: "equus_load_config b ?s = Some (fst (conf_result b s), s1)" "loaded b ?s s1" by auto
  have l: "log_wf s1" using loaded_log_wf[OF _ s1(2)] assms(1,3) by simp
  have u: "equus_url b (s1\<lparr>g_equus_restart := 1\<rparr>) = Some (snd (conf_result b s))"
    using s1(2) by (intro conf_obj_url) (simp_all add: loaded_def)
  have c: "conf_wf (s1\<lparr>g_equus_restart := 1\<rparr>)"
    using s1(2) by (simp add: loaded_def conf_wf_def args_wf_def arguments_def)
  show ?thesis
    using s1(1) l u c assms(1)
    by (simp add: usr1_handler_def equus_restart_set_def equus_restart_get_def)
qed

theorem usr1_handler_correct_witness:
  "\<exists>s'. usr1_handler example_build (example_conf []) = Some (Goes_on s') \<and> equus_restart_get s' = 1"
proof -
  have r: "0 \<le> fst (conf_result example_build (example_conf []))"
    by (simp add: conf_result_def chunks.simps fgets_def last_value_def)
  have "conf_blocks (example_conf []) = {}"
    by (rule no_conf_blocks[OF example_conf_wf]) (simp add: example_conf_def equus_set_argv_def equus_init_def)
  with usr1_handler_correct[OF cache_wfD(5)[OF example_conf_cache(1)] example_conf_wf, of "[]" example_build] r
  show ?thesis by auto
qed

text \<open>The event that ends the wait, as the exit code of the thread or 0 for a stop request.\<close>

fun service_end :: "service_event list \<Rightarrow> DWORD option" where
  "service_end [] = None"
| "service_end (Control c # es) = (if c = SERVICE_CONTROL_STOP then Some 0 else service_end es)"
| "service_end (Thread_end code # es) = Some code"

lemma service_wait_end:
  assumes "\<not> g_stop_event w" and "svc_dwServiceSpecificExitCode (g_service_status w) = 0"
  shows "case service_end es of
      None \<Rightarrow> service_wait es w = None
    | Some code \<Rightarrow> \<exists>w' rs. service_wait es w = Some w' \<and> reported w' = reported w @ rs \<and>
        svc_dwServiceSpecificExitCode (g_service_status w') = code \<and>
        svc_dwWin32ExitCode (g_service_status w') = svc_dwWin32ExitCode (g_service_status w)"
  using assms
proof (induction es arbitrary: w rule: service_end.induct)
  case (2 c es)
  let ?w = "SetServiceStatus w"
  have "case service_end es of None \<Rightarrow> service_wait es ?w = None
    | Some code \<Rightarrow> \<exists>w' rs. service_wait es ?w = Some w' \<and> reported w' = reported ?w @ rs \<and>
        svc_dwServiceSpecificExitCode (g_service_status w') = code \<and>
        svc_dwWin32ExitCode (g_service_status w') = svc_dwWin32ExitCode (g_service_status ?w)"
    if "c \<noteq> SERVICE_CONTROL_STOP"
    using that "2.prems" by (intro "2.IH") (simp_all add: SetServiceStatus_def)
  with "2.prems" show ?case
    by (auto simp: win32_service_handler_def SetServiceStatus_def Let_def split: option.splits)
qed simp_all

text \<open>
  The service tells the service control manager how it ended: once its handler is registered,
  \<open>win32_service_main\<close> returns exactly when it could not start the agent, the agent's thread ends or a stop is
  requested; the first state it reports is running, the last is stopped, and the exit code is that of the
  failed call, the service-specific error if the thread ended with a code other than 0, and otherwise as before.
\<close>

theorem service_main_reports:
  assumes "\<not> g_stop_event w" and "reported w = []"
    and "svc_dwServiceSpecificExitCode (g_service_status w) = 0" and "svc_dwWin32ExitCode (g_service_status w) = 0"
  shows "case win32_service_main True event thread es w of
      None \<Rightarrow> event = None \<and> thread = None \<and> service_end es = None
    | Some w' \<Rightarrow> (event = None \<and> thread = None \<longrightarrow> service_end es \<noteq> None) \<and>
        svc_dwCurrentState (hd (reported w')) = SERVICE_RUNNING \<and>
        svc_dwCurrentState (last (reported w')) = SERVICE_STOPPED \<and>
        svc_dwWin32ExitCode (last (reported w')) =
          (case event of Some e \<Rightarrow> e | None \<Rightarrow> case thread of Some e \<Rightarrow> e | None \<Rightarrow>
             if service_end es = Some 0 then 0 else ERROR_SERVICE_SPECIFIC_ERROR)"
proof -
  let ?w = "SetServiceStatus (w\<lparr>g_service_status := (g_service_status w)
    \<lparr>svc_dwCurrentState := SERVICE_RUNNING, svc_dwServiceType := 16, svc_dwControlsAccepted := 1\<rparr>\<rparr>)"
  have wait: "case service_end es of None \<Rightarrow> service_wait es ?w = None
    | Some code \<Rightarrow> \<exists>w' rs. service_wait es ?w = Some w' \<and> reported w' = reported ?w @ rs \<and>
        svc_dwServiceSpecificExitCode (g_service_status w') = code \<and>
        svc_dwWin32ExitCode (g_service_status w') = svc_dwWin32ExitCode (g_service_status ?w)"
    using assms by (intro service_wait_end) (simp_all add: SetServiceStatus_def)
  show ?thesis
  proof (cases "event = None \<and> thread = None")
    case True
    with wait assms show ?thesis
      by (auto simp: win32_service_main_def Let_def service_stopped_def SetServiceStatus_def hd_append
          split: option.splits)
  next
    case False
    with assms show ?thesis
      by (auto simp: win32_service_main_def Let_def service_stopped_def SetServiceStatus_def split: option.splits)
  qed
qed

definition example_win_service :: win_service where
  "example_win_service = \<lparr>g_service_status = \<lparr>svc_dwCurrentState = 0, svc_dwServiceType = 0, svc_dwControlsAccepted = 0,
     svc_dwWin32ExitCode = 0, svc_dwServiceSpecificExitCode = 0\<rparr>, g_stop_event = False, reported = []\<rparr>"

theorem service_main_reports_witness:
  "case win32_service_main True None None [Control 4, Thread_end 7] example_win_service of
     None \<Rightarrow> False | Some w' \<Rightarrow> svc_dwWin32ExitCode (last (reported w')) = ERROR_SERVICE_SPECIFIC_ERROR"
  using service_main_reports[of example_win_service None None "[Control 4, Thread_end 7]"]
  by (auto simp: example_win_service_def split: option.splits)

text \<open>
  The service does not create the file it needs: whatever the environment and the file system are, the
  configuration file that \<open>equus_conf_init\<close> reads on Windows is as it was after \<open>win32_thread_proc\<close> created its
  empty file, because that file has another name.
\<close>

theorem thread_proc_misses_config:
  "readable (CreateNew creatable (thread_config_path env) s) (config_path_win32 programfiles) =
     readable s (config_path_win32 programfiles)"
proof -
  have ne: "thread_config_path env \<noteq> config_path_win32 programfiles"
  proof
    assume eq: "thread_config_path env = config_path_win32 programfiles"
    have a: "rev (thread_config_path env) ! 18 = CHR ''k''"
      by (simp add: thread_config_path_def ExpandEnvironmentString_def nth_append)
    have b: "rev (config_path_win32 programfiles) ! 18 = CHR ''t''"
      by (simp add: config_path_win32_def nth_append)
    from a b eq show False by simp
  qed
  then show ?thesis by (auto simp: CreateNew_def)
qed

end
