(* ===== verification/Equus_Exec.thy ===== *)
theory Equus_Exec
  imports Equus_Loader
begin

text \<open>
  Running other programs (\<open>equus_portable.c\<close>): \<open>equus_popen_capture\<close> and the Unix call
  \<open>equus_exec_call_unix_core\<close>, which a Lua check calls with a table of arguments and which returns the
  output of the program, standard output and standard error as they arrive, and its exit code.

  The operating system is a list of what its calls answer: the results of \<open>pipe\<close> and \<open>fork\<close>, one event per
  \<open>select\<close> with what the reads after it return, one event per \<open>waitpid\<close>. A call for which the list has no
  answer blocks forever. The set of open file descriptors is part of the state.
\<close>

section \<open>The operating system\<close>

datatype read_res = Eof | Read_err int | Data string

datatype sel_event = Sel_err int | Sel_ready "read_res option" "read_res option"

datatype wait_event = Wait_err int | Wait_other | Exited int | Killed

record exec_os =
  os_pipe1 :: "int + nat \<times> nat"
  os_pipe2 :: "int + nat \<times> nat"
  os_fork :: "int + nat"
  os_selects :: "sel_event list"
  os_waits :: "wait_event list"

abbreviation EINTR :: int where
  "EINTR \<equiv> 4"

abbreviation EAGAIN :: int where
  "EAGAIN \<equiv> 11"

abbreviation EBADF :: int where
  "EBADF \<equiv> 9"

text \<open>\<open>close\<close> of a descriptor that may be -1: the error it leaves in \<open>errno\<close> and the open descriptors.\<close>

definition close_fd :: "nat option \<Rightarrow> int \<Rightarrow> nat set \<Rightarrow> int \<times> nat set" where
  "close_fd fd err fds =
     (case fd of None \<Rightarrow> (EBADF, fds) | Some f \<Rightarrow> if f \<in> fds then (err, fds - {f}) else (EBADF, fds))"

definition lua_concat_2 :: "lua_State \<Rightarrow> lua_State option" where
  "lua_concat_2 L = do {
     a \<leftarrow> lua_value_at L (-2);
     b \<leftarrow> lua_value_at L (-1);
     (case (a, b) of
        (LString x, LString y) \<Rightarrow> Some (L\<lparr>stk := butlast (butlast (stk L)) @ [LString (x @ y)]\<rparr>)
      | _ \<Rightarrow> None)
   }"

section \<open>The arguments\<close>

text \<open>
  The loop over the table: \<open>lua_next\<close> pushes a key and a value, the value is copied, and the loop ends with
  the table or at the 64th argument, whose key and value then stay on the stack.
\<close>

primrec exec_args ::
  "(real \<Rightarrow> string) \<Rightarrow> nat \<Rightarrow> lua_table \<Rightarrow> addr list \<Rightarrow> lua_State \<Rightarrow> heap \<Rightarrow>
   ((string + addr list) \<times> lua_State \<times> heap) option" where
  "exec_args num_text i [] argv L h = Some (Inr argv, L, h)"
| "exec_args num_text i (kv # t) argv L h =
     (if i < 63 then
        (case snd kv of
           LString v \<Rightarrow> do {
             (a, h) \<leftarrow> strdup v h;
             exec_args num_text (Suc i) t (argv @ [a]) L h
           }
         | LNumber n \<Rightarrow> do {
             (a, h) \<leftarrow> strdup (num_text n) h;
             exec_args num_text (Suc i) t (argv @ [a]) L h
           }
         | _ \<Rightarrow> Some (Inl (''bad argument #'' @ show_int (-1)), lua_push (snd kv) (lua_push (fst kv) L), h))
      else Some (Inr argv, lua_push (snd kv) (lua_push (fst kv) L), h))"

section \<open>Errors\<close>

primrec free_all :: "addr list \<Rightarrow> heap \<Rightarrow> heap option" where
  "free_all [] h = Some h"
| "free_all (a # as) h = do { h \<leftarrow> free a h; free_all as h }"

definition failed_call :: "string \<Rightarrow> int \<Rightarrow> string \<Rightarrow> string" where
  "failed_call function err text = ''Failed to call '' @ function @ '': ('' @ show_int err @ '') '' @ text @ '')''"

definition pluaerror :: "string \<Rightarrow> int \<Rightarrow> addr list \<Rightarrow> equus \<Rightarrow> (lua_result \<times> equus) option" where
  "pluaerror function err argv s = do {
     h \<leftarrow> free_all argv (heap s);
     let s = s\<lparr>heap := h\<rparr>;
     let buf = take 255 (strerror s err);
     s \<leftarrow> logCrit (failed_call function err buf) s;
     Some (Error (failed_call function err buf), s)
   }"

section \<open>The child\<close>

text \<open>What the descriptors of the child name before \<open>execvp\<close>; \<open>t\<close> is the table it inherited.\<close>

definition child_setup :: "nat \<times> nat \<Rightarrow> nat \<times> nat \<Rightarrow> (nat \<rightharpoonup> 'f) \<Rightarrow> (nat \<rightharpoonup> 'f)" where
  "child_setup p1 p2 t =
     (let t = t(0 := None);
          t = t(fst p1 := None);
          t = t(1 := t (snd p1));
          t = t(snd p1 := None);
          t = t(fst p2 := None);
          t = t(2 := t (snd p2));
          t = t(snd p2 := None)
      in t)"

section \<open>The parent\<close>

text \<open>One of the two reads after \<open>select\<close>; an error that is not \<open>EAGAIN\<close> closes this pipe only.\<close>

datatype read_step = Went_on "nat option \<times> nat set \<times> lua_State" | Failed int "nat set"

definition exec_read :: "nat option \<Rightarrow> read_res option \<Rightarrow> nat set \<Rightarrow> lua_State \<Rightarrow> read_step option" where
  "exec_read fd res fds L =
     (case (fd, res) of
        (Some f, Some Eof) \<Rightarrow> Some (Went_on (None, snd (close_fd fd 0 fds), L))
      | (Some f, Some (Read_err err)) \<Rightarrow>
          if err \<noteq> EAGAIN then Some (Failed err (snd (close_fd fd 0 fds))) else Some (Went_on (fd, fds, L))
      | (Some f, Some (Data bs)) \<Rightarrow> do {
          L \<leftarrow> lua_concat_2 (lua_pushlstring bs L);
          Some (Went_on (fd, fds, L))
        }
      | _ \<Rightarrow> Some (Went_on (fd, fds, L)))"

text \<open>The loop around \<open>select\<close>. The result is the state when both pipes are closed, or the error raised.\<close>

fun exec_loop ::
  "sel_event list \<Rightarrow> addr list \<Rightarrow> nat option \<Rightarrow> nat option \<Rightarrow> nat set \<Rightarrow> lua_State \<Rightarrow> equus \<Rightarrow>
   (lua_result option \<times> nat set \<times> lua_State \<times> equus) option" where
  "exec_loop evs argv r1 r2 fds L s =
     (if r1 = None \<and> r2 = None then Some (None, fds, L, s)
      else case evs of
        [] \<Rightarrow> None
      | Sel_err err # evs \<Rightarrow>
          if err \<noteq> EINTR then
            (let (err, fds) = close_fd r2 err fds; (err, fds) = close_fd r1 err fds
             in do { (r, s) \<leftarrow> pluaerror ''select'' err argv s; Some (Some r, fds, L, s) })
          else exec_loop evs argv r1 r2 fds L s
      | Sel_ready a b # evs \<Rightarrow> do {
          x \<leftarrow> exec_read r1 a fds L;
          (case x of
             Failed err fds \<Rightarrow> do {
               (r, s) \<leftarrow> pluaerror ''child read stdout'' err argv s; Some (Some r, fds, L, s) }
           | Went_on (r1, fds, L) \<Rightarrow> do {
               y \<leftarrow> exec_read r2 b fds L;
               (case y of
                  Failed err fds \<Rightarrow> do {
                    (r, s) \<leftarrow> pluaerror ''child read stderr'' err argv s; Some (Some r, fds, L, s) }
                | Went_on (r2, fds, L) \<Rightarrow> exec_loop evs argv r1 r2 fds L s)
             })
        })"

declare exec_loop.simps [simp del]

fun exec_wait :: "wait_event list \<Rightarrow> addr list \<Rightarrow> lua_State \<Rightarrow> equus \<Rightarrow> (lua_result \<times> lua_State \<times> equus) option" where
  "exec_wait [] argv L s = None"
| "exec_wait (Wait_err err # ws) argv L s = do { (r, s) \<leftarrow> pluaerror ''waitpid'' err argv s; Some (r, L, s) }"
| "exec_wait (Wait_other # ws) argv L s = exec_wait ws argv L s"
| "exec_wait (Exited code # ws) argv L s = Some (Results 2, lua_pushinteger code L, s)"
| "exec_wait (Killed # ws) argv L s = Some (Results 2, lua_pushinteger 255 L, s)"

text \<open>The whole call, for the parent.\<close>

definition equus_exec_call_unix_core ::
  "(real \<Rightarrow> string) \<Rightarrow> exec_os \<Rightarrow> nat set \<Rightarrow> lua_State \<Rightarrow> equus \<Rightarrow>
   (lua_result \<times> nat set \<times> lua_State \<times> equus) option" where
  "equus_exec_call_unix_core num_text os fds L s = do {
     v \<leftarrow> lua_value_at L 1;
     (case v of
        LTable t \<Rightarrow> do {
          (args, L, h) \<leftarrow> exec_args num_text 0 (tables L t) [] L (heap s);
          let s = s\<lparr>heap := h\<rparr>;
          (case args of
             Inl err \<Rightarrow> Some (Error err, fds, L, s)
           | Inr argv \<Rightarrow>
               (case os_pipe1 os of
                  Inl err \<Rightarrow> do { (r, s) \<leftarrow> pluaerror ''pipe::stdout'' err argv s; Some (r, fds, L, s) }
                | Inr (r1, w1) \<Rightarrow>
                    let fds = fds \<union> {r1, w1} in
                    (case os_pipe2 os of
                       Inl err \<Rightarrow> do { (r, s) \<leftarrow> pluaerror ''pipe::stderr'' err argv s; Some (r, fds, L, s) }
                     | Inr (r2, w2) \<Rightarrow>
                         let fds = fds \<union> {r2, w2} in
                         (case os_fork os of
                            Inl err \<Rightarrow> do { (r, s) \<leftarrow> pluaerror ''fork'' err argv s; Some (r, fds, L, s) }
                          | Inr pid \<Rightarrow> do {
                              let fds = snd (close_fd (Some w1) 0 fds);
                              let fds = snd (close_fd (Some w2) 0 fds);
                              let L = lua_pushlstring [] L;
                              (r, fds, L, s) \<leftarrow> exec_loop (os_selects os) argv (Some r1) (Some r2) fds L s;
                              (case r of
                                 Some e \<Rightarrow> Some (e, fds, L, s)
                               | None \<Rightarrow> do {
                                   (r, L, s) \<leftarrow> exec_wait (os_waits os) argv L s;
                                   Some (r, fds, L, s)
                                 })
                            }))))
        }
      | _ \<Rightarrow> Some (Error ''bad argument #1'', fds, L, s))
   }"

section \<open>\<open>equus_popen_capture\<close>\<close>

text \<open>
  The pipe holds the output of the command, \<^term>\<open>None\<close> where \<open>popen\<close> fails; \<open>status\<close> is what \<open>pclose\<close>
  returns. A line with a NUL is cut there, because \<open>strlen\<close> gives its length.
\<close>

function popen_read :: "string \<Rightarrow> lua_State \<Rightarrow> lua_State option" where
  "popen_read pipe L =
     (case fgets 4096 pipe of
        None \<Rightarrow> Some L
      | Some (l, pipe) \<Rightarrow> do {
          L \<leftarrow> lua_concat_2 (lua_pushlstring (take (strlen (l @ [NUL])) (l @ [NUL])) L);
          popen_read pipe L
        })"
  by pat_completeness auto
termination
  by (relation "measure (\<lambda>(pipe, L). length pipe)") (auto dest: fgets_shorter[rotated])

declare popen_read.simps [simp del]

definition equus_popen_capture ::
  "(real \<Rightarrow> string) \<Rightarrow> (string \<Rightarrow> string option) \<Rightarrow> int \<Rightarrow> lua_State \<Rightarrow> (lua_result \<times> lua_State) option" where
  "equus_popen_capture num_text popen status L = do {
     (arg, L) \<leftarrow> luaL_checklstring num_text 1 L;
     (case arg of
        Inl err \<Rightarrow> Some (Error err, L)
      | Inr cmd \<Rightarrow>
          (case popen (cstr cmd) of
             None \<Rightarrow> Some (Error ''error calling popen'', L)
           | Some pipe \<Rightarrow> do {
               L \<leftarrow> popen_read pipe (lua_pushlstring [] L);
               if status = -1 then Some (Error ''error closing pipe'', L)
               else Some (Results 2, lua_pushinteger status L)
             }))
   }"

section \<open>Copying the arguments\<close>

text \<open>The memory with the copies of some strings at its end.\<close>

definition copies :: "string list \<Rightarrow> heap \<Rightarrow> heap" where
  "copies vs h = h\<lparr>cells := (\<lambda>a. if brk h \<le> a \<and> a < brk h + length vs
       then Some (Chars (cstr (vs ! (a - brk h)) @ [NUL])) else cells h a), brk := brk h + length vs\<rparr>"

lemma copies_Nil [simp]: "copies [] h = h"
  by (cases h) (auto simp: copies_def fun_eq_iff)

lemma copies_Cons:
  "copies vs (h\<lparr>cells := (cells h)(brk h \<mapsto> Chars (cstr v @ [NUL])), brk := Suc (brk h)\<rparr>) = copies (v # vs) h"
proof -
  have "(if Suc (brk h) \<le> a \<and> a < Suc (brk h) + length vs
      then Some (Chars (cstr (vs ! (a - Suc (brk h))) @ [NUL]))
      else ((cells h)(brk h \<mapsto> Chars (cstr v @ [NUL]))) a) =
    (if brk h \<le> a \<and> a < brk h + length (v # vs)
      then Some (Chars (cstr ((v # vs) ! (a - brk h)) @ [NUL])) else cells h a)" for a
    by (cases "a = brk h") (auto simp: nth_Cons' Suc_le_eq)
  then show ?thesis by (simp add: copies_def fun_eq_iff)
qed

lemma exec_args_eq:
  assumes "i \<le> 63" and "\<forall>kv \<in> set t. \<exists>v. snd kv = LString v"
  shows "exec_args num_text i t argv L h =
    (let vs = map (\<lambda>kv. (case snd kv of LString v \<Rightarrow> v)) (take (63 - i) t)
     in Some (Inr (argv @ [brk h..<brk h + length vs]),
          (if i + length t \<le> 63 then L else lua_push (snd (t ! (63 - i))) (lua_push (fst (t ! (63 - i))) L)),
          copies vs h))"
  using assms
proof (induction t arbitrary: i argv h)
  case (Cons kv t)
  from Cons.prems(2) obtain v where v: "snd kv = LString v" by auto
  show ?case
  proof (cases "i < 63")
    case True
    then obtain j where j: "63 - i = Suc j" "63 - Suc i = j" by (metis Suc_diff_Suc)
    let ?h = "h\<lparr>cells := (cells h)(brk h \<mapsto> Chars (cstr v @ [NUL])), brk := Suc (brk h)\<rparr>"
    let ?vs = "map (\<lambda>kv. (case snd kv of LString v \<Rightarrow> v)) (take j t)"
    have "exec_args num_text i (kv # t) argv L h = exec_args num_text (Suc i) t (argv @ [brk h]) L ?h"
      using True v by (simp add: strdup_def new_eq)
    also have "\<dots> = Some (Inr ((argv @ [brk h]) @ [Suc (brk h)..<Suc (brk h) + length ?vs]),
        (if Suc i + length t \<le> 63 then L else lua_push (snd (t ! j)) (lua_push (fst (t ! j)) L)), copies (v # ?vs) h)"
      using Cons.IH[of "Suc i" "argv @ [brk h]" ?h] True Cons.prems j(2) by (simp add: Let_def copies_Cons)
    finally have run: "exec_args num_text i (kv # t) argv L h = \<dots>" .
    have seq: "[brk h..<brk h + length (v # ?vs)] = brk h # [Suc (brk h)..<Suc (brk h) + length ?vs]"
      by (subst upt_conv_Cons) simp_all
    have tk: "map (\<lambda>kv. (case snd kv of LString v \<Rightarrow> v)) (take (63 - i) (kv # t)) = v # ?vs"
      using v j(1) by simp
    show ?thesis
      unfolding tk Let_def seq run using j(1) by simp
  next
    case False
    with Cons.prems(1) show ?thesis by (simp add: Let_def)
  qed
qed simp

section \<open>A run without errors\<close>

text \<open>
  The events of a child that writes and ends: reads succeed or report \<open>EAGAIN\<close>, calls are interrupted at
  most by signals, and each pipe reports the end of its data once, as its last event.
\<close>

definition read_ok :: "read_res option \<Rightarrow> bool" where
  "read_ok r \<longleftrightarrow> (\<forall>e. r = Some (Read_err e) \<longrightarrow> e = EAGAIN)"

fun clean_run :: "bool \<Rightarrow> bool \<Rightarrow> sel_event list \<Rightarrow> bool" where
  "clean_run o1 o2 [] \<longleftrightarrow> \<not> o1 \<and> \<not> o2"
| "clean_run o1 o2 (Sel_err e # evs) \<longleftrightarrow> e = EINTR \<and> (o1 \<or> o2) \<and> clean_run o1 o2 evs"
| "clean_run o1 o2 (Sel_ready a b # evs) \<longleftrightarrow> (o1 \<or> o2) \<and> (o1 \<or> a = None) \<and> (o2 \<or> b = None) \<and>
     read_ok a \<and> read_ok b \<and> clean_run (o1 \<and> a \<noteq> Some Eof) (o2 \<and> b \<noteq> Some Eof) evs"

definition read_data :: "read_res option \<Rightarrow> string" where
  "read_data r = (case r of Some (Data bs) \<Rightarrow> bs | _ \<Rightarrow> [])"

fun run_output :: "sel_event list \<Rightarrow> string" where
  "run_output [] = []"
| "run_output (Sel_err e # evs) = run_output evs"
| "run_output (Sel_ready a b # evs) = read_data a @ read_data b @ run_output evs"

lemma lua_concat_push [simp]:
  "lua_concat_2 (lua_pushlstring y (L\<lparr>stk := xs @ [LString x]\<rparr>)) = Some (L\<lparr>stk := xs @ [LString (x @ y)]\<rparr>)"
  by (simp add: lua_concat_2_def push_defs butlast_append)

lemma exec_read_clean:
  assumes "read_ok r" and "fd \<noteq> None \<or> r = None" and "\<forall>f. fd = Some f \<longrightarrow> f \<in> fds"
  shows "exec_read fd r fds (L\<lparr>stk := xs @ [LString out]\<rparr>) = Some (Went_on
    (if r = Some Eof then None else fd, fds - (if r = Some Eof then set_option fd else {}),
     L\<lparr>stk := xs @ [LString (out @ read_data r)]\<rparr>))"
  using assms
  by (cases fd; cases r; cases "the r")
    (auto simp: exec_read_def read_ok_def read_data_def close_fd_def)

lemma exec_loop_clean:
  assumes "clean_run (r1 \<noteq> None) (r2 \<noteq> None) evs" and "\<forall>f. r1 = Some f \<longrightarrow> f \<in> fds" and "\<forall>f. r2 = Some f \<longrightarrow> f \<in> fds"
    and "\<forall>f. r1 = Some f \<longrightarrow> r2 \<noteq> Some f"
  shows "exec_loop evs argv r1 r2 fds (L\<lparr>stk := xs @ [LString out]\<rparr>) s =
    Some (None, fds - set_option r1 - set_option r2, L\<lparr>stk := xs @ [LString (out @ run_output evs)]\<rparr>, s)"
  using assms
proof (induction evs arbitrary: r1 r2 fds out)
  case Nil
  then show ?case by (simp add: exec_loop.simps)
next
  case (Cons e evs)
  show ?case
  proof (cases e)
    case (Sel_err err)
    with Cons show ?thesis by (subst exec_loop.simps) auto
  next
    case (Sel_ready a b)
    let ?r1 = "if a = Some Eof then None else r1" and ?r2 = "if b = Some Eof then None else r2"
    let ?f1 = "fds - (if a = Some Eof then set_option r1 else {})"
    let ?f2 = "?f1 - (if b = Some Eof then set_option r2 else {})"
    from Cons.prems(1) Sel_ready have c: "r1 \<noteq> None \<or> r2 \<noteq> None" "read_ok a" "read_ok b"
      "r1 \<noteq> None \<or> a = None" "r2 \<noteq> None \<or> b = None"
      "clean_run (r1 \<noteq> None \<and> a \<noteq> Some Eof) (r2 \<noteq> None \<and> b \<noteq> Some Eof) evs" by auto
    have x: "exec_read r1 a fds (L\<lparr>stk := xs @ [LString out]\<rparr>) =
        Some (Went_on (?r1, ?f1, L\<lparr>stk := xs @ [LString (out @ read_data a)]\<rparr>))"
      by (rule exec_read_clean[OF c(2,4) Cons.prems(2)])
    have y: "exec_read r2 b ?f1 (L\<lparr>stk := xs @ [LString (out @ read_data a)]\<rparr>) =
        Some (Went_on (?r2, ?f2, L\<lparr>stk := xs @ [LString ((out @ read_data a) @ read_data b)]\<rparr>))"
      using Cons.prems(3,4) by (intro exec_read_clean c(3,5)) auto
    have nn: "(r1 = None \<and> r2 = None) = False" using c(1) by auto
    have "exec_loop (e # evs) argv r1 r2 fds (L\<lparr>stk := xs @ [LString out]\<rparr>) s =
        exec_loop evs argv ?r1 ?r2 ?f2 (L\<lparr>stk := xs @ [LString ((out @ read_data a) @ read_data b)]\<rparr>) s"
      unfolding exec_loop.simps[of "e # evs"] nn if_False using Sel_ready x y by simp
    also have "\<dots> = Some (None, ?f2 - set_option ?r1 - set_option ?r2,
        L\<lparr>stk := xs @ [LString (((out @ read_data a) @ read_data b) @ run_output evs)]\<rparr>, s)"
    proof (rule Cons.IH)
      show "clean_run (?r1 \<noteq> None) (?r2 \<noteq> None) evs"
        using c(6) by (auto split: if_splits)
    qed (use Cons.prems(2-4) in \<open>auto split: if_splits\<close>)
    also have "?f2 - set_option ?r1 - set_option ?r2 = fds - set_option r1 - set_option r2" by auto
    finally show ?thesis using Sel_ready by simp
  qed
qed

text \<open>The exit code: the status of an exit, 255 for a signal; other children are waited for in between.\<close>

lemma exec_wait_skip:
  "exec_wait (replicate n Wait_other @ Exited code # ws) argv L s = Some (Results 2, lua_pushinteger code L, s)"
  "exec_wait (replicate n Wait_other @ Killed # ws) argv L s = Some (Results 2, lua_pushinteger 255 L, s)"
  by (induction n) simp_all

text \<open>Releasing the copies of the arguments, as every error does.\<close>

lemma free_all_copies:
  assumes "heap_wf h"
  shows "\<exists>h'. free_all [brk h..<brk h + length vs] (copies vs h) = Some h' \<and> cells h' = cells h"
proof -
  have step: "free_all [brk h + k..<brk h + length vs]
      ((copies vs h)\<lparr>cells := (\<lambda>a. if brk h \<le> a \<and> a < brk h + k then None else cells (copies vs h) a)\<rparr>) =
      Some ((copies vs h)\<lparr>cells := (\<lambda>a. if brk h \<le> a \<and> a < brk h + length vs then None else cells (copies vs h) a)\<rparr>)"
    if "k \<le> length vs" for k
    using that
  proof (induction "length vs - k" arbitrary: k)
    case 0
    then show ?case by simp
  next
    case (Suc n)
    let ?c = "\<lambda>k. (copies vs h)\<lparr>cells := (\<lambda>a. if brk h \<le> a \<and> a < brk h + k then None else cells (copies vs h) a)\<rparr>"
    have "free (brk h + k) (?c k) = Some (?c (Suc k))"
      using Suc.hyps(2) heap_wf_brk[OF assms] by (auto simp: free_def copies_def fun_eq_iff)
    moreover have "[brk h + k..<brk h + length vs] = (brk h + k) # [brk h + Suc k..<brk h + length vs]"
      using Suc.hyps(2) by (subst upt_conv_Cons) simp_all
    ultimately show ?case using Suc.hyps(1)[of "Suc k"] Suc.hyps(2) Suc.prems by simp
  qed
  have e: "(\<lambda>a. if brk h \<le> a \<and> a < brk h + 0 then None else cells (copies vs h) a) = cells (copies vs h)"
    by (auto simp: fun_eq_iff)
  have c: "(\<lambda>a. if brk h \<le> a \<and> a < brk h + length vs then None else cells (copies vs h) a) = cells h"
    using heap_wf_ge[OF assms] by (auto simp: fun_eq_iff copies_def)
  show ?thesis using step[of 0] by (simp only: e c) simp
qed

lemma popen_read_eq:
  "is_cstr pipe \<Longrightarrow> popen_read pipe (L\<lparr>stk := xs @ [LString out]\<rparr>) = Some (L\<lparr>stk := xs @ [LString (out @ pipe)]\<rparr>)"
proof (induction pipe arbitrary: out rule: length_induct)
  case (1 pipe)
  show ?case
  proof (cases "fgets 4096 pipe")
    case None
    then have "pipe = []" by (simp add: fgets_def split: if_splits)
    then show ?thesis by (simp add: popen_read.simps fgets_def)
  next
    case (Some lr)
    obtain l r where f: "fgets 4096 pipe = Some (l, r)" using Some by (cases lr) auto
    then have split: "pipe = l @ r" by (auto simp: fgets_def dest!: fgets_take_append split: if_splits)
    have "length r < length pipe" using fgets_shorter[OF _ f] by simp
    moreover have c: "is_cstr l" "is_cstr r" using 1(2) split by simp_all
    ultimately have "popen_read r (L\<lparr>stk := xs @ [LString (out @ l)]\<rparr>) =
        Some (L\<lparr>stk := xs @ [LString ((out @ l) @ r)]\<rparr>)" using 1(1) by blast
    moreover have "take (strlen (l @ [NUL])) (l @ [NUL]) = l" using c(1) by (simp add: strlen_def)
    ultimately show ?thesis using f split by (subst popen_read.simps) simp
  qed
qed

section \<open>Properties\<close>

text \<open>
  (C37) A command that is started and run to its end: for at most 63 arguments, a child that writes any data in any order and
  ends with some exit code, the call returns the output of both streams in the order in which it was read
  and the exit code, and every descriptor it opened is closed again. The copies of the arguments stay
  allocated.
\<close>

theorem exec_returns_output:
  assumes "stk L = [LTable t]" and "\<forall>kv \<in> set (tables L t). \<exists>v. snd kv = LString v" and "length (tables L t) \<le> 63"
    and "os_pipe1 os = Inr (r1, w1)" and "os_pipe2 os = Inr (r2, w2)" and "distinct [r1, w1, r2, w2]"
    and "{r1, w1, r2, w2} \<inter> fds = {}" and "os_fork os = Inr pid" and "clean_run True True (os_selects os)"
    and "os_waits os = replicate n Wait_other @ Exited code # ws"
  shows "equus_exec_call_unix_core num_text os fds L s =
    Some (Results 2, fds, L\<lparr>stk := [LTable t, LString (run_output (os_selects os)), LNumber (of_int code)]\<rparr>,
      s\<lparr>heap := copies (map (\<lambda>kv. (case snd kv of LString v \<Rightarrow> v)) (tables L t)) (heap s)\<rparr>)"
proof -
  let ?vs = "map (\<lambda>kv. (case snd kv of LString v \<Rightarrow> v)) (tables L t)"
  let ?argv = "[brk (heap s)..<brk (heap s) + length ?vs]"
  have args: "exec_args num_text 0 (tables L t) [] L (heap s) = Some (Inr ?argv, L, copies ?vs (heap s))"
    using exec_args_eq[of 0 "tables L t" num_text "[]" L "heap s"] assms(2,3) by (simp add: Let_def)
  have v: "lua_value_at L 1 = Some (LTable t)"
    using assms(1) by (simp add: lua_value_at_def index2adr_def place_value_def)
  have push: "lua_pushlstring [] L = L\<lparr>stk := [LTable t] @ [LString []]\<rparr>" using assms(1) by (simp add: push_defs)
  have fds: "snd (close_fd (Some w2) 0 (snd (close_fd (Some w1) 0 (fds \<union> {r1, w1} \<union> {r2, w2})))) = fds \<union> {r1, r2}"
    using assms(6,7) by (auto simp: close_fd_def)
  have loop: "exec_loop (os_selects os) ?argv (Some r1) (Some r2) (fds \<union> {r1, r2}) (L\<lparr>stk := [LTable t] @ [LString []]\<rparr>)
      (s\<lparr>heap := copies ?vs (heap s)\<rparr>) =
      Some (None, fds, L\<lparr>stk := [LTable t] @ [LString (run_output (os_selects os))]\<rparr>, s\<lparr>heap := copies ?vs (heap s)\<rparr>)"
  proof -
    have "fds \<union> {r1, r2} - set_option (Some r1) - set_option (Some r2) = fds" using assms(7) by auto
    then show ?thesis
      using exec_loop_clean[of "Some r1" "Some r2" "os_selects os" "fds \<union> {r1, r2}" ?argv "[LTable t]" "[]" L]
        assms(6,9) by simp
  qed
  show ?thesis
    using v args push fds loop assms(4,5,8,10)
    by (simp add: equus_exec_call_unix_core_def exec_wait_skip Let_def lua_pushinteger_def lua_push_def
        del: upt_Suc)
qed

definition example_os :: exec_os where
  "example_os = \<lparr>os_pipe1 = Inr (5, 6), os_pipe2 = Inr (7, 8), os_fork = Inr 100,
     os_selects = [Sel_ready (Some (Data ''out'')) None, Sel_err EINTR, Sel_ready (Some (Read_err EAGAIN)) (Some (Data ''err'')),
       Sel_ready (Some Eof) (Some Eof)], os_waits = [Wait_other, Exited 3]\<rparr>"

theorem exec_returns_output_witness:
  "equus_exec_call_unix_core (\<lambda>_. []) example_os {0, 1, 2}
     (call_frame [LTable 9]) start =
   Some (Results 2, {0, 1, 2}, call_frame [LTable 9, LString ''outerr'', LNumber 3], start)"
  using exec_returns_output[of "call_frame [LTable 9]" 9 example_os 5 6 7 8 "{0, 1, 2}" 100 1 3 "[]" "\<lambda>_. []" start]
  by (simp add: example_os_def read_ok_def read_data_def call_frame_def luaL_newstate_def)

text \<open>
  A failed \<open>fork\<close> releases the arguments and not the pipes: the call raises an error, the memory is as
  before it, and the four descriptors of the two pipes stay open.
\<close>

theorem exec_fork_failure:
  assumes "stk L = [LTable t]" and "\<forall>kv \<in> set (tables L t). \<exists>v. snd kv = LString v" and "length (tables L t) \<le> 63"
    and "os_pipe1 os = Inr (r1, w1)" and "os_pipe2 os = Inr (r2, w2)" and "os_fork os = Inl err" and "log_wf s"
  shows "\<exists>msg s'. equus_exec_call_unix_core num_text os fds L s =
    Some (Error msg, fds \<union> {r1, w1, r2, w2}, L, s') \<and> cells (heap s') = cells (heap s)"
proof -
  let ?vs = "map (\<lambda>kv. (case snd kv of LString v \<Rightarrow> v)) (tables L t)"
  let ?argv = "[brk (heap s)..<brk (heap s) + length ?vs]"
  have args: "exec_args num_text 0 (tables L t) [] L (heap s) = Some (Inr ?argv, L, copies ?vs (heap s))"
    using exec_args_eq[of 0 "tables L t" num_text "[]" L "heap s"] assms(2,3) by (simp add: Let_def)
  have v: "lua_value_at L 1 = Some (LTable t)"
    using assms(1) by (simp add: lua_value_at_def index2adr_def place_value_def)
  from free_all_copies[OF log_wf_heapD[OF assms(7)], of ?vs] obtain h where
    h: "free_all ?argv (copies ?vs (heap s)) = Some h" "cells h = cells (heap s)" by blast
  have ok: "log_ok (s\<lparr>heap := h\<rparr>)"
    using log_wf_ok[OF assms(7)] by (auto simp: log_ok_def clock_ok_def stream_open_def split: option.splits stream.splits)
  let ?m = "failed_call ''fork'' err (take 255 (strerror s err))"
  have "pluaerror ''fork'' err ?argv (s\<lparr>heap := copies ?vs (heap s)\<rparr>) =
      Some (Error ?m, log_spec EQUUS_LOG_CRITICAL ?m (s\<lparr>heap := h\<rparr>))"
    using h(1) ok by (simp add: pluaerror_def Let_def del: upt_Suc)
  then have "equus_exec_call_unix_core num_text os fds L s =
      Some (Error ?m, fds \<union> {r1, w1, r2, w2}, L, log_spec EQUUS_LOG_CRITICAL ?m (s\<lparr>heap := h\<rparr>))"
    using v args assms(4-6) by (simp add: equus_exec_call_unix_core_def Let_def insert_commute del: upt_Suc)
  then show ?thesis using h(2) by auto
qed

theorem exec_fork_failure_witness:
  "\<exists>msg s'. equus_exec_call_unix_core (\<lambda>_. []) (example_os\<lparr>os_fork := Inl 11\<rparr>) {0, 1, 2} (call_frame [LTable 9]) start =
     Some (Error msg, {0, 1, 2, 5, 6, 7, 8}, call_frame [LTable 9], s')"
  using exec_fork_failure[of "call_frame [LTable 9]" 9 "example_os\<lparr>os_fork := Inl 11\<rparr>" 5 6 7 8 11 start "\<lambda>_. []" "{0, 1, 2}"]
  by (auto simp: example_os_def call_frame_def luaL_newstate_def insert_commute)

text \<open>
  The child has the right descriptors: standard output and standard error are the write ends of the two
  pipes, standard input and all four ends of the pipes are closed, and no other descriptor is touched.
\<close>

lemma child_setup_correct:
  assumes "distinct [0, 1, 2, r1, w1, r2, w2]"
  shows "child_setup (r1, w1) (r2, w2) t 1 = t w1 \<and> child_setup (r1, w1) (r2, w2) t 2 = t w2 \<and>
    (\<forall>fd \<in> {0, r1, w1, r2, w2}. child_setup (r1, w1) (r2, w2) t fd = None) \<and>
    (\<forall>fd. fd \<notin> {0, 1, 2, r1, w1, r2, w2} \<longrightarrow> child_setup (r1, w1) (r2, w2) t fd = t fd)"
  using assms by (auto simp: child_setup_def Let_def)

lemma child_setup_correct_witness:
  "child_setup (5, 6) (7, 8) (\<lambda>fd. Some fd) 1 = Some 6 \<and> child_setup (5, 6) (7, 8) (\<lambda>fd. Some fd) 2 = Some (8 :: nat)"
  using child_setup_correct[of 5 6 7 8 "\<lambda>fd. Some fd"] by simp

text \<open>
  \<open>equus_popen_capture\<close> returns all of the output: for output without NUL bytes the string it returns is
  the output, however long its lines are, with the status of \<open>pclose\<close>, and a status of -1 is an error.
\<close>

theorem popen_capture_returns_output:
  assumes "popen (cstr cmd) = Some out" and "is_cstr out"
  shows "equus_popen_capture num_text popen status (call_frame [LString cmd]) =
    (if status = -1 then Some (Error ''error closing pipe'', call_frame [LString cmd, LString out])
     else Some (Results 2, call_frame [LString cmd, LString out, LNumber (of_int status)]))"
  using assms popen_read_eq[OF assms(2), where L = luaL_newstate and xs = "[LString cmd]" and out = "[]"]
  by (simp add: equus_popen_capture_def lua_pushlstring_def lua_pushinteger_def)
    (simp add: call_frame_def lua_push_def)

theorem popen_capture_returns_output_witness:
  "equus_popen_capture (\<lambda>_. []) (\<lambda>_. Some ''a b'') 0 (call_frame [LString ''ls'']) =
     Some (Results 2, call_frame [LString ''ls'', LString ''a b'', LNumber 0])"
  using popen_capture_returns_output[of "\<lambda>_. Some ''a b''" "''ls''" "''a b''" "\<lambda>_. []" 0] by simp

end
