(* ===== verification/Equus_Win32.thy ===== *)
theory Equus_Win32
  imports Equus_Exec Equus_Service
begin

text \<open>
  The parts of \<open>equus_portable.c\<close> and \<open>equus_util.c\<close> that exist for one platform or tell the platforms
  apart: running a program on Windows, the pipe made of two sockets, the memory probes, \<open>asprintf\<close> where
  the C library has none, and the platform predicates. What Windows answers to each call is an argument.
\<close>

section \<open>\<open>equus_vasprintf\<close>\<close>

text \<open>
  \<open>rendered\<close> is the text that \<open>vsnprintf\<close> produces, \<^term>\<open>None\<close> if it fails with -1. The length is kept in a
  \<open>size_t\<close>, in which the test for a negative number is always false; \<open>malloc\<close> of 0 bytes gives a block of
  which nothing may be used, and \<open>vsnprintf\<close> with size 0 writes nothing.
\<close>

definition equus_vasprintf :: "string option \<Rightarrow> heap \<Rightarrow> (int \<times> addr \<times> heap) option" where
  "equus_vasprintf rendered h = do {
     let sz = ((case rendered of Some t \<Rightarrow> of_nat (length t) | None \<Rightarrow> - 1) :: 64 word);
     if sz < 0 then Some (sint sz, NULL, h)
     else do {
       (a, h) \<leftarrow> new (Chars (replicate (unat (sz + 1)) NUL)) h;
       (case rendered of
          None \<Rightarrow> Some (-1, a, h)
        | Some t \<Rightarrow> do {
            h \<leftarrow> store a (Chars (take (unat (sz + 1)) (t @ [NUL]))) h;
            Some (int (length t), a, h)
          })
     }
   }"

definition equus_asprintf :: "string option \<Rightarrow> heap \<Rightarrow> (int \<times> addr \<times> heap) option" where
  "equus_asprintf rendered h = equus_vasprintf rendered h"

section \<open>Running a program on Windows\<close>

text \<open>
  \<open>format_err\<close>: the message of the system in the buffer, every character outside ASCII replaced. If
  \<open>FormatMessage\<close> has no message, which is \<^term>\<open>None\<close>, the buffer keeps what was in it.
\<close>

definition format_err :: "string option \<Rightarrow> string \<Rightarrow> string option" where
  "format_err message buf = do {
     let len = (case message of Some t \<Rightarrow> length t | None \<Rightarrow> 0);
     buf \<leftarrow> (case message of Some t \<Rightarrow> memcpy buf 0 (t @ [NUL]) | None \<Rightarrow> Some buf);
     if len < length buf then
       Some (map (\<lambda>c. if (of_char c :: nat) < 128 then c else CHR ''?'') (take (Suc len) buf) @ drop (Suc len) buf)
     else None
   }"

text \<open>
  \<open>luaL_error\<close> with a format and no arguments: a directive for an argument reads one that is not there, any
  other directive is copied.
\<close>

fun format_no_args :: "string \<Rightarrow> string option" where
  "format_no_args (CHR 0x25 # c # cs) =
     (if c \<in> set ''scdfp'' then None
      else if c = CHR 0x25 then map_option ((#) (CHR 0x25)) (format_no_args cs)
      else map_option (\<lambda>r. CHR 0x25 # c # r) (format_no_args cs))"
| "format_no_args (c # cs) = map_option ((#) c) (format_no_args cs)"
| "format_no_args [] = Some []"

record win_exec =
  we_memory :: bool
  we_pipe :: "(nat \<times> nat) option"
  we_inherit :: bool
  we_duplicate :: "nat option"
  we_process :: "(DWORD \<times> string option) + nat \<times> nat"
  we_reads :: "string list"
  we_exit :: DWORD
  we_garbage :: string

text \<open>\<open>CloseHandle\<close> of a null handle fails and does nothing.\<close>

definition CloseHandle :: "nat option \<Rightarrow> nat set \<Rightarrow> nat set" where
  "CloseHandle h hs = (case h of None \<Rightarrow> hs | Some x \<Rightarrow> hs - {x})"

text \<open>
  The message for a failed \<open>CreateProcess\<close>, in a buffer of 128 characters. \<open>sprintf_s\<close> ends the process if the
  text does not fit.
\<close>

definition process_error :: "DWORD \<Rightarrow> string option \<Rightarrow> string \<Rightarrow> string finish option" where
  "process_error nErr message garbage = do {
     fmtbuf \<leftarrow> format_err message (take 128 garbage);
     let text = ''CreateProcess: ('' @ show_dword nErr @ '') '' @ cstr fmtbuf;
     if NUL \<notin> set fmtbuf then None
     else if length text < 128 then Some (Returned text) else Some Aborted
   }"

fun read_loop :: "string list \<Rightarrow> lua_State \<Rightarrow> lua_State option" where
  "read_loop [] L = Some L"
| "read_loop (b # bs) L =
     (if b = [] then Some L
      else do { L \<leftarrow> lua_concat_2 (lua_pushlstring (cstr (take 1023 b @ [NUL])) L); read_loop bs L })"

text \<open>
  The handles of the call: read end, write end, its duplicate, process and thread, each absent until it is
  opened. The label \<open>cleanup\<close> closes what is there, frees the command and raises the error, if any.
\<close>

definition cleanup ::
  "nat option list \<Rightarrow> addr \<Rightarrow> string option \<Rightarrow> nat set \<Rightarrow> lua_State \<Rightarrow> heap \<Rightarrow> (lua_result \<times> nat set \<times> lua_State \<times> heap) option" where
  "cleanup handles cmd err hs L h = do {
     let hs = fold CloseHandle handles hs;
     h \<leftarrow> free cmd h;
     (case err of
        None \<Rightarrow> Some (Results 2, hs, L, h)
      | Some e \<Rightarrow> do { msg \<leftarrow> format_no_args e; Some (Error msg, hs, L, h) })
   }"

definition equus_exec_call_win32_core ::
  "(real \<Rightarrow> string) \<Rightarrow> win_exec \<Rightarrow> nat set \<Rightarrow> lua_State \<Rightarrow> heap \<Rightarrow>
   (lua_result \<times> nat set \<times> lua_State \<times> heap) finish option" where
  "equus_exec_call_win32_core num_text w hs L h = do {
     (arg, L) \<leftarrow> luaL_checklstring num_text 1 L;
     (case arg of
        Inl err \<Rightarrow> Some (Returned (Error err, hs, L, h))
      | Inr cmd_arg \<Rightarrow>
          if \<not> we_memory w then map_option Returned (cleanup [] NULL (Some ''out of memory'') hs L h)
          else do {
            (cmd, h) \<leftarrow> strdup cmd_arg h;
            (case we_pipe w of
               None \<Rightarrow> map_option Returned (cleanup [None, None, None, None, None] cmd (Some ''CreatePipe'') hs L h)
             | Some (hRead, hWrite) \<Rightarrow>
                 let hs = hs \<union> {hRead, hWrite} in
                 if \<not> we_inherit w then
                   map_option Returned (cleanup [None, None, Some hWrite, None, Some hRead] cmd (Some ''SetHandleInformation'') hs L h)
                 else (case we_duplicate w of
                   None \<Rightarrow> map_option Returned
                     (cleanup [None, None, Some hWrite, None, Some hRead] cmd (Some ''DuplicateHandle'') hs L h)
                 | Some hErr \<Rightarrow>
                     let hs = insert hErr hs in
                     (case we_process w of
                        Inl (nErr, message) \<Rightarrow> do {
                          e \<leftarrow> process_error nErr message (we_garbage w);
                          (case e of
                             Aborted \<Rightarrow> Some Aborted
                           | Returned text \<Rightarrow> map_option Returned
                               (cleanup [None, None, Some hWrite, Some hErr, Some hRead] cmd (Some text) hs L h))
                        }
                      | Inr (hProcess, hThread) \<Rightarrow> do {
                          let hs = hs \<union> {hProcess, hThread};
                          let hs = CloseHandle (Some hErr) (CloseHandle (Some hWrite) hs);
                          L \<leftarrow> read_loop (we_reads w) (lua_pushlstring [] L);
                          let L = lua_pushinteger (uint (we_exit w)) L;
                          map_option Returned
                            (cleanup [Some hProcess, Some hThread, None, None, Some hRead] cmd None hs L h)
                        })))
          })
   }"

section \<open>The pipe made of sockets\<close>

text \<open>
  \<open>pipe_win32\<close>. \<open>accept\<close> is tested with \<^verbatim>\<open>< 0\<close>, which an unsigned \<open>SOCKET\<close> never is, so that a failure shows
  in the next call on the socket. The answers: the three sockets, the calls that fail, and the two
  addresses (with their sizes) that have to agree.
\<close>

record pipe_net =
  pn_listener :: "nat option"
  pn_bind :: bool
  pn_name :: bool
  pn_listen :: bool
  pn_first :: "nat option"
  pn_connect :: bool
  pn_accept :: "nat option"
  pn_peer :: "(nat \<times> 32 word \<times> 16 word) option"
  pn_own :: "(nat \<times> 32 word \<times> 16 word) option"

definition opened :: "nat option \<Rightarrow> nat set \<Rightarrow> nat set" where
  "opened x ss = (case x of None \<Rightarrow> ss | Some s \<Rightarrow> insert s ss)"

definition closesocket :: "nat \<Rightarrow> nat set \<Rightarrow> nat set option" where
  "closesocket s ss = (if s \<in> ss then Some (ss - {s}) else None)"

definition pipe_fail :: "nat \<Rightarrow> nat option \<Rightarrow> nat option \<Rightarrow> nat set \<Rightarrow> (int \<times> (nat \<times> nat) option \<times> nat set) option" where
  "pipe_fail listener s0 s1 ss = do {
     ss \<leftarrow> closesocket listener ss;
     ss \<leftarrow> (case s0 of None \<Rightarrow> Some ss | Some s \<Rightarrow> closesocket s ss);
     ss \<leftarrow> (case s1 of None \<Rightarrow> Some ss | Some s \<Rightarrow> closesocket s ss);
     Some (-1, None, ss)
   }"

definition pipe_win32 :: "pipe_net \<Rightarrow> nat set \<Rightarrow> (int \<times> (nat \<times> nat) option \<times> nat set) option" where
  "pipe_win32 n ss =
     (case pn_listener n of
        None \<Rightarrow> Some (-1, None, ss)
      | Some l \<Rightarrow>
          let ss = insert l ss in
          if \<not> pn_bind n then pipe_fail l None None ss
          else if \<not> pn_name n then pipe_fail l None None ss
          else if \<not> pn_listen n then pipe_fail l None None ss
          else (case pn_first n of
            None \<Rightarrow> pipe_fail l None None ss
          | Some s0 \<Rightarrow>
              let ss = insert s0 ss in
              if \<not> pn_connect n then pipe_fail l (Some s0) None ss
              else
                let s1 = pn_accept n; ss = opened s1 ss in
                (case pn_peer n of
                   None \<Rightarrow> pipe_fail l (Some s0) s1 ss
                 | Some addr \<Rightarrow>
                     (case (s1, pn_own n) of
                        (Some t, Some adr2) \<Rightarrow>
                          if addr \<noteq> adr2 then pipe_fail l (Some s0) s1 ss
                          else do { ss \<leftarrow> closesocket l ss; Some (0, Some (s0, t), ss) }
                      | _ \<Rightarrow> pipe_fail l (Some s0) s1 ss))))"

section \<open>Probes\<close>

definition equus_shutdown_stdio :: "int option \<Rightarrow> int option \<Rightarrow> int option \<Rightarrow> int" where
  "equus_shutdown_stdio in_err out_err err_err =
     (case in_err of Some e \<Rightarrow> e | None \<Rightarrow>
        (case out_err of Some e \<Rightarrow> e | None \<Rightarrow>
           (case err_err of Some e \<Rightarrow> e | None \<Rightarrow> 0)))"

text \<open>The size of the working set and the use of the page file, if the system tells them.\<close>

definition win32_getprocmemory :: "(64 word \<times> 64 word) option \<Rightarrow> equus \<Rightarrow> 32 word finish \<times> equus" where
  "win32_getprocmemory counters s =
     (case counters of
        None \<Rightarrow> (Returned 0, s)
      | Some (working, pagefile) \<Rightarrow>
          if working > 30000000 then (Aborted, printf (''terminate because of size'' @ [LF]) s)
          else (Returned (ucast (working + pagefile)), s))"

definition win32_mem_checkpoint :: "(addr \<Rightarrow> string) \<Rightarrow> equus \<Rightarrow> equus option" where
  "win32_mem_checkpoint show_addr s = do {
     (addr, h) \<leftarrow> new (Chars (replicate 8 NUL)) (heap s);
     let s = printf (''addr = 0x'' @ show_addr addr @ [LF]) (s\<lparr>heap := h\<rparr>);
     h \<leftarrow> (if addr \<noteq> NULL then free addr (heap s) else Some (heap s));
     Some (s\<lparr>heap := h\<rparr>)
   }"

section \<open>Platforms\<close>

record platform =
  def_WIN32 :: bool
  def_APPLE :: bool
  def_FreeBSD :: bool
  def_OpenBSD :: bool
  def_NetBSD :: bool
  def_sun :: bool
  def_linux :: bool

definition p_is_windows :: "platform \<Rightarrow> int" where
  "p_is_windows p = (if def_WIN32 p then 1 else 0)"

definition p_is_unix :: "platform \<Rightarrow> int" where
  "p_is_unix p = (if p_is_windows p = 0 then 1 else 0)"

definition p_is_darwin :: "platform \<Rightarrow> int" where
  "p_is_darwin p = (if def_APPLE p then 1 else 0)"

definition p_is_freebsd :: "platform \<Rightarrow> int" where
  "p_is_freebsd p = (if def_FreeBSD p then 1 else 0)"

definition p_is_openbsd :: "platform \<Rightarrow> int" where
  "p_is_openbsd p = (if def_OpenBSD p then 1 else 0)"

definition p_is_netbsd :: "platform \<Rightarrow> int" where
  "p_is_netbsd p = (if def_NetBSD p then 1 else 0)"

definition p_is_solaris :: "platform \<Rightarrow> int" where
  "p_is_solaris p = (if def_sun p then 1 else 0)"

definition p_is_linux :: "platform \<Rightarrow> int" where
  "p_is_linux p = (if def_linux p then 1 else 0)"

section \<open>Properties\<close>

text \<open>
  \<open>pipe_win32\<close> gives two open sockets or nothing: whatever the network calls answer it returns; with 0
  exactly the two sockets of the pipe are open in addition, with -1 none, and it returns 0 only if both
  sockets were made and their addresses agree.
\<close>

theorem pipe_win32_no_leak:
  assumes "\<forall>l. pn_listener n = Some l \<longrightarrow> l \<notin> ss"
    and "\<forall>s. pn_first n = Some s \<longrightarrow> s \<notin> ss \<and> pn_listener n \<noteq> Some s"
    and "\<forall>s. pn_accept n = Some s \<longrightarrow> s \<notin> ss \<and> pn_listener n \<noteq> Some s \<and> pn_first n \<noteq> Some s"
  shows "pipe_win32 n ss = Some (-1, None, ss) \<or>
    (\<exists>a b. pipe_win32 n ss = Some (0, Some (a, b), insert a (insert b ss)) \<and> a \<noteq> b \<and>
       pn_first n = Some a \<and> pn_accept n = Some b \<and> pn_peer n \<noteq> None \<and> pn_peer n = pn_own n)"
  using assms
  by (auto simp: pipe_win32_def pipe_fail_def closesocket_def opened_def Let_def split: option.splits)

theorem pipe_win32_no_leak_witness:
  "pipe_win32 \<lparr>pn_listener = Some 1, pn_bind = True, pn_name = True, pn_listen = True, pn_first = Some 2,
     pn_connect = True, pn_accept = None, pn_peer = Some (16, 1, 9), pn_own = None\<rparr> {} = Some (-1, None, {})"
  using pipe_win32_no_leak[of "\<lparr>pn_listener = Some 1, pn_bind = True, pn_name = True, pn_listen = True, pn_first = Some 2,
     pn_connect = True, pn_accept = None, pn_peer = Some (16, 1, 9), pn_own = None\<rparr>" "{}"] by simp

lemma cleanup_copy:
  assumes "heap_wf h" and "strdup c h = Some (a, h1)"
    and "cleanup handles a err hs L h1 = Some (r, hs', L', h')"
  shows "hs' = hs - {x. Some x \<in> set handles} \<and> cells h' = cells h"
proof -
  have hs: "fold CloseHandle handles hs = hs - {x. Some x \<in> set handles}"
    by (induction handles arbitrary: hs) (auto simp: CloseHandle_def split: option.splits)
  have "free a h1 = Some (h1\<lparr>cells := cells h\<rparr>)"
    using assms(2) heap_wf_fresh[OF assms(1)] heap_wf_brk[OF assms(1)]
    by (auto simp: strdup_def new_eq free_eq fun_upd_idem)
  with assms(3) have "hs' = fold CloseHandle handles hs" "h' = h1\<lparr>cells := cells h\<rparr>"
    by (auto simp: cleanup_def Let_def bind_Some_iff split: option.splits)
  with hs show ?thesis by simp
qed

text \<open>
  (C39) Running a program on Windows releases what it took: however far the call gets, when it returns or
  raises an error the open handles and the allocated memory are as before.
\<close>

theorem exec_win32_releases:
  assumes "heap_wf h" and "\<forall>a b. we_pipe w = Some (a, b) \<longrightarrow> a \<notin> hs \<and> b \<notin> hs"
    and "\<forall>a. we_duplicate w = Some a \<longrightarrow> a \<notin> hs"
    and "\<forall>a b. we_process w = Inr (a, b) \<longrightarrow> a \<notin> hs \<and> b \<notin> hs"
    and "equus_exec_call_win32_core num_text w hs (call_frame [LString cmd]) h = Some (Returned (r, hs', L', h'))"
  shows "hs' = hs \<and> cells h' = cells h"
proof (cases "we_memory w")
  case False
  with assms(5) show ?thesis
    by (auto simp: equus_exec_call_win32_core_def cleanup_def bind_Some_iff)
next
  case True
  obtain a h1 where dup: "strdup cmd h = Some (a, h1)" by (simp add: strdup_def new_eq)
  note clean = cleanup_copy[OF assms(1) dup]
  note run = assms(5)[unfolded equus_exec_call_win32_core_def Let_def] True dup
  show ?thesis
  proof (cases "we_pipe w")
    case None
    with run show ?thesis by (auto dest!: clean)
  next
    case (Some ab)
    obtain x y where pipe: "we_pipe w = Some (x, y)" and new1: "x \<notin> hs" "y \<notin> hs"
      using Some assms(2) by (cases ab) auto
    show ?thesis
    proof (cases "we_inherit w \<and> we_duplicate w \<noteq> None")
      case False
      with run pipe new1 show ?thesis by (auto dest!: clean split: if_splits)
    next
      case True
      then obtain z where z: "we_inherit w" "we_duplicate w = Some z" "z \<notin> hs" using assms(3) by auto
      show ?thesis
      proof (cases "we_process w")
        case (Inl f)
        obtain n m where f: "f = (n, m)" by (cases f)
        with run pipe z Inl obtain t where "process_error n m (we_garbage w) = Some (Returned t)"
          by (cases "process_error n m (we_garbage w)") (auto split: finish.splits)
        with run pipe z Inl f new1 show ?thesis by (auto dest!: clean)
      next
        case (Inr pq)
        obtain u v where "we_process w = Inr (u, v)" "u \<notin> hs" "v \<notin> hs" using Inr assms(4) by (cases pq) auto
        with run pipe z new1 show ?thesis
          by (cases "read_loop (we_reads w) (lua_pushlstring [] (call_frame [LString cmd]))")
            (auto simp: CloseHandle_def dest!: clean)
      qed
    qed
  qed
qed

text \<open>The output a run of the program produces: what was read up to the first empty read, each part cut at a NUL.\<close>

fun win_output :: "string list \<Rightarrow> string" where
  "win_output [] = []"
| "win_output (b # bs) = (if b = [] then [] else cstr (take 1023 b @ [NUL]) @ win_output bs)"

lemma read_loop_eq:
  "read_loop bs (L\<lparr>stk := xs @ [LString out]\<rparr>) = Some (L\<lparr>stk := xs @ [LString (out @ win_output bs)]\<rparr>)"
  by (induction bs arbitrary: out) simp_all

lemma exec_win32_output:
  assumes "heap_wf h" and "we_memory w" and "we_pipe w = Some (a, b)" and "we_inherit w" and "we_duplicate w = Some c"
    and "we_process w = Inr (d, e)" and "distinct [a, b, c, d, e]" and "{a, b, c, d, e} \<inter> hs = {}"
  shows "\<exists>h'. equus_exec_call_win32_core num_text w hs (call_frame [LString cmd]) h =
    Some (Returned (Results 2, hs, call_frame [LString cmd, LString (win_output (we_reads w)), LNumber (of_int (uint (we_exit w)))], h'))
    \<and> cells h' = cells h"
proof -
  have "read_loop (we_reads w) (lua_pushlstring [] (call_frame [LString cmd])) =
      Some (call_frame [LString cmd, LString (win_output (we_reads w))])"
    using read_loop_eq[where bs = "we_reads w" and L = luaL_newstate and xs = "[LString cmd]" and out = "[]"]
    by (simp add: call_frame_def lua_pushlstring_def lua_push_def)
  moreover have "(cells h)(brk h := None) = cells h" using heap_wf_fresh[OF assms(1)] by auto
  moreover have "0 < brk h" using assms(1) by (rule heap_wf_brk)
  moreover have "insert d (insert e (insert c (insert a (insert b hs)))) - {b} - {c} - {d} - {e} - {a} = hs"
    using assms(7,8) by auto
  ultimately show ?thesis using assms
    by (simp add: equus_exec_call_win32_core_def Let_def strdup_def new_eq cleanup_def CloseHandle_def free_eq
        lua_pushinteger_def)
qed

definition example_exec :: win_exec where
  "example_exec = \<lparr>we_memory = True, we_pipe = Some (1, 2), we_inherit = True, we_duplicate = Some 3,
     we_process = Inr (4, 5), we_reads = [''hello''], we_exit = 3, we_garbage = []\<rparr>"

theorem exec_win32_releases_witness:
  "\<exists>r L' h'. equus_exec_call_win32_core (\<lambda>_. []) example_exec {9} (call_frame [LString ''ver'']) (heap start) =
     Some (Returned (r, {9}, L', h')) \<and> cells h' = cells (heap start)"
proof -
  have "heap_wf (heap start)" using log_wf_heapD[OF log_wf_start] .
  note wf = this
  from exec_win32_output[OF wf, of example_exec 1 2 3 4 5 "{9}" "\<lambda>_. []" "''ver''"] obtain h' where
    "equus_exec_call_win32_core (\<lambda>_. []) example_exec {9} (call_frame [LString ''ver'']) (heap start) =
       Some (Returned (Results 2, {9}, call_frame [LString ''ver'', LString ''hello'', LNumber 3], h'))"
    by (auto simp: example_exec_def cstr_def)
  note run = this
  have "cells h' = cells (heap start)"
    using exec_win32_releases[OF wf _ _ _ run] by (simp add: example_exec_def)
  with run show ?thesis by blast
qed

lemma equus_vasprintf_rendered:
  assumes "length t < 2 ^ 64 - 1"
  shows "\<exists>h'. equus_vasprintf (Some t) h = Some (int (length t), brk h, h') \<and> get_chars h' (brk h) = Some (t @ [NUL])"
proof -
  have "unat (of_nat (length t) + 1 :: 64 word) = length t + 1"
    using assms by (simp add: unat_word_ariths unat_of_nat)
  then show ?thesis by (simp add: equus_vasprintf_def Let_def new_eq store_eq get_chars_def)
qed

text \<open>A failed rendering is not noticed before the allocation: the caller's pointer is set and -1 is returned.\<close>

lemma equus_vasprintf_failed:
  "\<exists>h'. equus_vasprintf None h = Some (-1, brk h, h') \<and> brk h \<in> dom (cells h')"
  by (simp add: equus_vasprintf_def Let_def new_eq)

text \<open>A long message of the system ends the process: \<open>sprintf_s\<close> has no room for it.\<close>

lemma process_error_long:
  assumes "is_cstr m" and "110 \<le> length m" and "length m < 128" and "\<forall>c \<in> set m. (of_char c :: nat) < 128"
    and "length garbage = 128"
  shows "process_error e (Some m) garbage = Some Aborted"
proof -
  have m: "map (\<lambda>c. if (of_char c :: nat) < 128 then c else CHR ''?'') m = m"
    using assms(4) by (simp add: map_idI)
  have "format_err (Some m) garbage = Some (m @ [NUL] @ drop (Suc (length m)) garbage)"
    using assms(3,5) m by (simp add: format_err_def memcpy_Some)
  moreover have "cstr (m @ [NUL] @ drop (Suc (length m)) garbage) = m" using assms(1) by (simp add: cstr_append_NUL)
  ultimately show ?thesis using assms(2,5) by (simp add: process_error_def Let_def)
qed

end
