(* ===== verification/Lua_Mime.thy ===== *)
theory Lua_Mime
  imports Lua_Stack
begin

text \<open>
  The content encodings of \<open>mime.core\<close> (\<open>extern/luasocket/src/mime.c\<close>), which the HTTP client and the
  checks of the agent use: Base64, quoted-printable, line wrapping, end-of-line conversion and dot
  stuffing. The filters work on chunks: each takes the bytes left over from the previous chunk and the
  next chunk and returns what it could encode and what is left over.

  An argument that may be absent is a \<^typ>\<open>string option\<close>; the values a function returns are a list. The
  array \<open>atom\<close> with its count is the list of the bytes in use.
\<close>

abbreviation CRLF :: string where
  "CRLF \<equiv> [CR, LF]"

abbreviation EQCRLF :: string where
  "EQCRLF \<equiv> [CHR ''='', CR, LF]"

abbreviation code :: "char \<Rightarrow> nat" where
  "code c \<equiv> of_char c"

section \<open>Base64\<close>

definition b64base :: string where
  "b64base = ''ABCDEFGHIJKLMNOPQRSTUVWXYZabcdefghijklmnopqrstuvwxyz0123456789+/''"

text \<open>The decoding table that \<open>b64setup\<close> fills.\<close>

definition b64unbase :: "char \<Rightarrow> nat" where
  "b64unbase = (fold (\<lambda>i t. t(b64base ! i := i)) [0..<64] (\<lambda>_. 255))(CHR ''='' := 0)"

text \<open>The shifts and masks of \<open>value\<close> are products, quotients and remainders by powers of two; it stays below 2^24.\<close>

definition b64encode :: "char \<Rightarrow> string \<times> string \<Rightarrow> string \<times> string" where
  "b64encode c = (\<lambda>(input, buffer).
     let input = input @ [c] in
     if length input = 3 then
       let value = code (input ! 0) * 256;
           value = (value + code (input ! 1)) * 256;
           value = value + code (input ! 2);
           code3 = b64base ! (value mod 64); value = value div 64;
           code2 = b64base ! (value mod 64); value = value div 64;
           code1 = b64base ! (value mod 64); value = value div 64;
           code0 = b64base ! value
       in ([], buffer @ [code0, code1, code2, code3])
     else (input, buffer))"

definition b64pad :: "string \<Rightarrow> string \<Rightarrow> string" where
  "b64pad input buffer =
     (if length input = 1 then
        let value = code (input ! 0) * 16;
            code1 = b64base ! (value mod 64); value = value div 64;
            code0 = b64base ! value
        in buffer @ [code0, code1, CHR ''='', CHR ''='']
      else if length input = 2 then
        let value = (code (input ! 0) * 256 + code (input ! 1)) * 4;
            code2 = b64base ! (value mod 64); value = value div 64;
            code1 = b64base ! (value mod 64); value = value div 64;
            code0 = b64base ! value
        in buffer @ [code0, code1, code2, CHR ''='']
      else buffer)"

definition b64decode :: "char \<Rightarrow> string \<times> string \<Rightarrow> string \<times> string" where
  "b64decode c = (\<lambda>(input, buffer).
     if b64unbase c > 64 then (input, buffer)
     else
       let input = input @ [c] in
       if length input = 4 then
         let value = b64unbase (input ! 0) * 64;
             value = (value + b64unbase (input ! 1)) * 64;
             value = (value + b64unbase (input ! 2)) * 64;
             value = value + b64unbase (input ! 3);
             decoded2 = char_of (value mod 256); value = value div 256;
             decoded1 = char_of (value mod 256); value = value div 256;
             decoded0 = char_of value;
             valid = (if input ! 2 = CHR ''='' then 1 else if input ! 3 = CHR ''='' then 2 else 3)
         in ([], buffer @ take valid [decoded0, decoded1, decoded2])
       else (input, buffer))"

text \<open>
  The end of the three decoders and encoders when there is no second part: the result is returned with
  nil, unless its first byte is a NUL, in which case both values are nil.
\<close>

definition finished :: "string \<Rightarrow> lua_value list" where
  "finished result = (if cstr result = [] then [LNil, LNil] else [LString result, LNil])"

definition mime_global_b64 :: "string option \<Rightarrow> string option \<Rightarrow> lua_value list" where
  "mime_global_b64 first second =
     (case first of
        None \<Rightarrow> [LNil, LNil]
      | Some input \<Rightarrow>
          let (atom, buffer) = fold b64encode input ([], []) in
          (case second of
             None \<Rightarrow> finished (b64pad atom buffer)
           | Some input \<Rightarrow>
               let (atom, buffer) = fold b64encode input (atom, buffer) in [LString buffer, LString atom]))"

definition mime_global_unb64 :: "string option \<Rightarrow> string option \<Rightarrow> lua_value list" where
  "mime_global_unb64 first second =
     (case first of
        None \<Rightarrow> [LNil, LNil]
      | Some input \<Rightarrow>
          let (atom, buffer) = fold b64decode input ([], []) in
          (case second of
             None \<Rightarrow> finished buffer
           | Some input \<Rightarrow>
               let (atom, buffer) = fold b64decode input (atom, buffer) in [LString buffer, LString atom]))"

section \<open>Quoted-printable\<close>

datatype qp_class = QP_PLAIN | QP_QUOTED | QP_CR | QP_IF_LAST

text \<open>The tables that \<open>qpsetup\<close> fills.\<close>

definition qpclass :: "char \<Rightarrow> qp_class" where
  "qpclass c =
     (if c = CR then QP_CR
      else if c = CHR '' '' \<or> c = CHR 0x09 then QP_IF_LAST
      else if 62 \<le> code c \<and> code c \<le> 126 then QP_PLAIN
      else if 33 \<le> code c \<and> code c \<le> 60 then QP_PLAIN
      else QP_QUOTED)"

definition qpbase :: string where
  "qpbase = ''0123456789ABCDEF''"

definition qpunbase :: "char \<Rightarrow> nat" where
  "qpunbase c =
     (if 48 \<le> code c \<and> code c \<le> 57 then code c - 48
      else if 65 \<le> code c \<and> code c \<le> 70 then code c - 55
      else if 97 \<le> code c \<and> code c \<le> 102 then code c - 87
      else 255)"

definition qpquote :: "char \<Rightarrow> string \<Rightarrow> string" where
  "qpquote c buffer = buffer @ [CHR ''='', qpbase ! (code c div 16), qpbase ! (code c mod 16)]"

text \<open>The loop of \<open>qpencode\<close>: each round that goes on shifts the array by one.\<close>

fun qp_shift :: "string \<Rightarrow> string \<Rightarrow> string \<Rightarrow> string \<times> string" where
  "qp_shift [] marker buffer = ([], buffer)"
| "qp_shift (c # input) marker buffer =
     (case qpclass c of
        QP_CR \<Rightarrow>
          if input = [] then (c # input, buffer)
          else if input ! 0 = LF then ([], buffer @ marker)
          else qp_shift input marker (qpquote c buffer)
      | QP_IF_LAST \<Rightarrow>
          if length input < 2 then (c # input, buffer)
          else if input ! 0 = CR \<and> input ! 1 = LF then ([], qpquote c buffer @ marker)
          else qp_shift input marker (buffer @ [c])
      | QP_QUOTED \<Rightarrow> qp_shift input marker (qpquote c buffer)
      | QP_PLAIN \<Rightarrow> qp_shift input marker (buffer @ [c]))"

definition qpencode :: "string \<Rightarrow> char \<Rightarrow> string \<times> string \<Rightarrow> string \<times> string" where
  "qpencode marker c = (\<lambda>(input, buffer). qp_shift (input @ [c]) marker buffer)"

definition qppad :: "string \<Rightarrow> string \<Rightarrow> string" where
  "qppad input buffer =
     fold (\<lambda>c buffer. if qpclass c = QP_PLAIN then buffer @ [c] else qpquote c buffer) input buffer @
     (if input \<noteq> [] then EQCRLF else [])"

definition mime_global_qp :: "string option \<Rightarrow> string option \<Rightarrow> string \<Rightarrow> lua_value list" where
  "mime_global_qp first second marker =
     (case first of
        None \<Rightarrow> [LNil, LNil]
      | Some input \<Rightarrow>
          let (atom, buffer) = fold (qpencode (cstr marker)) input ([], []) in
          (case second of
             None \<Rightarrow> finished (qppad atom buffer)
           | Some input \<Rightarrow>
               let (atom, buffer) = fold (qpencode (cstr marker)) input (atom, buffer)
               in [LString buffer, LString atom]))"

definition qpdecode :: "char \<Rightarrow> string \<times> string \<Rightarrow> string \<times> string" where
  "qpdecode c = (\<lambda>(input, buffer).
     let input = input @ [c] in
     if input ! 0 = CHR ''='' then
       if length input < 3 then (input, buffer)
       else if input ! 1 = CR \<and> input ! 2 = LF then ([], buffer)
       else
         let c = qpunbase (input ! 1); d = qpunbase (input ! 2)
         in if c > 15 \<or> d > 15 then ([], buffer @ take 3 input) else ([], buffer @ [char_of (c * 16 + d)])
     else if input ! 0 = CR then
       if length input < 2 then (input, buffer)
       else if input ! 1 = LF then ([], buffer @ take 2 input)
       else ([], buffer)
     else if input ! 0 = CHR 0x09 \<or> (31 < code (input ! 0) \<and> code (input ! 0) < 127) then
       ([], buffer @ [input ! 0])
     else ([], buffer))"

definition mime_global_unqp :: "string option \<Rightarrow> string option \<Rightarrow> lua_value list" where
  "mime_global_unqp first second =
     (case first of
        None \<Rightarrow> [LNil, LNil]
      | Some input \<Rightarrow>
          let (atom, buffer) = fold qpdecode input ([], []) in
          (case second of
             None \<Rightarrow> finished buffer
           | Some input \<Rightarrow>
               let (atom, buffer) = fold qpdecode input (atom, buffer) in [LString buffer, LString atom]))"

section \<open>Wrapping lines\<close>

definition wrp_char :: "int \<Rightarrow> char \<Rightarrow> int \<times> string \<Rightarrow> int \<times> string" where
  "wrp_char len c = (\<lambda>(left, buffer).
     if c = CR then (left, buffer)
     else if c = LF then (len, buffer @ CRLF)
     else
       let (left, buffer) = (if left \<le> 0 then (len, buffer @ CRLF) else (left, buffer))
       in (left - 1, buffer @ [c]))"

definition mime_global_wrp :: "int \<Rightarrow> string option \<Rightarrow> int \<Rightarrow> lua_value list" where
  "mime_global_wrp left input len =
     (case input of
        None \<Rightarrow> [if left < len then LString CRLF else LNil, LNumber (of_int len)]
      | Some input \<Rightarrow>
          let (left, buffer) = fold (wrp_char len) input (left, []) in [LString buffer, LNumber (of_int left)])"

definition qpwrp_char :: "int \<Rightarrow> char \<Rightarrow> int \<times> string \<Rightarrow> int \<times> string" where
  "qpwrp_char len c = (\<lambda>(left, buffer).
     if c = CR then (left, buffer)
     else if c = LF then (len, buffer @ CRLF)
     else if c = CHR ''='' then
       let (left, buffer) = (if left \<le> 3 then (len, buffer @ EQCRLF) else (left, buffer))
       in (left - 1, buffer @ [c])
     else
       let (left, buffer) = (if left \<le> 1 then (len, buffer @ EQCRLF) else (left, buffer))
       in (left - 1, buffer @ [c]))"

definition mime_global_qpwrp :: "int \<Rightarrow> string option \<Rightarrow> int \<Rightarrow> lua_value list" where
  "mime_global_qpwrp left input len =
     (case input of
        None \<Rightarrow> [if left < len then LString EQCRLF else LNil, LNumber (of_int len)]
      | Some input \<Rightarrow>
          let (left, buffer) = fold (qpwrp_char len) input (left, []) in [LString buffer, LNumber (of_int left)])"

section \<open>Ends of lines\<close>

definition eolcandidate :: "int \<Rightarrow> bool" where
  "eolcandidate c \<longleftrightarrow> c = 13 \<or> c = 10"

text \<open>A \<open>char\<close> is signed; the context is the previous character or 0.\<close>

definition signed_char :: "char \<Rightarrow> int" where
  "signed_char c = (if code c < 128 then int (code c) else int (code c) - 256)"

definition eolprocess :: "string \<Rightarrow> char \<Rightarrow> int \<times> string \<Rightarrow> int \<times> string" where
  "eolprocess marker c = (\<lambda>(lst, buffer).
     if eolcandidate (signed_char c) then
       if eolcandidate lst then (0, if signed_char c = lst then buffer @ marker else buffer)
       else (signed_char c, buffer @ marker)
     else (0, buffer @ [c]))"

definition mime_global_eol :: "int \<Rightarrow> string option \<Rightarrow> string \<Rightarrow> lua_value list" where
  "mime_global_eol ctx input marker =
     (case input of
        None \<Rightarrow> [LNil, LNumber 0]
      | Some input \<Rightarrow>
          let (ctx, buffer) = fold (eolprocess (cstr marker)) input (ctx, [])
          in [LString buffer, LNumber (of_int ctx)])"

definition dot :: "char \<Rightarrow> nat \<times> string \<Rightarrow> nat \<times> string" where
  "dot c = (\<lambda>(state, buffer).
     let buffer = buffer @ [c] in
     if c = CR then (1, buffer)
     else if c = LF then (if state = 1 then 2 else 0, buffer)
     else if c = CHR ''.'' then (0, if state = 2 then buffer @ ''.'' else buffer)
     else (0, buffer))"

definition mime_global_dot :: "nat \<Rightarrow> string option \<Rightarrow> lua_value list" where
  "mime_global_dot state input =
     (case input of
        None \<Rightarrow> [LNil, LNumber 2]
      | Some input \<Rightarrow>
          let (state, buffer) = fold dot input (state, []) in [LString buffer, LNumber (of_nat state)])"

section \<open>Base64 decodes what it encodes\<close>

lemma b64unbase_base: "i < 64 \<Longrightarrow> b64unbase (b64base ! i) = i"
  and b64base_not_pad: "i < 64 \<Longrightarrow> b64base ! i \<noteq> CHR ''=''"
proof -
  have "list_all (\<lambda>i. b64unbase (b64base ! i) = i \<and> b64base ! i \<noteq> CHR ''='') [0..<64]" by code_simp
  then have "\<forall>i < 64. b64unbase (b64base ! i) = i \<and> b64base ! i \<noteq> CHR ''=''"
    unfolding list_all_iff set_upt by (simp only: atLeast0LessThan lessThan_iff Ball_def)
  then show "i < 64 \<Longrightarrow> b64unbase (b64base ! i) = i" and "i < 64 \<Longrightarrow> b64base ! i \<noteq> CHR ''=''" by simp_all
qed

lemma b64unbase_pad: "b64unbase (CHR ''='') = 0"
  by (simp add: b64unbase_def)

lemma code_less: "code c < 256"
  by (metis of_char_mod_256 mod_less_divisor zero_less_numeral)

text \<open>The reference: three bytes at a time, the rest padded.\<close>

definition b64_group :: "nat \<Rightarrow> string" where
  "b64_group v = [b64base ! (v div 64 div 64 div 64), b64base ! (v div 64 div 64 mod 64),
     b64base ! (v div 64 mod 64), b64base ! (v mod 64)]"

fun b64_ref :: "string \<Rightarrow> string" where
  "b64_ref (a # b # c # r) = b64_group ((code a * 256 + code b) * 256 + code c) @ b64_ref r"
| "b64_ref [a, b] = take 3 (b64_group ((code a * 256 + code b) * 256)) @ ''=''"
| "b64_ref [a] = take 2 (b64_group (code a * 65536)) @ ''==''"
| "b64_ref [] = []"

lemma fold_b64encode_group:
  "fold b64encode (a # b # c # r) ([], buffer) =
   fold b64encode r ([], buffer @ b64_group ((code a * 256 + code b) * 256 + code c))"
  by (simp add: b64encode_def Let_def b64_group_def)

lemma fold_b64encode_short: "length r < 3 \<Longrightarrow> fold b64encode r ([], buffer) = (r, buffer)"
  by (cases r; cases "tl r"; cases "tl (tl r)") (auto simp: b64encode_def Let_def)

lemma b64pad_ref: "length r < 3 \<Longrightarrow> b64pad r buffer = buffer @ b64_ref r"
  by (cases r; cases "tl r"; cases "tl (tl r)") (auto simp: b64pad_def Let_def b64_group_def mult.commute)

text \<open>What a run over a string leaves: a rest shorter than three bytes whose reference encoding completes the output.\<close>

lemma fold_b64encode:
  "\<exists>rest out. fold b64encode d ([], buffer) = (rest, buffer @ out) \<and> length rest < 3 \<and>
     (\<forall>e. b64_ref (d @ e) = out @ b64_ref (rest @ e))"
proof (induction d arbitrary: buffer rule: b64_ref.induct)
  case (1 a b c r)
  from "1.IH"[of "buffer @ b64_group ((code a * 256 + code b) * 256 + code c)"] show ?case
    unfolding fold_b64encode_group by fastforce
qed (simp_all only: fold_b64encode_short list.size, simp_all)

text \<open>A filter fed with chunks, as \<open>ltn12\<close> drives it: what is left over goes into the next call, the last call has no chunk.\<close>

fun stream :: "(string option \<Rightarrow> string option \<Rightarrow> lua_value list) \<Rightarrow> string \<Rightarrow> string list \<Rightarrow> string" where
  "stream flt ctx [] = (case flt (Some ctx) None of [LString a, LNil] \<Rightarrow> a | _ \<Rightarrow> [])"
| "stream flt ctx (ch # chs) =
     (case flt (Some ctx) (Some ch) of [LString a, LString b] \<Rightarrow> a @ stream flt b chs | _ \<Rightarrow> [])"

lemma is_cstr_b64base: "i < 64 \<Longrightarrow> b64base ! i \<noteq> NUL"
proof -
  have "list_all (\<lambda>c. c \<noteq> NUL) b64base" by code_simp
  moreover assume "i < 64"
  moreover have "length b64base = 64" by code_simp
  ultimately show ?thesis by (simp add: list_all_length)
qed

lemma b64_group_digits:
  assumes "v < (16777216 :: nat)"
  shows "v div 64 div 64 div 64 < 64" and "v div 64 div 64 mod 64 < 64" and "v div 64 mod 64 < 64" and "v mod 64 < 64"
  using assms by (simp_all add: div_mult2_eq[symmetric] less_mult_imp_div_less)

lemma b64_value: "(code a * 256 + code b) * 256 + code c < 16777216"
proof -
  have "x < 256 \<Longrightarrow> y < 256 \<Longrightarrow> z < 256 \<Longrightarrow> (x * 256 + y) * 256 + z < 16777216" for x y z :: nat by simp
  then show ?thesis using code_less by blast
qed

lemma b64_ref_start: "d \<noteq> [] \<Longrightarrow> cstr (b64_ref d) \<noteq> []"
proof (induction d rule: b64_ref.induct)
  case (1 a b c r)
  show ?case using is_cstr_b64base[OF b64_group_digits(1)[OF b64_value[of a b c]]]
    by (simp add: b64_group_def cstr_def)
next
  case (2 a b)
  show ?case using is_cstr_b64base[OF b64_group_digits(1)[of "(code a * 256 + code b) * 256"]] code_less[of a] code_less[of b]
    by (simp add: b64_group_def cstr_def)
next
  case (3 a)
  show ?case using is_cstr_b64base[OF b64_group_digits(1)[of "code a * 65536"]] code_less[of a]
    by (simp add: b64_group_def cstr_def)
qed simp

lemma b64_stream_ref: "length ctx < 3 \<Longrightarrow> stream mime_global_b64 ctx chs = b64_ref (ctx @ concat chs)"
proof (induction chs arbitrary: ctx)
  case Nil
  then show ?case
    using b64_ref_start[of ctx]
    by (cases "ctx = []") (simp_all add: mime_global_b64_def fold_b64encode_short b64pad_ref finished_def cstr_def)
next
  case (Cons ch chs)
  obtain rest out where r: "fold b64encode (ctx @ ch) ([], []) = (rest, out)" "length rest < 3"
    "\<And>e. b64_ref ((ctx @ ch) @ e) = out @ b64_ref (rest @ e)"
    using fold_b64encode[of "ctx @ ch" "[]"] by auto
  have "mime_global_b64 (Some ctx) (Some ch) = [LString out, LString rest]"
    using r(1) by (simp add: mime_global_b64_def split_beta)
  with r(3)[of "concat chs"] Cons.IH[OF r(2)] show ?case by simp
qed

text \<open>Four digits of a value give its three bytes.\<close>

lemma digits_value: "((v div 64 div 64 div 64 * 64 + v div 64 div 64 mod 64) * 64 + v div 64 mod 64) * 64 + v mod 64 = (v :: nat)"
  by (simp only: div_mult_mod_eq)

definition bytes3 :: "nat \<Rightarrow> string" where
  "bytes3 v = [char_of (v div 256 div 256), char_of (v div 256 mod 256), char_of (v mod 256)]"

lemma fold_b64decode_four:
  assumes "b64unbase p \<le> 64" "b64unbase q \<le> 64" "b64unbase r \<le> 64" "b64unbase t \<le> 64"
  shows "fold b64decode [p, q, r, t] ([], buffer) = ([], buffer @
    take (if r = CHR ''='' then 1 else if t = CHR ''='' then 2 else 3)
      (bytes3 (((b64unbase p * 64 + b64unbase q) * 64 + b64unbase r) * 64 + b64unbase t)))"
  using assms by (simp add: b64decode_def Let_def bytes3_def)

lemma bytes3_value: "bytes3 ((code a * 256 + code b) * 256 + code c) = [a, b, c]"
proof -
  have "(x * 256 + y) div 256 = x" "(x * 256 + y) mod 256 = y" if "y < 256" for x y :: nat using that by simp_all
  note dm = this[OF code_less]
  show ?thesis unfolding bytes3_def dm by simp
qed

lemma fold_b64decode_value:
  assumes "v < 16777216" and "b64unbase x = v div 64 mod 64" and "b64unbase y = v mod 64"
  shows "fold b64decode [b64base ! (v div 64 div 64 div 64), b64base ! (v div 64 div 64 mod 64), x, y] ([], buffer) =
    ([], buffer @ take (if x = CHR ''='' then 1 else if y = CHR ''='' then 2 else 3) (bytes3 v))"
proof -
  note d = b64_group_digits[OF assms(1)]
  have le: "b64unbase x \<le> 64" "b64unbase y \<le> 64" using d(3,4) assms(2,3) by simp_all
  show ?thesis
    by (subst fold_b64decode_four)
      (use d le in \<open>simp_all only: b64unbase_base assms(2,3) digits_value order.strict_implies_order\<close>)
qed

lemma b64decode_ref: "fold b64decode (b64_ref d) ([], buffer) = ([], buffer @ d)"
proof (induction d arbitrary: buffer rule: b64_ref.induct)
  case (1 a b c r)
  let ?v = "(code a * 256 + code b) * 256 + code c"
  note d = b64_group_digits[OF b64_value[of a b c]]
  have "fold b64decode (b64_group ?v) ([], buffer) = ([], buffer @ [a, b, c])"
    unfolding b64_group_def
    by (subst fold_b64decode_value[OF b64_value b64unbase_base[OF d(3)] b64unbase_base[OF d(4)]])
      (simp only: b64base_not_pad[OF d(3)] b64base_not_pad[OF d(4)] if_False bytes3_value, simp)
  with "1.IH" show ?case by simp
next
  case (2 a b)
  let ?v = "(code a * 256 + code b) * 256"
  have v: "?v < 16777216" using b64_value[of a b "CHR 0x00"] by simp
  note d = b64_group_digits[OF v]
  have z: "?v mod 64 = 0" using mod_mult_self1_is_0[of 64 "(code a * 256 + code b) * 4"] by (simp add: mult.commute)
  have "bytes3 ?v = [a, b, CHR 0x00]" using bytes3_value[of a b "CHR 0x00"] by simp
  then show ?case
    using fold_b64decode_value[OF v b64unbase_base[OF d(3)], of "CHR ''=''" buffer] z
    by (simp add: b64_group_def b64unbase_pad b64base_not_pad)
next
  case (3 a)
  let ?v = "code a * 65536"
  have v: "?v < 16777216" using code_less[of a] by simp
  have z: "?v mod 64 = 0" "?v div 64 mod 64 = 0" by (simp_all add: div_mult2_eq[symmetric])
  have "bytes3 ?v = [a, CHR 0x00, CHR 0x00]"
    using bytes3_value[of a "CHR 0x00" "CHR 0x00"] by (simp add: mult.commute)
  then show ?case
    using fold_b64decode_value[OF v, of "CHR ''=''" "CHR ''=''" buffer] z
    by (simp add: b64_group_def b64unbase_pad)
qed simp

section \<open>Decoding in chunks\<close>

text \<open>
  The contract of a decoder: it works a character at a time on an array and an output buffer, never looks
  at the buffer, and what it keeps in the array is kept when it is read again.
\<close>

locale chunk_decoder =
  fixes decoder :: "string option \<Rightarrow> string option \<Rightarrow> lua_value list"
    and step :: "char \<Rightarrow> string \<times> string \<Rightarrow> string \<times> string" and stuck :: "string \<Rightarrow> bool"
  assumes last_call: "decoder (Some i) None = finished (snd (fold step i ([], [])))"
    and next_call: "decoder (Some i) (Some j) =
      (let r = fold step j (fold step i ([], [])) in [LString (snd r), LString (fst r)])"
    and stuck_keeps: "stuck a \<Longrightarrow> fold step a ([], b) = (a, b)"
    and step_law: "stuck a \<Longrightarrow> \<exists>a' u. stuck a' \<and> (\<forall>b. step c (a, b) = (a', b @ u))"
begin

lemma fold_out: "stuck a \<Longrightarrow> \<exists>a' u. stuck a' \<and> (\<forall>b. fold step d (a, b) = (a', b @ u))"
proof (induction d arbitrary: a)
  case (Cons c d)
  from step_law[OF Cons.prems, of c] obtain a1 u1 where
    1: "stuck a1" "\<And>b. step c (a, b) = (a1, b @ u1)" by blast
  from Cons.IH[OF 1(1)] 1(2) show ?case by fastforce
qed auto

text \<open>Decoding in chunks gives what decoding at once gives.\<close>

lemma stream_fold: "stuck ctx \<Longrightarrow> fold step (concat chs) (ctx, []) = ([], out) \<Longrightarrow> stream decoder ctx chs = out"
proof (induction chs arbitrary: ctx out)
  case Nil
  then show ?case by (simp add: last_call stuck_keeps finished_def cstr_def)
next
  case (Cons ch chs)
  obtain ctx1 out1 where 1: "stuck ctx1" "\<And>b. fold step ch (ctx, b) = (ctx1, b @ out1)"
    using fold_out[OF Cons.prems(1)] by metis
  obtain ctx2 out2 where 2: "\<And>b. fold step (concat chs) (ctx1, b) = (ctx2, b @ out2)"
    using fold_out[OF 1(1)] by metis
  from Cons.prems(2) 1(2) 2 have "ctx2 = []" "out = out1 @ out2" by simp_all
  with Cons.IH[OF 1(1), of out2] 2[of "[]"] 1(2)[of "[]"] Cons.prems(1) show ?case
    by (simp add: next_call stuck_keeps)
qed

end

definition stuck64 :: "string \<Rightarrow> bool" where
  "stuck64 ctx \<longleftrightarrow> length ctx < 4 \<and> (\<forall>c \<in> set ctx. b64unbase c \<le> 64)"

interpretation unb64: chunk_decoder mime_global_unb64 b64decode stuck64
proof
  fix a b assume "stuck64 a"
  then show "fold b64decode a ([], b) = (a, b)"
    by (cases a; cases "tl a"; cases "tl (tl a)"; cases "tl (tl (tl a))")
      (auto simp: stuck64_def b64decode_def Let_def)
next
  fix a c assume a: "stuck64 a"
  show "\<exists>a' u. stuck64 a' \<and> (\<forall>b. b64decode c (a, b) = (a', b @ u))"
  proof (cases "b64unbase c \<le> 64")
    case True
    with a show ?thesis by (cases "length a = 3") (auto simp: stuck64_def b64decode_def Let_def)
  qed (use a in \<open>auto simp: b64decode_def\<close>)
qed (simp_all add: mime_global_unb64_def split_beta Let_def)

definition stuck_unqp :: "string \<Rightarrow> bool" where
  "stuck_unqp a \<longleftrightarrow> a = [] \<or> a = [CR] \<or> a = ''='' \<or> (\<exists>x. a = [CHR ''='', x])"

interpretation unqp: chunk_decoder mime_global_unqp qpdecode stuck_unqp
proof
  fix a b assume "stuck_unqp a"
  then show "fold qpdecode a ([], b) = (a, b)" by (auto simp: stuck_unqp_def qpdecode_def Let_def)
next
  fix a c assume "stuck_unqp a"
  then consider "a = []" | "a = [CR]" | "a = ''=''" | x where "a = [CHR ''='', x]" by (auto simp: stuck_unqp_def)
  then show "\<exists>a' u. stuck_unqp a' \<and> (\<forall>b. qpdecode c (a, b) = (a', b @ u))"
    by cases (auto simp: stuck_unqp_def qpdecode_def Let_def)
qed (simp_all add: mime_global_unqp_def split_beta Let_def)

section \<open>Quoted-printable decodes what it encodes\<close>

text \<open>A piece of encoded text that the decoder turns into \<open>w\<close>, starting and ending with an empty array.\<close>

definition decodes :: "string \<Rightarrow> string \<Rightarrow> bool" where
  "decodes u w \<longleftrightarrow> (\<forall>b. fold qpdecode u ([], b) = ([], b @ w))"

lemma decodes_append: "decodes u w \<Longrightarrow> decodes u' w' \<Longrightarrow> decodes (u @ u') (w @ w')"
  by (simp add: decodes_def)

lemma decodes_Nil: "decodes [] []"
  by (simp add: decodes_def)

lemma qpunbase_base: "k < 16 \<Longrightarrow> qpunbase (qpbase ! k) = k \<and> qpbase ! k \<noteq> CR"
proof -
  have "list_all (\<lambda>k. qpunbase (qpbase ! k) = k \<and> qpbase ! k \<noteq> CR) [0..<16]" by code_simp
  moreover assume "k < 16"
  ultimately show ?thesis by (simp add: list_all_iff)
qed

lemma decodes_quote: "decodes (qpquote c []) [c]"
proof -
  have hi: "code c div 16 < 16" using code_less[of c] by (intro less_mult_imp_div_less) simp
  have lo: "code c mod 16 < 16" by simp
  show ?thesis
    using qpunbase_base[OF hi] qpunbase_base[OF lo] hi lo
    by (simp add: decodes_def qpquote_def qpdecode_def Let_def)
qed

lemma qpquote_append: "qpquote c b = b @ qpquote c []"
  by (simp add: qpquote_def)

lemma decodes_plain: "qpclass c = QP_PLAIN \<or> qpclass c = QP_IF_LAST \<Longrightarrow> decodes [c] [c]"
  by (auto simp: decodes_def qpdecode_def qpclass_def Let_def split: if_splits)

lemma decodes_CRLF: "decodes CRLF CRLF"
  by (simp add: decodes_def qpdecode_def Let_def)

lemma decodes_EQCRLF: "decodes EQCRLF []"
  by (simp add: decodes_def qpdecode_def Let_def)

text \<open>What the encoder may keep in the array between two characters.\<close>

definition stuck_qp :: "string \<Rightarrow> bool" where
  "stuck_qp a \<longleftrightarrow> a = [] \<or> a = [CR] \<or> (a \<noteq> [] \<and> length a < 3 \<and> qpclass (hd a) = QP_IF_LAST)"

definition encoded_as :: "string \<Rightarrow> string \<Rightarrow> string \<times> string \<Rightarrow> bool" where
  "encoded_as input b r \<longleftrightarrow> (\<exists>u w. r = (fst r, b @ u) \<and> decodes u w \<and> input = w @ fst r \<and> stuck_qp (fst r))"

lemma encoded_asI: "r = (rest, b @ u) \<Longrightarrow> decodes u w \<Longrightarrow> input = w @ rest \<Longrightarrow> stuck_qp rest \<Longrightarrow> encoded_as input b r"
  by (auto simp: encoded_as_def)

lemma encoded_as_step:
  assumes "encoded_as input (b @ u) r" and "decodes u w"
  shows "encoded_as (w @ input) b r"
proof -
  from assms(1) obtain u' w' where "r = (fst r, (b @ u) @ u')" "decodes u' w'" "input = w' @ fst r" "stuck_qp (fst r)"
    by (auto simp: encoded_as_def)
  with decodes_append[OF assms(2), of u' w'] show ?thesis by (auto intro!: encoded_asI[of r "fst r" b "u @ u'" "w @ w'"])
qed

lemma qp_shift_quoted: "encoded_as input (qpquote c b) r \<Longrightarrow> encoded_as (c # input) b r"
  using encoded_as_step[of input b "qpquote c []" r "[c]"] decodes_quote qpquote_append[of c b] by simp

lemma qp_shift_plain:
  "encoded_as input (b @ [c]) r \<Longrightarrow> qpclass c = QP_PLAIN \<or> qpclass c = QP_IF_LAST \<Longrightarrow> encoded_as (c # input) b r"
  using encoded_as_step[of input b "[c]" r "[c]"] decodes_plain by simp

lemma qpclass_CR: "qpclass c = QP_CR \<longleftrightarrow> c = CR"
  by (auto simp: qpclass_def)

lemma qpclass_CR_eq [simp]: "qpclass CR = QP_CR"
  by (simp add: qpclass_CR)

lemma qp_shift_0: "encoded_as [] b (qp_shift [] m b)"
  by (rule encoded_asI[where u = "[]" and w = "[]" and rest = "[]"]) (simp_all add: decodes_Nil stuck_qp_def)

lemma qp_shift_1: "encoded_as [c] b (qp_shift [c] m b)"
proof (cases "qpclass c")
  case QP_CR
  then show ?thesis by (intro encoded_asI[where u = "[]" and w = "[]" and rest = "[c]"])
    (simp_all add: decodes_Nil stuck_qp_def qpclass_CR)
next
  case QP_IF_LAST
  then show ?thesis by (intro encoded_asI[where u = "[]" and w = "[]" and rest = "[c]"])
    (simp_all add: decodes_Nil stuck_qp_def)
qed (use qp_shift_0 qp_shift_quoted qp_shift_plain in \<open>simp_all del: qp_shift.simps(1)\<close>)

lemma qp_shift_2: "encoded_as [x, c] b (qp_shift [x, c] CRLF b)"
proof (cases "qpclass x")
  case QP_CR
  show ?thesis
  proof (cases "c = LF")
    case True
    with QP_CR show ?thesis by (intro encoded_asI[where u = CRLF and w = CRLF and rest = "[]"])
      (simp_all add: decodes_CRLF stuck_qp_def qpclass_CR)
  next
    case False
    with QP_CR qp_shift_1 qp_shift_quoted show ?thesis by (simp del: qp_shift.simps(1))
  qed
next
  case QP_IF_LAST
  then show ?thesis by (intro encoded_asI[where u = "[]" and w = "[]" and rest = "[x, c]"])
    (simp_all add: decodes_Nil stuck_qp_def)
qed (use qp_shift_1 qp_shift_quoted qp_shift_plain in simp_all)

lemma qpencode_step:
  assumes "stuck_qp a"
  shows "encoded_as (a @ [c]) b (qpencode CRLF c (a, b))"
proof -
  consider "a = []" | y where "a = [y]" | x y where "a = [x, y]" "qpclass x = QP_IF_LAST"
    using assms by (cases a; cases "tl a"; cases "tl (tl a)") (auto simp: stuck_qp_def)
  then show ?thesis
  proof cases
    case 3
    show ?thesis
    proof (cases "y = CR \<and> c = LF")
      case True
      then have "decodes (qpquote x [] @ CRLF) ([x] @ CRLF)" by (intro decodes_append decodes_quote decodes_CRLF)
      with 3 True show ?thesis
        by (intro encoded_asI[where u = "qpquote x [] @ CRLF" and w = "[x] @ CRLF" and rest = "[]"])
          (simp_all add: qpencode_def stuck_qp_def qpquote_append[of x b])
    next
      case False
      with 3(2) have eq: "qp_shift [x, y, c] CRLF b = qp_shift [y, c] CRLF (b @ [x])" by auto
      from qp_shift_plain[OF qp_shift_2[of y c "b @ [x]"]] 3(2) show ?thesis
        unfolding 3(1) qpencode_def prod.case append.simps eq by simp
    qed
  qed (use qp_shift_1 qp_shift_2 in \<open>simp_all add: qpencode_def del: qp_shift.simps\<close>)
qed

lemma fold_qpencode:
  "stuck_qp a \<Longrightarrow> encoded_as (a @ d) b (fold (qpencode CRLF) d (a, b))"
proof (induction d arbitrary: a b)
  case Nil
  then show ?case by (intro encoded_asI[where u = "[]" and w = "[]" and rest = a]) (simp_all add: decodes_Nil)
next
  case (Cons c d)
  from qpencode_step[OF Cons.prems, of c b] obtain a' u w where
    1: "qpencode CRLF c (a, b) = (a', b @ u)" "decodes u w" "a @ [c] = w @ a'" "stuck_qp a'"
    unfolding encoded_as_def by (metis prod.collapse)
  from encoded_as_step[OF Cons.IH[OF 1(4), of "b @ u"] 1(2)] 1(1,3) show ?case
    by simp (metis append.assoc append_Cons append_Nil)
qed

lemma stuck_qp_stable: "stuck_qp a \<Longrightarrow> fold (qpencode m) a ([], b) = (a, b)"
  by (cases a; cases "tl a"; cases "tl (tl a)") (auto simp: stuck_qp_def qpencode_def)

lemma decodes_pad: "decodes (fold (\<lambda>c buffer. if qpclass c = QP_PLAIN then buffer @ [c] else qpquote c buffer) a []) a"
  (is "decodes (fold ?f a []) a")
proof -
  have "decodes b w \<Longrightarrow> decodes (fold ?f a b) (w @ a)" for b w
  proof (induction a arbitrary: b w)
    case (Cons c a)
    have "decodes (?f c b) (w @ [c])"
      using decodes_append[OF Cons.prems decodes_quote[of c]] decodes_append[OF Cons.prems decodes_plain[of c]]
      by (simp add: qpquote_append[of c b])
    from Cons.IH[OF this] show ?case by simp
  qed simp
  from this[OF decodes_Nil] show ?thesis by simp
qed

lemma qppad_start: "a \<noteq> [] \<Longrightarrow> cstr (qppad a []) \<noteq> []"
proof -
  let ?f = "\<lambda>c buffer. if qpclass c = QP_PLAIN then buffer @ [c] else qpquote c buffer"
  have keep: "b \<noteq> [] \<Longrightarrow> hd (fold ?f xs b) = hd b \<and> fold ?f xs b \<noteq> []" for b xs
    by (induction xs arbitrary: b) (simp_all add: qpquote_def)
  assume "a \<noteq> []"
  then obtain c a' where a: "a = c # a'" by (cases a) auto
  have "?f c [] \<noteq> []" "hd (?f c []) \<noteq> NUL" by (auto simp: qpquote_def qpclass_def split: if_splits)
  with keep[of "?f c []" a'] have "fold ?f a [] \<noteq> []" "hd (fold ?f a []) \<noteq> NUL" unfolding a by simp_all
  then show ?thesis by (cases "fold ?f a []") (simp_all add: qppad_def cstr_def)
qed

lemma qp_stream_decodes:
  "stuck_qp ctx \<Longrightarrow> decodes (stream (\<lambda>i j. mime_global_qp i j CRLF) ctx chs) (ctx @ concat chs)"
proof (induction chs arbitrary: ctx)
  case Nil
  have "decodes (qppad ctx []) ctx"
    using decodes_append[OF decodes_pad[of ctx] decodes_EQCRLF] decodes_Nil by (auto simp: qppad_def)
  moreover have "stream (\<lambda>i j. mime_global_qp i j CRLF) ctx [] = qppad ctx []"
    using qppad_start[of ctx] stuck_qp_stable[OF Nil] by (auto simp: mime_global_qp_def finished_def cstr_def qppad_def)
  ultimately show ?case by (simp del: stream.simps)
next
  case (Cons ch chs)
  from fold_qpencode[OF Cons.prems, of ch "[]"] obtain rest u w where
    1: "fold (qpencode CRLF) ch (ctx, []) = (rest, u)" "decodes u w" "ctx @ ch = w @ rest" "stuck_qp rest"
    unfolding encoded_as_def by (metis append_Nil prod.collapse)
  have "mime_global_qp (Some ctx) (Some ch) CRLF = [LString u, LString rest]"
    using 1(1) stuck_qp_stable[OF Cons.prems, of CRLF "[]"] by (simp add: mime_global_qp_def)
  with decodes_append[OF 1(2) Cons.IH[OF 1(4)]] 1(3) show ?case
    by simp (metis append.assoc)
qed

section \<open>Properties\<close>

text \<open>
  (C15) Base64 survives any division into chunks on both sides: however the data are cut into chunks for the
  encoder and however the encoded text is cut into chunks for the decoder, the decoder returns the data,
  and the encoded text is that of the reference definition applied to all of the data.
\<close>

theorem b64_roundtrip:
  assumes "concat encoded = stream mime_global_b64 [] chs"
  shows "stream mime_global_b64 [] chs = b64_ref (concat chs) \<and> stream mime_global_unb64 [] encoded = concat chs"
proof -
  have r: "stream mime_global_b64 [] chs = b64_ref (concat chs)" using b64_stream_ref[of "[]" chs] by simp
  have "stuck64 []" by (simp add: stuck64_def)
  with unb64.stream_fold[of "[]" encoded "concat chs"] assms r b64decode_ref[of "concat chs" "[]"]
  show ?thesis by simp
qed

theorem b64_roundtrip_witness:
  "stream mime_global_unb64 [] [''dXN'', ''lcjp'', ''wdw=='']  = ''user:pw''"
proof -
  have "b64_ref ''user:pw'' = ''dXNlcjpwdw==''" by (simp add: b64_group_def b64base_def)
  with b64_stream_ref[of "[]" "[''user'', '':pw'']"] have "stream mime_global_b64 [] [''user'', '':pw''] = ''dXNlcjpwdw==''" by simp
  then show ?thesis using b64_roundtrip[of "[''dXN'', ''lcjp'', ''wdw=='']" "[''user'', '':pw'']"] by simp
qed

text \<open>Decoding at once loses data that start with a zero byte.\<close>

lemma unb64_loses_leading_nul:
  "mime_global_unb64 (Some (b64_ref (NUL # d))) None = [LNil, LNil]"
  by (simp only: mime_global_unb64_def option.case b64decode_ref Let_def prod.case finished_def)
    (simp add: cstr_def)

text \<open>
  (C38) Quoted-printable survives any division into chunks on both sides: text with any bytes, encoded in
  chunks with the standard line marker and decoded in chunks, comes back unchanged.
\<close>

theorem qp_roundtrip:
  assumes "concat encoded = stream (\<lambda>i j. mime_global_qp i j CRLF) [] chs"
  shows "stream mime_global_unqp [] encoded = concat chs"
proof -
  have "decodes (concat encoded) (concat chs)"
    using qp_stream_decodes[of "[]" chs] assms by (simp add: stuck_qp_def)
  then show ?thesis using unqp.stream_fold[of "[]" encoded] by (simp add: stuck_unqp_def decodes_def)
qed

theorem qp_roundtrip_witness:
  "stream mime_global_unqp [] [stream (\<lambda>i j. mime_global_qp i j CRLF) [] [''a=b '', [CR, LF, NUL]]] = ''a=b '' @ [CR, LF, NUL]"
  using qp_roundtrip[of "[stream (\<lambda>i j. mime_global_qp i j CRLF) [] [''a=b '', [CR, LF, NUL]]]" "[''a=b '', [CR, LF, NUL]]"]
  by simp

end
