(* ===== verification/Lua_Pack.thy ===== *)
theory Lua_Pack
  imports Lua_Stack "HOL-Library.Log_Nat"
begin

text \<open>
  The library \<open>pack\<close> (\<open>extern/pack/lpack.c\<close>), which the agent preloads: \<open>string.pack\<close> and \<open>string.unpack\<close>
  turn Lua values into bytes and back, as a format says.

  The machine is little-endian with 8-byte \<open>long\<close> and \<open>size_t\<close>. How floating-point numbers are laid out, and
  the conversions Lua makes between numbers and strings, are fields of a record. A result of \<^term>\<open>None\<close>
  is a read outside of the string or a conversion C does not define.
\<close>

section \<open>Numbers as bytes\<close>

fun le_bytes :: "nat \<Rightarrow> nat \<Rightarrow> string" where
  "le_bytes 0 k = []"
| "le_bytes (Suc n) k = char_of (k mod 256) # le_bytes n (k div 256)"

fun le_value :: "string \<Rightarrow> nat" where
  "le_value [] = 0"
| "le_value (c # cs) = of_char c + 256 * le_value cs"

record codec =
  double_bytes :: "real \<Rightarrow> string"
  double_value :: "string \<Rightarrow> real"
  float_bytes :: "real \<Rightarrow> string"
  float_value :: "string \<Rightarrow> real"
  text_number :: "string \<Rightarrow> real option"
  number_text :: "real \<Rightarrow> string"

text \<open>The integer codes: the size and whether the type is signed.\<close>

definition int_code :: "char \<Rightarrow> (nat \<times> bool) option" where
  "int_code c =
     (if c = CHR ''c'' then Some (1, True) else if c = CHR ''b'' then Some (1, False)
      else if c = CHR ''h'' then Some (2, True) else if c = CHR ''H'' then Some (2, False)
      else if c = CHR ''i'' then Some (4, True) else if c = CHR ''I'' then Some (4, False)
      else if c = CHR ''l'' then Some (8, True) else if c = CHR ''L'' then Some (8, False)
      else None)"

text \<open>The codes of strings that are preceded by their length: the size of the length.\<close>

definition len_code :: "char \<Rightarrow> nat option" where
  "len_code c =
     (if c = CHR ''p'' then Some 1 else if c = CHR ''P'' then Some 2 else if c = CHR ''a'' then Some 8 else None)"

definition int_range :: "nat \<Rightarrow> bool \<Rightarrow> int \<Rightarrow> bool" where
  "int_range m sg k =
     (if sg then - (2 ^ (8 * m - 1)) \<le> k \<and> k < 2 ^ (8 * m - 1) else 0 \<le> k \<and> k < 2 ^ (8 * m))"

text \<open>The cast of a \<open>double\<close>: towards zero, and undefined outside of the range of the type.\<close>

definition cast_int :: "nat \<Rightarrow> bool \<Rightarrow> real \<Rightarrow> int option" where
  "cast_int m sg x =
     (let k = (if x < 0 then \<lceil>x\<rceil> else \<lfloor>x\<rfloor>) in if int_range m sg k then Some k else None)"

definition int_bytes :: "nat \<Rightarrow> int \<Rightarrow> string" where
  "int_bytes m k = le_bytes m (nat (k mod 2 ^ (8 * m)))"

definition int_value :: "bool \<Rightarrow> string \<Rightarrow> int" where
  "int_value sg bs =
     (let v = int (le_value bs); m = length bs
      in if sg \<and> v \<ge> 2 ^ (8 * m - 1) then v - 2 ^ (8 * m) else v)"

text \<open>
  The conversion of an integer to a \<open>double\<close>: exact up to \<open>2\<^sup>5\<^sup>3\<close>, then the nearest number with 53 bits, of
  two that are equally near the even one.
\<close>

definition to_double :: "int \<Rightarrow> int" where
  "to_double k =
     (if \<bar>k\<bar> \<le> 2 ^ 53 then k
      else
        let e = floorlog 2 (nat \<bar>k\<bar>) - 53; q = \<bar>k\<bar> div 2 ^ e; r = \<bar>k\<bar> mod 2 ^ e
        in sgn k * 2 ^ e * (if 2 * r > 2 ^ e \<or> 2 * r = 2 ^ e \<and> odd q then q + 1 else q))"

section \<open>Byte order\<close>

definition doendian :: "char \<Rightarrow> bool" where
  "doendian c =
     (let e = True in
      if c = CHR ''<'' then \<not> e else if c = CHR ''>'' then e else if c = CHR ''='' then False else False)"

fun swap_loop :: "nat \<Rightarrow> nat \<Rightarrow> nat \<Rightarrow> string \<Rightarrow> string" where
  "swap_loop 0 i j a = a"
| "swap_loop (Suc n) i j a = swap_loop n (Suc i) (j - 1) (a[i := a ! j, j := a ! i])"

definition doswap :: "bool \<Rightarrow> string \<Rightarrow> string" where
  "doswap swap p = (if swap then swap_loop (length p div 2) 0 (length p - 1) p else p)"

section \<open>Formats\<close>

text \<open>The repetition after a code, and whether there is one.\<close>

definition count_of :: "string \<Rightarrow> nat" where
  "count_of ds = foldl (\<lambda>n d. 10 * n + (of_char d - 48)) 0 ds"

definition parse_count :: "string \<Rightarrow> bool \<times> nat \<times> string" where
  "parse_count f =
     (let ds = takeWhile isdigit f in
      if ds = [] then (False, 1, f) else (True, count_of ds, dropWhile isdigit f))"

lemma parse_count_shorter [termination_simp]: "(d, n, r) = parse_count f \<Longrightarrow> length r \<le> length f"
  by (auto simp: parse_count_def Let_def length_dropWhile_le split: if_splits)

definition badcode :: "char \<Rightarrow> string" where
  "badcode c = ''bad code `'' @ [c, CHR 0x27]"

section \<open>\<open>l_unpack\<close>\<close>

text \<open>The test \<^verbatim>\<open>i + m > len\<close>, in which the \<open>int\<close> on the left is converted to \<open>size_t\<close>.\<close>

definition beyond :: "string \<Rightarrow> int \<Rightarrow> bool" where
  "beyond s k \<longleftrightarrow> int (length s) < k mod 2 ^ 64"

definition bytes_at :: "string \<Rightarrow> int \<Rightarrow> nat \<Rightarrow> string option" where
  "bytes_at s i m =
     (if 0 \<le> i \<and> nat i + m \<le> length s then Some (take m (drop (nat i) s)) else None)"

datatype unpack_step = Value lua_value int | Finish | Endian | Skip | Badcode

definition unpack_number :: "(string \<Rightarrow> real) \<Rightarrow> nat \<Rightarrow> string \<Rightarrow> bool \<Rightarrow> int \<Rightarrow> unpack_step option" where
  "unpack_number decode m s swap i =
     (if beyond s (i + int m) then Some Finish
      else do {
        a \<leftarrow> bytes_at s i m;
        Some (Value (LNumber (decode (doswap swap a))) (i + int m))
      })"

definition unpack_string :: "nat \<Rightarrow> string \<Rightarrow> bool \<Rightarrow> int \<Rightarrow> unpack_step option" where
  "unpack_string m s swap i =
     (if beyond s (i + int m) then Some Finish
      else do {
        l \<leftarrow> map_option (\<lambda>bs. le_value (doswap swap bs)) (bytes_at s i m);
        if beyond s (i + int m + int l) then Some Finish
        else do {
          t \<leftarrow> bytes_at s (i + int m) l;
          Some (Value (LString t) (i + int m + int l))
        }
      })"

text \<open>\<open>strlen\<close> stops at the latest at the NUL that ends every Lua string.\<close>

definition unpack_op :: "codec \<Rightarrow> string \<Rightarrow> char \<Rightarrow> nat \<Rightarrow> bool \<Rightarrow> int \<Rightarrow> unpack_step option" where
  "unpack_op K s c N swap i =
     (if c \<in> set ''<>='' then Some Endian
      else if c = CHR ''A'' then
        if beyond s (i + int N) then Some Finish
        else do { t \<leftarrow> bytes_at s i N; Some (Value (LString t) (i + int N)) }
      else if c = CHR ''z'' then
        if int (length s) \<le> i mod 2 ^ 64 then Some Finish
        else
          let t = cstr (drop (nat i) s) in Some (Value (LString t) (i + int (length t) + 1))
      else if c \<in> set '' ,'' then Some Skip
      else if c = CHR ''n'' \<or> c = CHR ''d'' then unpack_number (double_value K) 8 s swap i
      else if c = CHR ''f'' then unpack_number (float_value K) 4 s swap i
      else (case len_code c of
        Some m \<Rightarrow> unpack_string m s swap i
      | None \<Rightarrow>
          (case int_code c of
             Some (m, sg) \<Rightarrow> unpack_number (\<lambda>bs. of_int (to_double (int_value sg bs))) m s swap i
           | None \<Rightarrow> Some Badcode)))"

datatype 'a unpack_run = On 'a | Done int "lua_value list" | Bad

text \<open>
  The loop \<^verbatim>\<open>while (N--)\<close>. Its state is the byte order, the position and the values pushed; a change of
  the byte order and the code \<open>A\<close>, which takes the count as a length, end it.
\<close>

fun unpack_rep ::
  "codec \<Rightarrow> string \<Rightarrow> char \<Rightarrow> nat \<Rightarrow> bool \<times> int \<times> lua_value list \<Rightarrow> (bool \<times> int \<times> lua_value list) unpack_run option" where
  "unpack_rep K s c 0 st = Some (On st)"
| "unpack_rep K s c (Suc N) (swap, i, vs) = do {
     r \<leftarrow> unpack_op K s c (Suc N) swap i;
     (case r of
        Value v j \<Rightarrow>
          if c = CHR ''A'' then Some (On (swap, j, vs @ [v])) else unpack_rep K s c N (swap, j, vs @ [v])
      | Finish \<Rightarrow> Some (Done i vs)
      | Endian \<Rightarrow> Some (On (doendian c, i, vs))
      | Skip \<Rightarrow> unpack_rep K s c N (swap, i, vs)
      | Badcode \<Rightarrow> Some Bad)
   }"

fun unpack_fmt ::
  "codec \<Rightarrow> string \<Rightarrow> string \<Rightarrow> bool \<times> int \<times> lua_value list \<Rightarrow> (string + int \<times> lua_value list) option" where
  "unpack_fmt K s [] (swap, i, vs) = Some (Inr (i, vs))"
| "unpack_fmt K s (c # f) (swap, i, vs) =
     (case parse_count f of (digits, N, f) \<Rightarrow>
        do {
          r \<leftarrow> unpack_rep K s c N
             (swap, i, if digits \<and> N = 0 \<and> c = CHR ''A'' then vs @ [LString []] else vs);
          (case r of
             On st \<Rightarrow> unpack_fmt K s f st
           | Done j ws \<Rightarrow> Some (Inr (j, ws))
           | Bad \<Rightarrow> Some (Inl (badcode c)))
        })"

text \<open>The values returned: the position after the last byte used, then the values.\<close>

definition l_unpack :: "codec \<Rightarrow> string \<Rightarrow> string \<Rightarrow> int \<Rightarrow> (string + lua_value list) option" where
  "l_unpack K s f init =
     map_option (map_sum (\<lambda>e. e) (\<lambda>(i, vs). LNumber (of_int (i + 1)) # vs))
       (unpack_fmt K s (cstr f) (False, init - 1, []))"

section \<open>\<open>l_pack\<close>\<close>

definition check_number :: "codec \<Rightarrow> lua_value list \<Rightarrow> real option" where
  "check_number K args =
     (case args of LNumber x # _ \<Rightarrow> Some x | LString t # _ \<Rightarrow> text_number K t | _ \<Rightarrow> None)"

definition check_string :: "codec \<Rightarrow> lua_value list \<Rightarrow> string option" where
  "check_string K args =
     (case args of LString t # _ \<Rightarrow> Some t | LNumber x # _ \<Rightarrow> Some (number_text K x) | _ \<Rightarrow> None)"

datatype pack_step = Bytes string | No_arg | P_endian | P_skip | P_bad

definition pack_number :: "(real \<Rightarrow> string option) \<Rightarrow> codec \<Rightarrow> bool \<Rightarrow> lua_value list \<Rightarrow> pack_step option" where
  "pack_number encode K swap args =
     (case check_number K args of
        None \<Rightarrow> Some No_arg
      | Some x \<Rightarrow> do { bs \<leftarrow> encode x; Some (Bytes (doswap swap bs)) })"

definition pack_op :: "codec \<Rightarrow> char \<Rightarrow> bool \<Rightarrow> lua_value list \<Rightarrow> pack_step option" where
  "pack_op K c swap args =
     (if c \<in> set ''<>='' then Some P_endian
      else if c = CHR ''A'' \<or> c = CHR ''z'' then
        (case check_string K args of
           None \<Rightarrow> Some No_arg
         | Some a \<Rightarrow> Some (Bytes (if c = CHR ''z'' then a @ [NUL] else a)))
      else if c \<in> set '' ,'' then Some P_skip
      else if c = CHR ''n'' \<or> c = CHR ''d'' then pack_number (\<lambda>x. Some (double_bytes K x)) K swap args
      else if c = CHR ''f'' then pack_number (\<lambda>x. Some (float_bytes K x)) K swap args
      else (case len_code c of
        Some m \<Rightarrow>
          (case check_string K args of
             None \<Rightarrow> Some No_arg
           | Some a \<Rightarrow> Some (Bytes (doswap swap (le_bytes m (length a)) @ a)))
      | None \<Rightarrow>
          (case int_code c of
             Some (m, sg) \<Rightarrow> pack_number (\<lambda>x. map_option (int_bytes m) (cast_int m sg x)) K swap args
           | None \<Rightarrow> Some P_bad)))"

datatype 'a pack_run = P_on 'a | P_error string

fun pack_rep ::
  "codec \<Rightarrow> char \<Rightarrow> nat \<Rightarrow> bool \<times> lua_value list \<times> string \<Rightarrow> (bool \<times> lua_value list \<times> string) pack_run option" where
  "pack_rep K c 0 st = Some (P_on st)"
| "pack_rep K c (Suc N) (swap, args, b) = do {
     r \<leftarrow> pack_op K c swap args;
     (case r of
        Bytes bs \<Rightarrow> pack_rep K c N (swap, tl args, b @ bs)
      | No_arg \<Rightarrow> Some (P_error ''bad argument'')
      | P_endian \<Rightarrow> Some (P_on (doendian c, args, b))
      | P_skip \<Rightarrow> pack_rep K c N (swap, args, b)
      | P_bad \<Rightarrow> Some (P_error (badcode c)))
   }"

fun pack_fmt :: "codec \<Rightarrow> string \<Rightarrow> bool \<times> lua_value list \<times> string \<Rightarrow> (string + string) option" where
  "pack_fmt K [] (swap, args, b) = Some (Inr b)"
| "pack_fmt K (c # f) st =
     (case parse_count f of (digits, N, f) \<Rightarrow>
        do {
          r \<leftarrow> pack_rep K c N st;
          (case r of P_on st \<Rightarrow> pack_fmt K f st | P_error e \<Rightarrow> Some (Inl e))
        })"

definition l_pack :: "codec \<Rightarrow> string \<Rightarrow> lua_value list \<Rightarrow> (string + string) option" where
  "l_pack K f args = pack_fmt K (cstr f) (False, args, [])"

section \<open>Bytes and numbers\<close>

lemma length_le_bytes [simp]: "length (le_bytes n k) = n"
  by (induction n arbitrary: k) simp_all

lemma le_value_bytes: "le_value (le_bytes n k) = k mod 256 ^ n"
proof (induction n arbitrary: k)
  case (Suc n)
  have "k mod 256 + 256 * (k div 256 mod 256 ^ n) = k mod (256 * 256 ^ n)"
    by (simp add: mod_mult2_eq)
  with Suc show ?case by simp
qed simp

lemma le_value_bytes_small: "k < 256 ^ n \<Longrightarrow> le_value (le_bytes n k) = k"
  by (simp add: le_value_bytes)

lemma length_int_bytes [simp]: "length (int_bytes m k) = m"
  by (simp add: int_bytes_def)

lemma int_value_bytes:
  assumes "int_range m sg k" and "0 < m"
  shows "int_value sg (int_bytes m k) = k"
proof -
  have p: "(256 :: nat) ^ m = 2 ^ (8 * m)" by (simp add: power_mult)
  have e: "(2 :: int) ^ (8 * m) = 2 * 2 ^ (8 * m - 1)"
    using assms(2) by (simp flip: power_Suc)
  have lt: "k mod 2 ^ (8 * m) < 2 ^ (8 * m)" by simp
  have "nat (k mod 2 ^ (8 * m)) < 256 ^ m" unfolding p using lt by (simp add: nat_less_iff)
  then have v: "int (le_value (int_bytes m k)) = k mod 2 ^ (8 * m)"
    by (simp add: int_bytes_def le_value_bytes_small)
  show ?thesis
  proof (cases "0 \<le> k")
    case True
    then have "k mod 2 ^ (8 * m) = k" using assms(1) e by (intro mod_pos_pos_trivial) (auto simp: int_range_def split: if_splits)
    with True assms(1) show ?thesis
      unfolding int_value_def Let_def v by (auto simp: int_bytes_def int_range_def split: if_splits)
  next
    case False
    then have s: "sg" "- (2 ^ (8 * m - 1)) \<le> k" using assms(1) by (auto simp: int_range_def split: if_splits)
    have "k mod 2 ^ (8 * m) = k + 2 ^ (8 * m)"
    proof -
      have "k mod 2 ^ (8 * m) = (k + 2 ^ (8 * m)) mod 2 ^ (8 * m)" by simp
      also have "\<dots> = k + 2 ^ (8 * m)" using False s(2) e by (intro mod_pos_pos_trivial) auto
      finally show ?thesis .
    qed
    with s e show ?thesis unfolding int_value_def Let_def v by (auto simp: int_bytes_def)
  qed
qed

section \<open>The swap loop reverses\<close>

lemma swap_loop_rev:
  "n = length b div 2 \<Longrightarrow> i = length p \<Longrightarrow> j = length p + length b - 1 \<Longrightarrow> length p = length q \<Longrightarrow>
   swap_loop n i j (p @ b @ q) = p @ rev b @ q"
proof (induction n arbitrary: i j p b q)
  case 0
  then have "length b = 0 \<or> length b = 1" by (auto simp: div_eq_0_iff less_2_cases_iff)
  then show ?case by (auto simp: length_Suc_conv)
next
  case (Suc n)
  from Suc.prems(1) have "2 \<le> length b" by (metis Suc_leI div_greater_zero_iff zero_less_Suc numeral_2_eq_2)
  then obtain x b' y where b: "b = x # b' @ [y]"
    by (cases b; cases "tl b" rule: rev_cases) auto
  have upd: "(p @ b @ q)[i := (p @ b @ q) ! j, j := (p @ b @ q) ! i] = (p @ [y]) @ b' @ (x # q)"
    using Suc.prems(2,3) by (simp add: b nth_append list_update_append)
  have "swap_loop n (Suc i) (j - 1) ((p @ [y]) @ b' @ (x # q)) = (p @ [y]) @ rev b' @ (x # q)"
    using Suc.prems b by (intro Suc.IH) auto
  then show ?case by (simp only: swap_loop.simps upd) (simp add: b)
qed

lemma doswap_rev: "doswap swap p = (if swap then rev p else p)"
  using swap_loop_rev[of "length p div 2" p 0 "[]" "length p - 1" "[]"] by (simp add: doswap_def)

lemma length_doswap [simp]: "length (doswap swap p) = length p"
  by (simp add: doswap_rev)

lemma doswap_twice [simp]: "doswap swap (doswap swap p) = p"
  by (simp add: doswap_rev)

section \<open>Unpacking what was packed\<close>

text \<open>
  A code and a value it can carry without loss, and the bytes it becomes: an integer in the range of the
  type that a \<open>double\<close> holds exactly, a string that \<open>z\<close> can end with a NUL or whose length fits, for \<open>A\<close>
  without a count a string of one byte. The floating-point codes, whose layout is a field of the record,
  are left out.
\<close>

definition item_ok :: "char \<times> lua_value \<Rightarrow> bool" where
  "item_ok cv = (case cv of (c, v) \<Rightarrow> (case v of
     LNumber x \<Rightarrow>
       (case int_code c of
          None \<Rightarrow> False
        | Some (m, sg) \<Rightarrow> x = of_int \<lfloor>x\<rfloor> \<and> int_range m sg \<lfloor>x\<rfloor> \<and> \<bar>\<lfloor>x\<rfloor>\<bar> \<le> 2 ^ 53)
   | LString t \<Rightarrow>
       (if c = CHR ''A'' then length t = 1
        else if c = CHR ''z'' then is_cstr t
        else (case len_code c of None \<Rightarrow> False | Some m \<Rightarrow> length t < 256 ^ m))
   | _ \<Rightarrow> False))"

definition item_bytes :: "bool \<Rightarrow> char \<times> lua_value \<Rightarrow> string" where
  "item_bytes swap cv = (case cv of (c, v) \<Rightarrow> (case v of
     LNumber x \<Rightarrow> (case int_code c of None \<Rightarrow> [] | Some (m, sg) \<Rightarrow> doswap swap (int_bytes m \<lfloor>x\<rfloor>))
   | LString t \<Rightarrow>
       (if c = CHR ''A'' then t
        else if c = CHR ''z'' then t @ [NUL]
        else (case len_code c of None \<Rightarrow> [] | Some m \<Rightarrow> doswap swap (le_bytes m (length t)) @ t))
   | _ \<Rightarrow> []))"

lemma int_code_cases:
  assumes "int_code c = Some (m, sg)"
  shows "c \<noteq> CHR ''<''" "c \<noteq> CHR ''>''" "c \<noteq> CHR ''=''" "c \<noteq> CHR ''A''" "c \<noteq> CHR ''z''" "c \<noteq> CHR '' ''" "c \<noteq> CHR '',''" "c \<noteq> CHR ''n''" "c \<noteq> CHR ''d''" "c \<noteq> CHR ''f''" "len_code c = None" "0 < m"
  using assms by (auto simp: int_code_def len_code_def split: if_splits)

lemma len_code_cases:
  assumes "len_code c = Some m"
  shows "c \<noteq> CHR ''<''" "c \<noteq> CHR ''>''" "c \<noteq> CHR ''=''" "c \<noteq> CHR ''A''" "c \<noteq> CHR ''z''" "c \<noteq> CHR '' ''" "c \<noteq> CHR '',''" "c \<noteq> CHR ''n''" "c \<noteq> CHR ''d''" "c \<noteq> CHR ''f''" "0 < m"
  using assms by (auto simp: len_code_def split: if_splits)

text \<open>The kinds of items.\<close>

lemma item_cases:
  assumes "item_ok (c, v)"
  obtains (int) k m sg where "int_code c = Some (m, sg)" and "v = LNumber (of_int k)" and "int_range m sg k" and "\<bar>k\<bar> \<le> 2 ^ 53"
  | (byte) t where "c = CHR ''A''" and "v = LString t" and "length t = 1"
  | (zstr) t where "c = CHR ''z''" and "v = LString t" and "is_cstr t"
  | (str) t m where "len_code c = Some m" and "v = LString t" and "length t < 256 ^ m"
proof (cases v)
  case (LNumber x)
  then obtain m sg where ms: "int_code c = Some (m, sg)" "x = of_int \<lfloor>x\<rfloor>" "int_range m sg \<lfloor>x\<rfloor>" "\<bar>\<lfloor>x\<rfloor>\<bar> \<le> 2 ^ 53"
    using assms by (auto simp: item_ok_def split: option.splits)
  then show thesis using int[OF ms(1) _ ms(3,4)] LNumber by simp
next
  case (LString t)
  then show thesis
    using assms byte[of t] zstr[of t] str[of _ t] by (auto simp: item_ok_def split: if_splits option.splits)
qed (use assms in \<open>simp_all add: item_ok_def\<close>)

lemma pack_item:
  assumes "item_ok (c, v)"
  shows "pack_op K c swap (v # args) = Some (Bytes (item_bytes swap (c, v)))"
  using assms
proof (cases rule: item_cases)
  case (int k m sg)
  have "cast_int m sg (of_int k) = Some k" using int(3) by (simp add: cast_int_def)
  with int int_code_cases[OF int(1)] show ?thesis
    by (simp add: pack_op_def pack_number_def check_number_def item_bytes_def)
next
  case (str t m)
  with len_code_cases[OF str(1)] show ?thesis by (simp add: pack_op_def check_string_def item_bytes_def)
qed (auto simp: pack_op_def check_string_def item_bytes_def)

lemma not_beyond: "length s < 2 ^ 31 \<Longrightarrow> k \<le> length s \<Longrightarrow> \<not> beyond s (int k)"
  by (simp add: beyond_def)

lemma bytes_at_pre: "bytes_at (pre @ b @ post) (int (length pre)) (length b) = Some b"
  by (simp add: bytes_at_def)

lemma unpack_number_item:
  assumes "length b = m" and "length (pre @ b @ post) < 2 ^ 31"
  shows "unpack_number decode m (pre @ b @ post) swap (int (length pre)) =
    Some (Value (LNumber (decode (doswap swap b))) (int (length pre) + int m))"
  using not_beyond[OF assms(2), of "length pre + length b"] bytes_at_pre[of pre b post] assms(1)
  by (simp add: unpack_number_def)

lemma unpack_string_item:
  assumes "length t < 256 ^ m" and "length (pre @ doswap swap (le_bytes m (length t)) @ t @ post) < 2 ^ 31"
  shows "unpack_string m (pre @ doswap swap (le_bytes m (length t)) @ t @ post) swap (int (length pre)) =
    Some (Value (LString t) (int (length pre) + int m + int (length t)))"
proof -
  let ?l = "doswap swap (le_bytes m (length t))"
  let ?s = "pre @ ?l @ t @ post"
  have "\<not> beyond ?s (int (length pre) + int m)" "\<not> beyond ?s (int (length pre) + int m + int (length t))"
    using not_beyond[OF assms(2), of "length pre + m"] not_beyond[OF assms(2), of "length pre + m + length t"] by simp_all
  moreover have "bytes_at ?s (int (length pre)) m = Some ?l" using bytes_at_pre[of pre ?l "t @ post"] by simp
  moreover have "bytes_at ?s (int (length pre) + int m) (length t) = Some t"
    using bytes_at_pre[of "pre @ ?l" t post] by simp
  ultimately show ?thesis using assms(1) by (simp add: unpack_string_def le_value_bytes_small)
qed

lemma unpack_item:
  assumes "item_ok (c, v)" and "length (pre @ item_bytes swap (c, v) @ post) < 2 ^ 31"
  shows "unpack_op K (pre @ item_bytes swap (c, v) @ post) c 1 swap (int (length pre)) =
    Some (Value v (int (length pre) + int (length (item_bytes swap (c, v)))))"
  using assms(1)
proof (cases rule: item_cases)
  case (int k m sg)
  note o = int_code_cases[OF int(1)]
  from int o have b: "item_bytes swap (c, v) = doswap swap (int_bytes m k)" by (simp add: item_bytes_def)
  have l: "length (doswap swap (int_bytes m k)) = m" by (simp add: int_bytes_def)
  from int(1,2,4) o show ?thesis
    unfolding b
    by (simp add: unpack_op_def unpack_number_item[OF l assms(2)[unfolded b]] int_value_bytes[OF int(3)] l to_double_def)
next
  case (byte t)
  then have b: "item_bytes swap (c, v) = t" by (simp add: item_bytes_def)
  have "\<not> beyond (pre @ t @ post) (int (length pre) + 1)"
    using not_beyond[of "pre @ t @ post" "length pre + 1"] assms(2) byte(3) by (simp add: b add.commute)
  then show ?thesis using bytes_at_pre[of pre t post] byte unfolding b by (simp add: unpack_op_def)
next
  case (zstr t)
  then have b: "item_bytes swap (c, v) = t @ [NUL]" by (simp add: item_bytes_def)
  have "\<not> int (length (pre @ (t @ [NUL]) @ post)) \<le> int (length pre) mod 2 ^ 64" using assms(2) by (simp add: b)
  then show ?thesis using zstr unfolding b by (simp add: unpack_op_def Let_def)
next
  case (str t m)
  note o = len_code_cases[OF str(1)]
  from str o have b: "item_bytes swap (c, v) = doswap swap (le_bytes m (length t)) @ t" by (simp add: item_bytes_def)
  from unpack_string_item[OF str(3), of pre swap post] assms(2) str(1,2) o show ?thesis
    unfolding b by (simp add: unpack_op_def)
qed

lemma parse_count_one: "f = [] \<or> \<not> isdigit (hd f) \<Longrightarrow> parse_count f = (False, 1, f)"
  by (cases f) (auto simp: parse_count_def Let_def)

lemma item_not_digit: "item_ok (c, v) \<Longrightarrow> \<not> isdigit c"
  by (auto simp: item_ok_def isdigit_def int_code_def len_code_def split: lua_value.splits if_splits)

lemma parse_items: "\<forall>cv \<in> set items. item_ok cv \<Longrightarrow> parse_count (map fst items) = (False, 1, map fst items)"
  by (rule parse_count_one) (cases items, auto dest!: item_not_digit)

lemma pack_items:
  "\<forall>cv \<in> set items. item_ok cv \<Longrightarrow>
   pack_fmt K (map fst items) (swap, map snd items, b) = Some (Inr (b @ concat (map (item_bytes swap) items)))"
proof (induction items arbitrary: b)
  case (Cons cv items)
  obtain c v where cv: "cv = (c, v)" by (cases cv)
  have "pack_rep K c 1 (swap, v # map snd items, b) = Some (P_on (swap, map snd items, b @ item_bytes swap (c, v)))"
    using pack_item[of c v K swap] Cons.prems cv by simp
  with Cons parse_items[of items] cv show ?case by simp
qed simp

lemma unpack_items:
  assumes "\<forall>cv \<in> set items. item_ok cv" and "length (pre @ concat (map (item_bytes swap) items)) < 2 ^ 31"
  shows "unpack_fmt K (pre @ concat (map (item_bytes swap) items)) (map fst items) (swap, int (length pre), vs) =
    Some (Inr (int (length (pre @ concat (map (item_bytes swap) items))), vs @ map snd items))"
  using assms
proof (induction items arbitrary: pre vs)
  case (Cons cv items)
  obtain c v where cv: "cv = (c, v)" by (cases cv)
  let ?b = "item_bytes swap (c, v)"
  let ?r = "concat (map (item_bytes swap) items)"
  have op: "unpack_op K (pre @ ?b @ ?r) c 1 swap (int (length pre)) = Some (Value v (int (length (pre @ ?b))))"
    using unpack_item[of c v pre swap ?r K] Cons.prems cv by simp
  then have "unpack_rep K (pre @ ?b @ ?r) c 1 (swap, int (length pre), vs) =
      Some (On (swap, int (length (pre @ ?b)), vs @ [v]))" by simp
  moreover have "unpack_fmt K ((pre @ ?b) @ ?r) (map fst items) (swap, int (length (pre @ ?b)), vs @ [v]) =
      Some (Inr (int (length ((pre @ ?b) @ ?r)), (vs @ [v]) @ map snd items))"
    using Cons.prems cv by (intro Cons.IH) simp_all
  ultimately show ?case using parse_items[of items] Cons.prems(1) cv by simp
qed simp

section \<open>Properties\<close>

text \<open>
  (C16) Unpacking undoes packing: for any byte order and any sequence of integer and string codes, written
  without repetition counts, with values that they can carry without loss, \<open>l_pack\<close> returns bytes, and
  \<open>l_unpack\<close> with the same format returns the position after them and the values.
\<close>

theorem pack_roundtrip:
  assumes "\<forall>cv \<in> set items. item_ok cv" and "e \<in> set ''<>=''"
    and "length (concat (map (item_bytes (doendian e)) items)) < 2 ^ 31"
  shows "\<exists>bs. l_pack K (e # map fst items) (map snd items) = Some (Inr bs) \<and>
    l_unpack K bs (e # map fst items) 1 = Some (Inr (LNumber (real (length bs) + 1) # map snd items))"
proof -
  let ?bs = "concat (map (item_bytes (doendian e)) items)"
  have nn: "\<not> isdigit e" "e \<noteq> NUL" using assms(2) by (auto simp: isdigit_def)
  have "c \<noteq> NUL" if "item_ok (c, v)" for c v
    using that by (auto simp: item_ok_def int_code_def len_code_def split: lua_value.splits if_splits)
  then have "is_cstr (map fst items)" using assms(1) by (fastforce simp: is_cstr_def)
  then have f: "cstr (e # map fst items) = e # map fst items" using nn(2) by simp
  note p = parse_items[OF assms(1)]
  have "pack_rep K e 1 (False, map snd items, []) = Some (P_on (doendian e, map snd items, []))"
    using assms(2) by (auto simp: pack_op_def)
  then have pack: "l_pack K (e # map fst items) (map snd items) = Some (Inr ?bs)"
    unfolding l_pack_def f using p pack_items[OF assms(1), of K "doendian e" "[]"] by simp
  have "unpack_rep K ?bs e 1 (False, 0, []) = Some (On (doendian e, 0, []))"
    using assms(2) by (auto simp: unpack_op_def)
  then have "unpack_fmt K ?bs (e # map fst items) (False, 0, []) = Some (Inr (int (length ?bs), map snd items))"
    using p unpack_items[OF assms(1), of "[]" "doendian e" K "[]"] assms(3) by simp
  then have "l_unpack K ?bs (e # map fst items) 1 = Some (Inr (LNumber (real (length ?bs) + 1) # map snd items))"
    unfolding l_unpack_def f by simp
  with pack show ?thesis by blast
qed

definition example_codec :: codec where
  "example_codec = \<lparr>double_bytes = (\<lambda>_. replicate 8 NUL), double_value = (\<lambda>_. 0), float_bytes = (\<lambda>_. replicate 4 NUL),
     float_value = (\<lambda>_. 0), text_number = (\<lambda>_. None), number_text = (\<lambda>_. [])\<rparr>"

theorem pack_roundtrip_witness:
  "\<exists>bs. l_pack example_codec ''>hpAlz'' [LNumber (-2), LString ''ab'', LString ''x'', LNumber 5000000000, LString ''c''] = Some (Inr bs) \<and>
    l_unpack example_codec bs ''>hpAlz'' 1 =
      Some (Inr (LNumber (real (length bs) + 1) # [LNumber (-2), LString ''ab'', LString ''x'', LNumber 5000000000, LString ''c'']))"
  using pack_roundtrip[of "[(CHR ''h'', LNumber (-2)), (CHR ''p'', LString ''ab''), (CHR ''A'', LString ''x''),
      (CHR ''l'', LNumber 5000000000), (CHR ''z'', LString ''c'')]" "CHR ''>''" example_codec]
  by (simp add: item_ok_def item_bytes_def int_code_def len_code_def int_range_def)

lemma le_value_less: "le_value bs < 256 ^ length bs"
proof (induction bs)
  case (Cons c cs)
  define x :: nat where "x = of_char c"
  have "x < 256" unfolding x_def by (metis of_char_mod_256 mod_less_divisor zero_less_numeral)
  with Cons have "x + 256 * le_value cs < 256 * 256 ^ length cs" by simp
  then show ?case by (simp add: x_def)
qed simp

definition good_step :: "unpack_step option \<Rightarrow> bool" where
  "good_step r0 = (case r0 of None \<Rightarrow> False | Some r \<Rightarrow> (\<forall>v j. r = Value v j \<longrightarrow> 0 \<le> j \<and> j < 2 ^ 32))"

lemma good_if: "good_step x \<Longrightarrow> good_step y \<Longrightarrow> good_step (if b then x else y)"
  by simp

lemma unpack_op_in_bounds:
  assumes "0 \<le> i" and "i < 2 ^ 32" and "length s < 2 ^ 31" and "c \<noteq> CHR ''a''"
  shows "good_step (unpack_op K s c 1 swap i)"
proof -
  have m: "(i + int k) mod 2 ^ 64 = i + int k" if "k \<le> 2 ^ 17" for k
    using assms(1,2) that by (intro mod_pos_pos_trivial) auto
  have number: "good_step (unpack_number d k s swap i)" if "k \<le> 8" for d k
    using m[of k] that assms(1,3) by (auto simp: good_step_def unpack_number_def beyond_def bytes_at_def)
  have str: "good_step (unpack_string k s swap i)" if k: "k \<le> 2" for k
  proof (cases "beyond s (i + int k)")
    case False
    have fit: "i + int k \<le> int (length s)" using False m[of k] k by (simp add: beyond_def)
    define l where "l = le_value (doswap swap (take k (drop (nat i) s)))"
    have b: "bytes_at s i k = Some (take k (drop (nat i) s))" using fit assms(1) by (simp add: bytes_at_def)
    have "l < 256 ^ length (doswap swap (take k (drop (nat i) s)))" unfolding l_def by (rule le_value_less)
    also have "\<dots> \<le> 256 ^ 2" using k by (intro power_increasing) simp_all
    finally have "(i + int (k + l)) mod 2 ^ 64 = i + int (k + l)" using k by (intro m) simp
    then show ?thesis using False b assms(1,3)
      by (auto simp: good_step_def unpack_string_def l_def[symmetric] beyond_def bytes_at_def)
  qed (simp add: good_step_def unpack_string_def)
  have z: "i mod 2 ^ 64 = i" using m[of 0] by simp
  have len: "len_code c = Some k \<Longrightarrow> k \<le> 2" "int_code c = Some (k, sg) \<Longrightarrow> k \<le> 8" for k sg
    using assms(4) by (auto simp: len_code_def int_code_def split: if_splits)
  have A: "good_step (if beyond s (i + int 1) then Some Finish
      else do { t \<leftarrow> bytes_at s i 1; Some (Value (LString t) (i + int 1)) })"
    using m[of 1] assms(1,3) by (auto simp: good_step_def beyond_def bytes_at_def)
  have Z: "good_step (if int (length s) \<le> i mod 2 ^ 64 then Some Finish
      else let t = cstr (drop (nat i) s) in Some (Value (LString t) (i + int (length t) + 1)))"
    using length_cstr_le[of "drop (nat i) s"] assms(1,3) unfolding z Let_def by (auto simp: good_step_def)
  have D: "good_step (case len_code c of Some m \<Rightarrow> unpack_string m s swap i | None \<Rightarrow>
      (case int_code c of Some (m, sg) \<Rightarrow> unpack_number (\<lambda>bs. of_int (to_double (int_value sg bs))) m s swap i
       | None \<Rightarrow> Some Badcode))"
  proof (cases "len_code c")
    case None
    then show ?thesis
      by (cases "int_code c") (auto simp: good_step_def[of "Some _"] intro: number len)
  qed (auto intro: str len)
  have T: "good_step (Some Finish)" "good_step (Some Endian)" "good_step (Some Skip)" by (simp_all add: good_step_def)
  show ?thesis
    unfolding unpack_op_def
    by (rule good_if[OF T(2) good_if[OF A good_if[OF Z good_if[OF T(3) good_if[OF number good_if[OF number D]]]]]]) simp_all
qed

lemma unpack_fmt_in_bounds:
  assumes "length s < 2 ^ 31"
  shows "0 \<le> i \<Longrightarrow> i < 2 ^ 32 \<Longrightarrow> \<forall>c \<in> set f. c \<noteq> CHR ''a'' \<and> \<not> isdigit c \<Longrightarrow>
    unpack_fmt K s f (swap, i, vs) \<noteq> None"
proof (induction f arbitrary: swap i vs)
  case (Cons c f)
  have p: "parse_count f = (False, 1, f)" using Cons.prems(3) by (intro parse_count_one) (cases f, auto)
  obtain r where r: "unpack_op K s c 1 swap i = Some r" "\<And>v j. r = Value v j \<Longrightarrow> 0 \<le> j \<and> j < 2 ^ 32"
    using unpack_op_in_bounds[OF Cons.prems(1,2) assms, of c K swap] Cons.prems(3)
    by (auto simp: good_step_def split: option.splits)
  show ?case
  proof (cases r)
    case (Value v j)
    with r Cons p show ?thesis by auto
  qed (use r Cons p in auto)
qed simp

text \<open>
  \<open>l_unpack\<close> stays inside the string: from a position in or after the string, and for any format without
  repetition counts and without the code \<open>a\<close>, no byte outside of the string is read, whatever the string
  holds.
\<close>

theorem unpack_in_bounds:
  assumes "1 \<le> init" and "init < 2 ^ 31" and "length s < 2 ^ 31" and "\<forall>c \<in> set f. c \<noteq> CHR ''a'' \<and> \<not> isdigit c"
  shows "l_unpack K s f init \<noteq> None"
proof -
  have "\<forall>c \<in> set (cstr f). c \<noteq> CHR ''a'' \<and> \<not> isdigit c" using assms(4) by (auto simp: cstr_def dest: set_takeWhileD)
  then show ?thesis using unpack_fmt_in_bounds[OF assms(3), of "init - 1" "cstr f"] assms(1,2) by (simp add: l_unpack_def)
qed

theorem unpack_in_bounds_witness: "l_unpack example_codec ''abc'' ''Pzb'' 2 \<noteq> None"
  by (rule unpack_in_bounds) (simp_all add: isdigit_def)

text \<open>
  The code \<open>a\<close> trusts a length of eight bytes: a sum that wraps around passes the test, and the string is read
  far beyond its end. A start position of 0 reads the byte before the string.
\<close>

lemma unpack_length_wraps:
  "l_unpack K [CHR 0xFF, CHR 0xFF, CHR 0xFF, CHR 0xFF, CHR 0xFF, CHR 0xFF, CHR 0xFF, CHR 0xFF] ''a'' 1 = None"
  by (simp add: l_unpack_def parse_count_def unpack_op_def len_code_def unpack_string_def beyond_def bytes_at_def
      doswap_def cstr_def)

lemma unpack_before_start: "s \<noteq> [] \<Longrightarrow> l_unpack K s ''b'' 0 = None"
  by (cases s) (simp_all add: l_unpack_def parse_count_def unpack_op_def len_code_def int_code_def unpack_number_def
      beyond_def bytes_at_def cstr_def)

end
