(* ===== verification/Lua_Socket.thy ===== *)
theory Lua_Socket
  imports Complex_Main Equus_Prelude
begin

text \<open>
  The sockets under the HTTP client of the agent: the error codes of \<open>io.c\<close>, the time limits of
  \<open>timeout.c\<close> and the Unix transport of \<open>usocket.c\<close>, all in \<open>extern/luasocket/src\<close>.

  The operating system is a list of answers per system call: what \<open>read\<close>, \<open>send\<close>, \<open>connect\<close>, \<open>accept\<close> and
  \<open>select\<close> return. A call for which there is no answer blocks forever, which is the result \<^term>\<open>None\<close>. The
  clock shows one time per call of \<open>gettimeofday\<close>. Doubles are rational numbers computed exactly.
\<close>

section \<open>Error codes\<close>

abbreviation (input) IO_DONE :: int where "IO_DONE \<equiv> 0"
abbreviation (input) IO_TIMEOUT :: int where "IO_TIMEOUT \<equiv> - 1"
abbreviation (input) IO_CLOSED :: int where "IO_CLOSED \<equiv> - 2"
abbreviation (input) IO_UNKNOWN :: int where "IO_UNKNOWN \<equiv> - 3"

definition io_strerror :: "int \<Rightarrow> string option" where
  "io_strerror err =
     (if err = IO_DONE then None
      else if err = IO_CLOSED then Some ''closed''
      else if err = IO_TIMEOUT then Some ''timeout''
      else Some ''unknown error'')"

text \<open>The error numbers of Linux.\<close>

abbreviation (input) E_INTR :: int where "E_INTR \<equiv> 4"
abbreviation (input) E_AGAIN :: int where "E_AGAIN \<equiv> 11"
abbreviation (input) E_ACCES :: int where "E_ACCES \<equiv> 13"
abbreviation (input) E_PIPE :: int where "E_PIPE \<equiv> 32"
abbreviation (input) E_ADDRINUSE :: int where "E_ADDRINUSE \<equiv> 98"
abbreviation (input) E_CONNABORTED :: int where "E_CONNABORTED \<equiv> 103"
abbreviation (input) E_CONNRESET :: int where "E_CONNRESET \<equiv> 104"
abbreviation (input) E_ISCONN :: int where "E_ISCONN \<equiv> 106"
abbreviation (input) E_TIMEDOUT :: int where "E_TIMEDOUT \<equiv> 110"
abbreviation (input) E_CONNREFUSED :: int where "E_CONNREFUSED \<equiv> 111"
abbreviation (input) E_INPROGRESS :: int where "E_INPROGRESS \<equiv> 115"

section \<open>The operating system\<close>

text \<open>A chunk that has arrived is not empty; a \<open>read\<close> takes what fits.\<close>

datatype rx = Rx_data char string | Eof | Rx_fail int

text \<open>\<open>send\<close> accepts some bytes, at most one more than the number.\<close>

datatype tx = Accepts nat | Tx_fail int

text \<open>\<open>select\<close> reports the socket, readable or not, or that the time is over, or fails.\<close>

datatype wait = Ready bool | Expired | Wait_fail int

text \<open>
  A socket: whether the variable of the program holds a descriptor, whether that is open in the kernel, its
  mode, what the kernel will answer, and what has been sent.
\<close>

record sock =
  fd_valid :: bool
  fd_open :: bool
  non_blocking :: bool
  rxs :: "rx list"
  txs :: "tx list"
  waits :: "wait list"
  connects :: "int list"
  accepts :: "(nat + int) list"
  sent_bytes :: string
  clock_time :: "nat \<Rightarrow> int \<times> int"
  clock_reads :: nat
  select_limits :: "(int \<times> int) option list"
  sock_errno :: int

definition sys_read :: "nat \<Rightarrow> sock \<Rightarrow> (int \<times> string \<times> sock) option" where
  "sys_read count s =
     (case rxs s of
        [] \<Rightarrow> None
      | Rx_data c cs # r \<Rightarrow>
          Some (int (min count (Suc (length cs))), take count (c # cs),
                s\<lparr>rxs := (case drop count (c # cs) of [] \<Rightarrow> r | d # ds \<Rightarrow> Rx_data d ds # r)\<rparr>)
      | Eof # r \<Rightarrow> Some (0, [], s)
      | Rx_fail e # r \<Rightarrow> Some (- 1, [], s\<lparr>rxs := r, sock_errno := e\<rparr>))"

definition sys_send :: "string \<Rightarrow> sock \<Rightarrow> (int \<times> sock) option" where
  "sys_send bytes s =
     (case txs s of
        [] \<Rightarrow> None
      | Accepts n # r \<Rightarrow>
          Some (int (min (Suc n) (length bytes)),
                s\<lparr>txs := r, sent_bytes := sent_bytes s @ take (Suc n) bytes\<rparr>)
      | Tx_fail e # r \<Rightarrow> Some (- 1, s\<lparr>txs := r, sock_errno := e\<rparr>))"

definition sys_select :: "(int \<times> int) option \<Rightarrow> sock \<Rightarrow> (int \<times> bool \<times> sock) option" where
  "sys_select tp s =
     (case waits s of
        [] \<Rightarrow> None
      | w # r \<Rightarrow>
          let s = s\<lparr>waits := r, select_limits := select_limits s @ [tp]\<rparr> in
          Some (case w of
              Ready readable \<Rightarrow> (1, readable, s)
            | Expired \<Rightarrow> (0, False, s)
            | Wait_fail e \<Rightarrow> (- 1, False, s\<lparr>sock_errno := e\<rparr>)))"

section \<open>Time limits\<close>

record t_timeout =
  tm_block :: rat
  tm_total :: rat
  tm_start :: rat

definition timeout_init :: "rat \<Rightarrow> rat \<Rightarrow> t_timeout \<Rightarrow> t_timeout" where
  "timeout_init bl tot tm = tm\<lparr>tm_block := bl, tm_total := tot\<rparr>"

definition timeout_gettime :: "sock \<Rightarrow> rat \<times> sock" where
  "timeout_gettime s =
     (let (sec, usec) = clock_time s (clock_reads s)
      in (of_int sec + of_int usec / 1000000, s\<lparr>clock_reads := Suc (clock_reads s)\<rparr>))"

definition timeout_get :: "t_timeout \<Rightarrow> sock \<Rightarrow> rat \<times> sock" where
  "timeout_get tm s =
     (if tm_block tm < 0 \<and> tm_total tm < 0 then (- 1, s)
      else if tm_block tm < 0 then
        let (now, s) = timeout_gettime s; t = tm_total tm - now + tm_start tm in (max t 0, s)
      else if tm_total tm < 0 then (tm_block tm, s)
      else
        let (now, s) = timeout_gettime s; t = tm_total tm - now + tm_start tm
        in (min (tm_block tm) (max t 0), s))"

definition timeout_getstart :: "t_timeout \<Rightarrow> rat" where
  "timeout_getstart tm = tm_start tm"

definition timeout_getretry :: "t_timeout \<Rightarrow> sock \<Rightarrow> rat \<times> sock" where
  "timeout_getretry tm s =
     (if tm_block tm < 0 \<and> tm_total tm < 0 then (- 1, s)
      else if tm_block tm < 0 then
        let (now, s) = timeout_gettime s; t = tm_total tm - now + tm_start tm in (max t 0, s)
      else if tm_total tm < 0 then
        let (now, s) = timeout_gettime s; t = tm_block tm - now + tm_start tm in (max t 0, s)
      else
        let (now, s) = timeout_gettime s; t = tm_total tm - now + tm_start tm
        in (min (tm_block tm) (max t 0), s))"

text \<open>\<open>now\<close> is what \<open>timeout_gettime\<close> returns.\<close>

definition timeout_markstart :: "rat \<Rightarrow> t_timeout \<Rightarrow> t_timeout" where
  "timeout_markstart now tm = tm\<lparr>tm_start := now\<rparr>"

definition timeout_iszero :: "t_timeout \<Rightarrow> bool" where
  "timeout_iszero tm \<longleftrightarrow> tm_block tm = 0"

text \<open>\<open>None\<close> is the error raised for another mode; the C string ends with a NUL.\<close>

definition timeout_meth_settimeout :: "rat option \<Rightarrow> string option \<Rightarrow> t_timeout \<Rightarrow> t_timeout option" where
  "timeout_meth_settimeout arg2 arg3 tm =
     (let t = (case arg2 of None \<Rightarrow> - 1 | Some t \<Rightarrow> t);
          mode = (case arg3 of None \<Rightarrow> ''b'' | Some m \<Rightarrow> m) @ [NUL]
      in if hd mode = CHR ''b'' then Some (tm\<lparr>tm_block := t\<rparr>)
         else if hd mode = CHR ''r'' \<or> hd mode = CHR ''t'' then Some (tm\<lparr>tm_total := t\<rparr>)
         else None)"

section \<open>Waiting for a socket\<close>

datatype waitfd = WAITFD_R | WAITFD_W | WAITFD_C

definition timeval :: "rat \<Rightarrow> (int \<times> int) option" where
  "timeval t = (if t \<ge> 0 then Some (\<lfloor>t\<rfloor>, \<lfloor>(t - of_int \<lfloor>t\<rfloor>) * 1000000\<rfloor>) else None)"

lemma gettime_state: "snd (timeout_gettime s) = s\<lparr>clock_reads := Suc (clock_reads s)\<rparr>"
  by (simp add: timeout_gettime_def split: prod.split)

text \<open>Asking for the time left changes nothing but the number of looks at the clock.\<close>

lemma getretry_state: "\<exists>n. snd (timeout_getretry tm s) = s\<lparr>clock_reads := n\<rparr>"
proof -
  have "snd (timeout_getretry tm s) = s \<or>
      snd (timeout_getretry tm s) = s\<lparr>clock_reads := Suc (clock_reads s)\<rparr>"
    by (simp add: timeout_getretry_def Let_def case_prod_unfold gettime_state)
  moreover have "s = s\<lparr>clock_reads := clock_reads s\<rparr>" by simp
  ultimately show ?thesis by metis
qed

lemma getretry_waits [simp]: "waits (snd (timeout_getretry tm s)) = waits s"
  using getretry_state[of tm s] by auto

lemma sys_select_waits: "sys_select tp s = Some (ret, rd, s') \<Longrightarrow> length (waits s') < length (waits s)"
  by (auto simp: sys_select_def Let_def split: list.splits wait.splits)

function wait_loop :: "t_timeout \<Rightarrow> sock \<Rightarrow> (int \<times> bool \<times> sock) option" where
  "wait_loop tm s =
     (let (t, s1) = timeout_getretry tm s in
      case sys_select (timeval t) s1 of
        None \<Rightarrow> None
      | Some (ret, readable, s2) \<Rightarrow>
          if ret = - 1 \<and> sock_errno s2 = E_INTR then wait_loop tm s2 else Some (ret, readable, s2))"
  by pat_completeness auto

termination
  by (relation "measure (\<lambda>(tm, s). length (waits s))")
    (auto dest!: sys_select_waits simp: prod_eq_iff)

declare wait_loop.simps [simp del]

definition socket_waitfd :: "waitfd \<Rightarrow> t_timeout \<Rightarrow> sock \<Rightarrow> (int \<times> sock) option" where
  "socket_waitfd sw tm s =
     (if timeout_iszero tm then Some (IO_TIMEOUT, s)
      else case wait_loop tm s of
        None \<Rightarrow> None
      | Some (ret, readable, s) \<Rightarrow>
          Some (if ret = - 1 then sock_errno s
                else if ret = 0 then IO_TIMEOUT
                else if sw = WAITFD_C \<and> readable then IO_CLOSED
                else IO_DONE, s))"

text \<open>Waiting takes answers of \<open>select\<close> and nothing else.\<close>

lemma wait_loop_frame: "wait_loop tm s = Some (ret, rd, s') \<Longrightarrow>
  rxs s' = rxs s \<and> txs s' = txs s \<and> connects s' = connects s \<and> accepts s' = accepts s \<and>
  sent_bytes s' = sent_bytes s \<and> fd_valid s' = fd_valid s"
proof (induction tm s rule: wait_loop.induct)
  case (1 tm s)
  obtain t s1 where t: "timeout_getretry tm s = (t, s1)" by (cases "timeout_getretry tm s")
  from getretry_state[of tm s] t obtain n where s1: "s1 = s\<lparr>clock_reads := n\<rparr>" by auto
  from 1(2) t obtain ret2 rd2 s2 where s2: "sys_select (timeval t) s1 = Some (ret2, rd2, s2)"
    by (subst (asm) wait_loop.simps) (auto split: option.splits)
  then have f: "rxs s2 = rxs s \<and> txs s2 = txs s \<and> connects s2 = connects s \<and> accepts s2 = accepts s \<and>
      sent_bytes s2 = sent_bytes s \<and> fd_valid s2 = fd_valid s"
    by (auto simp: sys_select_def s1 Let_def split: list.splits wait.splits)
  show ?case
  proof (cases "ret2 = - 1 \<and> sock_errno s2 = E_INTR")
    case True
    with 1(2) t s2 have "wait_loop tm s2 = Some (ret, rd, s')" by (subst (asm) wait_loop.simps) auto
    with 1(1)[OF t[symmetric] refl s2 refl refl True] f show ?thesis by simp
  next
    case False
    with 1(2) t s2 f show ?thesis by (subst (asm) wait_loop.simps) auto
  qed
qed

lemma waitfd_frame: "socket_waitfd sw tm s = Some (e, s') \<Longrightarrow>
  rxs s' = rxs s \<and> txs s' = txs s \<and> connects s' = connects s \<and> accepts s' = accepts s \<and>
  sent_bytes s' = sent_bytes s \<and> fd_valid s' = fd_valid s"
  by (auto simp: socket_waitfd_def dest: wait_loop_frame split: if_splits option.splits)

section \<open>Receiving and sending\<close>

lemma sys_read_rxs: "sys_read count s = Some (taken, bytes, s') \<Longrightarrow> taken < 0 \<Longrightarrow> length (rxs s') < length (rxs s)"
  by (auto simp: sys_read_def split: list.splits rx.splits)

function recv_loop :: "nat \<Rightarrow> t_timeout \<Rightarrow> sock \<Rightarrow> (int \<times> string \<times> sock) option" where
  "recv_loop count tm s =
     (case sys_read count s of
        None \<Rightarrow> None
      | Some (taken, bytes, s) \<Rightarrow>
          if taken > 0 then Some (IO_DONE, bytes, s)
          else
            let err = sock_errno s in
            if taken = 0 then Some (IO_CLOSED, [], s)
            else if err = E_INTR then recv_loop count tm s
            else if err \<noteq> E_AGAIN then Some (err, [], s)
            else
              (case socket_waitfd WAITFD_R tm s of
                 None \<Rightarrow> None
               | Some (err, s) \<Rightarrow> if err \<noteq> IO_DONE then Some (err, [], s) else recv_loop count tm s))"
  by pat_completeness auto

termination
  by (relation "measure (\<lambda>(count, tm, s). length (rxs s))")
    (auto dest!: waitfd_frame sys_read_rxs)

definition socket_recv :: "nat \<Rightarrow> t_timeout \<Rightarrow> sock \<Rightarrow> (int \<times> string \<times> sock) option" where
  "socket_recv count tm s =
     (if \<not> fd_valid s then Some (IO_CLOSED, [], s) else recv_loop count tm s)"

lemma sys_send_txs: "sys_send bytes s = Some (put, s') \<Longrightarrow> length (txs s') < length (txs s)"
  by (auto simp: sys_send_def split: list.splits tx.splits)

function send_loop :: "string \<Rightarrow> t_timeout \<Rightarrow> sock \<Rightarrow> (int \<times> nat \<times> sock) option" where
  "send_loop bytes tm s =
     (case sys_send bytes s of
        None \<Rightarrow> None
      | Some (put, s) \<Rightarrow>
          if put > 0 then Some (IO_DONE, nat put, s)
          else
            let err = sock_errno s in
            if put = 0 \<or> err = E_PIPE then Some (IO_CLOSED, 0, s)
            else if err = E_INTR then send_loop bytes tm s
            else if err \<noteq> E_AGAIN then Some (err, 0, s)
            else
              (case socket_waitfd WAITFD_W tm s of
                 None \<Rightarrow> None
               | Some (err, s) \<Rightarrow> if err \<noteq> IO_DONE then Some (err, 0, s) else send_loop bytes tm s))"
  by pat_completeness auto

termination
  by (relation "measure (\<lambda>(bytes, tm, s). length (txs s))")
    (auto dest!: waitfd_frame sys_send_txs)

definition socket_send :: "string \<Rightarrow> t_timeout \<Rightarrow> sock \<Rightarrow> (int \<times> nat \<times> sock) option" where
  "socket_send bytes tm s =
     (if \<not> fd_valid s then Some (IO_CLOSED, 0, s) else send_loop bytes tm s)"

declare recv_loop.simps [simp del] send_loop.simps [simp del]

section \<open>Connections\<close>

definition socket_setblocking :: "sock \<Rightarrow> sock" where
  "socket_setblocking s = s\<lparr>non_blocking := False\<rparr>"

definition socket_setnonblocking :: "sock \<Rightarrow> sock" where
  "socket_setnonblocking s = s\<lparr>non_blocking := True\<rparr>"

definition sys_close :: "sock \<Rightarrow> sock" where
  "sys_close s = s\<lparr>fd_open := False\<rparr>"

definition socket_destroy :: "sock \<Rightarrow> sock" where
  "socket_destroy s =
     (if fd_valid s then
        let s = socket_setblocking s;
            s = sys_close s
        in s\<lparr>fd_valid := False\<rparr>
      else s)"

text \<open>\<open>connect\<close>, and later the \<open>recv\<close> of no bytes that tells how a connection ended: 0 or the error.\<close>

definition sys_connect :: "sock \<Rightarrow> (int \<times> sock) option" where
  "sys_connect s =
     (case connects s of
        [] \<Rightarrow> None
      | e # r \<Rightarrow> Some (if e = 0 then 0 else - 1, s\<lparr>connects := r, sock_errno := (if e = 0 then sock_errno s else e)\<rparr>))"

lemma sys_connect_shorter: "sys_connect s = Some (ret, s') \<Longrightarrow> length (connects s') < length (connects s)"
  by (auto simp: sys_connect_def split: list.splits)

text \<open>The loop around \<open>connect\<close>: \<^term>\<open>IO_DONE\<close>, or the error it ends with.\<close>

function connect_loop :: "sock \<Rightarrow> (int \<times> sock) option" where
  "connect_loop s =
     (case sys_connect s of
        None \<Rightarrow> None
      | Some (ret, s) \<Rightarrow>
          if ret = 0 then Some (IO_DONE, s)
          else if sock_errno s = E_INTR then connect_loop s
          else Some (sock_errno s, s))"
  by pat_completeness auto

termination
  by (relation "measure (\<lambda>s. length (connects s))") (auto dest!: sys_connect_shorter)

declare connect_loop.simps [simp del]

definition socket_connect :: "t_timeout \<Rightarrow> sock \<Rightarrow> (int \<times> sock) option" where
  "socket_connect tm s =
     (if \<not> fd_valid s then Some (IO_CLOSED, s)
      else case connect_loop s of
        None \<Rightarrow> None
      | Some (err, s) \<Rightarrow>
          if err = IO_DONE then Some (IO_DONE, s)
          else if err \<noteq> E_INPROGRESS \<and> err \<noteq> E_AGAIN then Some (err, s)
          else if timeout_iszero tm then Some (IO_TIMEOUT, s)
          else
            (case socket_waitfd WAITFD_C tm s of
               None \<Rightarrow> None
             | Some (err, s) \<Rightarrow>
                 if err = IO_CLOSED then
                   (case sys_connect s of
                      None \<Rightarrow> None
                    | Some (ret, s) \<Rightarrow> if ret = 0 then Some (IO_DONE, s) else Some (sock_errno s, s))
                 else Some (err, s)))"

definition sys_accept :: "sock \<Rightarrow> (nat option \<times> sock) option" where
  "sys_accept s =
     (case accepts s of
        [] \<Rightarrow> None
      | Inl fd # r \<Rightarrow> Some (Some fd, s\<lparr>accepts := r\<rparr>)
      | Inr e # r \<Rightarrow> Some (None, s\<lparr>accepts := r, sock_errno := e\<rparr>))"

lemma sys_accept_shorter: "sys_accept s = Some (fd, s') \<Longrightarrow> length (accepts s') < length (accepts s)"
  by (auto simp: sys_accept_def split: list.splits sum.splits)

function accept_loop :: "t_timeout \<Rightarrow> sock \<Rightarrow> (int \<times> nat option \<times> sock) option" where
  "accept_loop tm s =
     (case sys_accept s of
        None \<Rightarrow> None
      | Some (Some fd, s) \<Rightarrow> Some (IO_DONE, Some fd, s)
      | Some (None, s) \<Rightarrow>
          let err = sock_errno s in
          if err = E_INTR then accept_loop tm s
          else if err \<noteq> E_AGAIN \<and> err \<noteq> E_CONNABORTED then Some (err, None, s)
          else
            (case socket_waitfd WAITFD_R tm s of
               None \<Rightarrow> None
             | Some (err, s) \<Rightarrow> if err \<noteq> IO_DONE then Some (err, None, s) else accept_loop tm s))"
  by pat_completeness auto

termination
  by (relation "measure (\<lambda>(tm, s). length (accepts s))") (auto dest!: waitfd_frame sys_accept_shorter)

declare accept_loop.simps [simp del]

definition socket_accept :: "t_timeout \<Rightarrow> sock \<Rightarrow> (int \<times> nat option \<times> sock) option" where
  "socket_accept tm s =
     (if \<not> fd_valid s then Some (IO_CLOSED, None, s) else accept_loop tm s)"

text \<open>
  Error messages. The last case of the source takes the message of \<open>errno\<close>, whatever it holds by then,
  not the one of \<open>err\<close>.
\<close>

definition socket_strerror :: "(int \<Rightarrow> string) \<Rightarrow> int \<Rightarrow> sock \<Rightarrow> string option" where
  "socket_strerror strerror err s =
     (if err \<le> 0 then io_strerror err
      else if err = E_ADDRINUSE then Some ''address already in use''
      else if err = E_ISCONN then Some ''already connected''
      else if err = E_ACCES then Some ''permission denied''
      else if err = E_CONNREFUSED then Some ''connection refused''
      else if err = E_CONNABORTED then Some ''closed''
      else if err = E_CONNRESET then Some ''closed''
      else if err = E_TIMEDOUT then Some ''timeout''
      else Some (strerror (sock_errno s)))"

definition socket_ioerror :: "(int \<Rightarrow> string) \<Rightarrow> int \<Rightarrow> sock \<Rightarrow> string option" where
  "socket_ioerror strerror err s = socket_strerror strerror err s"

section \<open>What a socket delivers\<close>

text \<open>The kernel reports errors as positive numbers.\<close>

definition kernel_ok :: "sock \<Rightarrow> bool" where
  "kernel_ok s \<longleftrightarrow> (\<forall>e. Rx_fail e \<in> set (rxs s) \<longrightarrow> e > 0) \<and> (\<forall>e. Tx_fail e \<in> set (txs s) \<longrightarrow> e > 0) \<and>
     (\<forall>e. Wait_fail e \<in> set (waits s) \<longrightarrow> e > 0)"

text \<open>How a wait ends, given the answers of \<open>select\<close>: the code returned and the answers left.\<close>

fun waited :: "wait list \<Rightarrow> (int \<times> wait list) option" where
  "waited [] = None"
| "waited (Ready r # ws) = Some (IO_DONE, ws)"
| "waited (Expired # ws) = Some (IO_TIMEOUT, ws)"
| "waited (Wait_fail e # ws) = (if e = E_INTR then waited ws else Some (e, ws))"

text \<open>
  The bytes that arrive before something goes wrong, and the code of what goes wrong; without a code
  the socket blocks forever after these bytes.
\<close>

fun arriving :: "bool \<Rightarrow> rx list \<Rightarrow> wait list \<Rightarrow> string \<times> int option" where
  "arriving z [] ws = ([], None)"
| "arriving z (Rx_data c cs # r) ws = (let (bs, e) = arriving z r ws in (c # cs @ bs, e))"
| "arriving z (Eof # r) ws = ([], Some IO_CLOSED)"
| "arriving z (Rx_fail e # r) ws =
     (if e = E_INTR then arriving z r ws
      else if e \<noteq> E_AGAIN then ([], Some e)
      else if z then ([], Some IO_TIMEOUT)
      else case waited ws of
        None \<Rightarrow> ([], None)
      | Some (err, ws) \<Rightarrow> if err \<noteq> IO_DONE then ([], Some err) else arriving z r ws)"

definition inbound :: "t_timeout \<Rightarrow> sock \<Rightarrow> string \<times> int option" where
  "inbound tm s =
     (if fd_valid s then arriving (timeout_iszero tm) (rxs s) (waits s) else ([], Some IO_CLOSED))"

text \<open>The loop around \<open>select\<close> against its specification.\<close>

lemma wait_loop_waited:
  "case waited (waits s) of
     None \<Rightarrow> wait_loop tm s = None
   | Some (e, ws) \<Rightarrow> \<exists>ret rd s'. wait_loop tm s = Some (ret, rd, s') \<and> waits s' = ws \<and>
       e = (if ret = - 1 then sock_errno s' else if ret = 0 then IO_TIMEOUT else IO_DONE)"
proof (induction tm s rule: wait_loop.induct)
  case (1 tm s)
  obtain t s1 where t: "timeout_getretry tm s = (t, s1)" by (cases "timeout_getretry tm s")
  then have w1: "waits s1 = waits s" using getretry_waits[of tm s] by simp
  show ?case
  proof (cases "waits s")
    case Nil
    then show ?thesis using t w1 by (subst wait_loop.simps) (simp add: sys_select_def)
  next
    case (Cons w ws)
    let ?s = "s1\<lparr>waits := ws, select_limits := select_limits s1 @ [timeval t]\<rparr>"
    show ?thesis
    proof (cases w)
      case (Wait_fail e)
      let ?s' = "?s\<lparr>sock_errno := e\<rparr>"
      have s: "sys_select (timeval t) s1 = Some (- 1, False, ?s')"
        using Cons Wait_fail w1 by (simp add: sys_select_def)
      show ?thesis
      proof (cases "e = E_INTR")
        case True
        have a: "wait_loop tm s = wait_loop tm ?s'"
          by (subst wait_loop.simps) (simp add: t s True)
        have b: "waited (waits s) = waited (waits ?s')" using Cons Wait_fail True by simp
        show ?thesis unfolding a b by (rule 1[OF t[symmetric] refl s refl refl]) (simp add: True)
      next
        case False
        then have "wait_loop tm s = Some (- 1, False, ?s')"
          by (subst wait_loop.simps) (simp add: t s)
        with Cons Wait_fail False show ?thesis by auto
      qed
    next
      case (Ready r)
      then have "wait_loop tm s = Some (1, r, ?s)"
        using t w1 Cons by (subst wait_loop.simps) (simp add: sys_select_def)
      with Cons Ready show ?thesis by auto
    next
      case Expired
      then have "wait_loop tm s = Some (0, False, ?s)"
        using t w1 Cons by (subst wait_loop.simps) (simp add: sys_select_def)
      with Cons Expired show ?thesis by auto
    qed
  qed
qed

lemma waitfd_waited:
  assumes "\<not> timeout_iszero tm" and "sw \<noteq> WAITFD_C"
  shows "waited (waits s) = None \<Longrightarrow> socket_waitfd sw tm s = None"
    and "waited (waits s) = Some (e, ws) \<Longrightarrow> \<exists>s'. socket_waitfd sw tm s = Some (e, s') \<and> waits s' = ws"
  using wait_loop_waited[where s = s and tm = tm] assms by (auto simp: socket_waitfd_def)

lemma waited_sub: "waited ws = Some (e, ws') \<Longrightarrow> set ws' \<subseteq> set ws"
  by (induction ws rule: waited.induct) (auto split: if_splits)

lemma waited_code: "waited ws = Some (e, ws') \<Longrightarrow> \<forall>e. Wait_fail e \<in> set ws \<longrightarrow> e > 0 \<Longrightarrow>
   e = IO_DONE \<or> e = IO_TIMEOUT \<or> e > 0"
  by (induction ws rule: waited.induct) (auto split: if_splits)

lemma arriving_fail:
  "arriving z rs ws = (bs, Some e) \<Longrightarrow> \<forall>e. Rx_fail e \<in> set rs \<longrightarrow> e > 0 \<Longrightarrow>
   \<forall>e. Wait_fail e \<in> set ws \<longrightarrow> e > 0 \<Longrightarrow> e \<noteq> IO_DONE"
proof (induction z rs ws arbitrary: bs rule: arriving.induct)
  case (4 z e' r ws)
  then show ?case using waited_sub[of ws] by (fastforce split: if_splits option.splits prod.splits)
qed (auto split: prod.splits)

lemma waitfd_waits: "socket_waitfd sw tm s = Some (e, s') \<Longrightarrow> set (waits s') \<subseteq> set (waits s)"
proof -
  have "wait_loop tm s = Some (ret, rd, s') \<Longrightarrow> set (waits s') \<subseteq> set (waits s)" for ret rd
    using wait_loop_waited[where s = s and tm = tm] waited_sub[of "waits s"]
    by (auto split: option.splits)
  then show "socket_waitfd sw tm s = Some (e, s') \<Longrightarrow> set (waits s') \<subseteq> set (waits s)"
    by (auto simp: socket_waitfd_def split: if_splits option.splits)
qed

text \<open>
  What \<open>socket_recv\<close> promises: the next bytes of those that arrive, or the code of what goes wrong when
  there are none.
\<close>

definition received :: "nat \<Rightarrow> t_timeout \<Rightarrow> sock \<Rightarrow> (int \<times> string \<times> sock) option \<Rightarrow> bool" where
  "received count tm s r \<longleftrightarrow>
     (case inbound tm s of
        ([], None) \<Rightarrow> r = None
      | ([], Some e) \<Rightarrow> (\<exists>s'. r = Some (e, [], s') \<and> kernel_ok s' \<and> fd_valid s' = fd_valid s)
      | (bs, e) \<Rightarrow> (\<exists>k s'. 0 < k \<and> k \<le> count \<and> k \<le> length bs \<and> r = Some (IO_DONE, take k bs, s') \<and>
          inbound tm s' = (drop k bs, e) \<and> kernel_ok s' \<and> fd_valid s' = fd_valid s))"

lemma received_later:
  assumes "received count tm s1 r" and "inbound tm s1 = inbound tm s" and "fd_valid s1 = fd_valid s"
  shows "received count tm s r"
  using assms(1) unfolding received_def assms(2,3) .

lemma recv_loop_received:
  "kernel_ok s \<Longrightarrow> fd_valid s \<Longrightarrow> 0 < count \<Longrightarrow> received count tm s (recv_loop count tm s)"
proof (induction "length (rxs s)" arbitrary: s rule: less_induct)
  case less
  note valid = less.prems(2) and pos = less.prems(3)
  show ?case
  proof (cases "rxs s")
    case Nil
    then show ?thesis using valid by (subst recv_loop.simps) (simp add: sys_read_def received_def inbound_def)
  next
    case (Cons x r)
    show ?thesis
    proof (cases x)
      case (Rx_data c cs)
      obtain bs e where b: "arriving (timeout_iszero tm) r (waits s) = (bs, e)" by fastforce
      let ?k = "min count (Suc (length cs))"
      let ?s = "s\<lparr>rxs := (case drop count (c # cs) of [] \<Rightarrow> r | d # ds \<Rightarrow> Rx_data d ds # r)\<rparr>"
      have "recv_loop count tm s = Some (IO_DONE, take count (c # cs), ?s)"
        using Cons Rx_data pos by (subst recv_loop.simps) (simp add: sys_read_def)
      moreover have "inbound tm s = (c # cs @ bs, e)" using Cons Rx_data b valid by (simp add: inbound_def)
      moreover have "take ?k (c # cs @ bs) = take count (c # cs)"
        using take_append[of ?k "c # cs" bs] by (simp add: min_def)
      moreover have "inbound tm ?s = (drop ?k (c # cs @ bs), e)"
        using b valid by (auto simp: inbound_def min_def split: list.split)
          (metis append_Cons drop_append length_Cons not_less_eq_eq append_Nil2 diff_is_0_eq drop_0 le_SucI nat_le_linear)+
      moreover have "kernel_ok ?s" using less.prems(1) Cons by (auto simp: kernel_ok_def split: list.splits)
      ultimately show ?thesis
        using pos valid unfolding received_def by (auto intro!: exI[of _ ?k])
    next
      case Eof
      then show ?thesis
        using Cons valid less.prems(1) by (subst recv_loop.simps) (simp add: sys_read_def received_def inbound_def)
    next
      case (Rx_fail e)
      let ?s = "s\<lparr>rxs := r, sock_errno := e\<rparr>"
      have rd: "sys_read count s = Some (- 1, [], ?s)" using Cons Rx_fail by (simp add: sys_read_def)
      have ok: "kernel_ok ?s" "fd_valid ?s" using less.prems(1) Cons valid by (auto simp: kernel_ok_def)
      consider "e = E_INTR" | "e \<noteq> E_INTR" "e \<noteq> E_AGAIN" | "e = E_AGAIN" "timeout_iszero tm"
        | "e = E_AGAIN" "\<not> timeout_iszero tm" by blast
      then show ?thesis
      proof cases
        case 1
        have "recv_loop count tm s = recv_loop count tm ?s" by (subst recv_loop.simps) (simp add: rd 1)
        moreover have "inbound tm ?s = inbound tm s" using Cons Rx_fail 1 by (simp add: inbound_def)
        ultimately show ?thesis
          using received_later[OF less.hyps[OF _ ok pos]] Cons valid by simp
      next
        case 2
        then have "recv_loop count tm s = Some (e, [], ?s)" by (subst recv_loop.simps) (simp add: rd)
        then show ?thesis using Cons Rx_fail 2 ok valid by (simp add: received_def inbound_def)
      next
        case 3
        then have "recv_loop count tm s = Some (IO_TIMEOUT, [], ?s)"
          by (subst recv_loop.simps) (simp add: rd socket_waitfd_def)
        then show ?thesis using Cons Rx_fail 3 ok valid by (simp add: received_def inbound_def)
      next
        case 4
        show ?thesis
        proof (cases "waited (waits s)")
          case None
          then have "recv_loop count tm s = None"
            using 4 waitfd_waited(1)[of tm WAITFD_R ?s] by (subst recv_loop.simps) (simp add: rd)
          then show ?thesis using Cons Rx_fail 4 None valid by (simp add: received_def inbound_def)
        next
          case (Some p)
          then obtain err ws where w: "waited (waits s) = Some (err, ws)" by (cases p) auto
          with waitfd_waited(2)[of tm WAITFD_R ?s err ws] 4 obtain s2 where
            s2: "socket_waitfd WAITFD_R tm ?s = Some (err, s2)" "waits s2 = ws" by auto
          from waitfd_frame[OF s2(1)] have f: "rxs s2 = r" "fd_valid s2" "txs s2 = txs s" using valid by auto
          have ok2: "kernel_ok s2"
            using ok(1) waited_sub[OF w] f s2(2) by (auto simp: kernel_ok_def)
          show ?thesis
          proof (cases "err = IO_DONE")
            case True
            have "recv_loop count tm s = recv_loop count tm s2"
              using 4 s2(1) True by (subst recv_loop.simps) (simp add: rd)
            moreover have "inbound tm s2 = inbound tm s"
              using Cons Rx_fail 4 w True f s2(2) valid by (simp add: inbound_def)
            ultimately show ?thesis
              using received_later[OF less.hyps[OF _ ok2 f(2) pos]] Cons valid f by simp
          next
            case False
            then have "recv_loop count tm s = Some (err, [], s2)"
              using 4 s2(1) by (subst recv_loop.simps) (simp add: rd)
            then show ?thesis
              using Cons Rx_fail 4 w False valid f ok2 by (simp add: received_def inbound_def)
          qed
        qed
      qed
    qed
  qed
qed

lemma socket_recv_received:
  "kernel_ok s \<Longrightarrow> 0 < count \<Longrightarrow> received count tm s (socket_recv count tm s)"
  using recv_loop_received by (auto simp: socket_recv_def received_def inbound_def)

lemma inbound_fail: "kernel_ok s \<Longrightarrow> inbound tm s = (bs, Some e) \<Longrightarrow> e \<noteq> IO_DONE"
  using arriving_fail by (auto simp: inbound_def kernel_ok_def split: if_splits)

text \<open>
  What \<open>socket_send\<close> promises: it reports how many bytes the kernel took, which is none exactly when it
  returns an error.
\<close>

lemma send_loop_sends:
  "send_loop bytes tm s = Some (err, n, s') \<Longrightarrow> kernel_ok s \<Longrightarrow> bytes \<noteq> [] \<Longrightarrow>
   n \<le> length bytes \<and> sent_bytes s' = sent_bytes s @ take n bytes \<and> (err = IO_DONE \<longleftrightarrow> 0 < n) \<and>
   kernel_ok s' \<and> fd_valid s' = fd_valid s"
proof (induction "length (txs s)" arbitrary: s rule: less_induct)
  case less
  note ok = less.prems(2) and ne = less.prems(3)
  from less.prems(1) obtain x r where x: "txs s = x # r"
    by (subst (asm) send_loop.simps) (auto simp: sys_send_def split: list.splits)
  show ?case
  proof (cases x)
    case (Accepts m)
    have "send_loop bytes tm s = Some (IO_DONE, min (Suc m) (length bytes),
        s\<lparr>txs := r, sent_bytes := sent_bytes s @ take (Suc m) bytes\<rparr>)"
      using x Accepts ne by (subst send_loop.simps) (cases bytes, auto simp: sys_send_def)
    then show ?thesis
      using less.prems ok ne x by (cases bytes) (auto simp: kernel_ok_def min_def)
  next
    case (Tx_fail e)
    let ?s = "s\<lparr>txs := r, sock_errno := e\<rparr>"
    have sd: "sys_send bytes s = Some (- 1, ?s)" using x Tx_fail by (simp add: sys_send_def)
    have ok1: "kernel_ok ?s" and e: "e > 0" using ok x Tx_fail by (auto simp: kernel_ok_def)
    consider "e = E_PIPE" | "e = E_INTR" | "e \<noteq> E_PIPE" "e \<noteq> E_INTR" "e \<noteq> E_AGAIN" | "e = E_AGAIN" by blast
    then show ?thesis
    proof cases
      case 1
      then have "send_loop bytes tm s = Some (IO_CLOSED, 0, ?s)" by (subst send_loop.simps) (simp add: sd)
      with less.prems(1) ok1 show ?thesis by auto
    next
      case 2
      then have "send_loop bytes tm s = send_loop bytes tm ?s" by (subst send_loop.simps) (simp add: sd)
      with less.hyps[of ?s] less.prems ok1 x show ?thesis by simp
    next
      case 3
      then have "send_loop bytes tm s = Some (e, 0, ?s)" by (subst send_loop.simps) (simp add: sd)
      with less.prems(1) ok1 e show ?thesis by auto
    next
      case 4
      with less.prems(1) obtain err2 s2 where w: "socket_waitfd WAITFD_W tm ?s = Some (err2, s2)"
        by (subst (asm) send_loop.simps) (auto simp: sd split: option.splits)
      from waitfd_frame[OF w] waitfd_waits[OF w] have f: "txs s2 = r" "sent_bytes s2 = sent_bytes s"
        "fd_valid s2 = fd_valid s" "rxs s2 = rxs s" "set (waits s2) \<subseteq> set (waits s)" by auto
      have ok2: "kernel_ok s2" using ok1 f by (auto simp: kernel_ok_def)
      show ?thesis
      proof (cases "err2 = IO_DONE")
        case True
        then have "send_loop bytes tm s = send_loop bytes tm s2"
          using 4 w by (subst send_loop.simps) (simp add: sd)
        with less.hyps[of s2] less.prems ok2 f x show ?thesis by simp
      next
        case False
        then have "send_loop bytes tm s = Some (err2, 0, s2)"
          using 4 w by (subst send_loop.simps) (simp add: sd)
        with less.prems(1) False f ok2 show ?thesis by auto
      qed
    qed
  qed
qed

lemma socket_send_sends:
  "socket_send bytes tm s = Some (err, n, s') \<Longrightarrow> kernel_ok s \<Longrightarrow> bytes \<noteq> [] \<Longrightarrow>
   n \<le> length bytes \<and> sent_bytes s' = sent_bytes s @ take n bytes \<and> (err = IO_DONE \<longleftrightarrow> 0 < n) \<and>
   kernel_ok s' \<and> fd_valid s' = fd_valid s"
  using send_loop_sends[of bytes tm s err n s'] by (auto simp: socket_send_def split: if_splits)

section \<open>Time limits of the waits\<close>

lemma timeval_le: "timeval t = Some (sec, usec) \<Longrightarrow> of_int sec + of_int usec / 1000000 \<le> t"
proof -
  assume "timeval t = Some (sec, usec)"
  then have eq: "sec = \<lfloor>t\<rfloor>" "usec = \<lfloor>(t - of_int \<lfloor>t\<rfloor>) * 1000000\<rfloor>"
    by (auto simp: timeval_def split: if_splits)
  have "of_int usec \<le> (t - of_int sec) * 1000000" unfolding eq by (rule of_int_floor_le)
  then show ?thesis by (simp add: field_simps)
qed

text \<open>
  With a limit on the whole operation and a clock that has not been set back, no wait is longer than
  what is left of it.
\<close>

definition limited :: "rat \<Rightarrow> (int \<times> int) option \<Rightarrow> bool" where
  "limited r l \<longleftrightarrow> (case l of None \<Rightarrow> False | Some (sec, usec) \<Rightarrow> of_int sec + of_int usec / 1000000 \<le> r)"

lemma getretry_limit:
  assumes "0 \<le> tm_total tm" and "\<forall>n. tm_start tm \<le> of_int (fst (clock_time s n)) + of_int (snd (clock_time s n)) / 1000000"
  shows "0 \<le> fst (timeout_getretry tm s)" and "fst (timeout_getretry tm s) \<le> tm_total tm"
proof -
  have "tm_start tm \<le> fst (timeout_gettime s)"
    using assms(2) by (simp add: timeout_gettime_def split: prod.split) (metis fst_conv snd_conv)
  then show "0 \<le> fst (timeout_getretry tm s)" "fst (timeout_getretry tm s) \<le> tm_total tm"
    using assms(1) by (auto simp: timeout_getretry_def Let_def case_prod_unfold)
qed

lemma wait_loop_limited:
  assumes "0 \<le> tm_total tm"
  shows "wait_loop tm s = Some (ret, rd, s') \<Longrightarrow>
    \<forall>n. tm_start tm \<le> of_int (fst (clock_time s n)) + of_int (snd (clock_time s n)) / 1000000 \<Longrightarrow>
    \<exists>ls. select_limits s' = select_limits s @ ls \<and> (\<forall>l \<in> set ls. limited (tm_total tm) l) \<and>
      clock_time s' = clock_time s"
proof (induction "length (waits s)" arbitrary: s rule: less_induct)
  case less
  obtain t s1 where t: "timeout_getretry tm s = (t, s1)" by (cases "timeout_getretry tm s")
  from getretry_state[of tm s] t obtain n where s1: "s1 = s\<lparr>clock_reads := n\<rparr>" by auto
  from less.prems(1) t obtain ret2 rd2 s2 where s2: "sys_select (timeval t) s1 = Some (ret2, rd2, s2)"
    by (subst (asm) wait_loop.simps) (auto split: option.splits)
  then have f: "select_limits s2 = select_limits s @ [timeval t]" "clock_time s2 = clock_time s"
    "length (waits s2) < length (waits s)"
    by (auto simp: sys_select_def s1 Let_def split: list.splits wait.splits)
  have "0 \<le> t" "t \<le> tm_total tm"
    using getretry_limit[OF assms less.prems(2)] t by simp_all
  then have l: "limited (tm_total tm) (timeval t)"
    using timeval_le[of t] by (fastforce simp: limited_def timeval_def split: option.splits prod.splits)
  show ?case
  proof (cases "ret2 = - 1 \<and> sock_errno s2 = E_INTR")
    case True
    with less.prems(1) t s2 have "wait_loop tm s2 = Some (ret, rd, s')" by (subst (asm) wait_loop.simps) auto
    with less.hyps[OF f(3) this] less.prems(2) f l show ?thesis by auto
  next
    case False
    with less.prems(1) t s2 f l show ?thesis by (subst (asm) wait_loop.simps) auto
  qed
qed

end
