(* ===== verification/Lua_Buffer.thy ===== *)
theory Lua_Buffer
  imports Lua_Socket Lua_Stack
begin

text \<open>
  The buffered streams of luasocket (\<open>extern/luasocket/src/buffer.c\<close>), through which the HTTP client of the
  agent reads and writes: lines, a number of bytes or everything are received through a buffer of 8192
  bytes, and data are sent in steps of 8192 bytes.

  A stream works over any transport with the interface of \<open>io.h\<close>, a record of functions; the locale
  \<open>transport\<close> states what it relies on, and the sockets of \<open>Lua_Socket\<close> fulfil it, as \<open>tcp.c\<close> connects
  them. The result \<^term>\<open>None\<close> is a call that blocks forever.
\<close>

section \<open>The interface of a transport\<close>

record 'c t_io =
  io_send :: "string \<Rightarrow> t_timeout \<Rightarrow> 'c \<Rightarrow> (int \<times> nat \<times> 'c) option"
  io_recv :: "nat \<Rightarrow> t_timeout \<Rightarrow> 'c \<Rightarrow> (int \<times> string \<times> 'c) option"
  io_error :: "int \<Rightarrow> 'c \<Rightarrow> string option"

definition io_init ::
  "(string \<Rightarrow> t_timeout \<Rightarrow> 'c \<Rightarrow> (int \<times> nat \<times> 'c) option) \<Rightarrow>
   (nat \<Rightarrow> t_timeout \<Rightarrow> 'c \<Rightarrow> (int \<times> string \<times> 'c) option) \<Rightarrow> (int \<Rightarrow> 'c \<Rightarrow> string option) \<Rightarrow> 'c t_io" where
  "io_init send recv err = \<lparr>io_send = send, io_recv = recv, io_error = err\<rparr>"

section \<open>The buffer\<close>

abbreviation (input) BUF_SIZE :: nat where "BUF_SIZE \<equiv> 8192"
abbreviation (input) STEPSIZE :: nat where "STEPSIZE \<equiv> 8192"

record 'c t_buffer =
  birthday :: rat
  buf_sent :: nat
  buf_received :: nat
  buf_io :: "'c t_io"
  buf_ctx :: 'c
  buf_tm :: t_timeout
  buf_first :: nat
  buf_last :: nat
  buf_data :: string

text \<open>\<open>now\<close> is the time that \<open>timeout_gettime\<close> returns; the storage keeps whatever it held.\<close>

definition buffer_init :: "'c t_io \<Rightarrow> 'c \<Rightarrow> t_timeout \<Rightarrow> rat \<Rightarrow> 'c t_buffer \<Rightarrow> 'c t_buffer" where
  "buffer_init io ctx tm now buf =
     buf\<lparr>buf_first := 0, buf_last := 0, buf_io := io, buf_ctx := ctx, buf_tm := tm,
         buf_received := 0, buf_sent := 0, birthday := now\<rparr>"

definition buffer_isempty :: "'c t_buffer \<Rightarrow> bool" where
  "buffer_isempty buf \<longleftrightarrow> buf_first buf \<ge> buf_last buf"

definition buffer_skip :: "nat \<Rightarrow> 'c t_buffer \<Rightarrow> 'c t_buffer" where
  "buffer_skip count buf =
     (let buf = buf\<lparr>buf_received := buf_received buf + count, buf_first := buf_first buf + count\<rparr>
      in if buffer_isempty buf then buf\<lparr>buf_first := 0, buf_last := 0\<rparr> else buf)"

text \<open>The bytes returned are the ones at the pointer the source returns, as many as its count.\<close>

definition buffer_get :: "'c t_buffer \<Rightarrow> (int \<times> string \<times> 'c t_buffer) option" where
  "buffer_get buf =
     (case (if buffer_isempty buf
            then case io_recv (buf_io buf) BUF_SIZE (buf_tm buf) (buf_ctx buf) of
                None \<Rightarrow> None
              | Some (err, got, ctx) \<Rightarrow>
                  Some (err, buf\<lparr>buf_ctx := ctx, buf_first := 0, buf_last := length got,
                                 buf_data := got @ drop (length got) (buf_data buf)\<rparr>)
            else Some (IO_DONE, buf)) of
        None \<Rightarrow> None
      | Some (err, buf) \<Rightarrow>
          Some (err, take (buf_last buf - buf_first buf) (drop (buf_first buf) (buf_data buf)), buf))"

section \<open>Receiving\<close>

text \<open>The variable \<open>b\<close> is the Lua buffer that collects the result.\<close>

partial_function (option) recvraw_loop ::
  "nat \<Rightarrow> nat \<Rightarrow> string \<Rightarrow> 'c t_buffer \<Rightarrow> (int \<times> string \<times> 'c t_buffer) option" where
  "recvraw_loop wanted tot b buf = do {
     (err, bytes, buf) \<leftarrow> buffer_get buf;
     let count = min (length bytes) (wanted - tot);
     let b = b @ take count bytes;
     let buf = buffer_skip count buf;
     let tot = tot + count;
     if tot \<ge> wanted then Some (err, b, buf)
     else if err = IO_DONE then recvraw_loop wanted tot b buf else Some (err, b, buf)
   }"

definition recvraw :: "nat \<Rightarrow> string \<Rightarrow> 'c t_buffer \<Rightarrow> (int \<times> string \<times> 'c t_buffer) option" where
  "recvraw wanted b buf = recvraw_loop wanted 0 b buf"

partial_function (option) recvall_loop ::
  "nat \<Rightarrow> string \<Rightarrow> 'c t_buffer \<Rightarrow> (int \<times> nat \<times> string \<times> 'c t_buffer) option" where
  "recvall_loop tot b buf = do {
     (err, bytes, buf) \<leftarrow> buffer_get buf;
     let tot = tot + length bytes;
     let b = b @ bytes;
     let buf = buffer_skip (length bytes) buf;
     if err = IO_DONE then recvall_loop tot b buf else Some (err, tot, b, buf)
   }"

definition recvall :: "string \<Rightarrow> 'c t_buffer \<Rightarrow> (int \<times> string \<times> 'c t_buffer) option" where
  "recvall b buf = do {
     (err, tot, b, buf) \<leftarrow> recvall_loop 0 b buf;
     Some (if err = IO_CLOSED then (if tot > 0 then IO_DONE else IO_CLOSED) else err, b, buf)
   }"

text \<open>The inner loop of \<open>recvline\<close>: the position of the end of the line and the characters before it.\<close>

function line_loop :: "nat \<Rightarrow> string \<Rightarrow> string \<Rightarrow> nat \<times> string" where
  "line_loop pos bytes b =
     (if pos < length bytes \<and> bytes ! pos \<noteq> LF
      then line_loop (Suc pos) bytes (if bytes ! pos \<noteq> CR then b @ [bytes ! pos] else b)
      else (pos, b))"
  by pat_completeness auto

termination
  by (relation "measure (\<lambda>(pos, bytes, b). length bytes - pos)") auto

declare line_loop.simps [simp del]

partial_function (option) recvline :: "string \<Rightarrow> 'c t_buffer \<Rightarrow> (int \<times> string \<times> 'c t_buffer) option" where
  "recvline b buf = do {
     (err, bytes, buf) \<leftarrow> buffer_get buf;
     let (pos, b) = line_loop 0 bytes b;
     if pos < length bytes then Some (err, b, buffer_skip (pos + 1) buf)
     else
       let buf = buffer_skip pos buf in
       if err = IO_DONE then recvline b buf else Some (err, b, buf)
   }"

text \<open>
  The second argument of \<open>receive\<close> is a number or a pattern that may be absent; a number is converted to
  \<open>size_t\<close>, and the length of the prefix is subtracted from it in that type. The left result is the
  error raised for another pattern.
\<close>

definition optional :: "string option \<Rightarrow> lua_value" where
  "optional x = (case x of None \<Rightarrow> LNil | Some s \<Rightarrow> LString s)"

definition size_minus :: "int \<Rightarrow> nat \<Rightarrow> nat" where
  "size_minus n len = nat ((n - int len) mod 2 ^ 64)"

definition buffer_meth_receive ::
  "int + string option \<Rightarrow> string \<Rightarrow> rat \<Rightarrow> 'c t_buffer \<Rightarrow> ((string + lua_value list) \<times> 'c t_buffer) option" where
  "buffer_meth_receive what part now buf =
     (let buf = buf\<lparr>buf_tm := timeout_markstart now (buf_tm buf)\<rparr> in
      case (case what of
              Inr p \<Rightarrow>
                let p = (case p of None \<Rightarrow> ''*l'' | Some p \<Rightarrow> p) @ [NUL] in
                if p ! 0 = CHR ''*'' \<and> p ! 1 = CHR ''l'' then map_option Inr (recvline part buf)
                else if p ! 0 = CHR ''*'' \<and> p ! 1 = CHR ''a'' then map_option Inr (recvall part buf)
                else Some (Inl ''invalid receive pattern'')
            | Inl n \<Rightarrow> map_option Inr (recvraw (size_minus n (length part)) part buf)) of
        None \<Rightarrow> None
      | Some (Inl e) \<Rightarrow> Some (Inl e, buf)
      | Some (Inr (err, b, buf)) \<Rightarrow>
          Some (Inr (if err \<noteq> IO_DONE
                     then [LNil, optional (io_error (buf_io buf) err (buf_ctx buf)), LString b]
                     else [LString b, LNil, LNil]), buf))"

section \<open>Sending\<close>

partial_function (option) sendraw_loop ::
  "string \<Rightarrow> nat \<Rightarrow> int \<Rightarrow> 'c t_buffer \<Rightarrow> (int \<times> nat \<times> 'c t_buffer) option" where
  "sendraw_loop bytes tot err buf =
     (if tot < length bytes \<and> err = IO_DONE then do {
        let step = (if length bytes - tot \<le> STEPSIZE then length bytes - tot else STEPSIZE);
        (err, done, ctx) \<leftarrow> io_send (buf_io buf) (take step (drop tot bytes)) (buf_tm buf) (buf_ctx buf);
        sendraw_loop bytes (tot + done) err (buf\<lparr>buf_ctx := ctx\<rparr>)
      } else Some (err, tot, buf))"

definition sendraw :: "string \<Rightarrow> 'c t_buffer \<Rightarrow> (int \<times> nat \<times> 'c t_buffer) option" where
  "sendraw bytes buf = do {
     (err, tot, buf) \<leftarrow> sendraw_loop bytes 0 IO_DONE buf;
     Some (err, tot, buf\<lparr>buf_sent := buf_sent buf + tot\<rparr>)
   }"

text \<open>The optional numbers of \<open>send\<close> are given; their defaults are 1 and -1.\<close>

definition buffer_meth_send ::
  "string \<Rightarrow> int \<Rightarrow> int \<Rightarrow> rat \<Rightarrow> 'c t_buffer \<Rightarrow> (lua_value list \<times> 'c t_buffer) option" where
  "buffer_meth_send bytes st en now buf =
     (let buf = buf\<lparr>buf_tm := timeout_markstart now (buf_tm buf)\<rparr>;
          len = int (length bytes);
          st = (if st < 0 then len + st + 1 else st);
          en = (if en < 0 then len + en + 1 else en);
          st = (if st < 1 then 1 else st);
          en = (if en > len then len else en)
      in case (if st \<le> en
               then sendraw (take (nat (en - st + 1)) (drop (nat (st - 1)) bytes)) buf
               else Some (IO_DONE, 0, buf)) of
           None \<Rightarrow> None
         | Some (err, sent, buf) \<Rightarrow>
             Some (if err \<noteq> IO_DONE
                   then [LNil, optional (io_error (buf_io buf) err (buf_ctx buf)), LNumber (of_int (int sent + st - 1))]
                   else [LNumber (of_int (int sent + st - 1)), LNil, LNil], buf))"

section \<open>Statistics\<close>

text \<open>The optional arguments of \<open>setstats\<close>; numbers are converted to whole ones for the counters.\<close>

definition buffer_meth_getstats :: "rat \<Rightarrow> 'c t_buffer \<Rightarrow> lua_value list" where
  "buffer_meth_getstats now buf =
     [LNumber (of_nat (buf_received buf)), LNumber (of_nat (buf_sent buf)), LNumber (of_rat (now - birthday buf))]"

definition buffer_meth_setstats ::
  "nat option \<Rightarrow> nat option \<Rightarrow> rat option \<Rightarrow> rat \<Rightarrow> 'c t_buffer \<Rightarrow> lua_value list \<times> 'c t_buffer" where
  "buffer_meth_setstats rcvd snt age now buf =
     (let buf = buf\<lparr>buf_received := (case rcvd of None \<Rightarrow> buf_received buf | Some r \<Rightarrow> r)\<rparr>;
          buf = buf\<lparr>buf_sent := (case snt of None \<Rightarrow> buf_sent buf | Some r \<Rightarrow> r)\<rparr>;
          buf = (case age of None \<Rightarrow> buf | Some a \<Rightarrow> buf\<lparr>birthday := now - a\<rparr>)
      in ([LNumber 1], buf))"

lemma getstats_setstats:
  "buffer_meth_getstats (now + d) (snd (buffer_meth_setstats (Some r) (Some s) (Some a) now buf)) =
   [LNumber (of_nat r), LNumber (of_nat s), LNumber (of_rat (a + d))]"
  by (simp add: buffer_meth_getstats_def buffer_meth_setstats_def add.commute)

section \<open>What a transport promises\<close>

text \<open>
  The invariant of a buffer over a transport, given what states of the transport are sound: the indices
  stay inside of the storage. Then the bytes that are still in the storage, and all that a reader of
  the buffer can get, given what will arrive over the transport: the bytes before something goes
  wrong, and the code of that.
\<close>

definition buffer_wf :: "'c t_io \<Rightarrow> ('c \<Rightarrow> bool) \<Rightarrow> 'c t_buffer \<Rightarrow> bool" where
  "buffer_wf io ok buf \<longleftrightarrow> buf_io buf = io \<and> ok (buf_ctx buf) \<and> length (buf_data buf) = BUF_SIZE \<and>
     buf_first buf \<le> buf_last buf \<and> buf_last buf \<le> BUF_SIZE"

definition unread :: "'c t_buffer \<Rightarrow> string" where
  "unread buf = take (buf_last buf - buf_first buf) (drop (buf_first buf) (buf_data buf))"

definition available :: "(t_timeout \<Rightarrow> 'c \<Rightarrow> string \<times> int option) \<Rightarrow> 'c t_buffer \<Rightarrow> string \<times> int option" where
  "available stream buf =
     (let (bs, e) = stream (buf_tm buf) (buf_ctx buf) in (unread buf @ bs, e))"

text \<open>
  \<open>stream\<close> is what will arrive, the bytes before something goes wrong and the code of that; \<open>sent\<close> is what
  the other side has been sent.
\<close>

locale transport =
  fixes io :: "'c t_io"
    and ok :: "'c \<Rightarrow> bool"
    and stream :: "t_timeout \<Rightarrow> 'c \<Rightarrow> string \<times> int option"
    and sent :: "'c \<Rightarrow> string"
  assumes recv_blocks: "ok c \<Longrightarrow> 0 < n \<Longrightarrow> stream tm c = ([], None) \<Longrightarrow> io_recv io n tm c = None"
    and recv_fails: "ok c \<Longrightarrow> 0 < n \<Longrightarrow> stream tm c = ([], Some e) \<Longrightarrow>
      \<exists>c'. io_recv io n tm c = Some (e, [], c') \<and> ok c'"
    and recv_some: "ok c \<Longrightarrow> 0 < n \<Longrightarrow> stream tm c = (bs, f) \<Longrightarrow> bs \<noteq> [] \<Longrightarrow>
      \<exists>k c'. 0 < k \<and> k \<le> n \<and> k \<le> length bs \<and> io_recv io n tm c = Some (IO_DONE, take k bs, c') \<and>
        stream tm c' = (drop k bs, f) \<and> ok c'"
    and fails: "ok c \<Longrightarrow> stream tm c = (bs, Some e) \<Longrightarrow> e \<noteq> IO_DONE"
    and send_some: "io_send io bs tm c = Some (err, k, c') \<Longrightarrow> ok c \<Longrightarrow> bs \<noteq> [] \<Longrightarrow>
      k \<le> length bs \<and> sent c' = sent c @ take k bs \<and> (err = IO_DONE \<longleftrightarrow> 0 < k) \<and> ok c'"
begin

abbreviation buf_wf :: "'c t_buffer \<Rightarrow> bool" where
  "buf_wf \<equiv> buffer_wf io ok"

abbreviation avail :: "'c t_buffer \<Rightarrow> string \<times> int option" where
  "avail \<equiv> available stream"

lemma unread_length: "buf_wf buf \<Longrightarrow> length (unread buf) = buf_last buf - buf_first buf"
  by (auto simp: buffer_wf_def unread_def min_def)

lemma unread_empty: "buf_wf buf \<Longrightarrow> buffer_isempty buf \<longleftrightarrow> unread buf = []"
  using unread_length[of buf] by (auto simp: buffer_isempty_def buffer_wf_def)

lemma skip_wf:
  assumes wf: "buf_wf buf" and n: "n \<le> length (unread buf)"
  shows "buf_wf (buffer_skip n buf)" and "unread (buffer_skip n buf) = drop n (unread buf)"
    and "buf_tm (buffer_skip n buf) = buf_tm buf" and "buf_ctx (buffer_skip n buf) = buf_ctx buf"
proof -
  have l: "n \<le> buf_last buf - buf_first buf" using n unread_length[OF wf] by simp
  show "buf_wf (buffer_skip n buf)"
    using wf l by (auto simp: buffer_skip_def buffer_wf_def buffer_isempty_def Let_def)
  show "unread (buffer_skip n buf) = drop n (unread buf)"
    using l wf by (auto simp: buffer_skip_def unread_def buffer_isempty_def Let_def drop_take add.commute buffer_wf_def)
  show "buf_tm (buffer_skip n buf) = buf_tm buf" "buf_ctx (buffer_skip n buf) = buf_ctx buf"
    by (simp_all add: buffer_skip_def Let_def)
qed

lemma skip_available:
  assumes "buf_wf buf" and "n \<le> length (unread buf)"
  shows "avail (buffer_skip n buf) = (drop n (fst (avail buf)), snd (avail buf))"
  using assms(2) skip_wf[OF assms] by (simp add: available_def Let_def case_prod_unfold)

text \<open>
  \<open>buffer_get\<close>: it blocks, or fails with an empty buffer, or leaves in the buffer a beginning of what is
  available.
\<close>

lemma buffer_get_blocks:
  assumes "buf_wf buf" and "avail buf = ([], None)"
  shows "buffer_get buf = None"
  using assms recv_blocks[of "buf_ctx buf" BUF_SIZE "buf_tm buf"] unread_empty[of buf]
  by (auto simp: available_def Let_def case_prod_unfold buffer_get_def buffer_wf_def prod_eq_iff)

lemma buffer_get_fails:
  assumes wf: "buf_wf buf" and a: "avail buf = ([], Some e)"
  shows "\<exists>buf'. buffer_get buf = Some (e, [], buf') \<and> buf_wf buf' \<and> unread buf' = [] \<and> e \<noteq> IO_DONE"
proof -
  from a have u: "unread buf = []" and s: "stream (buf_tm buf) (buf_ctx buf) = ([], Some e)"
    by (auto simp: available_def Let_def case_prod_unfold prod_eq_iff)
  with recv_fails[of "buf_ctx buf" BUF_SIZE "buf_tm buf" e] wf obtain c' where
    r: "io_recv io BUF_SIZE (buf_tm buf) (buf_ctx buf) = Some (e, [], c')" "ok c'" by (auto simp: buffer_wf_def)
  have "e \<noteq> IO_DONE" using fails[OF _ s] wf by (simp add: buffer_wf_def)
  with r u wf unread_empty[OF wf] show ?thesis
    by (simp add: buffer_get_def buffer_wf_def unread_def)
qed

lemma buffer_get_some:
  assumes wf: "buf_wf buf" and a: "fst (avail buf) \<noteq> []"
  shows "\<exists>bs buf'. buffer_get buf = Some (IO_DONE, bs, buf') \<and> buf_wf buf' \<and> unread buf' = bs \<and> bs \<noteq> [] \<and>
    avail buf' = avail buf \<and> buf_tm buf' = buf_tm buf"
proof (cases "unread buf = []")
  case False
  with unread_empty[OF wf] have "buffer_get buf = Some (IO_DONE, unread buf, buf)"
    by (simp add: buffer_get_def unread_def)
  with False wf show ?thesis by blast
next
  case True
  obtain bs e where s: "stream (buf_tm buf) (buf_ctx buf) = (bs, e)" by fastforce
  with a True have "bs \<noteq> []" by (simp add: available_def Let_def case_prod_unfold)
  from recv_some[of "buf_ctx buf" BUF_SIZE, OF _ _ s this] wf obtain k c' where k: "0 < k" "k \<le> BUF_SIZE" "k \<le> length bs"
    and r: "io_recv io BUF_SIZE (buf_tm buf) (buf_ctx buf) = Some (IO_DONE, take k bs, c')"
    and s': "stream (buf_tm buf) c' = (drop k bs, e)" "ok c'" by (auto simp: buffer_wf_def)
  let ?b = "buf\<lparr>buf_ctx := c', buf_first := 0, buf_last := k, buf_data := take k bs @ drop k (buf_data buf)\<rparr>"
  have "buffer_get buf = Some (IO_DONE, take k bs, ?b)"
    using unread_empty[OF wf] True wf r k by (simp add: buffer_get_def buffer_wf_def)
  moreover have "unread ?b = take k bs" using k by (simp add: unread_def)
  moreover from this have "avail ?b = avail buf" using s s' True by (simp add: available_def Let_def case_prod_unfold)
  moreover have "buf_wf ?b" using wf s' k by (simp add: buffer_wf_def)
  ultimately show ?thesis using k \<open>bs \<noteq> []\<close> by auto
qed

text \<open>A line: the characters before the next line feed, without carriage returns.\<close>

lemma line_loop_eq:
  "line_loop pos bs b = (pos + length (takeWhile (\<lambda>c. c \<noteq> LF) (drop pos bs)),
     b @ filter (\<lambda>c. c \<noteq> CR) (takeWhile (\<lambda>c. c \<noteq> LF) (drop pos bs)))" if "pos \<le> length bs"
  using that
proof (induction pos bs b rule: line_loop.induct)
  case (1 pos bs b)
  show ?case
  proof (cases "pos < length bs")
    case True
    then have d: "drop pos bs = bs ! pos # drop (Suc pos) bs" by (simp add: Cons_nth_drop_Suc)
    show ?thesis
    proof (cases "bs ! pos = LF")
      case True
      then show ?thesis by (subst line_loop.simps) (simp add: d)
    next
      case False
      with True 1 d show ?thesis by (subst line_loop.simps) simp
    qed
  next
    case False
    with 1(2) show ?thesis by (subst line_loop.simps) simp
  qed
qed

lemma recvline_law:
  "buf_wf buf \<Longrightarrow> avail buf = (bs, e) \<Longrightarrow>
   (if LF \<in> set bs then
      \<exists>buf'. recvline b buf = Some (IO_DONE, b @ filter (\<lambda>c. c \<noteq> CR) (takeWhile (\<lambda>c. c \<noteq> LF) bs), buf') \<and>
        buf_wf buf' \<and> avail buf' = (tl (dropWhile (\<lambda>c. c \<noteq> LF) bs), e)
    else case e of
      None \<Rightarrow> recvline b buf = None
    | Some err \<Rightarrow> \<exists>buf'. recvline b buf = Some (err, b @ filter (\<lambda>c. c \<noteq> CR) bs, buf') \<and> buf_wf buf' \<and> err \<noteq> IO_DONE)"
proof (induction "length bs" arbitrary: bs b buf rule: less_induct)
  case less
  note wf = less.prems(1) and a = less.prems(2)
  show ?case
  proof (cases "bs = []")
    case True
    show ?thesis
    proof (cases e)
      case None
      with True a buffer_get_blocks[OF wf] show ?thesis by (subst recvline.simps) simp
    next
      case (Some err)
      with buffer_get_fails[OF wf] a True obtain buf' where
        g: "buffer_get buf = Some (err, [], buf')" "buf_wf buf'" "unread buf' = []" "err \<noteq> IO_DONE" by auto
      have "recvline b buf = Some (err, b, buffer_skip 0 buf')"
        by (subst recvline.simps) (simp add: g(1,4) line_loop_eq)
      with True Some g(4) skip_wf(1)[OF g(2), of 0] show ?thesis by simp
    qed
  next
    case False
    from buffer_get_some[OF wf] a False obtain d buf' where
      g: "buffer_get buf = Some (IO_DONE, d, buf')" "buf_wf buf'" "unread buf' = d" "d \<noteq> []"
      "avail buf' = (bs, e)" by auto
    then obtain r where bs: "bs = d @ r" by (auto simp: available_def Let_def case_prod_unfold)
    let ?t = "takeWhile (\<lambda>c. c \<noteq> LF) d"
    have ll: "line_loop 0 d b = (length ?t, b @ filter (\<lambda>c. c \<noteq> CR) ?t)" by (simp add: line_loop_eq)
    show ?thesis
    proof (cases "LF \<in> set d")
      case True
      from split_list_first[OF this] obtain xs ys where d: "d = xs @ LF # ys" "LF \<notin> set xs" by blast
      then have "\<And>x. x \<in> set xs \<Longrightarrow> x \<noteq> LF" by blast
      with d(1) have t: "?t = xs" and lt: "length xs < length d" and dw: "dropWhile (\<lambda>c. c \<noteq> LF) d = LF # ys"
        by (simp_all add: takeWhile_append2 dropWhile_append2)
      have "recvline b buf = Some (IO_DONE, b @ filter (\<lambda>c. c \<noteq> CR) xs, buffer_skip (length xs + 1) buf')"
        using ll unfolding t by (subst recvline.simps) (simp add: g(1) lt)
      moreover have "takeWhile (\<lambda>c. c \<noteq> LF) bs = xs" "dropWhile (\<lambda>c. c \<noteq> LF) bs = LF # ys @ r" "LF \<in> set bs"
        using True t dw by (auto simp: bs takeWhile_append1 dropWhile_append1)
      moreover have "avail (buffer_skip (length xs + 1) buf') = (ys @ r, e)" "buf_wf (buffer_skip (length xs + 1) buf')"
        using skip_available[OF g(2), of "length xs + 1"] skip_wf(1)[OF g(2), of "length xs + 1"] lt g(3,5)
        by (simp_all add: bs d)
      ultimately show ?thesis by simp
    next
      case no: False
      then have ne: "\<And>x. x \<in> set d \<Longrightarrow> x \<noteq> LF" by blast
      then have t: "?t = d" by (simp add: takeWhile_eq_all_conv)
      have eq: "recvline b buf = recvline (b @ filter (\<lambda>c. c \<noteq> CR) d) (buffer_skip (length d) buf')"
        by (subst recvline.simps) (simp add: g(1) ll t)
      have "avail (buffer_skip (length d) buf') = (r, e)" "buf_wf (buffer_skip (length d) buf')"
        using skip_available[OF g(2), of "length d"] skip_wf(1)[OF g(2), of "length d"] g(3,5) by (simp_all add: bs)
      moreover have "length r < length bs" using g(4) by (simp add: bs)
      ultimately show ?thesis
        using less.hyps[of r "buffer_skip (length d) buf'" "b @ filter (\<lambda>c. c \<noteq> CR) d"] no
        by (cases "LF \<in> set r"; cases e) (simp_all add: eq bs ne dropWhile_append2 takeWhile_append2)
    qed
  qed
qed

text \<open>Everything until something goes wrong.\<close>

lemma recvall_loop_law:
  "buf_wf buf \<Longrightarrow> avail buf = (bs, Some err) \<Longrightarrow>
   \<exists>buf'. recvall_loop n b buf = Some (err, n + length bs, b @ bs, buf') \<and> buf_wf buf' \<and> err \<noteq> IO_DONE"
proof (induction "length bs" arbitrary: bs b n buf rule: less_induct)
  case less
  note wf = less.prems(1) and a = less.prems(2)
  show ?case
  proof (cases "bs = []")
    case True
    with buffer_get_fails[OF wf] a obtain buf' where
      g: "buffer_get buf = Some (err, [], buf')" "buf_wf buf'" "unread buf' = []" "err \<noteq> IO_DONE" by auto
    with True skip_wf(1)[OF g(2), of 0] show ?thesis by (subst recvall_loop.simps) simp
  next
    case False
    from buffer_get_some[OF wf] a False obtain d buf' where
      g: "buffer_get buf = Some (IO_DONE, d, buf')" "buf_wf buf'" "unread buf' = d" "d \<noteq> []"
      "avail buf' = (bs, Some err)" by auto
    then obtain r where bs: "bs = d @ r" by (auto simp: available_def Let_def case_prod_unfold)
    have "avail (buffer_skip (length d) buf') = (r, Some err)" "buf_wf (buffer_skip (length d) buf')"
      using skip_available[OF g(2), of "length d"] skip_wf(1)[OF g(2), of "length d"] g(3,5) by (simp_all add: bs)
    with less.hyps[of r "buffer_skip (length d) buf'" "n + length d" "b @ d"] g(4) show ?thesis
      by (subst recvall_loop.simps) (simp add: g(1) bs add.assoc)
  qed
qed

text \<open>A number of bytes: they are delivered when as many are available, in one piece.\<close>

lemma recvraw_loop_law:
  "buf_wf buf \<Longrightarrow> avail buf = (bs, e) \<Longrightarrow> n < wanted \<Longrightarrow>
   (if wanted \<le> n + length bs then
      \<exists>buf'. recvraw_loop wanted n b buf = Some (IO_DONE, b @ take (wanted - n) bs, buf') \<and> buf_wf buf' \<and>
        avail buf' = (drop (wanted - n) bs, e)
    else case e of
      None \<Rightarrow> recvraw_loop wanted n b buf = None
    | Some err \<Rightarrow> \<exists>buf'. recvraw_loop wanted n b buf = Some (err, b @ bs, buf') \<and> buf_wf buf' \<and> err \<noteq> IO_DONE)"
proof (induction "length bs" arbitrary: bs b n buf rule: less_induct)
  case less
  note wf = less.prems(1) and a = less.prems(2) and n = less.prems(3)
  show ?case
  proof (cases "bs = []")
    case True
    show ?thesis
    proof (cases e)
      case None
      with True a n buffer_get_blocks[OF wf] show ?thesis by (subst recvraw_loop.simps) simp
    next
      case (Some err)
      with buffer_get_fails[OF wf] a True obtain buf' where
        g: "buffer_get buf = Some (err, [], buf')" "buf_wf buf'" "unread buf' = []" "err \<noteq> IO_DONE" by auto
      with True Some n skip_wf(1)[OF g(2), of 0] show ?thesis by (subst recvraw_loop.simps) simp
    qed
  next
    case False
    from buffer_get_some[OF wf] a False obtain d buf' where
      g: "buffer_get buf = Some (IO_DONE, d, buf')" "buf_wf buf'" "unread buf' = d" "d \<noteq> []"
      "avail buf' = (bs, e)" by auto
    then obtain r where bs: "bs = d @ r" by (auto simp: available_def Let_def case_prod_unfold)
    let ?k = "min (length d) (wanted - n)"
    have sk: "avail (buffer_skip ?k buf') = (drop ?k bs, e)" "buf_wf (buffer_skip ?k buf')"
      using skip_available[OF g(2), of ?k] skip_wf(1)[OF g(2), of ?k] g(3,5) by simp_all
    show ?thesis
    proof (cases "wanted - n \<le> length d")
      case True
      then have "recvraw_loop wanted n b buf = Some (IO_DONE, b @ take (wanted - n) d, buffer_skip ?k buf')"
        using n by (subst recvraw_loop.simps) (simp add: g(1) min_absorb2 Let_def)
      moreover have "wanted \<le> n + length bs" using True by (simp add: bs)
      ultimately show ?thesis using True sk n by (simp add: bs min_absorb2)
    next
      case more: False
      then have k: "?k = length d" and lt: "n + length d < wanted" by auto
      have "recvraw_loop wanted n b buf = recvraw_loop wanted (n + length d) (b @ d) (buffer_skip (length d) buf')"
        using k lt by (subst recvraw_loop.simps) (simp add: g(1) Let_def)
      moreover have "length r < length bs" using g(4) by (simp add: bs)
      moreover have "take (wanted - n) bs = d @ take (wanted - (n + length d)) r"
        "drop (wanted - n) bs = drop (wanted - (n + length d)) r" using more by (simp_all add: bs)
      ultimately show ?thesis
        using less.hyps[of r "buffer_skip (length d) buf'" "n + length d" "b @ d"] sk[unfolded k] lt
        by (cases "wanted \<le> n + (length d + length r)"; cases e) (simp_all add: bs add.assoc)
    qed
  qed
qed

text \<open>Sending: the kernel has been given a beginning of the data, all of it unless an error is reported.\<close>

lemma sendraw_loop_law:
  "sendraw_loop bs n err buf = Some (err', m, buf') \<Longrightarrow> buf_wf buf \<Longrightarrow> n \<le> length bs \<Longrightarrow>
   n \<le> m \<and> m \<le> length bs \<and> sent (buf_ctx buf') = sent (buf_ctx buf) @ take (m - n) (drop n bs) \<and>
   (err = IO_DONE \<longrightarrow> (err' = IO_DONE \<longleftrightarrow> m = length bs)) \<and> buf_wf buf'"
proof (induction "length bs - n" arbitrary: n err buf rule: less_induct)
  case less
  note wf = less.prems(2)
  show ?case
  proof (cases "n < length bs \<and> err = IO_DONE")
    case False
    with less.prems show ?thesis by (subst (asm) sendraw_loop.simps) auto
  next
    case True
    let ?d = "take (min (length bs - n) STEPSIZE) (drop n bs)"
    have st: "(if length bs - n \<le> STEPSIZE then length bs - n else STEPSIZE) = min (length bs - n) STEPSIZE"
      by (simp add: min_def)
    from less.prems(1) True wf obtain e k c where s: "io_send io ?d (buf_tm buf) (buf_ctx buf) = Some (e, k, c)"
      and r: "sendraw_loop bs (n + k) e (buf\<lparr>buf_ctx := c\<rparr>) = Some (err', m, buf')"
      by (subst (asm) sendraw_loop.simps) (auto simp: st buffer_wf_def bind_eq_Some_conv)
    have "?d \<noteq> []" using True by simp
    with send_some[OF s] wf have k: "k \<le> length ?d" "sent c = sent (buf_ctx buf) @ take k ?d"
      "e = IO_DONE \<longleftrightarrow> 0 < k" "ok c" by (auto simp: buffer_wf_def)
    have wf': "buf_wf (buf\<lparr>buf_ctx := c\<rparr>)" using wf k by (simp add: buffer_wf_def)
    have "k \<le> length bs - n" "k \<le> min (length bs - n) STEPSIZE" using k(1) by simp_all
    then have kl: "n + k \<le> length bs" "take k ?d = take k (drop n bs)" using True by (auto simp: min_absorb1)
    show ?thesis
    proof (cases "k = 0")
      case True
      with r k(3) have "m = n" "err' = e" "buf' = buf\<lparr>buf_ctx := c\<rparr>" by (subst (asm) sendraw_loop.simps, auto)+
      with True k wf' \<open>n < length bs \<and> err = IO_DONE\<close> show ?thesis by simp
    next
      case False
      then have "length bs - (n + k) < length bs - n" using \<open>n < length bs \<and> err = IO_DONE\<close> by auto
      from less.hyps[OF this r wf' kl(1)] k(3) False
      have i: "n + k \<le> m" "m \<le> length bs" "sent (buf_ctx buf') = sent c @ take (m - (n + k)) (drop (n + k) bs)"
        "err' = IO_DONE \<longleftrightarrow> m = length bs" "buf_wf buf'" by auto
      have "take k (drop n bs) @ take (m - (n + k)) (drop (n + k) bs) = take (m - n) (drop n bs)"
        using i(1) take_add[of k "m - (n + k)" "drop n bs"] by (simp add: add.commute)
      with i k(2) kl(2) show ?thesis by auto
    qed
  qed
qed

end

section \<open>Streams over sockets\<close>

text \<open>The transport that \<open>tcp.c\<close> gives its buffers: the functions of \<open>usocket.c\<close>.\<close>

definition tcp_io :: "(int \<Rightarrow> string) \<Rightarrow> sock t_io" where
  "tcp_io strerror = io_init socket_send socket_recv (socket_ioerror strerror)"

interpretation tcp: transport "tcp_io strerror" kernel_ok inbound sent_bytes for strerror
proof
  fix c tm and n :: nat
  assume "kernel_ok c" "0 < n" "inbound tm c = ([], None)"
  then show "io_recv (tcp_io strerror) n tm c = None"
    using socket_recv_received[of c n tm] by (simp add: tcp_io_def io_init_def received_def)
next
  fix c tm e and n :: nat
  assume "kernel_ok c" "0 < n" "inbound tm c = ([], Some e)"
  then show "\<exists>c'. io_recv (tcp_io strerror) n tm c = Some (e, [], c') \<and> kernel_ok c'"
    using socket_recv_received[of c n tm] by (auto simp: tcp_io_def io_init_def received_def)
next
  fix c tm bs and n :: nat and f :: "int option"
  assume "kernel_ok c" "0 < n" "inbound tm c = (bs, f)" "bs \<noteq> []"
  then show "\<exists>k c'. 0 < k \<and> k \<le> n \<and> k \<le> length bs \<and> io_recv (tcp_io strerror) n tm c = Some (IO_DONE, take k bs, c') \<and>
      inbound tm c' = (drop k bs, f) \<and> kernel_ok c'"
    using socket_recv_received[of c n tm]
    by (cases bs) (auto simp: tcp_io_def io_init_def received_def)
next
  fix c tm bs e
  assume "kernel_ok c" "inbound tm c = (bs, Some e)"
  then show "e \<noteq> IO_DONE" by (rule inbound_fail)
next
  fix bs tm c err k c'
  assume "io_send (tcp_io strerror) bs tm c = Some (err, k, c')" "kernel_ok c" "bs \<noteq> []"
  then show "k \<le> length bs \<and> sent_bytes c' = sent_bytes c @ take k bs \<and> (err = IO_DONE \<longleftrightarrow> 0 < k) \<and> kernel_ok c'"
    using socket_send_sends[of bs tm c err k c'] by (simp add: tcp_io_def io_init_def)
qed

text \<open>Marking the start of an operation changes nothing of what will arrive.\<close>

lemma marked:
  assumes "buffer_wf io ok buf"
  shows "buffer_wf io ok (buf\<lparr>buf_tm := timeout_markstart now (buf_tm buf)\<rparr>)"
    and "available inbound (buf\<lparr>buf_tm := timeout_markstart now (buf_tm buf)\<rparr>) = available inbound buf"
  using assms
  by (simp_all add: buffer_wf_def available_def unread_def inbound_def timeout_iszero_def timeout_markstart_def)

definition stream_wf :: "(int \<Rightarrow> string) \<Rightarrow> sock t_buffer \<Rightarrow> bool" where
  "stream_wf strerror buf \<longleftrightarrow> buffer_wf (tcp_io strerror) kernel_ok buf"

abbreviation incoming :: "sock t_buffer \<Rightarrow> string \<times> int option" where
  "incoming \<equiv> available inbound"

text \<open>The part of a string from one position to another, as \<open>string.sub\<close> of Lua counts them.\<close>

definition lua_bounds :: "int \<Rightarrow> int \<Rightarrow> int \<Rightarrow> int \<times> int" where
  "lua_bounds len st en =
     (max 1 (if st < 0 then len + st + 1 else st), min len (if en < 0 then len + en + 1 else en))"

definition lua_sub :: "string \<Rightarrow> int \<Rightarrow> int \<Rightarrow> string" where
  "lua_sub bs st en = (let (i, j) = lua_bounds (int (length bs)) st en
     in take (nat (j - i + 1)) (drop (nat (i - 1)) bs))"

lemma stream_wf_io: "stream_wf strerror buf \<Longrightarrow> buf_io buf = tcp_io strerror"
  by (simp add: stream_wf_def buffer_wf_def)

lemma tcp_io_error: "io_error (tcp_io strerror) = socket_ioerror strerror"
  by (simp add: tcp_io_def io_init_def)

text \<open>The end of \<open>receive\<close>, common to all patterns.\<close>

definition receive_values :: "(int \<times> string \<times> 'c t_buffer) option \<Rightarrow>
    ((string + lua_value list) \<times> 'c t_buffer) option" where
  "receive_values r =
     (case r of None \<Rightarrow> None | Some (err, b, buf) \<Rightarrow>
        Some (Inr (if err \<noteq> IO_DONE
          then [LNil, optional (io_error (buf_io buf) err (buf_ctx buf)), LString b]
          else [LString b, LNil, LNil]), buf))"

abbreviation marked_at :: "rat \<Rightarrow> 'c t_buffer \<Rightarrow> 'c t_buffer" where
  "marked_at now buf \<equiv> buf\<lparr>buf_tm := timeout_markstart now (buf_tm buf)\<rparr>"

lemma receive_eq:
  "buffer_meth_receive (Inr None) part now buf = receive_values (recvline part (marked_at now buf))"
  "buffer_meth_receive (Inr (Some ''*a'')) part now buf = receive_values (recvall part (marked_at now buf))"
  "buffer_meth_receive (Inl n) part now buf =
     receive_values (recvraw (size_minus n (length part)) part (marked_at now buf))"
  by (simp_all add: buffer_meth_receive_def receive_values_def Let_def split: option.split)

text \<open>A length below the one of the prefix wraps around to a number close to the largest one.\<close>

lemma size_minus_eq:
  "int len \<le> n \<Longrightarrow> n < 2 ^ 64 \<Longrightarrow> size_minus n len = nat n - len"
  "0 \<le> n \<Longrightarrow> n < int len \<Longrightarrow> int len < 2 ^ 63 \<Longrightarrow> 2 ^ 63 < size_minus n len"
proof -
  show "int len \<le> n \<Longrightarrow> n < 2 ^ 64 \<Longrightarrow> size_minus n len = nat n - len"
    by (simp add: size_minus_def nat_diff_distrib)
  assume a: "0 \<le> n" "n < int len" "int len < 2 ^ 63"
  have "(n - int len) mod 2 ^ 64 = (n - int len + 2 ^ 64) mod 2 ^ 64" by simp
  also have "\<dots> = n - int len + 2 ^ 64" using a by (intro mod_pos_pos_trivial) auto
  finally have "(n - int len) mod 2 ^ 64 > 2 ^ 63" using a by simp
  then show "2 ^ 63 < size_minus n len" by (simp add: size_minus_def)
qed

section \<open>Properties\<close>

text \<open>
  (C19) Receiving a line: however the network cuts the data and whatever interruptions and waits
  there are, the values returned are the characters up to the next line feed, without carriage
  returns, after the prefix given, and the rest stays available; if something goes wrong before a line
  feed arrives, the error and all that arrived are returned. The call blocks only if nothing more
  happens.
\<close>

theorem receive_line_correct:
  assumes wf: "stream_wf strerror buf" and a: "incoming buf = (bs, e)"
  shows "if LF \<in> set bs then
      \<exists>buf'. buffer_meth_receive (Inr None) part now buf =
          Some (Inr [LString (part @ filter (\<lambda>c. c \<noteq> CR) (takeWhile (\<lambda>c. c \<noteq> LF) bs)), LNil, LNil], buf') \<and>
        stream_wf strerror buf' \<and> incoming buf' = (tl (dropWhile (\<lambda>c. c \<noteq> LF) bs), e)
    else case e of
      None \<Rightarrow> buffer_meth_receive (Inr None) part now buf = None
    | Some err \<Rightarrow> \<exists>buf' msg. buffer_meth_receive (Inr None) part now buf =
          Some (Inr [LNil, msg, LString (part @ filter (\<lambda>c. c \<noteq> CR) bs)], buf') \<and> stream_wf strerror buf'"
proof -
  have m: "buffer_wf (tcp_io strerror) kernel_ok (marked_at now buf)"
    "available inbound (marked_at now buf) = (bs, e)"
    using marked[OF wf[unfolded stream_wf_def]] a by simp_all
  show ?thesis
    using tcp.recvline_law[OF m, of part] unfolding receive_eq stream_wf_def receive_values_def
    by (cases "LF \<in> set bs"; cases e) auto
qed

definition example_sock :: sock where
  "example_sock = \<lparr>fd_valid = True, fd_open = True, non_blocking = True,
     rxs = [Rx_data (CHR ''H'') ''TTP'', Rx_fail E_INTR, Rx_data CR [], Rx_fail E_AGAIN, Rx_data LF ''rest'', Eof],
     txs = [Accepts 2, Tx_fail E_AGAIN, Accepts 10], waits = [Wait_fail E_INTR, Ready True, Ready False],
     connects = [], accepts = [], sent_bytes = [], clock_time = (\<lambda>n. (int n, 0)), clock_reads = 0,
     select_limits = [], sock_errno = 0\<rparr>"

definition example_buffer :: "sock t_buffer" where
  "example_buffer = \<lparr>birthday = 0, buf_sent = 0, buf_received = 0, buf_io = tcp_io (\<lambda>_. ''error''),
     buf_ctx = example_sock, buf_tm = \<lparr>tm_block = - 1, tm_total = 5, tm_start = 0\<rparr>, buf_first = 0, buf_last = 0,
     buf_data = replicate BUF_SIZE NUL\<rparr>"

lemma example_stream:
  "stream_wf (\<lambda>_. ''error'') example_buffer"
  "incoming example_buffer = (''HTTP'' @ [CR, LF] @ ''rest'', Some IO_CLOSED)"
  by (auto simp: stream_wf_def buffer_wf_def example_buffer_def example_sock_def kernel_ok_def available_def
      unread_def inbound_def timeout_iszero_def)

theorem receive_line_correct_witness:
  "\<exists>buf'. buffer_meth_receive (Inr None) [] 0 example_buffer = Some (Inr [LString ''HTTP'', LNil, LNil], buf') \<and>
     incoming buf' = (''rest'', Some IO_CLOSED)"
  using receive_line_correct[OF example_stream, of "[]" 0] by auto

text \<open>
  (C21) Receiving a number of bytes that is larger than the length of the prefix: they are returned in one
  piece after the prefix when as many arrive, and the rest stays available; otherwise the error and all
  that arrived are returned. For a smaller number see below; for the same number the source reads a
  piece although it needs no byte of it.
\<close>

theorem receive_number_correct:
  assumes wf: "stream_wf strerror buf" and a: "incoming buf = (bs, e)"
    and n: "int (length part) < n" "n < 2 ^ 64"
  shows "if nat n \<le> length part + length bs then
      \<exists>buf'. buffer_meth_receive (Inl n) part now buf =
          Some (Inr [LString (take (nat n) (part @ bs)), LNil, LNil], buf') \<and>
        stream_wf strerror buf' \<and> incoming buf' = (drop (nat n - length part) bs, e)
    else case e of
      None \<Rightarrow> buffer_meth_receive (Inl n) part now buf = None
    | Some err \<Rightarrow> \<exists>buf' msg. buffer_meth_receive (Inl n) part now buf =
          Some (Inr [LNil, msg, LString (part @ bs)], buf') \<and> stream_wf strerror buf'"
proof -
  have m: "buffer_wf (tcp_io strerror) kernel_ok (marked_at now buf)"
    "available inbound (marked_at now buf) = (bs, e)"
    using marked[OF wf[unfolded stream_wf_def]] a by simp_all
  let ?w = "nat n - length part"
  have w: "size_minus n (length part) = ?w" "0 < ?w" using n by (simp_all add: size_minus_eq(1))
  have le: "nat n \<le> length part + length bs \<longleftrightarrow> ?w \<le> 0 + length bs" by auto
  have t: "take (nat n) (part @ bs) = part @ take ?w bs" using n by simp
  show ?thesis
    using tcp.recvraw_loop_law[OF m w(2), of part]
    unfolding receive_eq w recvraw_def stream_wf_def receive_values_def le t
    by (cases "?w \<le> 0 + length bs"; cases e) auto
qed

theorem receive_number_correct_witness:
  "\<exists>buf'. buffer_meth_receive (Inl 5) ''a'' 0 example_buffer = Some (Inr [LString ''aHTTP'', LNil, LNil], buf') \<and>
     incoming buf' = ([CR, LF] @ ''rest'', Some IO_CLOSED)"
  using receive_number_correct[OF example_stream, of "''a''" 5 0] by auto

text \<open>
  Receiving everything: the end of the connection is no error once something has arrived.
\<close>

lemma receive_all_correct:
  assumes wf: "stream_wf strerror buf" and a: "incoming buf = (bs, Some err)"
  shows "\<exists>buf' msg. buffer_meth_receive (Inr (Some ''*a'')) part now buf =
      Some (Inr (if err = IO_CLOSED \<and> bs \<noteq> [] then [LString (part @ bs), LNil, LNil]
                 else [LNil, msg, LString (part @ bs)]), buf') \<and> stream_wf strerror buf'"
proof -
  have m: "buffer_wf (tcp_io strerror) kernel_ok (marked_at now buf)"
    "available inbound (marked_at now buf) = (bs, Some err)"
    using marked[OF wf[unfolded stream_wf_def]] a by simp_all
  show ?thesis
    using tcp.recvall_loop_law[OF m, of 0 part]
    unfolding receive_eq recvall_def stream_wf_def receive_values_def by auto
qed

text \<open>
  A number that does not exceed the length of the prefix is taken as one close to the largest: with a
  prefix that is too long the call reads on until something goes wrong, instead of returning at once.
\<close>

lemma receive_number_wraps:
  assumes wf: "stream_wf strerror buf" and a: "incoming buf = (bs, Some err)"
    and n: "0 \<le> n" "n < int (length part)" "length part < 2 ^ 63" "length bs < 2 ^ 63"
  shows "\<exists>buf' msg. buffer_meth_receive (Inl n) part now buf = Some (Inr [LNil, msg, LString (part @ bs)], buf')"
proof -
  have m: "buffer_wf (tcp_io strerror) kernel_ok (marked_at now buf)"
    "available inbound (marked_at now buf) = (bs, Some err)"
    using marked[OF wf[unfolded stream_wf_def]] a by simp_all
  have w: "2 ^ 63 < size_minus n (length part)" using n by (intro size_minus_eq(2)) auto
  then have "0 < size_minus n (length part)" "\<not> size_minus n (length part) \<le> 0 + length bs" using n by auto
  with tcp.recvraw_loop_law[OF m, of 0 "size_minus n (length part)" part] show ?thesis
    unfolding receive_eq recvraw_def receive_values_def by auto
qed

text \<open>
  (C20) Sending, when the call returns, that is when the kernel does not block it forever: of the part of the string that the two positions name, in the counting of Lua, the
  other side is given a beginning, without gaps or repetitions; it is all of it when the index of its
  last byte is returned as the first value, and otherwise the third value is the index of the last
  byte sent.
\<close>

theorem send_correct:
  assumes wf: "stream_wf strerror buf"
    and r: "buffer_meth_send bytes st en now buf = Some (vals, buf')"
  shows "\<exists>m msg. m \<le> length (lua_sub bytes st en) \<and> stream_wf strerror buf' \<and>
    sent_bytes (buf_ctx buf') = sent_bytes (buf_ctx buf) @ take m (lua_sub bytes st en) \<and>
    (let i = LNumber (of_int (fst (lua_bounds (int (length bytes)) st en) + int m - 1))
     in vals = (if m = length (lua_sub bytes st en) then [i, LNil, LNil] else [LNil, msg, i]))"
proof -
  obtain i j where ij: "lua_bounds (int (length bytes)) st en = (i, j)" by fastforce
  let ?d = "lua_sub bytes st en"
  have d: "?d = take (nat (j - i + 1)) (drop (nat (i - 1)) bytes)" by (simp add: lua_sub_def ij)
  have i: "i = (let f = (if st < 0 then int (length bytes) + st + 1 else st) in if f < 1 then 1 else f)"
    and j: "j = (let u = (if en < 0 then int (length bytes) + en + 1 else en) in if u > int (length bytes) then int (length bytes) else u)"
    using ij by (auto simp: lua_bounds_def Let_def)
  have mk: "buffer_wf (tcp_io strerror) kernel_ok (marked_at now buf)"
    using marked[OF wf[unfolded stream_wf_def]] by simp
  have s: "buffer_meth_send bytes st en now buf =
      (case (if i \<le> j then sendraw ?d (marked_at now buf) else Some (IO_DONE, 0, marked_at now buf)) of
         None \<Rightarrow> None
       | Some (err, sent, buf) \<Rightarrow>
           Some (if err \<noteq> IO_DONE
                 then [LNil, optional (io_error (buf_io buf) err (buf_ctx buf)), LNumber (of_int (int sent + i - 1))]
                 else [LNumber (of_int (int sent + i - 1)), LNil, LNil], buf))"
    unfolding buffer_meth_send_def d Let_def i j by simp
  show ?thesis
  proof (cases "i \<le> j")
    case False
    then have "?d = []" "buf' = marked_at now buf" "vals = [LNumber (of_int (i - 1)), LNil, LNil]"
      using r by (simp_all add: s d)
    with mk show ?thesis by (simp add: ij stream_wf_def)
  next
    case True
    from r True have "sendraw ?d (marked_at now buf) \<noteq> None" by (auto simp: s split: option.splits)
    then obtain err m buf1 where l: "sendraw_loop ?d 0 IO_DONE (marked_at now buf) = Some (err, m, buf1)"
      by (auto simp: sendraw_def bind_eq_Some_conv)
    with r True have b: "buf' = buf1\<lparr>buf_sent := buf_sent buf1 + m\<rparr>" and v: "vals = (if err \<noteq> IO_DONE
        then [LNil, optional (io_error (buf_io buf1) err (buf_ctx buf1)), LNumber (of_int (int m + i - 1))]
        else [LNumber (of_int (int m + i - 1)), LNil, LNil])"
      by (auto simp: s sendraw_def split: if_splits)
    from tcp.sendraw_loop_law[OF l mk] have "m \<le> length ?d"
      "sent_bytes (buf_ctx buf1) = sent_bytes (buf_ctx buf) @ take m ?d" "err = IO_DONE \<longleftrightarrow> m = length ?d"
      "buffer_wf (tcp_io strerror) kernel_ok buf1" by auto
    with v b show ?thesis by (auto simp: ij stream_wf_def buffer_wf_def add.commute Let_def)
  qed
qed

text \<open>The example socket takes three bytes, has no room, and takes the rest after a wait.\<close>

lemma example_send:
  "map_option (\<lambda>(v, b). (v, sent_bytes (buf_ctx b))) (buffer_meth_send ''hello'' 1 (- 1) 0 example_buffer)
   = Some ([LNumber 5, LNil, LNil], ''hello'')"
  by (simp add: buffer_meth_send_def sendraw_def sendraw_loop.simps send_loop.simps wait_loop.simps socket_waitfd_def
      sys_send_def sys_select_def example_buffer_def example_sock_def tcp_io_def io_init_def socket_send_def
      timeout_markstart_def timeout_iszero_def timeout_getretry_def timeout_gettime_def Let_def)

theorem send_correct_witness:
  "\<exists>buf'. buffer_meth_send ''hello'' 1 (- 1) 0 example_buffer = Some ([LNumber 5, LNil, LNil], buf') \<and>
     sent_bytes (buf_ctx buf') = ''hello''"
proof -
  from example_send obtain buf' where
    b: "buffer_meth_send ''hello'' 1 (- 1) 0 example_buffer = Some ([LNumber 5, LNil, LNil], buf')" by auto
  have "lua_sub ''hello'' 1 (- 1) = ''hello''" by (simp add: lua_sub_def lua_bounds_def)
  moreover have "sent_bytes (buf_ctx example_buffer) = []" by (simp add: example_buffer_def example_sock_def)
  ultimately show ?thesis using send_correct[OF example_stream(1) b] b by (auto simp: Let_def split: if_splits)
qed

end
