(* ===== verification/Sigar_Text.thy ===== *)
theory Sigar_Text
  imports Equus_Prelude Complex_Main "HOL-Library.Log_Nat"
begin

text \<open>
  The C library routines \<open>sigar\<close> reads the kernel's text files with (\<open>strtoul\<close> and \<open>strtoull\<close>,
  \<open>strchr\<close>, \<open>strrchr\<close>, \<open>strstr\<close>), and the helpers of \<open>sigar_util.c\<close> on top of them. A pointer
  into a buffer is the C string that starts there: advancing it drops characters, and at the
  terminating NUL it is the empty string. Integers are those of a 64 bit Linux: \<open>int\<close> has 32
  bits, \<open>long\<close> and \<open>sigar_uint64_t\<close> have 64.
\<close>

section \<open>Numbers in text\<close>

abbreviation (input) ULONG_MAX :: nat where
  "ULONG_MAX \<equiv> 18446744073709551615"

text \<open>The value of a digit in a base up to 36.\<close>

definition digit_val :: "char \<Rightarrow> nat option" where
  "digit_val c =
     (let n = of_char c :: nat in
      if 48 \<le> n \<and> n \<le> 57 then Some (n - 48)
      else if 65 \<le> n \<and> n \<le> 90 then Some (n - 55)
      else if 97 \<le> n \<and> n \<le> 122 then Some (n - 87)
      else None)"

definition is_digit_of :: "nat \<Rightarrow> char \<Rightarrow> bool" where
  "is_digit_of b c = (case digit_val c of None \<Rightarrow> False | Some d \<Rightarrow> d < b)"

definition digits_of :: "nat \<Rightarrow> string \<Rightarrow> nat" where
  "digits_of b ds = foldl (\<lambda>n c. b * n + the (digit_val c)) 0 ds"

text \<open>
  The optional sign and the prefix that base 0 (any of the three notations) and base 16 allow: the
  base that is used and where its digits start.
\<close>

definition strto_sign :: "string \<Rightarrow> bool \<times> string" where
  "strto_sign p =
     (case p of c # q \<Rightarrow> if c = CHR ''-'' then (True, q) else if c = CHR ''+'' then (False, q) else (False, p)
      | [] \<Rightarrow> (False, p))"

definition strto_base :: "nat \<Rightarrow> string \<Rightarrow> nat \<times> string" where
  "strto_base b p =
     (let hex = (case p of z # x # d # _ \<Rightarrow> z = CHR ''0'' \<and> (x = CHR ''x'' \<or> x = CHR ''X'') \<and> is_digit_of 16 d
                 | _ \<Rightarrow> False)
      in if (b = 0 \<or> b = 16) \<and> hex then (16, drop 2 p)
         else if b = 0 then (if take 1 p = ''0'' then 8 else 10, p)
         else (b, p))"

text \<open>
  \<open>strtoul(p, &end, b)\<close> and \<open>strtoull\<close>, which are the same function here: white space, a sign,
  digits. Too large a number gives the largest one, a negative one is negated modulo \<open>2\<^sup>6\<^sup>4\<close>, and
  without a digit the result is 0 and the end pointer is \<open>p\<close>.
\<close>

definition strtoull :: "nat \<Rightarrow> string \<Rightarrow> nat \<times> string" where
  "strtoull b p =
     (let (neg, q) = strto_sign (skip_space p);
          (b', q) = strto_base b q;
          ds = takeWhile (is_digit_of b') q;
          n = digits_of b' ds
      in if ds = [] then (0, p)
         else (if n > ULONG_MAX then ULONG_MAX
               else if neg then (2 ^ 64 - n) mod 2 ^ 64 else n,
               drop (length ds) q))"

text \<open>\<open>sigar_strtoul\<close> and \<open>sigar_strtoull\<close> store the end pointer back into the pointer they read.\<close>

definition sigar_strtoull :: "string \<Rightarrow> nat \<times> string" where
  "sigar_strtoull p = strtoull 10 p"

lemma digit_val_digit: "d < 10 \<Longrightarrow> digit_val (digit_char d) = Some d"
  by (simp add: digit_val_def digit_char_code)

lemma is_digit_digit: "d < 10 \<Longrightarrow> d < b \<Longrightarrow> is_digit_of b (digit_char d)"
  by (simp add: is_digit_of_def digit_val_digit)

lemma digits_of_snoc: "digits_of b (ds @ [c]) = b * digits_of b ds + the (digit_val c)"
  by (simp add: digits_of_def)

lemma digits_of_show_nat: "digits_of 10 (show_nat n) = n"
proof (induction n rule: show_nat.induct)
  case (1 n)
  show ?case
  proof (cases "n < 10")
    case True
    then show ?thesis by (subst show_nat.simps) (simp add: digits_of_def digit_val_digit)
  next
    case False
    then have "digits_of 10 (show_nat n) = 10 * (n div 10) + n mod 10"
      using 1 by (subst show_nat.simps) (simp add: digits_of_snoc digit_val_digit)
    then show ?thesis by simp
  qed
qed

lemma show_nat_digits: "c \<in> set (show_nat n) \<Longrightarrow> \<exists>d < 10. c = digit_char d"
proof (induction n rule: show_nat.induct)
  case (1 n)
  then show ?case
    by (subst (asm) (2) show_nat.simps) (auto split: if_splits intro: exI[of _ "n mod 10"])
qed

lemma show_nat_not_Nil [simp]: "show_nat n \<noteq> []"
  by (subst show_nat.simps) simp

lemma digit_char_plain:
  assumes "d < 10"
  shows "\<not> isspace (digit_char d)" "digit_char d \<noteq> CHR ''-''" "digit_char d \<noteq> CHR ''+''"
    "digit_char d \<noteq> CHR '':''" "digit_char d \<noteq> CHR '')''" "digit_char d \<noteq> LF"
    "isdigit (digit_char d)"
proof -
  have "\<forall>d \<in> {..<10}. \<not> isspace (digit_char d) \<and> digit_char d \<noteq> CHR ''-'' \<and> digit_char d \<noteq> CHR ''+''
    \<and> digit_char d \<noteq> CHR '':'' \<and> digit_char d \<noteq> CHR '')'' \<and> digit_char d \<noteq> LF \<and> isdigit (digit_char d)"
    by code_simp
  then show "\<not> isspace (digit_char d)" "digit_char d \<noteq> CHR ''-''" "digit_char d \<noteq> CHR ''+''"
    "digit_char d \<noteq> CHR '':''" "digit_char d \<noteq> CHR '')''" "digit_char d \<noteq> LF" "isdigit (digit_char d)"
    using assms by auto
qed

lemma show_nat_plain:
  assumes "c \<in> set (show_nat n)"
  shows "\<not> isspace c" "c \<noteq> CHR ''-''" "c \<noteq> CHR ''+''" "c \<noteq> CHR '':''" "c \<noteq> CHR '')''" "c \<noteq> LF" "isdigit c"
proof -
  from show_nat_digits[OF assms] obtain d where "d < 10" "c = digit_char d" by blast
  then show "\<not> isspace c" "c \<noteq> CHR ''-''" "c \<noteq> CHR ''+''" "c \<noteq> CHR '':''" "c \<noteq> CHR '')''" "c \<noteq> LF" "isdigit c"
    by (simp_all only: digit_char_plain) simp_all
qed

text \<open>Reading back a number that was printed, after white space and before something else.\<close>

definition ends_number :: "string \<Rightarrow> bool" where
  "ends_number r \<longleftrightarrow> (case r of [] \<Rightarrow> True | c # _ \<Rightarrow> \<not> is_digit_of 10 c)"

lemma takeWhile_digits:
  "ends_number r \<Longrightarrow> takeWhile (is_digit_of 10) (show_nat n @ r) = show_nat n"
  by (subst takeWhile_append2)
    (auto simp: ends_number_def dest!: show_nat_digits split: list.splits intro: is_digit_digit)

lemma skip_space_show_nat [simp]:
  "list_all isspace sp \<Longrightarrow> skip_space (sp @ show_nat n @ r) = show_nat n @ r"
proof -
  assume "list_all isspace sp"
  moreover obtain c cs where c: "show_nat n = c # cs" by (cases "show_nat n") auto
  moreover have "\<not> isspace c" using show_nat_digits[of c n] c digit_char_plain(1) by auto
  ultimately show ?thesis by (simp add: skip_space_def list_all_iff dropWhile_append3)
qed

lemma strto_sign_show_nat [simp]: "strto_sign (show_nat n @ r) = (False, show_nat n @ r)"
proof -
  obtain c cs where c: "show_nat n = c # cs" by (cases "show_nat n") auto
  have "c \<noteq> CHR ''-''" "c \<noteq> CHR ''+''"
    using show_nat_digits[of c n] c digit_char_plain by auto
  then show ?thesis by (simp add: strto_sign_def c)
qed

lemma strtoull_show_nat:
  assumes "list_all isspace sp" and "n < 2 ^ 64" and "ends_number r"
  shows "strtoull 10 (sp @ show_nat n @ r) = (n, r)"
  using assms
  by (simp add: strtoull_def strto_base_def takeWhile_digits digits_of_show_nat)

section \<open>Searching strings\<close>

definition strchr :: "string \<Rightarrow> char \<Rightarrow> string option" where
  "strchr p c = (if c \<in> set p then Some (dropWhile (\<lambda>d. d \<noteq> c) p) else None)"

fun strrchr :: "string \<Rightarrow> char \<Rightarrow> string option" where
  "strrchr [] c = None"
| "strrchr (d # p) c =
     (case strrchr p c of Some q \<Rightarrow> Some q | None \<Rightarrow> if d = c then Some (d # p) else None)"

fun strstr :: "string \<Rightarrow> string \<Rightarrow> string option" where
  "strstr p n =
     (if take (length n) p = n then Some p
      else case p of [] \<Rightarrow> None | _ # q \<Rightarrow> strstr q n)"

declare strstr.simps [simp del]

lemma strchr_append: "c \<notin> set p \<Longrightarrow> strchr (p @ c # q) c = Some (c # q)"
proof -
  assume "c \<notin> set p"
  then have "dropWhile (\<lambda>d. d \<noteq> c) (p @ c # q) = c # q" by (induction p) auto
  then show ?thesis by (simp add: strchr_def)
qed

lemma strchr_None: "strchr p c = None \<longleftrightarrow> c \<notin> set p"
  by (simp add: strchr_def)

lemma strrchr_None: "strrchr p c = None \<longleftrightarrow> c \<notin> set p"
  by (induction p) (auto split: option.splits)

lemma strrchr_append: "c \<notin> set q \<Longrightarrow> strrchr (p @ c # q) c = Some (c # q)"
proof (induction p)
  case Nil
  then have "strrchr q c = None" by (simp add: strrchr_None)
  then show ?case by simp
qed simp

section \<open>Helpers of \<open>sigar_util.c\<close>\<close>

abbreviation (input) SIGAR_OK :: int where "SIGAR_OK \<equiv> 0"
abbreviation (input) ENOENT :: int where "ENOENT \<equiv> 2"
abbreviation (input) ESRCH :: int where "ESRCH \<equiv> 3"
abbreviation (input) ENXIO :: int where "ENXIO \<equiv> 6"
abbreviation (input) EINVAL :: int where "EINVAL \<equiv> 22"
abbreviation (input) BUFSIZ :: nat where "BUFSIZ \<equiv> 8192"
abbreviation (input) UITOA_BUFFER_SIZE :: nat where "UITOA_BUFFER_SIZE \<equiv> 13"

text \<open>
  \<open>sigar_uitoa\<close>: the digits are written from the end of the buffer towards its beginning. The
  result is where they start, the buffer and the length.
\<close>

fun uitoa_loop :: "string \<Rightarrow> nat \<Rightarrow> nat \<Rightarrow> int \<Rightarrow> (nat \<times> string \<times> int) option" where
  "uitoa_loop buf 0 n len = None"
| "uitoa_loop buf (Suc start) n len =
     (let buf = buf[start := digit_char (n mod 10)]; len = len + 1; n = n div 10
      in if n \<noteq> 0 then uitoa_loop buf start n len else Some (start, buf, len))"

definition sigar_uitoa :: "string \<Rightarrow> nat \<Rightarrow> int \<Rightarrow> (nat \<times> string \<times> int) option" where
  "sigar_uitoa buf n len =
     (let start = UITOA_BUFFER_SIZE - 1
      in if start < length buf then uitoa_loop (buf[start := NUL]) start n len else None)"

text \<open>\<open>sigar_skip_line\<close>; a string without a line end makes it count up the null pointer.\<close>

definition sigar_skip_line :: "string \<Rightarrow> nat \<Rightarrow> string option" where
  "sigar_skip_line p buflen =
     (if LF \<in> set (if buflen \<noteq> 0 then take buflen p else p)
      then Some (drop 1 (dropWhile (\<lambda>c. c \<noteq> LF) p)) else None)"

definition sigar_skip_token :: "string \<Rightarrow> string" where
  "sigar_skip_token p = dropWhile (\<lambda>c. \<not> isspace c) (skip_space p)"

primrec sigar_skip_multiple_token :: "nat \<Rightarrow> string \<Rightarrow> string" where
  "sigar_skip_multiple_token 0 p = p"
| "sigar_skip_multiple_token (Suc n) p = sigar_skip_multiple_token n (sigar_skip_token p)"

text \<open>\<open>sigar_getword\<close>: the word and the rest of the line; stopping at NUL skips nothing.\<close>

definition sigar_getword :: "string \<Rightarrow> char \<Rightarrow> string \<times> string" where
  "sigar_getword line stop =
     (let res = takeWhile (\<lambda>c. c \<noteq> stop) line; pos = drop (length res) line
      in (res, if stop \<noteq> NUL then dropWhile (\<lambda>c. c = stop) pos else pos))"

text \<open>
  \<open>sigar_proc_filename\<close>. The assertion stops the process when the buffer could be too small; the
  buffer has \<open>buflen\<close> characters whose values do not matter.
\<close>

definition PROCP_FS_ROOT :: string where
  "PROCP_FS_ROOT = ''/proc/''"

definition sigar_proc_filename :: "string \<Rightarrow> int \<Rightarrow> string \<Rightarrow> string finish option" where
  "sigar_proc_filename buffer bigpid fname = do {
     let pid = nat (bigpid mod 2 ^ 32);
     (start, pid_buf, len) \<leftarrow> sigar_uitoa (replicate UITOA_BUFFER_SIZE NUL) pid 0;
     if length buffer < length PROCP_FS_ROOT + UITOA_BUFFER_SIZE + length fname + 1 then Some Aborted
     else do {
       b \<leftarrow> memcpy buffer 0 PROCP_FS_ROOT;
       b \<leftarrow> memcpy b (length PROCP_FS_ROOT) (take (nat len) (drop start pid_buf));
       b \<leftarrow> memcpy b (length PROCP_FS_ROOT + nat len) fname;
       b \<leftarrow> memcpy b (length PROCP_FS_ROOT + nat len + length fname) [NUL];
       Some (Returned b)
     }
   }"

text \<open>
  What the kernel answers for a path: it cannot be opened (with \<open>errno\<close>), it can be opened but not
  read, or it holds these bytes. \<open>read\<close> on the files of \<open>/proc\<close> returns all bytes there are up to
  the size of the buffer.
\<close>

datatype proc_file = No_file int | Unreadable int | Bytes string

type_synonym files = "string \<Rightarrow> proc_file"

text \<open>
  \<open>sigar_file2str\<close>: an error number, or the string in the buffer. When the file fills the buffer
  the terminating NUL is stored behind its end, which has no defined result.
\<close>

definition sigar_file2str :: "files \<Rightarrow> string \<Rightarrow> nat \<Rightarrow> (int + string) option" where
  "sigar_file2str fs fname buflen =
     (case fs fname of
        No_file e \<Rightarrow> Some (Inl ENOENT)
      | Unreadable e \<Rightarrow> Some (Inl e)
      | Bytes s \<Rightarrow> if length s < buflen then Some (Inr (cstr s)) else None)"

definition sigar_proc_file2str :: "files \<Rightarrow> nat \<Rightarrow> int \<Rightarrow> string \<Rightarrow> (int + string) finish option" where
  "sigar_proc_file2str fs buflen pid fname = do {
     r \<leftarrow> sigar_proc_filename (replicate buflen NUL) pid fname;
     (case r of
        Aborted \<Rightarrow> Some Aborted
      | Returned path \<Rightarrow> do {
          r \<leftarrow> sigar_file2str fs (cstr path) buflen;
          Some (Returned (case r of Inl e \<Rightarrow> Inl (if e = ENOENT then ESRCH else e) | Inr s \<Rightarrow> Inr s))
        })
   }"

text \<open>
  \<open>sigar_strcasestr\<close> as it is written: skip to a place where the first characters agree, compare
  the rest there, go on at the next place. At the end of a string the character read is NUL.
\<close>

definition sigar_tolower :: "char \<Rightarrow> char" where
  "sigar_tolower c =
     (let n = of_char c :: nat in if 65 \<le> n \<and> n \<le> 90 then char_of (n + 32) else c)"

definition char_at :: "string \<Rightarrow> char" where
  "char_at p = (case p of [] \<Rightarrow> NUL | c # _ \<Rightarrow> c)"

text \<open>The inner loop: whether the rest of the second string was reached or both ended together.\<close>

function casestr_rest :: "string \<Rightarrow> string \<Rightarrow> bool" where
  "casestr_rest p1 p2 =
     (if sigar_tolower (char_at p1) = sigar_tolower (char_at p2)
      then (if char_at p1 = NUL then True else casestr_rest (tl p1) (tl p2))
      else char_at p2 = NUL)"
  by pat_completeness auto
termination
  by (relation "measure (\<lambda>(p1, p2). length p1)") (auto simp: char_at_def split: list.splits)

declare casestr_rest.simps [simp del]

function casestr_loop :: "string \<Rightarrow> string \<Rightarrow> string option" where
  "casestr_loop s1 s2 =
     (case dropWhile (\<lambda>c. sigar_tolower c \<noteq> sigar_tolower (char_at s2)) s1 of
        [] \<Rightarrow> None
      | c # q \<Rightarrow> if casestr_rest q (tl s2) then Some (c # q) else casestr_loop q s2)"
  by pat_completeness auto
termination
proof (relation "measure (\<lambda>(s1, s2). length s1)")
  fix s1 s2 c q
  assume "dropWhile (\<lambda>c. sigar_tolower c \<noteq> sigar_tolower (char_at s2)) s1 = c # q"
  then show "((q, s2), s1, s2) \<in> measure (\<lambda>(s1, s2). length s1)"
    using length_dropWhile_le[of "\<lambda>c. sigar_tolower c \<noteq> sigar_tolower (char_at s2)" s1] by simp
qed simp

declare casestr_loop.simps [simp del]

definition sigar_strcasestr :: "string \<Rightarrow> string \<Rightarrow> string option" where
  "sigar_strcasestr s1 s2 = (if char_at s2 = NUL then Some s1 else casestr_loop s1 s2)"

section \<open>Decimal numbers and file names\<close>

text \<open>
  The loop of \<open>sigar_uitoa\<close> writes the decimal digits right before what the buffer held from the
  place it started at.
\<close>

lemma length_show_nat_Suc:
  "\<not> n < 10 \<Longrightarrow> length (show_nat n) = Suc (length (show_nat (n div 10)))"
  by (subst show_nat.simps) simp

lemma uitoa_loop_correct:
  assumes "length (show_nat n) \<le> start" and "start \<le> length buf"
  shows "\<exists>buf'. uitoa_loop buf start n len =
      Some (start - length (show_nat n), buf', len + int (length (show_nat n)))
    \<and> drop (start - length (show_nat n)) buf' = show_nat n @ drop start buf \<and> length buf' = length buf"
  using assms
proof (induction n arbitrary: start buf len rule: show_nat.induct)
  case (1 n)
  obtain s where s: "start = Suc s" using 1(2) by (cases start) auto
  let ?b = "buf[s := digit_char (n mod 10)]"
  have d: "drop s ?b = digit_char (n mod 10) # drop start buf"
    using 1(3) s by (simp add: Cons_nth_drop_Suc[symmetric] drop_update_cancel)
  show ?case
  proof (cases "n < 10")
    case True
    then show ?thesis using d s 1(3) by (simp add: show_nat.simps[of n])
  next
    case False
    have l: "length (show_nat (n div 10)) \<le> s" "s \<le> length ?b"
      using 1(2,3) s length_show_nat_Suc[OF False] by auto
    from 1(1)[OF False l, of "len + 1"] show ?thesis
      using False s d length_show_nat_Suc[OF False]
      by (auto simp: show_nat.simps[of n] Let_def)
  qed
qed

lemma length_show_nat_le: "n < 10 ^ k \<Longrightarrow> 0 < k \<Longrightarrow> length (show_nat n) \<le> k"
proof (induction k arbitrary: n)
  case (Suc k)
  show ?case
  proof (cases "n < 10")
    case True
    then show ?thesis by (simp add: show_nat.simps)
  next
    case False
    then have "0 < k" using Suc.prems by (cases k) auto
    moreover have "n div 10 < 10 ^ k" using Suc.prems(1) by (simp add: less_mult_imp_div_less)
    ultimately show ?thesis using Suc.IH length_show_nat_Suc[OF False] by simp
  qed
qed simp

lemma uitoa_correct:
  assumes "n < 2 ^ 32" and "length buf = UITOA_BUFFER_SIZE"
  shows "\<exists>start buf'. sigar_uitoa buf n len = Some (start, buf', len + int (length (show_nat n)))
    \<and> drop start buf' = show_nat n @ [NUL] \<and> length buf' = length buf"
proof -
  have "length (show_nat n) \<le> 10" using assms(1) by (intro length_show_nat_le) auto
  then have "length (show_nat n) \<le> 12" by simp
  from uitoa_loop_correct[OF this, of "buf[12 := NUL]" len] assms(2) show ?thesis
    by (auto simp: sigar_uitoa_def Cons_nth_drop_Suc[symmetric] drop_update_cancel)
qed

lemma proc_filename_correct:
  assumes "20 + length fname \<le> length buffer"
  shows "\<exists>b. sigar_proc_filename buffer pid fname = Some (Returned b) \<and> length b = length buffer
    \<and> take (7 + length (show_nat (nat (pid mod 2 ^ 32))) + length fname) b =
        ''/proc/'' @ show_nat (nat (pid mod 2 ^ 32)) @ fname @ [NUL]"
proof -
  let ?n = "nat (pid mod 2 ^ 32)" let ?d = "show_nat ?n"
  have n: "?n < 2 ^ 32" by (simp add: nat_less_iff)
  have ld: "length ?d \<le> 10" using n by (intro length_show_nat_le) auto
  from uitoa_correct[OF n, of "replicate UITOA_BUFFER_SIZE NUL" 0] obtain start buf' where
    u: "sigar_uitoa (replicate UITOA_BUFFER_SIZE NUL) ?n 0 = Some (start, buf', int (length ?d))"
      "drop start buf' = ?d @ [NUL]" by auto
  have root: "length PROCP_FS_ROOT = 6" by (simp add: PROCP_FS_ROOT_def)
  obtain b1 where b1: "memcpy buffer 0 PROCP_FS_ROOT = Some b1" "length b1 = length buffer"
    "take (0 + length PROCP_FS_ROOT) b1 = [] @ PROCP_FS_ROOT"
    by (rule memcpy_after[of 0 buffer "[]" PROCP_FS_ROOT]) (use assms root in auto)
  obtain b2 where b2: "memcpy b1 6 ?d = Some b2" "length b2 = length b1"
    "take (6 + length ?d) b2 = PROCP_FS_ROOT @ ?d"
    by (rule memcpy_after[of 6 b1 PROCP_FS_ROOT ?d]) (use assms root b1 ld in auto)
  obtain b3 where b3: "memcpy b2 (6 + length ?d) fname = Some b3" "length b3 = length b2"
    "take (6 + length ?d + length fname) b3 = (PROCP_FS_ROOT @ ?d) @ fname"
    by (rule memcpy_after[of "6 + length ?d" b2 "PROCP_FS_ROOT @ ?d" fname]) (use assms b1 b2 ld in auto)
  obtain b4 where b4: "memcpy b3 (6 + length ?d + length fname) [NUL] = Some b4" "length b4 = length b3"
    "take (6 + length ?d + length fname + length [NUL]) b4 = ((PROCP_FS_ROOT @ ?d) @ fname) @ [NUL]"
    by (rule memcpy_after[of "6 + length ?d + length fname" b3 "(PROCP_FS_ROOT @ ?d) @ fname" "[NUL]"])
      (use assms b1 b2 b3 ld in auto)
  have "sigar_proc_filename buffer pid fname = Some (Returned b4)"
    using assms u b1(1) b2(1) b3(1) b4(1) by (simp add: sigar_proc_filename_def root)
  then show ?thesis
    using b1(2) b2(2) b3(2) b4(2,3) by (intro exI[of _ b4]) (simp add: PROCP_FS_ROOT_def add.assoc)
qed

text \<open>The path of a file of a process.\<close>

definition proc_path :: "int \<Rightarrow> string \<Rightarrow> string" where
  "proc_path pid fname = ''/proc/'' @ show_nat (nat (pid mod 2 ^ 32)) @ fname"

lemma is_cstr_proc_path: "is_cstr fname \<Longrightarrow> is_cstr (proc_path pid fname)"
  by (simp add: proc_path_def)

lemma cstr_take_prefix: "take n b = p @ [NUL] \<Longrightarrow> is_cstr p \<Longrightarrow> cstr b = p"
  by (metis append_take_drop_id append.assoc append_Cons cstr_append_NUL)

text \<open>Reading a file of a process is reading the file at that path, with \<open>ESRCH\<close> for \<open>ENOENT\<close>.\<close>

lemma proc_file2str_eq:
  assumes "20 + length fname \<le> buflen" and "is_cstr fname"
  shows "sigar_proc_file2str fs buflen pid fname =
    map_option (\<lambda>r. Returned (case r of Inl e \<Rightarrow> Inl (if e = ENOENT then ESRCH else e) | Inr s \<Rightarrow> Inr s))
      (sigar_file2str fs (proc_path pid fname) buflen)"
proof -
  from proc_filename_correct[of fname "replicate buflen NUL" pid] assms(1) obtain b where
    b: "sigar_proc_filename (replicate buflen NUL) pid fname = Some (Returned b)"
      "take (7 + length (show_nat (nat (pid mod 2 ^ 32))) + length fname) b = proc_path pid fname @ [NUL]"
    by (auto simp: proc_path_def)
  have "cstr b = proc_path pid fname" using b(2) assms(2) by (intro cstr_take_prefix is_cstr_proc_path)
  with b(1) show ?thesis
    by (cases "sigar_file2str fs (proc_path pid fname) buflen") (simp_all add: sigar_proc_file2str_def)
qed

section \<open>Searching without regard to case\<close>

lemma tolower_NUL [simp]: "sigar_tolower NUL = NUL"
  by (simp add: sigar_tolower_def)

lemma tolower_eq_NUL: "sigar_tolower c = NUL \<longleftrightarrow> c = NUL"
proof
  assume "sigar_tolower c = NUL"
  then show "c = NUL"
    by (auto simp: sigar_tolower_def Let_def split: if_splits dest: arg_cong[of _ _ "of_char :: char \<Rightarrow> nat"])
qed simp

text \<open>Whether a string starts with another, up to case.\<close>

definition prefix_icase :: "string \<Rightarrow> string \<Rightarrow> bool" where
  "prefix_icase n p \<longleftrightarrow> map sigar_tolower (take (length n) p) = map sigar_tolower n"

lemma prefix_icase_simps [simp]:
  "prefix_icase [] p"
  "prefix_icase (d # n) (c # p) \<longleftrightarrow> sigar_tolower c = sigar_tolower d \<and> prefix_icase n p"
  "\<not> prefix_icase (d # n) []"
  by (auto simp: prefix_icase_def)

lemma casestr_rest_prefix: "is_cstr p \<Longrightarrow> is_cstr n \<Longrightarrow> casestr_rest p n \<longleftrightarrow> prefix_icase n p"
proof (induction n arbitrary: p)
  case Nil
  then show ?case by (cases p) (simp_all add: casestr_rest.simps char_at_def tolower_eq_NUL)
next
  case (Cons d n)
  have "sigar_tolower d \<noteq> NUL" using Cons.prems by (simp add: tolower_eq_NUL)
  then show ?case
    using Cons by (cases p) (auto simp: casestr_rest.simps[of _ "d # n"] char_at_def)
qed

text \<open>The reference: the first place of the string at which the other one starts.\<close>

fun find_icase :: "string \<Rightarrow> string \<Rightarrow> string option" where
  "find_icase p n =
     (if prefix_icase n p then Some p else case p of [] \<Rightarrow> None | _ # q \<Rightarrow> find_icase q n)"

declare find_icase.simps [simp del]

lemma find_icase_skip:
  "n \<noteq> [] \<Longrightarrow> find_icase p n =
     find_icase (dropWhile (\<lambda>c. sigar_tolower c \<noteq> sigar_tolower (char_at n)) p) n"
proof (induction p)
  case (Cons c p)
  then show ?case
    by (cases n) (auto simp: find_icase.simps[of "c # p"] char_at_def)
qed simp

lemma casestr_loop_find:
  "is_cstr p \<Longrightarrow> is_cstr n \<Longrightarrow> n \<noteq> [] \<Longrightarrow> casestr_loop p n = find_icase p n"
proof (induction p n rule: casestr_loop.induct)
  case (1 p n)
  let ?q = "dropWhile (\<lambda>c. sigar_tolower c \<noteq> sigar_tolower (char_at n)) p"
  obtain d m where n: "n = d # m" using 1(4) by (cases n) auto
  show ?case
  proof (cases ?q)
    case Nil
    have "find_icase p n = find_icase [] n" by (rule find_icase_skip[OF 1(4), of p, unfolded Nil])
    also have "\<dots> = None" using n by (simp add: find_icase.simps)
    finally show ?thesis unfolding casestr_loop.simps[of p] Nil by simp
  next
    case (Cons c q)
    then have "set (c # q) \<subseteq> set p" by (metis set_dropWhileD subsetI)
    then have q: "is_cstr q" using 1(2) by (auto simp: is_cstr_def)
    have c: "sigar_tolower c = sigar_tolower d"
      using dropWhile_eq_Cons_conv[THEN iffD1, OF Cons] n by (auto simp: char_at_def)
    have "find_icase p n = find_icase (c # q) n" using find_icase_skip[OF 1(4), of p] Cons by simp
    also have "\<dots> = casestr_loop p n"
      using Cons c n q 1(1)[OF Cons] 1(3,4)
      by (simp add: find_icase.simps[of "c # q"] casestr_loop.simps[of p] casestr_rest_prefix)
    finally show ?thesis by simp
  qed
qed

section \<open>Binary floating point\<close>

text \<open>
  Clock ticks become milliseconds in \<open>double\<close> arithmetic. A \<open>double\<close> is the rational number it
  stands for; an operation gives the \<open>double\<close> nearest to the exact result, with 53 significant bits
  and ties to the even one. \<open>double x\<close> is that rounding for \<open>x = 0\<close> and for every \<open>x\<close> from \<open>2\<^sup>-\<^sup>7\<^sup>6\<close>
  up to the largest \<open>double\<close>, which covers the numbers that occur here.
\<close>

definition half_even :: "rat \<Rightarrow> int" where
  "half_even x =
     (let f = \<lfloor>x\<rfloor>; d = x - of_int f
      in if d < 1 / 2 \<or> d = 1 / 2 \<and> even f then f else f + 1)"

definition double :: "rat \<Rightarrow> rat" where
  "double x =
     (let y = x * 2 ^ 128; e = floorlog 2 (nat \<lfloor>y\<rfloor>) - 53
      in of_int (half_even (y / 2 ^ e)) * 2 ^ e / 2 ^ 128)"

text \<open>Conversion to an unsigned integer of 64 bits cuts the fraction; it has no result from \<open>2\<^sup>6\<^sup>4\<close> on.\<close>

definition to_u64 :: "rat \<Rightarrow> nat option" where
  "to_u64 x = (if x < 2 ^ 64 then Some (nat \<lfloor>x\<rfloor>) else None)"

text \<open>\<open>SIGAR_TICK2MSEC\<close>; \<open>sysconf\<close> gives a positive number of ticks.\<close>

definition SIGAR_TICK2MSEC :: "int \<Rightarrow> nat \<Rightarrow> rat" where
  "SIGAR_TICK2MSEC ticks s = double (double (of_nat s) * double (1000 / of_int ticks))"

lemma half_even_int [simp]: "half_even (of_int i) = i"
  by (simp add: half_even_def)

text \<open>Integers below \<open>2\<^sup>5\<^sup>3\<close> are \<open>double\<close>s.\<close>

lemma double_exact:
  assumes "n < 2 ^ 53"
  shows "double (of_nat n) = of_nat n"
proof (cases "n = 0")
  case True
  then show ?thesis using half_even_int[of 0] by (simp add: double_def)
next
  case False
  define e where "e = floorlog 2 (n * 2 ^ 128) - 53"
  have "floorlog 2 n \<le> 53" using assms by (simp add: floorlog_le_iff)
  moreover have "floorlog 2 (n * 2 ^ 128) = floorlog 2 n + 128"
    using False by (intro floorlog_power) auto
  ultimately have e: "e \<le> 128" unfolding e_def by linarith
  have y: "of_nat n * 2 ^ 128 = (of_nat (n * 2 ^ 128) :: rat)" by simp
  have fl: "nat \<lfloor>of_nat n * (2::rat) ^ 128\<rfloor> = n * 2 ^ 128" unfolding y by (simp del: of_nat_mult)
  have "(2::rat) ^ (128 - e) = 2 ^ 128 / 2 ^ e" using e by (intro power_diff) simp_all
  then have q: "of_nat n * (2::rat) ^ 128 / 2 ^ e = of_int (int n * 2 ^ (128 - e))" by simp
  have "double (of_nat n) = of_int (int n * 2 ^ (128 - e)) * 2 ^ e / 2 ^ 128"
    unfolding double_def Let_def fl e_def[symmetric] q half_even_int ..
  also have "\<dots> = of_nat n * ((2::rat) ^ (128 - e) * 2 ^ e) / 2 ^ 128" by simp
  also have "(2::rat) ^ (128 - e) * 2 ^ e = 2 ^ 128" using e by (simp flip: power_add)
  finally show ?thesis by simp
qed

text \<open>With a tick rate that divides 1000, ticks become milliseconds exactly.\<close>

lemma tick2msec_exact:
  assumes "0 < ticks" and "ticks dvd 1000" and "s * nat (1000 div ticks) < 2 ^ 53"
  shows "SIGAR_TICK2MSEC ticks s = of_nat (s * nat (1000 div ticks))"
proof -
  define k where "k = nat (1000 div ticks)"
  have "0 \<le> 1000 div ticks" using assms(1) by (simp add: pos_imp_zdiv_nonneg_iff)
  then have kt: "1000 = int k * ticks" using assms(2) by (simp add: k_def)
  then have "k \<noteq> 0" by (intro notI) simp
  have "s \<le> s * k" using \<open>k \<noteq> 0\<close> by simp
  then have s: "s < 2 ^ 53" using assms(3) unfolding k_def[symmetric] by (rule le_less_trans)
  have "int k * 1 \<le> int k * ticks" using assms(1) by (intro mult_left_mono) auto
  then have "int k \<le> 1000" using kt by simp
  then have k: "k < 2 ^ 53" by simp
  have "(1000::rat) = of_nat k * of_int ticks" using arg_cong[OF kt, of "of_int :: int \<Rightarrow> rat"] by simp
  then have "(1000::rat) / of_int ticks = of_nat k" using assms(1) by (simp add: field_simps)
  then have "SIGAR_TICK2MSEC ticks s = double (of_nat (s * k))"
    using double_exact[OF s] double_exact[OF k] by (simp add: SIGAR_TICK2MSEC_def)
  then show ?thesis unfolding k_def double_exact[OF assms(3)] .
qed

lemma to_u64_of_nat: "n < 2 ^ 64 \<Longrightarrow> to_u64 (of_nat n) = Some n"
proof -
  assume "n < 2 ^ 64"
  then have "(of_nat n :: rat) < of_nat (2 ^ 64)" by (simp only: of_nat_less_iff)
  then show ?thesis by (simp add: to_u64_def)
qed

section \<open>Properties\<close>

text \<open>
  (C11) \<open>sigar_strcasestr\<close> is the search it stands for: on all strings it returns the first place
  of the first string at which the second one starts, upper and lower case taken as equal, and the
  null pointer when there is none.
\<close>

theorem strcasestr_is_search:
  assumes "is_cstr s1" and "is_cstr s2"
  shows "sigar_strcasestr s1 s2 = find_icase s1 s2"
proof (cases s2)
  case Nil
  then show ?thesis by (simp add: sigar_strcasestr_def char_at_def find_icase.simps)
next
  case (Cons d m)
  then have "char_at s2 \<noteq> NUL" using assms(2) by (simp add: char_at_def)
  then show ?thesis using casestr_loop_find[OF assms] Cons by (simp add: sigar_strcasestr_def)
qed

theorem strcasestr_is_search_witness:
  "sigar_strcasestr ''Intel(R) Xeon'' ''xEON'' = Some ''Xeon''"
proof -
  have "find_icase ''Intel(R) Xeon'' ''xEON'' = Some ''Xeon''" by code_simp
  then show ?thesis by (subst strcasestr_is_search) (simp_all add: is_cstr_def)
qed

text \<open>
  (C27) The path of a file of a process is written without leaving the buffer: whenever the buffer
  is as large as the assertion of \<open>sigar_proc_filename\<close> asks, the function returns and the buffer
  holds \<open>/proc/\<close>, the process number in decimal and the file name.
\<close>

theorem proc_filename_writes_path:
  assumes "20 + length fname \<le> length buffer" and "is_cstr fname" and "0 \<le> pid" and "pid < 2 ^ 31"
  shows "\<exists>b. sigar_proc_filename buffer pid fname = Some (Returned b) \<and> length b = length buffer
    \<and> cstr b = ''/proc/'' @ show_int pid @ fname"
proof -
  from proc_filename_correct[OF assms(1)] obtain b where
    b: "sigar_proc_filename buffer pid fname = Some (Returned b)" "length b = length buffer"
      "take (7 + length (show_nat (nat (pid mod 2 ^ 32))) + length fname) b = proc_path pid fname @ [NUL]"
    by (auto simp: proc_path_def)
  have "cstr b = proc_path pid fname" using b(3) assms(2) by (intro cstr_take_prefix is_cstr_proc_path)
  moreover have "pid mod 2 ^ 32 = pid" using assms(3,4) by (intro mod_pos_pos_trivial) auto
  ultimately show ?thesis using b assms(3) by (simp add: proc_path_def show_int_def)
qed

theorem proc_filename_writes_path_witness:
  "\<exists>b. sigar_proc_filename (replicate 8192 NUL) 4711 ''/stat'' = Some (Returned b) \<and> length b = 8192
     \<and> cstr b = ''/proc/'' @ show_int 4711 @ ''/stat''"
  using proc_filename_writes_path[of "''/stat''" "replicate 8192 NUL" 4711] by simp

end
