(* ===== verification/Lua_Inet.thy ===== *)
theory Lua_Inet
  imports Lua_Buffer Sigar_Text
begin

text \<open>
  Addresses and names for the sockets of the agent: \<open>inet.c\<close> of \<open>extern/luasocket/src\<close>, and the functions of
  \<open>usocket.c\<close> that create, bind and name sockets. What the kernel and the resolver answer is an
  argument; an IPv4 address is a number below \<open>2\<^sup>3\<^sup>2\<close>, a port one below \<open>2\<^sup>1\<^sup>6\<close>.
\<close>

section \<open>Sockets\<close>

abbreviation (input) SOCKET_INVALID :: int where "SOCKET_INVALID \<equiv> - 1"
abbreviation (input) E_BADF :: int where "E_BADF \<equiv> 9"
abbreviation (input) HOST_NOT_FOUND :: int where "HOST_NOT_FOUND \<equiv> 1"

text \<open>
  \<open>socket\<close> returns a descriptor, here with what the socket will deliver, or the invalid one with the
  error in \<open>errno\<close>.
\<close>

definition socket_create :: "int \<times> sock \<Rightarrow> int \<times> int \<times> sock" where
  "socket_create answer =
     (let (fd, s) = answer; s = s\<lparr>fd_valid := (fd \<noteq> SOCKET_INVALID), fd_open := (fd \<noteq> SOCKET_INVALID)\<rparr>
      in (if fd \<noteq> SOCKET_INVALID then IO_DONE else sock_errno s, fd, s))"

text \<open>
  \<open>bind\<close> and \<open>listen\<close> answer 0 or an error, which is \<open>EBADF\<close> for a closed socket. Both are called in
  blocking mode.
\<close>

definition sys_status :: "int \<Rightarrow> sock \<Rightarrow> int \<times> sock" where
  "sys_status answer s =
     (let e = (if fd_valid s \<and> fd_open s then answer else E_BADF)
      in if e = 0 then (0, s) else (- 1, s\<lparr>sock_errno := e\<rparr>))"

definition socket_bind :: "int \<Rightarrow> sock \<Rightarrow> int \<times> sock" where
  "socket_bind answer s =
     (let s = socket_setblocking s;
          (ret, s) = sys_status answer s;
          err = (if ret < 0 then sock_errno s else IO_DONE)
      in (err, socket_setnonblocking s))"

definition socket_listen :: "int \<Rightarrow> sock \<Rightarrow> int \<times> sock" where
  "socket_listen answer s =
     (let s = socket_setblocking s;
          (ret, s) = sys_status answer s;
          err = (if ret \<noteq> 0 then sock_errno s else IO_DONE)
      in (err, socket_setnonblocking s))"

definition socket_shutdown :: "int \<Rightarrow> sock \<Rightarrow> sock" where
  "socket_shutdown answer s =
     (let s = socket_setblocking s; (ret, s) = sys_status answer s in socket_setnonblocking s)"

section \<open>Names\<close>

record hostent =
  h_name :: string
  h_aliases :: "string list"
  h_addr_list :: "nat list"

text \<open>
  The resolver: an address for a dotted text (\<open>inet_aton\<close> of the system), and for a name or an address
  either what is known of the host or the values of \<open>h_errno\<close> and \<open>errno\<close>.
\<close>

record resolver =
  aton :: "string \<Rightarrow> nat option"
  by_name :: "string \<Rightarrow> hostent + int \<times> int"
  by_addr :: "nat \<Rightarrow> hostent + int \<times> int"
  hstrerror :: "int \<Rightarrow> string"

definition host_answer :: "hostent + int \<times> int \<Rightarrow> int \<times> hostent option" where
  "host_answer r =
     (case r of
        Inl hp \<Rightarrow> (IO_DONE, Some hp)
      | Inr (herr, err) \<Rightarrow> (if herr \<noteq> 0 then herr else if err \<noteq> 0 then err else IO_UNKNOWN, None))"

definition socket_gethostbyaddr :: "resolver \<Rightarrow> nat \<Rightarrow> int \<times> hostent option" where
  "socket_gethostbyaddr dns a = host_answer (by_addr dns a)"

definition socket_gethostbyname :: "resolver \<Rightarrow> string \<Rightarrow> int \<times> hostent option" where
  "socket_gethostbyname dns name = host_answer (by_name dns name)"

definition socket_hoststrerror :: "resolver \<Rightarrow> int \<Rightarrow> string option" where
  "socket_hoststrerror dns err =
     (if err \<le> 0 then io_strerror err
      else if err = HOST_NOT_FOUND then Some ''host not found''
      else Some (hstrerror dns err))"

definition inet_gethost :: "resolver \<Rightarrow> string \<Rightarrow> int \<times> hostent option" where
  "inet_gethost dns address =
     (case aton dns address of
        Some a \<Rightarrow> socket_gethostbyaddr dns a
      | None \<Rightarrow> socket_gethostbyname dns address)"

text \<open>The dotted text of an address, as the C library writes it.\<close>

definition inet_ntoa :: "nat \<Rightarrow> string" where
  "inet_ntoa a =
     show_nat (a div 2 ^ 24 mod 256) @ ''.'' @ show_nat (a div 2 ^ 16 mod 256) @ ''.'' @
     show_nat (a div 2 ^ 8 mod 256) @ ''.'' @ show_nat (a mod 256)"

text \<open>The table \<open>inet_pushresolved\<close> leaves on the stack: its fields, the lists numbered from 1.\<close>

record resolved =
  res_name :: string
  res_alias :: "(nat \<times> string) list"
  res_ip :: "(nat \<times> string) list"

primrec push_numbered :: "nat \<Rightarrow> string list \<Rightarrow> (nat \<times> string) list" where
  "push_numbered i [] = []"
| "push_numbered i (x # xs) = (i, x) # push_numbered (i + 1) xs"

definition inet_pushresolved :: "hostent \<Rightarrow> resolved" where
  "inet_pushresolved hp =
     \<lparr>res_name = h_name hp, res_alias = push_numbered 1 (h_aliases hp),
      res_ip = push_numbered 1 (map inet_ntoa (h_addr_list hp))\<rparr>"

text \<open>Both return nil and a message, or a string and the table. A host without addresses has no first one.\<close>

definition inet_global_tohostname :: "resolver \<Rightarrow> string \<Rightarrow> string option + string \<times> resolved" where
  "inet_global_tohostname dns address =
     (case inet_gethost dns address of
        (err, Some hp) \<Rightarrow> Inr (h_name hp, inet_pushresolved hp)
      | (err, None) \<Rightarrow> Inl (socket_hoststrerror dns err))"

definition inet_global_toip :: "resolver \<Rightarrow> string \<Rightarrow> (string option + string \<times> resolved) option" where
  "inet_global_toip dns address =
     (case inet_gethost dns address of
        (err, Some hp) \<Rightarrow>
          (case h_addr_list hp of
             [] \<Rightarrow> None
           | a # _ \<Rightarrow> Some (Inr (inet_ntoa a, inet_pushresolved hp)))
      | (err, None) \<Rightarrow> Some (Inl (socket_hoststrerror dns err)))"

text \<open>\<open>gethostname\<close> answers with a name, of which the buffer takes 256 characters, or fails.\<close>

definition inet_global_gethostname :: "string option \<Rightarrow> lua_value list" where
  "inet_global_gethostname answer =
     (case answer of
        None \<Rightarrow> [LNil, LString ''gethostname failed'']
      | Some name \<Rightarrow> [LString (take 256 (cstr name))])"

text \<open>\<open>getpeername\<close> and \<open>getsockname\<close> answer with an address and a port, or fail.\<close>

definition inet_meth_getpeername :: "(nat \<times> nat) option \<Rightarrow> lua_value list" where
  "inet_meth_getpeername answer =
     (case answer of
        None \<Rightarrow> [LNil, LString ''getpeername failed'']
      | Some (a, port) \<Rightarrow> [LString (inet_ntoa a), LNumber (of_nat port)])"

definition inet_meth_getsockname :: "(nat \<times> nat) option \<Rightarrow> lua_value list" where
  "inet_meth_getsockname answer =
     (case answer of
        None \<Rightarrow> [LNil, LString ''getsockname failed'']
      | Some (a, port) \<Rightarrow> [LString (inet_ntoa a), LNumber (of_nat port)])"

section \<open>Connecting and binding\<close>

datatype family = AF_INET | AF_UNSPEC

record sockaddr_in =
  sin_family :: family
  sin_addr :: nat
  sin_port :: nat

definition inet_trycreate :: "(int \<Rightarrow> string) \<Rightarrow> int \<times> sock \<Rightarrow> string option \<times> int \<times> sock" where
  "inet_trycreate strerror answer =
     (let (err, fd, s) = socket_create answer in (socket_strerror strerror err s, fd, s))"

text \<open>
  The address for a name is the first one of the host; a host without addresses gives a null pointer.
  The first result is the address the kernel is asked for, if it is asked.
\<close>

definition first_address :: "resolver \<Rightarrow> string \<Rightarrow> (string option + nat) option" where
  "first_address dns address =
     (case aton dns address of
        Some a \<Rightarrow> Some (Inr a)
      | None \<Rightarrow>
          (case socket_gethostbyname dns address of
             (err, None) \<Rightarrow> Some (Inl (socket_hoststrerror dns err))
           | (err, Some hp) \<Rightarrow> (case h_addr_list hp of [] \<Rightarrow> None | a # _ \<Rightarrow> Some (Inr a))))"

definition inet_tryconnect ::
  "resolver \<Rightarrow> (int \<Rightarrow> string) \<Rightarrow> string \<Rightarrow> nat \<Rightarrow> t_timeout \<Rightarrow> sock \<Rightarrow>
   (sockaddr_in option \<times> string option \<times> sock) option" where
  "inet_tryconnect dns strerror address port tm s = do {
     r \<leftarrow> (if address \<noteq> ''*'' then map_option (map_sum (\<lambda>e. e) (\<lambda>a. (AF_INET, a))) (first_address dns address)
          else Some (Inr (AF_UNSPEC, 0)));
     (case r of
        Inl e \<Rightarrow> Some (None, e, s)
      | Inr (f, a) \<Rightarrow> do {
          (err, s) \<leftarrow> socket_connect tm s;
          Some (Some \<lparr>sin_family = f, sin_addr = a, sin_port = port\<rparr>, socket_strerror strerror err s, s)
        })
   }"

definition bind_address :: "resolver \<Rightarrow> string \<Rightarrow> (string option + nat) option" where
  "bind_address dns address = (if address \<noteq> ''*'' then first_address dns address else Some (Inr 0))"

definition inet_trybind ::
  "resolver \<Rightarrow> (int \<Rightarrow> string) \<Rightarrow> int \<Rightarrow> string \<Rightarrow> nat \<Rightarrow> sock \<Rightarrow>
   (sockaddr_in option \<times> string option \<times> sock) option" where
  "inet_trybind dns strerror answer address port s = do {
     r \<leftarrow> bind_address dns address;
     (case r of
        Inl e \<Rightarrow> Some (None, e, s)
      | Inr a \<Rightarrow>
          let (err, s) = socket_bind answer s;
              s = (if err \<noteq> IO_DONE then socket_destroy s else s)
          in Some (Some \<lparr>sin_family = AF_INET, sin_addr = a, sin_port = port\<rparr>, socket_strerror strerror err s, s))
   }"

section \<open>The library's own \<open>inet_aton\<close>\<close>

text \<open>
  For systems without it. A \<open>%u\<close> of \<open>sscanf\<close> takes blanks, a sign and digits; the value is an \<open>unsigned int\<close>.
\<close>

definition scan_u :: "string \<Rightarrow> (nat \<times> string) option" where
  "scan_u p =
     (let q = skip_space p; (v, r) = strtoull 10 q in if r = q then None else Some (v mod 2 ^ 32, r))"

definition scan_dot :: "string \<Rightarrow> string option" where
  "scan_dot p = (case p of [] \<Rightarrow> None | c # r \<Rightarrow> if c = CHR ''.'' then Some r else None)"

definition inet_aton :: "string \<Rightarrow> nat option" where
  "inet_aton cp = do {
     (a, p) \<leftarrow> scan_u cp;
     p \<leftarrow> scan_dot p;
     (b, p) \<leftarrow> scan_u p;
     p \<leftarrow> scan_dot p;
     (c, p) \<leftarrow> scan_u p;
     p \<leftarrow> scan_dot p;
     (d, p) \<leftarrow> scan_u p;
     if p \<noteq> [] then None
     else if a > 255 \<or> b > 255 \<or> c > 255 \<or> d > 255 then None
     else Some (((a * 256 + b) * 256 + c) * 256 + d)
   }"

lemma scan_u_show_nat:
  assumes "n < 2 ^ 32" and "ends_number r"
  shows "scan_u (show_nat n @ r) = Some (n, r)"
proof -
  have "strtoull 10 (show_nat n @ r) = (n, r)"
    using strtoull_show_nat[of "[]" n r] assms by simp
  moreover have "skip_space (show_nat n @ r) = show_nat n @ r"
    using skip_space_show_nat[of "[]" n r] by simp
  moreover have "r \<noteq> show_nat n @ r" by simp
  ultimately show ?thesis using assms(1) by (simp add: scan_u_def)
qed

lemma inet_aton_dotted:
  assumes "w < 256" "x < 256" "y < 256" "z < 256"
  shows "inet_aton (show_nat w @ ''.'' @ show_nat x @ ''.'' @ show_nat y @ ''.'' @ show_nat z) =
    Some (((w * 256 + x) * 256 + y) * 256 + z)"
proof -
  have d: "ends_number (CHR ''.'' # r)" "ends_number []" for r
    by (simp_all add: ends_number_def is_digit_of_def digit_val_def)
  have m: "n < 2 ^ 32" if "n < 256" for n :: nat using that by simp
  have l: "scan_u (show_nat z) = Some (z, [])" using scan_u_show_nat[OF m[OF assms(4)] d(2)] by simp
  show ?thesis
    using assms by (simp add: inet_aton_def scan_u_show_nat[OF m d(1)] l scan_dot_def)
qed

text \<open>(C25) The dotted text of every address is read back as that address.\<close>

theorem inet_aton_ntoa:
  assumes "a < 2 ^ 32"
  shows "inet_aton (inet_ntoa a) = Some a"
proof -
  define b c d where "b = a div 256" and "c = b div 256" and "d = c div 256"
  have div: "a div 2 ^ 8 = b" "a div 2 ^ 16 = c" "a div 2 ^ 24 = d"
    by (simp_all add: b_def c_def d_def div_mult2_eq[symmetric])
  have "d mod 256 = d" using assms by (simp add: div(3)[symmetric] less_mult_imp_div_less)
  moreover have "a = b * 256 + a mod 256" "b = c * 256 + b mod 256" "c = d * 256 + c mod 256"
    by (simp_all add: b_def c_def d_def)
  ultimately have eq: "((a div 2 ^ 24 mod 256 * 256 + a div 2 ^ 16 mod 256) * 256 + a div 2 ^ 8 mod 256) * 256 + a mod 256 = a"
    unfolding div by simp
  have "inet_aton (inet_ntoa a) =
      Some (((a div 2 ^ 24 mod 256 * 256 + a div 2 ^ 16 mod 256) * 256 + a div 2 ^ 8 mod 256) * 256 + a mod 256)"
    unfolding inet_ntoa_def by (rule inet_aton_dotted) simp_all
  then show ?thesis unfolding eq .
qed

theorem inet_aton_ntoa_witness:
  "inet_aton ''192.168.0.255'' = Some 3232235775 \<and> inet_ntoa 3232235775 = ''192.168.0.255''"
proof -
  have "inet_ntoa 3232235775 = ''192.168.0.255''"
    by (simp add: inet_ntoa_def show_nat.simps digit_char_def) (simp add: char_of_def bit_Suc_0_iff)
  then show ?thesis using inet_aton_ntoa[of 3232235775] by simp
qed

end
