(* ===== verification/Lua_Tcp.thy ===== *)
theory Lua_Tcp
  imports Lua_Inet
begin

text \<open>
  The TCP objects of luasocket (\<open>extern/luasocket/src/tcp.c\<close>), the ones the agent's HTTP client works with. An
  object is of one of three classes, which its methods check and change; it owns a descriptor, and a
  Lua program may hold any number of objects. Errors that a method raises are left results, what it
  returns are right ones; \<^term>\<open>None\<close> is a call that never returns or has no defined result. Addresses
  and modes are C strings without a NUL inside.
\<close>

section \<open>Objects\<close>

datatype tcp_class = Tcp_master | Tcp_client | Tcp_server

text \<open>
  \<open>t_tcp\<close>. The buffer refers to the socket and to the time limits of the object, so that the three are
  kept in one place, the buffer. The descriptor has its number as long as the socket is valid.
  The calls made to the kernel are noted with their addresses.
\<close>

datatype sock_call = Call_bind sockaddr_in | Call_connect sockaddr_in | Call_listen int | Call_shutdown int

record t_tcp =
  tcp_class :: tcp_class
  tcp_fd :: int
  tcp_buf :: "sock t_buffer"
  tcp_calls :: "sock_call list"

abbreviation tcp_sock :: "t_tcp \<Rightarrow> sock" where
  "tcp_sock t \<equiv> buf_ctx (tcp_buf t)"

definition set_sock :: "sock \<Rightarrow> t_tcp \<Rightarrow> t_tcp" where
  "set_sock s t = t\<lparr>tcp_buf := (tcp_buf t)\<lparr>buf_ctx := s\<rparr>\<rparr>"

definition set_tm :: "t_timeout \<Rightarrow> t_tcp \<Rightarrow> t_tcp" where
  "set_tm tm t = t\<lparr>tcp_buf := (tcp_buf t)\<lparr>buf_tm := tm\<rparr>\<rparr>"

definition note_call :: "sock_call \<Rightarrow> t_tcp \<Rightarrow> t_tcp" where
  "note_call c t = t\<lparr>tcp_calls := tcp_calls t @ [c]\<rparr>"

text \<open>\<open>auxiliar_checkclass\<close>: the message for an object of another class, as it is given to \<open>luaL_argerror\<close>.\<close>

definition class_name :: "tcp_class \<Rightarrow> string" where
  "class_name c = (case c of Tcp_master \<Rightarrow> ''tcp{master}'' | Tcp_client \<Rightarrow> ''tcp{client}'' | Tcp_server \<Rightarrow> ''tcp{server}'')"

definition wrong_class :: "tcp_class \<Rightarrow> string" where
  "wrong_class c = take 35 (class_name c) @ '' expected''"

type_synonym reply = "string + lua_value list"

text \<open>
  The conversion of a finite Lua number to an \<open>unsigned short\<close> or an \<open>int\<close>: towards zero, and undefined if
  the result does not fit. Descriptors are given as whole numbers.
\<close>

definition to_ushort :: "rat \<Rightarrow> nat option" where
  "to_ushort x = (if - 1 < x \<and> x < 65536 then Some (nat \<lfloor>x\<rfloor>) else None)"

definition to_int :: "rat \<Rightarrow> int option" where
  "to_int x =
     (if - 2147483649 < x \<and> x < 2147483648 then Some (if x < 0 then \<lceil>x\<rceil> else \<lfloor>x\<rfloor>) else None)"

section \<open>Methods\<close>

subsection \<open>Buffered input and output\<close>

definition meth_send :: "string \<Rightarrow> int \<Rightarrow> int \<Rightarrow> rat \<Rightarrow> t_tcp \<Rightarrow> (reply \<times> t_tcp) option" where
  "meth_send bytes st en now t =
     (if tcp_class t \<noteq> Tcp_client then Some (Inl (wrong_class Tcp_client), t)
      else do {
        (vs, buf) \<leftarrow> buffer_meth_send bytes st en now (tcp_buf t);
        Some (Inr vs, t\<lparr>tcp_buf := buf\<rparr>)
      })"

definition meth_receive :: "int + string option \<Rightarrow> string \<Rightarrow> rat \<Rightarrow> t_tcp \<Rightarrow> (reply \<times> t_tcp) option" where
  "meth_receive what part now t =
     (if tcp_class t \<noteq> Tcp_client then Some (Inl (wrong_class Tcp_client), t)
      else do {
        (r, buf) \<leftarrow> buffer_meth_receive what part now (tcp_buf t);
        Some (r, t\<lparr>tcp_buf := buf\<rparr>)
      })"

definition meth_getstats :: "rat \<Rightarrow> t_tcp \<Rightarrow> reply" where
  "meth_getstats now t =
     (if tcp_class t \<noteq> Tcp_client then Inl (wrong_class Tcp_client)
      else Inr (buffer_meth_getstats now (tcp_buf t)))"

definition meth_setstats :: "nat option \<Rightarrow> nat option \<Rightarrow> rat option \<Rightarrow> rat \<Rightarrow> t_tcp \<Rightarrow> reply \<times> t_tcp" where
  "meth_setstats rcvd snt age now t =
     (if tcp_class t \<noteq> Tcp_client then (Inl (wrong_class Tcp_client), t)
      else let (vs, buf) = buffer_meth_setstats rcvd snt age now (tcp_buf t) in (Inr vs, t\<lparr>tcp_buf := buf\<rparr>))"

subsection \<open>Options\<close>

text \<open>
  \<open>options.c\<close>. The handlers of a TCP object, in the order of their table; the linger option needs a table
  with two fields, of which one that is absent or has another type is \<^term>\<open>None\<close>. \<open>answer\<close> is whether \<open>setsockopt\<close>
  succeeds. The time of the linger option is converted to an \<open>unsigned short\<close>. The message for an unknown
  option is printed into 45 bytes: with a longer one, its NUL included, the result is undefined.
\<close>

datatype option_arg = Arg_boolean bool | Arg_table "bool option" "rat option" | Arg_other string

definition arg_typename :: "option_arg \<Rightarrow> string" where
  "arg_typename arg = (case arg of Arg_boolean b \<Rightarrow> ''boolean'' | Arg_table a b \<Rightarrow> ''table'' | Arg_other n \<Rightarrow> n)"

definition opt_set :: "bool \<Rightarrow> lua_value list" where
  "opt_set answer = (if \<not> answer then [LNil, LString ''setsockopt failed''] else [LNumber 1])"

definition opt_setboolean :: "bool \<Rightarrow> option_arg \<Rightarrow> reply option" where
  "opt_setboolean answer arg =
     Some (case arg of Arg_boolean b \<Rightarrow> Inr (opt_set answer) | _ \<Rightarrow> Inl (''boolean expected, got '' @ arg_typename arg))"

definition opt_linger :: "bool \<Rightarrow> option_arg \<Rightarrow> reply option" where
  "opt_linger answer arg =
     (case arg of
        Arg_table on limit \<Rightarrow>
          (if on = None then Some (Inl ''boolean 'on' field expected'')
           else case limit of
             None \<Rightarrow> Some (Inl ''number 'timeout' field expected'')
           | Some l \<Rightarrow> do { l_linger \<leftarrow> to_ushort l; Some (Inr (opt_set answer)) })
      | _ \<Rightarrow> Some (Inl (''table expected, got '' @ arg_typename arg)))"

definition tcp_opt :: "(string \<times> (bool \<Rightarrow> option_arg \<Rightarrow> reply option)) list" where
  "tcp_opt = [(''keepalive'', opt_setboolean), (''reuseaddr'', opt_setboolean), (''tcp-nodelay'', opt_setboolean),
     (''linger'', opt_linger)]"

fun opt_meth_setoption ::
  "(string \<times> (bool \<Rightarrow> option_arg \<Rightarrow> reply option)) list \<Rightarrow> bool \<Rightarrow> string \<Rightarrow> option_arg \<Rightarrow> reply option" where
  "opt_meth_setoption [] answer name arg =
     (let msg = ''unsupported option `'' @ take 35 name @ [CHR 0x27]
      in if length msg + 1 \<le> 45 then Some (Inl msg) else None)"
| "opt_meth_setoption ((n, f) # opts) answer name arg =
     (if name = n then f answer arg else opt_meth_setoption opts answer name arg)"

definition meth_setoption :: "bool \<Rightarrow> string \<Rightarrow> option_arg \<Rightarrow> t_tcp \<Rightarrow> reply option" where
  "meth_setoption answer name arg t = opt_meth_setoption tcp_opt (answer \<and> fd_valid (tcp_sock t)) (cstr name) arg"

text \<open>
  (C24) Setting an option has an undefined result exactly in two cases: for an unknown option with a name of
  24 characters or more, whose message does not fit into its buffer, and for the linger option with a
  table that is complete and a time that is -1 or less or 65536 or more, which an \<open>unsigned short\<close>
  cannot hold. In every other case the method returns.
\<close>

theorem setoption_undefined_iff:
  "meth_setoption answer name arg t = None \<longleftrightarrow>
   cstr name \<notin> {''keepalive'', ''reuseaddr'', ''tcp-nodelay'', ''linger''} \<and> 24 \<le> length (cstr name) \<or>
   cstr name = ''linger'' \<and> (\<exists>on l. arg = Arg_table (Some on) (Some l) \<and> (l \<le> - 1 \<or> 65536 \<le> l))"
  by (auto simp: meth_setoption_def tcp_opt_def Let_def opt_setboolean_def opt_linger_def to_ushort_def not_less
      split: option_arg.splits option.splits if_splits)

subsection \<open>Support of select\<close>

definition meth_getfd :: "t_tcp \<Rightarrow> reply" where
  "meth_getfd t = Inr [LNumber (of_int (if fd_valid (tcp_sock t) then tcp_fd t else SOCKET_INVALID))]"

text \<open>The socket behind another descriptor is an argument.\<close>

definition meth_setfd :: "int \<Rightarrow> sock \<Rightarrow> t_tcp \<Rightarrow> reply \<times> t_tcp" where
  "meth_setfd fd s t =
     (Inr [], (set_sock (s\<lparr>fd_valid := (fd \<noteq> SOCKET_INVALID), fd_open := (fd \<noteq> SOCKET_INVALID \<and> fd_open s)\<rparr>) t)\<lparr>tcp_fd := fd\<rparr>)"

definition meth_dirty :: "t_tcp \<Rightarrow> reply" where
  "meth_dirty t = Inr [LBoolean (\<not> buffer_isempty (tcp_buf t))]"

subsection \<open>Making connections\<close>

text \<open>
  A new object around a socket: \<open>raw\<close> is the memory of the userdata, whose buffer space is not
  initialised, \<open>now\<close> the time of \<open>buffer_init\<close>.
\<close>

definition init_tcp :: "(int \<Rightarrow> string) \<Rightarrow> tcp_class \<Rightarrow> int \<Rightarrow> sock \<Rightarrow> rat \<Rightarrow> sock t_buffer \<Rightarrow> t_tcp" where
  "init_tcp strerror c fd s now raw =
     (let s = socket_setnonblocking s;
          tm = timeout_init (- 1) (- 1) (buf_tm raw)
      in \<lparr>tcp_class = c, tcp_fd = fd, tcp_buf = buffer_init (tcp_io strerror) s tm now raw, tcp_calls = []\<rparr>)"

text \<open>\<open>peer\<close> is the socket of the connection that is accepted; the second result is the client object.\<close>

definition meth_accept ::
  "(int \<Rightarrow> string) \<Rightarrow> sock \<Rightarrow> sock t_buffer \<Rightarrow> rat \<Rightarrow> rat \<Rightarrow> t_tcp \<Rightarrow> (reply \<times> t_tcp option \<times> t_tcp) option" where
  "meth_accept strerror peer raw now now' t =
     (if tcp_class t \<noteq> Tcp_server then Some (Inl (wrong_class Tcp_server), None, t)
      else do {
        let tm = timeout_markstart now (buf_tm (tcp_buf t));
        let t = set_tm tm t;
        (err, fd, s) \<leftarrow> socket_accept tm (tcp_sock t);
        let t = set_sock s t;
        Some (case (err = IO_DONE, fd) of
            (True, Some fd) \<Rightarrow>
              (Inr [LUserdata fd], Some (init_tcp strerror Tcp_client (int fd) (peer\<lparr>fd_valid := True, fd_open := True\<rparr>) now' raw), t)
          | _ \<Rightarrow> (Inr [LNil, optional (socket_strerror strerror err s)], None, t))
      })"

definition meth_bind ::
  "resolver \<Rightarrow> (int \<Rightarrow> string) \<Rightarrow> int \<Rightarrow> string \<Rightarrow> rat \<Rightarrow> t_tcp \<Rightarrow> (reply \<times> t_tcp) option" where
  "meth_bind dns strerror answer address port t =
     (if tcp_class t \<noteq> Tcp_master then Some (Inl (wrong_class Tcp_master), t)
      else do {
        port \<leftarrow> to_ushort port;
        (call, err, s) \<leftarrow> inet_trybind dns strerror answer address port (tcp_sock t);
        let t = set_sock s (case call of None \<Rightarrow> t | Some a \<Rightarrow> note_call (Call_bind a) t);
        Some (Inr (case err of Some e \<Rightarrow> [LNil, LString e] | None \<Rightarrow> [LNumber 1]), t)
      })"

definition meth_connect ::
  "resolver \<Rightarrow> (int \<Rightarrow> string) \<Rightarrow> string \<Rightarrow> rat \<Rightarrow> rat \<Rightarrow> t_tcp \<Rightarrow> (reply \<times> t_tcp) option" where
  "meth_connect dns strerror address port now t = do {
     port \<leftarrow> to_ushort port;
     let tm = timeout_markstart now (buf_tm (tcp_buf t));
     let t = set_tm tm t;
     (call, err, s) \<leftarrow> inet_tryconnect dns strerror address port tm (tcp_sock t);
     let t = set_sock s (case call of None \<Rightarrow> t | Some a \<Rightarrow> note_call (Call_connect a) t);
     let t = t\<lparr>tcp_class := Tcp_client\<rparr>;
     Some (Inr (case err of Some e \<Rightarrow> [LNil, LString e] | None \<Rightarrow> [LNumber 1]), t)
   }"

definition meth_close :: "t_tcp \<Rightarrow> reply \<times> t_tcp" where
  "meth_close t = (Inr [LNumber 1], set_sock (socket_destroy (tcp_sock t)) t)"

definition meth_listen :: "(int \<Rightarrow> string) \<Rightarrow> int \<Rightarrow> rat option \<Rightarrow> t_tcp \<Rightarrow> (reply \<times> t_tcp) option" where
  "meth_listen strerror answer backlog t =
     (if tcp_class t \<noteq> Tcp_master then Some (Inl (wrong_class Tcp_master), t)
      else do {
        n \<leftarrow> (case backlog of None \<Rightarrow> Some 32 | Some n \<Rightarrow> to_int n);
        let (err, s) = socket_listen answer (tcp_sock t);
        let t = note_call (Call_listen n) (set_sock s t);
        Some (if err \<noteq> IO_DONE then (Inr [LNil, optional (socket_strerror strerror err s)], t)
              else (Inr [LNumber 1], t\<lparr>tcp_class := Tcp_server\<rparr>))
      })"

text \<open>A method that starts with another letter than the three shuts nothing down and reports success.\<close>

definition meth_shutdown :: "int \<Rightarrow> string option \<Rightarrow> t_tcp \<Rightarrow> reply \<times> t_tcp" where
  "meth_shutdown answer how t =
     (if tcp_class t \<noteq> Tcp_client then (Inl (wrong_class Tcp_client), t)
      else
        let how = (case how of None \<Rightarrow> ''both'' | Some h \<Rightarrow> h);
            stop = (\<lambda>n. (Inr [LNumber 1], note_call (Call_shutdown n) (set_sock (socket_shutdown answer (tcp_sock t)) t)));
            bad = (Inl ''invalid shutdown method'', t)
        in if char_at how = CHR ''b'' then (if how \<noteq> ''both'' then bad else stop 2)
           else if char_at how = CHR ''s'' then (if how \<noteq> ''send'' then bad else stop 1)
           else if char_at how = CHR ''r'' then (if how \<noteq> ''receive'' then bad else stop 0)
           else (Inr [LNumber 1], t))"

subsection \<open>Names and time limits\<close>

definition meth_getpeername :: "(nat \<times> nat) option \<Rightarrow> t_tcp \<Rightarrow> reply" where
  "meth_getpeername answer t = Inr (inet_meth_getpeername answer)"

definition meth_getsockname :: "(nat \<times> nat) option \<Rightarrow> t_tcp \<Rightarrow> reply" where
  "meth_getsockname answer t = Inr (inet_meth_getsockname answer)"

definition meth_settimeout :: "rat option \<Rightarrow> string option \<Rightarrow> t_tcp \<Rightarrow> reply \<times> t_tcp" where
  "meth_settimeout limit mode t =
     (case timeout_meth_settimeout limit mode (buf_tm (tcp_buf t)) of
        None \<Rightarrow> (Inl ''invalid timeout mode'', t)
      | Some tm \<Rightarrow> (Inr [LNumber 1], set_tm tm t))"

section \<open>New objects\<close>

text \<open>
  \<open>socket.tcp\<close>, with an optional descriptor as argument: below 1 a socket is created, and the class is
  that of a client from 0 on. \<open>given\<close> is the socket behind the descriptor that is passed.
\<close>

definition global_create ::
  "(int \<Rightarrow> string) \<Rightarrow> int \<times> sock \<Rightarrow> sock \<Rightarrow> int option \<Rightarrow> rat \<Rightarrow> sock t_buffer \<Rightarrow> reply \<times> t_tcp option" where
  "global_create strerror answer given arg now raw =
     (let fd = (case arg of None \<Rightarrow> - 1 | Some n \<Rightarrow> n);
          (err, n, s) = (if fd < 1 then inet_trycreate strerror answer
                         else (None, fd, given\<lparr>fd_valid := True\<rparr>))
      in case err of
           None \<Rightarrow>
             (Inr [LUserdata (nat n)], Some (init_tcp strerror (if fd \<ge> 0 then Tcp_client else Tcp_master) n s now raw))
         | Some e \<Rightarrow> (Inr [LNil, LString e], None))"

section \<open>What input and output leave of a socket\<close>

text \<open>
  A property of the transport that every transfer keeps holds for the streams over it.
\<close>

locale tracked_io =
  fixes io :: "'c t_io" and keeps :: "'c \<Rightarrow> 'c \<Rightarrow> bool"
  assumes keeps_refl: "keeps c c"
    and keeps_trans: "keeps c c' \<Longrightarrow> keeps c' c'' \<Longrightarrow> keeps c c''"
    and recv_keeps: "io_recv io n tm c = Some (e, bs, c') \<Longrightarrow> keeps c c'"
    and send_keeps: "io_send io bs tm c = Some (e, k, c') \<Longrightarrow> keeps c c'"
begin

definition kept :: "'c t_buffer \<Rightarrow> 'c t_buffer \<Rightarrow> bool" where
  "kept buf buf' \<longleftrightarrow> (buf_io buf = io \<longrightarrow> buf_io buf' = io \<and> keeps (buf_ctx buf) (buf_ctx buf'))"

lemma kept_refl: "kept buf buf"
  by (simp add: kept_def keeps_refl)

lemma kept_trans: "kept buf buf' \<Longrightarrow> kept buf' buf'' \<Longrightarrow> kept buf buf''"
  using keeps_trans by (auto simp: kept_def)

lemma kept_skip: "kept buf buf' \<Longrightarrow> kept buf (buffer_skip n buf')"
  by (auto simp: kept_def buffer_skip_def Let_def)

lemma kept_get: "buffer_get buf = Some (e, bs, buf') \<Longrightarrow> kept buf buf'"
  by (auto simp: buffer_get_def kept_def keeps_refl recv_keeps split: if_splits option.splits)

lemma kept_recvraw: "recvraw_loop wanted tot b buf = Some r \<Longrightarrow> kept buf (snd (snd r))"
proof (induction rule: recvraw_loop.raw_induct[rotated 1, consumes 1])
  case (1 f wanted tot b buf r)
  from 1(2) obtain e bs buf1 where g: "buffer_get buf = Some (e, bs, buf1)" by (auto split: bind_splits)
  define c where "c = min (length bs) (wanted - tot)"
  have k: "kept buf (buffer_skip c buf1)" by (rule kept_skip[OF kept_get[OF g]])
  show ?case
    using 1(2) g k kept_trans[OF k 1(1)]
    by (auto simp: Let_def c_def[symmetric] split: if_splits)
qed

lemma kept_recvall: "recvall_loop tot b buf = Some r \<Longrightarrow> kept buf (snd (snd (snd r)))"
proof (induction rule: recvall_loop.raw_induct[rotated 1, consumes 1])
  case (1 f tot b buf r)
  from 1(2) obtain e bs buf1 where g: "buffer_get buf = Some (e, bs, buf1)" by (auto split: bind_splits)
  have k: "kept buf (buffer_skip (length bs) buf1)" by (rule kept_skip[OF kept_get[OF g]])
  show ?case using 1(2) g k kept_trans[OF k 1(1)] by (auto simp: Let_def split: if_splits)
qed

lemma kept_recvline: "recvline b buf = Some r \<Longrightarrow> kept buf (snd (snd r))"
proof (induction rule: recvline.raw_induct[rotated 1, consumes 1])
  case (1 f b buf r)
  from 1(2) obtain e bs buf1 where g: "buffer_get buf = Some (e, bs, buf1)" by (auto split: bind_splits)
  have k: "kept buf (buffer_skip n buf1)" for n by (rule kept_skip[OF kept_get[OF g]])
  show ?case using 1(2) g k kept_trans[OF k 1(1)] by (auto simp: Let_def split: if_splits prod.splits)
qed

lemma kept_sendraw: "sendraw_loop bytes tot err buf = Some r \<Longrightarrow> kept buf (snd (snd r))"
proof (induction rule: sendraw_loop.raw_induct[rotated 1, consumes 1])
  case (1 f bytes tot err buf r)
  show ?case
  proof (cases "tot < length bytes \<and> err = IO_DONE")
    case True
    with 1(2) obtain st e n c where
      s: "io_send (buf_io buf) st (buf_tm buf) (buf_ctx buf) = Some (e, n, c)"
        "f bytes (tot + n) e (buf\<lparr>buf_ctx := c\<rparr>) = Some r"
      by (auto simp: Let_def split: bind_splits)
    have "kept buf (buf\<lparr>buf_ctx := c\<rparr>)" using s(1) send_keeps by (auto simp: kept_def)
    from kept_trans[OF this 1(1)[OF s(2)]] show ?thesis .
  next
    case False
    with 1(2) show ?thesis by (auto simp: kept_refl)
  qed
qed

lemma kept_mark: "kept (buf\<lparr>buf_tm := tm\<rparr>) buf' \<Longrightarrow> kept buf buf'"
  by (simp add: kept_def)

lemma kept_receive:
  assumes "buffer_meth_receive what part now buf = Some (r, buf')"
  shows "kept buf buf'"
proof -
  let ?b = "buf\<lparr>buf_tm := timeout_markstart now (buf_tm buf)\<rparr>"
  have l: "kept ?b (snd (snd x))" if "recvline part ?b = Some x" for x using kept_recvline[OF that] .
  have a: "kept ?b (snd (snd x))" if "recvall part ?b = Some x" for x
    using that kept_recvall by (fastforce simp: recvall_def split: bind_splits)
  have w: "kept ?b (snd (snd x))" if "recvraw n part ?b = Some x" for n x
    using kept_recvraw that by (simp add: recvraw_def)
  have "kept ?b buf'"
    using assms l a w kept_refl[of ?b]
    by (fastforce simp: buffer_meth_receive_def Let_def split: sum.splits option.splits if_splits prod.splits)
  then show ?thesis by (rule kept_mark)
qed

lemma kept_send:
  assumes "buffer_meth_send bytes st en now buf = Some (r, buf')"
  shows "kept buf buf'"
proof -
  let ?b = "buf\<lparr>buf_tm := timeout_markstart now (buf_tm buf)\<rparr>"
  have w: "kept ?b (snd (snd x))" if "sendraw n ?b = Some x" for n x
    using kept_sendraw[of n 0 IO_DONE ?b] that by (fastforce simp: sendraw_def kept_def split: bind_splits)
  have "kept ?b buf'"
    using assms w kept_refl[of ?b]
    by (fastforce simp: buffer_meth_send_def Let_def split: option.splits if_splits prod.splits)
  then show ?thesis by (rule kept_mark)
qed

end

text \<open>The sockets: no transfer, connection or wait changes whether a descriptor is valid, open and blocks.\<close>

definition same_flags :: "sock \<Rightarrow> sock \<Rightarrow> bool" where
  "same_flags s s' \<longleftrightarrow> fd_valid s' = fd_valid s \<and> fd_open s' = fd_open s \<and> non_blocking s' = non_blocking s"

lemma same_flags_refl: "same_flags s s"
  by (simp add: same_flags_def)

lemma same_flags_trans: "same_flags s s' \<Longrightarrow> same_flags s' s'' \<Longrightarrow> same_flags s s''"
  by (simp add: same_flags_def)

lemma wait_loop_flags: "wait_loop tm s = Some (ret, rd, s') \<Longrightarrow> same_flags s s'"
proof (induction tm s rule: wait_loop.induct)
  case (1 tm s)
  obtain t s1 where t: "timeout_getretry tm s = (t, s1)" by (cases "timeout_getretry tm s")
  from getretry_state[of tm s] t obtain n where s1: "s1 = s\<lparr>clock_reads := n\<rparr>" by auto
  from 1(2) t obtain ret2 rd2 s2 where s2: "sys_select (timeval t) s1 = Some (ret2, rd2, s2)"
    by (subst (asm) wait_loop.simps) (auto split: option.splits)
  then have f: "same_flags s s2"
    by (auto simp: sys_select_def s1 Let_def same_flags_def split: list.splits wait.splits)
  show ?case
  proof (cases "ret2 = - 1 \<and> sock_errno s2 = E_INTR")
    case True
    with 1(2) t s2 have "wait_loop tm s2 = Some (ret, rd, s')" by (subst (asm) wait_loop.simps) auto
    with 1(1)[OF t[symmetric] refl s2 refl refl True] f show ?thesis using same_flags_trans by blast
  next
    case False
    with 1(2) t s2 f show ?thesis by (subst (asm) wait_loop.simps) auto
  qed
qed

lemma waitfd_flags: "socket_waitfd sw tm s = Some (e, s') \<Longrightarrow> same_flags s s'"
  by (auto simp: socket_waitfd_def same_flags_refl dest: wait_loop_flags split: if_splits option.splits)

lemma sys_flags:
  "sys_read n s = Some (k, bs, s') \<Longrightarrow> same_flags s s'"
  "sys_send bytes s = Some (k, s') \<Longrightarrow> same_flags s s'"
  "sys_connect s = Some (k, s') \<Longrightarrow> same_flags s s'"
  "sys_accept s = Some (fd, s') \<Longrightarrow> same_flags s s'"
  by (auto simp: sys_read_def sys_send_def sys_connect_def sys_accept_def same_flags_def
      split: list.splits rx.splits tx.splits sum.splits)

text \<open>One turn of a loop that retries after a call that was interrupted or has to wait.\<close>

lemma retry_flags:
  assumes "same_flags s s1" and "socket_waitfd sw tm s1 = Some (e, s2)"
    and "if e \<noteq> IO_DONE then s2 = s' else same_flags s2 s'"
  shows "same_flags s s'"
  using assms same_flags_trans waitfd_flags by (metis (full_types))

lemma recv_loop_flags: "recv_loop n tm s = Some (e, bs, s') \<Longrightarrow> same_flags s s'"
proof (induction "length (rxs s)" arbitrary: s rule: less_induct)
  case less
  from less.prems obtain k b s1 where r: "sys_read n s = Some (k, b, s1)"
    by (subst (asm) recv_loop.simps) (auto split: option.splits)
  note f = sys_flags(1)[OF r]
  have l: "length (rxs s1) < length (rxs s)" if "k < 0" using sys_read_rxs[OF r that] .
  consider "k < 0" "sock_errno s1 = E_INTR" | "k < 0" "sock_errno s1 = E_AGAIN" | "s' = s1"
    using less.prems r by (subst (asm) recv_loop.simps) (fastforce simp: Let_def split: if_splits)
  then show ?case
  proof cases
    case 1
    with less.prems r have "recv_loop n tm s1 = Some (e, bs, s')" by (subst (asm) recv_loop.simps) simp
    from same_flags_trans[OF f less.hyps[OF l[OF 1(1)] this]] show ?thesis .
  next
    case 2
    with less.prems r obtain e2 s2 where w: "socket_waitfd WAITFD_R tm s1 = Some (e2, s2)"
      and n: "if e2 \<noteq> IO_DONE then s2 = s' else recv_loop n tm s2 = Some (e, bs, s')"
      by (subst (asm) recv_loop.simps) (auto split: option.splits if_splits)
    have "length (rxs s2) < length (rxs s)" using l[OF 2(1)] waitfd_frame[OF w] by simp
    then show ?thesis using retry_flags[OF f w] n less.hyps by (auto split: if_splits)
  qed (use f in simp)
qed

lemma send_loop_flags: "send_loop bytes tm s = Some (e, k, s') \<Longrightarrow> same_flags s s'"
proof (induction "length (txs s)" arbitrary: s rule: less_induct)
  case less
  from less.prems obtain p s1 where r: "sys_send bytes s = Some (p, s1)"
    by (subst (asm) send_loop.simps) (auto split: option.splits)
  note f = sys_flags(2)[OF r] and l = sys_send_txs[OF r]
  consider "p < 0" "sock_errno s1 = E_INTR" | "p < 0" "sock_errno s1 = E_AGAIN" | "s' = s1"
    using less.prems r by (subst (asm) send_loop.simps) (fastforce simp: Let_def split: if_splits)
  then show ?case
  proof cases
    case 1
    with less.prems r have "send_loop bytes tm s1 = Some (e, k, s')" by (subst (asm) send_loop.simps) simp
    from same_flags_trans[OF f less.hyps[OF l this]] show ?thesis .
  next
    case 2
    with less.prems r obtain e2 s2 where w: "socket_waitfd WAITFD_W tm s1 = Some (e2, s2)"
      and n: "if e2 \<noteq> IO_DONE then s2 = s' else send_loop bytes tm s2 = Some (e, k, s')"
      by (subst (asm) send_loop.simps) (auto split: option.splits if_splits)
    have "length (txs s2) < length (txs s)" using l waitfd_frame[OF w] by simp
    then show ?thesis using retry_flags[OF f w] n less.hyps by (auto split: if_splits)
  qed (use f in simp)
qed

lemma accept_loop_flags: "accept_loop tm s = Some (e, k, s') \<Longrightarrow> same_flags s s'"
proof (induction "length (accepts s)" arbitrary: s rule: less_induct)
  case less
  from less.prems obtain p s1 where r: "sys_accept s = Some (p, s1)"
    by (subst (asm) accept_loop.simps) (auto split: option.splits)
  note f = sys_flags(4)[OF r] and l = sys_accept_shorter[OF r]
  consider "p = None" "sock_errno s1 = E_INTR" | "p = None" "sock_errno s1 = E_AGAIN \<or> sock_errno s1 = E_CONNABORTED" | "s' = s1"
    using less.prems r
    by (subst (asm) accept_loop.simps) (fastforce simp: Let_def split: if_splits option.splits)
  then show ?case
  proof cases
    case 1
    with less.prems r have "accept_loop tm s1 = Some (e, k, s')" by (subst (asm) accept_loop.simps) simp
    from same_flags_trans[OF f less.hyps[OF l this]] show ?thesis .
  next
    case 2
    with less.prems r obtain e2 s2 where w: "socket_waitfd WAITFD_R tm s1 = Some (e2, s2)"
      and n: "if e2 \<noteq> IO_DONE then s2 = s' else accept_loop tm s2 = Some (e, k, s')"
      by (subst (asm) accept_loop.simps) (auto simp: Let_def split: option.splits if_splits)
    have "length (accepts s2) < length (accepts s)" using l waitfd_frame[OF w] by simp
    then show ?thesis using retry_flags[OF f w] n less.hyps by (auto split: if_splits)
  qed (use f in simp)
qed

lemma connect_loop_flags: "connect_loop s = Some (e, s') \<Longrightarrow> same_flags s s'"
proof (induction "length (connects s)" arbitrary: s rule: less_induct)
  case less
  from less.prems obtain p s1 where r: "sys_connect s = Some (p, s1)"
    by (subst (asm) connect_loop.simps) (auto split: option.splits)
  note f = sys_flags(3)[OF r]
  consider "connect_loop s1 = Some (e, s')" | "s' = s1"
    using less.prems r by (subst (asm) connect_loop.simps) (auto split: if_splits)
  then show ?case
    using f same_flags_trans[OF f] less.hyps[OF sys_connect_shorter[OF r]] by cases auto
qed

lemma socket_connect_flags: "socket_connect tm s = Some (e, s') \<Longrightarrow> same_flags s s'"
  using same_flags_trans same_flags_refl connect_loop_flags waitfd_flags sys_flags(3)
  by (simp add: socket_connect_def split: if_splits option.splits prod.splits) metis+

lemma socket_accept_flags: "socket_accept tm s = Some (e, fd, s') \<Longrightarrow> same_flags s s'"
  by (auto simp: socket_accept_def same_flags_refl dest: accept_loop_flags split: if_splits)

lemma socket_transfer_flags:
  "socket_recv n tm s = Some (e, bs, s') \<Longrightarrow> same_flags s s'"
  "socket_send bytes tm s = Some (e, k, s') \<Longrightarrow> same_flags s s'"
  by (auto simp: socket_recv_def socket_send_def same_flags_refl dest: recv_loop_flags send_loop_flags split: if_splits)

interpretation tcp_flags: tracked_io "tcp_io strerror" same_flags for strerror
  by unfold_locales
    (auto simp: tcp_io_def io_init_def same_flags_refl dest: same_flags_trans socket_transfer_flags)

section \<open>The methods on the socket of an object\<close>

text \<open>
  The calls a Lua program can make on an object, apart from \<open>accept\<close>, which makes another object. With
  \<open>setfd\<close> goes the socket behind the descriptor.
\<close>

datatype request =
    Send string int int rat
  | Receive "int + string option" string rat
  | Getstats rat
  | Setstats "nat option" "nat option" "rat option" rat
  | Setoption bool string option_arg
  | Getfd
  | Setfd int sock
  | Dirty
  | Bind resolver int string rat
  | Connect resolver string rat rat
  | Close
  | Listen int "rat option"
  | Shutdown int "string option"
  | Getpeername "(nat \<times> nat) option"
  | Getsockname "(nat \<times> nat) option"
  | Settimeout "rat option" "string option"

fun object_call :: "(int \<Rightarrow> string) \<Rightarrow> request \<Rightarrow> t_tcp \<Rightarrow> (reply \<times> t_tcp) option" where
  "object_call strerror (Send bytes st en now) t = meth_send bytes st en now t"
| "object_call strerror (Receive what part now) t = meth_receive what part now t"
| "object_call strerror (Getstats now) t = Some (meth_getstats now t, t)"
| "object_call strerror (Setstats r s a now) t = Some (meth_setstats r s a now t)"
| "object_call strerror (Setoption answer name arg) t = map_option (\<lambda>r. (r, t)) (meth_setoption answer name arg t)"
| "object_call strerror Getfd t = Some (meth_getfd t, t)"
| "object_call strerror (Setfd fd s) t = Some (meth_setfd fd s t)"
| "object_call strerror Dirty t = Some (meth_dirty t, t)"
| "object_call strerror (Bind dns answer address port) t = meth_bind dns strerror answer address port t"
| "object_call strerror (Connect dns address port now) t = meth_connect dns strerror address port now t"
| "object_call strerror Close t = Some (meth_close t)"
| "object_call strerror (Listen answer backlog) t = meth_listen strerror answer backlog t"
| "object_call strerror (Shutdown answer how) t = Some (meth_shutdown answer how t)"
| "object_call strerror (Getpeername answer) t = Some (meth_getpeername answer t, t)"
| "object_call strerror (Getsockname answer) t = Some (meth_getsockname answer t, t)"
| "object_call strerror (Settimeout limit mode) t = Some (meth_settimeout limit mode t)"

fun is_setfd :: "request \<Rightarrow> bool" where
  "is_setfd (Setfd fd s) = True"
| "is_setfd _ = False"

text \<open>
  What a call other than \<open>setfd\<close> keeps: the object stays a TCP stream over the same descriptor, a socket that
  is closed stays closed, and a descriptor that the object has is open in the kernel and in non-blocking
  mode, one that it does not have is not.
\<close>

definition tcp_ok :: "(int \<Rightarrow> string) \<Rightarrow> t_tcp \<Rightarrow> bool" where
  "tcp_ok strerror t \<longleftrightarrow> buf_io (tcp_buf t) = tcp_io strerror \<and> fd_open (tcp_sock t) = fd_valid (tcp_sock t) \<and>
     (fd_valid (tcp_sock t) \<longrightarrow> non_blocking (tcp_sock t))"

definition keeps_object :: "(int \<Rightarrow> string) \<Rightarrow> t_tcp \<Rightarrow> t_tcp \<Rightarrow> bool" where
  "keeps_object strerror t t' \<longleftrightarrow> tcp_fd t' = tcp_fd t \<and> (fd_valid (tcp_sock t') \<longrightarrow> fd_valid (tcp_sock t)) \<and>
     (tcp_ok strerror t \<longrightarrow> tcp_ok strerror t')"

named_theorems tcp_object

lemmas [tcp_object] = keeps_object_def tcp_ok_def set_sock_def set_tm_def note_call_def

lemma keeps_object_refl: "keeps_object strerror t t"
  by (simp add: keeps_object_def)

lemma keeps_object_buffer:
  assumes "tcp_flags.kept strerror (tcp_buf t) buf" and "buf_io (tcp_buf t) = tcp_io strerror"
  shows "keeps_object strerror t (t\<lparr>tcp_buf := buf\<rparr>)"
  using assms by (simp add: tcp_object tcp_flags.kept_def same_flags_def)

lemma socket_modes:
  "socket_bind a s = (e, s') \<Longrightarrow> fd_valid s' = fd_valid s \<and> fd_open s' = fd_open s \<and> non_blocking s'"
  "socket_listen a s = (e, s') \<Longrightarrow> fd_valid s' = fd_valid s \<and> fd_open s' = fd_open s \<and> non_blocking s'"
  "fd_valid (socket_shutdown a s) = fd_valid s \<and> fd_open (socket_shutdown a s) = fd_open s \<and>
   non_blocking (socket_shutdown a s)"
  by (auto simp: socket_bind_def socket_listen_def socket_shutdown_def sys_status_def Let_def
      socket_setblocking_def socket_setnonblocking_def split: if_splits)

lemma socket_destroy_flags [simp]:
  "\<not> fd_valid (socket_destroy s)" "fd_valid s \<Longrightarrow> \<not> fd_open (socket_destroy s)" "\<not> fd_valid s \<Longrightarrow> socket_destroy s = s"
  by (simp_all add: socket_destroy_def sys_close_def Let_def)

lemma trybind_sock:
  assumes "inet_trybind dns strerror answer address port s = Some (call, err, s')"
  shows "s' = s \<or> fd_valid s' = fd_valid s \<and> fd_open s' = fd_open s \<and> non_blocking s' \<or>
    \<not> fd_valid s' \<and> fd_open s' = (fd_open s \<and> \<not> fd_valid s)"
  using assms
proof -
  from assms consider "s' = s" | err where "socket_bind answer s = (err, s')"
    | err s1 where "socket_bind answer s = (err, s1)" "s' = socket_destroy s1"
    by (auto simp: inet_trybind_def Let_def split: bind_splits sum.splits prod.splits if_splits)
  then show ?thesis
  proof cases
    case (3 err s1)
    with socket_modes(1)[OF 3(1)] show ?thesis by (cases "fd_valid s1") auto
  qed (use socket_modes(1) in auto)
qed

lemma tryconnect_sock:
  assumes "inet_tryconnect dns strerror address port tm s = Some (call, err, s')"
  shows "same_flags s s'"
  using assms socket_connect_flags
  by (auto simp: inet_tryconnect_def same_flags_refl split: bind_splits sum.splits prod.splits)

lemma keeps_object_same_flags:
  assumes "same_flags (tcp_sock t) (tcp_sock t')" "tcp_fd t' = tcp_fd t" "buf_io (tcp_buf t') = buf_io (tcp_buf t)"
  shows "keeps_object strerror t t'"
  using assms by (simp add: tcp_object same_flags_def)

lemma keeps_send:
  "meth_send bytes st en now t = Some (r, t') \<Longrightarrow> tcp_ok strerror t \<Longrightarrow> keeps_object strerror t t'"
  by (auto simp: meth_send_def keeps_object_refl tcp_ok_def dest: tcp_flags.kept_send
      intro!: keeps_object_buffer split: if_splits bind_splits)

lemma keeps_receive:
  "meth_receive what part now t = Some (r, t') \<Longrightarrow> tcp_ok strerror t \<Longrightarrow> keeps_object strerror t t'"
  by (auto simp: meth_receive_def keeps_object_refl tcp_ok_def dest: tcp_flags.kept_receive
      intro!: keeps_object_buffer split: if_splits bind_splits)

lemma keeps_setstats: "meth_setstats rc sn age now t = (r, t') \<Longrightarrow> keeps_object strerror t t'"
  by (auto simp: meth_setstats_def buffer_meth_setstats_def Let_def tcp_object split: if_splits option.splits)

lemma keeps_bind: "meth_bind dns strerror answer address port t = Some (r, t') \<Longrightarrow> keeps_object strerror t t'"
  by (auto simp: meth_bind_def tcp_object Let_def dest!: trybind_sock
      split: if_splits bind_splits option.splits)

lemma keeps_connect:
  assumes "meth_connect dns strerror address port now t = Some (r, t')"
  shows "keeps_object strerror t t'" and "tcp_class t' = Tcp_client"
proof -
  let ?tm = "timeout_markstart now (buf_tm (tcp_buf t))"
  from assms obtain p call err s where
    c: "inet_tryconnect dns strerror address p ?tm (tcp_sock t) = Some (call, err, s)"
    and t': "tcp_fd t' = tcp_fd t" "buf_io (tcp_buf t') = buf_io (tcp_buf t)" "tcp_sock t' = s" "tcp_class t' = Tcp_client"
    by (auto simp: meth_connect_def tcp_object Let_def split: bind_splits option.splits)
  show "keeps_object strerror t t'"
    by (rule keeps_object_same_flags) (use tryconnect_sock[OF c] t' in simp_all)
  show "tcp_class t' = Tcp_client" by (rule t'(4))
qed

lemma keeps_close: "meth_close t = (r, t') \<Longrightarrow> keeps_object strerror t t' \<and> \<not> fd_valid (tcp_sock t')"
  by (auto simp: meth_close_def tcp_object)

lemma keeps_listen: "meth_listen strerror answer backlog t = Some (r, t') \<Longrightarrow> keeps_object strerror t t'"
  by (auto simp: meth_listen_def Let_def tcp_object dest!: socket_modes(2) split: if_splits prod.splits bind_splits)

lemma keeps_shutdown: "meth_shutdown answer how t = (r, t') \<Longrightarrow> keeps_object strerror t t'"
  by (auto simp: meth_shutdown_def Let_def tcp_object socket_modes(3) split: if_splits)

lemma keeps_settimeout: "meth_settimeout limit mode t = (r, t') \<Longrightarrow> keeps_object strerror t t'"
  by (auto simp: meth_settimeout_def tcp_object split: option.splits)

lemma object_call_keeps:
  "object_call strerror q t = Some (r, t') \<Longrightarrow> \<not> is_setfd q \<Longrightarrow> tcp_ok strerror t \<Longrightarrow> keeps_object strerror t t'"
  by (cases q)
    (auto intro: keeps_object_refl keeps_send keeps_receive keeps_setstats keeps_bind keeps_connect(1)
       keeps_listen keeps_shutdown keeps_settimeout simp: keeps_close)

lemma keeps_accept:
  assumes "meth_accept strerror peer raw now now' t = Some (r, c, t')"
  shows "keeps_object strerror t t'"
proof (cases "tcp_class t = Tcp_server")
  case True
  let ?tm = "timeout_markstart now (buf_tm (tcp_buf t))"
  from True assms obtain e fd s where c: "socket_accept ?tm (tcp_sock t) = Some (e, fd, s)"
    and t': "t' = set_sock s (set_tm ?tm t)"
    by (auto simp: meth_accept_def Let_def set_tm_def split: bind_splits bool.splits option.splits)
  show ?thesis
    by (rule keeps_object_same_flags) (use socket_accept_flags[OF c] t' in \<open>simp_all add: tcp_object\<close>)
qed (use assms in \<open>simp add: meth_accept_def keeps_object_refl\<close>)

lemma init_tcp_ok:
  "tcp_ok strerror (init_tcp strerror c fd s now raw) \<longleftrightarrow> fd_open s = fd_valid s" "tcp_fd (init_tcp strerror c fd s now raw) = fd"
  "fd_valid (tcp_sock (init_tcp strerror c fd s now raw)) = fd_valid s"
  "tcp_class (init_tcp strerror c fd s now raw) = c"
  by (simp_all add: init_tcp_def Let_def tcp_ok_def buffer_init_def socket_setnonblocking_def)

lemma accept_client:
  assumes "meth_accept strerror peer raw now now' t = Some (r, Some c, t')"
  shows "tcp_ok strerror c" and "fd_valid (tcp_sock c)" and "tcp_class c = Tcp_client" and "0 \<le> tcp_fd c"
  using assms
  by (auto simp: meth_accept_def Let_def init_tcp_ok split: bind_splits bool.splits option.splits if_splits)

section \<open>The objects of a program\<close>

text \<open>
  A Lua program holds TCP objects at addresses; the kernel has a set of descriptors open, some of which
  belong to other parts of the program (the pipe of \<open>helen.lua\<close>, connections of luasec): these are known
  with their sockets. A new descriptor is one that is not open. An object that is collected is closed
  first. A descriptor that is given to \<open>socket.tcp\<close> or \<open>setfd\<close> is one of the other parts; \<open>setfd\<close> leaves the
  descriptor that the object had to them.
\<close>

record net =
  net_objs :: "nat \<rightharpoonup> t_tcp"
  net_open :: "int set"
  net_others :: "int \<rightharpoonup> sock"

text \<open>The descriptors left open when a call closes, in the kernel, the one of its object.\<close>

definition still_open :: "t_tcp \<Rightarrow> t_tcp \<Rightarrow> int set \<Rightarrow> int set" where
  "still_open t t' fds = (if fd_open (tcp_sock t) \<and> \<not> fd_open (tcp_sock t') then fds - {tcp_fd t} else fds)"

definition given_up :: "t_tcp \<Rightarrow> (int \<rightharpoonup> sock) \<Rightarrow> int \<rightharpoonup> sock" where
  "given_up t others = (if fd_valid (tcp_sock t) then others(tcp_fd t \<mapsto> tcp_sock t) else others)"

inductive net_step :: "(int \<Rightarrow> string) \<Rightarrow> net \<Rightarrow> net \<Rightarrow> bool" for strerror where
  create: "global_create strerror (n, s) given arg now raw = (r, Some t) \<Longrightarrow> arg = None \<or> (\<exists>k < 1. arg = Some k) \<Longrightarrow>
    net_objs N a = None \<Longrightarrow> 0 \<le> n \<Longrightarrow> n \<notin> net_open N \<Longrightarrow>
    net_step strerror N (N\<lparr>net_objs := (net_objs N)(a \<mapsto> t), net_open := insert n (net_open N)\<rparr>)"
| adopt: "global_create strerror answer given (Some n) now raw = (r, Some t) \<Longrightarrow> 1 \<le> n \<Longrightarrow>
    net_others N n = Some given \<Longrightarrow> net_objs N a = None \<Longrightarrow>
    net_step strerror N (N\<lparr>net_objs := (net_objs N)(a \<mapsto> t), net_others := (net_others N)(n := None)\<rparr>)"
| call: "net_objs N a = Some t \<Longrightarrow> \<not> is_setfd q \<Longrightarrow> object_call strerror q t = Some (r, t') \<Longrightarrow>
    net_step strerror N (N\<lparr>net_objs := (net_objs N)(a \<mapsto> t'), net_open := still_open t t' (net_open N)\<rparr>)"
| setfd: "net_objs N a = Some t \<Longrightarrow> object_call strerror (Setfd n s) t = Some (r, t') \<Longrightarrow>
    n = SOCKET_INVALID \<or> net_others N n = Some s \<and> non_blocking s \<Longrightarrow>
    net_step strerror N (N\<lparr>net_objs := (net_objs N)(a \<mapsto> t'), net_others := (given_up t (net_others N))(n := None)\<rparr>)"
| accept: "net_objs N a = Some t \<Longrightarrow> meth_accept strerror peer raw now now' t = Some (r, Some c, t') \<Longrightarrow>
    net_objs N b = None \<Longrightarrow> tcp_fd c \<notin> net_open N \<Longrightarrow>
    net_step strerror N (N\<lparr>net_objs := (net_objs N)(a \<mapsto> t', b \<mapsto> c),
      net_open := insert (tcp_fd c) (still_open t t' (net_open N))\<rparr>)"
| refuse: "net_objs N a = Some t \<Longrightarrow> meth_accept strerror peer raw now now' t = Some (r, None, t') \<Longrightarrow>
    net_step strerror N (N\<lparr>net_objs := (net_objs N)(a \<mapsto> t'), net_open := still_open t t' (net_open N)\<rparr>)"
| collect: "net_objs N a = Some t \<Longrightarrow> meth_close t = (r, t') \<Longrightarrow>
    net_step strerror N (N\<lparr>net_objs := (net_objs N)(a := None), net_open := still_open t t' (net_open N)\<rparr>)"
| other_opens: "0 \<le> n \<Longrightarrow> n \<notin> net_open N \<Longrightarrow> fd_open s \<Longrightarrow>
    net_step strerror N (N\<lparr>net_open := insert n (net_open N), net_others := (net_others N)(n \<mapsto> s)\<rparr>)"
| other_closes: "net_others N n = Some s \<Longrightarrow>
    net_step strerror N (N\<lparr>net_open := net_open N - {n}, net_others := (net_others N)(n := None)\<rparr>)"

inductive net_reachable :: "(int \<Rightarrow> string) \<Rightarrow> net \<Rightarrow> bool" for strerror where
  net_start: "net_reachable strerror \<lparr>net_objs = Map.empty, net_open = {}, net_others = Map.empty\<rparr>"
| net_more: "net_reachable strerror N \<Longrightarrow> net_step strerror N N' \<Longrightarrow> net_reachable strerror N'"

text \<open>The object at an address owns a descriptor.\<close>

definition valid_at :: "(nat \<rightharpoonup> t_tcp) \<Rightarrow> nat \<Rightarrow> int \<Rightarrow> bool" where
  "valid_at objs a fd \<longleftrightarrow> (case objs a of None \<Rightarrow> False | Some t \<Rightarrow> fd_valid (tcp_sock t) \<and> tcp_fd t = fd)"

lemma valid_at_upd:
  "valid_at (objs(a := x)) b fd \<longleftrightarrow>
   (if b = a then (case x of None \<Rightarrow> False | Some t \<Rightarrow> fd_valid (tcp_sock t) \<and> tcp_fd t = fd) else valid_at objs b fd)"
  by (simp add: valid_at_def)

definition fds_owned :: "(nat \<rightharpoonup> t_tcp) \<Rightarrow> int set \<Rightarrow> bool" where
  "fds_owned objs fds \<longleftrightarrow> (\<forall>fd. fd \<in> fds \<longleftrightarrow> (\<exists>a. valid_at objs a fd)) \<and>
     (\<forall>a b fd. valid_at objs a fd \<longrightarrow> valid_at objs b fd \<longrightarrow> a = b)"

text \<open>The invariant: every open descriptor belongs to one object or to the other parts.\<close>

definition net_ok :: "(int \<Rightarrow> string) \<Rightarrow> net \<Rightarrow> bool" where
  "net_ok strerror N \<longleftrightarrow> (\<forall>a t. net_objs N a = Some t \<longrightarrow> tcp_ok strerror t) \<and>
     fds_owned (net_objs N) (net_open N - dom (net_others N)) \<and> dom (net_others N) \<subseteq> net_open N \<and>
     (\<forall>fd \<in> net_open N. 0 \<le> fd) \<and> (\<forall>fd s. net_others N fd = Some s \<longrightarrow> fd_open s)"

text \<open>An object that keeps its descriptor or loses it, and an object with a new one.\<close>

lemma fds_owned_same:
  assumes "fds_owned objs fds" and "\<And>fd. (case x of None \<Rightarrow> False | Some t \<Rightarrow> fd_valid (tcp_sock t) \<and> tcp_fd t = fd) = valid_at objs a fd"
  shows "fds_owned (objs(a := x)) fds"
proof -
  have "valid_at (objs(a := x)) b fd = valid_at objs b fd" for b fd by (simp add: valid_at_upd assms(2))
  with assms(1) show ?thesis by (simp add: fds_owned_def)
qed

lemma fds_owned_lost:
  assumes o: "fds_owned objs fds" and a: "valid_at objs a n" and x: "case x of None \<Rightarrow> True | Some t \<Rightarrow> \<not> fd_valid (tcp_sock t)"
  shows "fds_owned (objs(a := x)) (fds - {n})"
proof -
  have v: "valid_at (objs(a := x)) b fd \<longleftrightarrow> b \<noteq> a \<and> valid_at objs b fd" for b fd
    using x by (simp add: valid_at_upd split: option.splits)
  have n: "fd = n" if "valid_at objs a fd" for fd using that a by (auto simp: valid_at_def split: option.splits)
  show ?thesis using o a n unfolding fds_owned_def v by (metis Diff_iff singletonD singletonI)
qed

lemma fds_owned_new:
  assumes o: "fds_owned objs fds" and a: "objs a = None" and c: "fd_valid (tcp_sock c)" "tcp_fd c \<notin> fds"
  shows "fds_owned (objs(a \<mapsto> c)) (insert (tcp_fd c) fds)"
proof -
  have v: "valid_at (objs(a \<mapsto> c)) b fd \<longleftrightarrow> (if b = a then fd = tcp_fd c else valid_at objs b fd)" for b fd
    using c by (auto simp: valid_at_upd)
  have "\<not> valid_at objs a fd" for fd using a by (simp add: valid_at_def)
  with o c show ?thesis unfolding fds_owned_def v by (metis insert_iff)
qed

lemma net_okD:
  assumes "net_ok strerror N" and "net_objs N a = Some t"
  shows "tcp_ok strerror t" and "fd_valid (tcp_sock t) \<Longrightarrow> tcp_fd t \<in> net_open N - dom (net_others N)"
    and "fd_valid (tcp_sock t) \<Longrightarrow> valid_at (net_objs N) a (tcp_fd t)"
proof -
  show "tcp_ok strerror t" using assms by (simp add: net_ok_def)
  show v: "fd_valid (tcp_sock t) \<Longrightarrow> valid_at (net_objs N) a (tcp_fd t)" using assms(2) by (simp add: valid_at_def)
  show "fd_valid (tcp_sock t) \<Longrightarrow> tcp_fd t \<in> net_open N - dom (net_others N)"
    using v assms(1) unfolding net_ok_def fds_owned_def by blast
qed

text \<open>An object that goes over to another socket on the same descriptor, or gives it up.\<close>

lemma net_ok_change:
  assumes ok: "net_ok strerror N" and a: "net_objs N a = Some t" and k: "keeps_object strerror t t'"
  shows "net_ok strerror (N\<lparr>net_objs := (net_objs N)(a \<mapsto> t'), net_open := still_open t t' (net_open N)\<rparr>)"
proof -
  note d = net_okD[OF ok a]
  have t': "tcp_ok strerror t'" "tcp_fd t' = tcp_fd t" "fd_valid (tcp_sock t') \<Longrightarrow> fd_valid (tcp_sock t)"
    using d(1) k by (simp_all add: keeps_object_def)
  have own: "fds_owned (net_objs N) (net_open N - dom (net_others N))" using ok by (simp add: net_ok_def)
  have "fds_owned ((net_objs N)(a \<mapsto> t')) (still_open t t' (net_open N) - dom (net_others N)) \<and>
      dom (net_others N) \<subseteq> still_open t t' (net_open N)"
  proof (cases "fd_valid (tcp_sock t) \<and> \<not> fd_valid (tcp_sock t')")
    case True
    have "still_open t t' (net_open N) = net_open N - {tcp_fd t}"
      using True d(1) t'(1) by (simp add: still_open_def tcp_ok_def)
    moreover have "fds_owned ((net_objs N)(a \<mapsto> t')) (net_open N - dom (net_others N) - {tcp_fd t})"
      using fds_owned_lost[OF own d(3), of "Some t'"] True by simp
    moreover have "net_open N - {tcp_fd t} - dom (net_others N) = net_open N - dom (net_others N) - {tcp_fd t}" by blast
    ultimately show ?thesis using d(2) True ok by (auto simp: net_ok_def)
  next
    case False
    have "still_open t t' (net_open N) = net_open N"
      using False d(1) t'(1) by (auto simp: still_open_def tcp_ok_def)
    moreover have "fds_owned ((net_objs N)(a \<mapsto> t')) (net_open N - dom (net_others N))"
      by (rule fds_owned_same[OF own]) (use False a t'(2,3) in \<open>auto simp: valid_at_def\<close>)
    ultimately show ?thesis using ok by (simp add: net_ok_def)
  qed
  moreover have "still_open t t' (net_open N) \<subseteq> net_open N" by (auto simp: still_open_def)
  ultimately show ?thesis using ok t'(1) unfolding net_ok_def by auto
qed

lemma net_ok_new:
  assumes ok: "net_ok strerror N" and b: "net_objs N b = None" and c: "tcp_ok strerror c" "fd_valid (tcp_sock c)"
    and fd: "tcp_fd c \<notin> net_open N" "0 \<le> tcp_fd c"
  shows "net_ok strerror (N\<lparr>net_objs := (net_objs N)(b \<mapsto> c), net_open := insert (tcp_fd c) (net_open N)\<rparr>)"
proof -
  have own: "fds_owned (net_objs N) (net_open N - dom (net_others N))" and sub: "dom (net_others N) \<subseteq> net_open N"
    using ok by (simp_all add: net_ok_def)
  have "fds_owned ((net_objs N)(b \<mapsto> c)) (insert (tcp_fd c) (net_open N - dom (net_others N)))"
    using fds_owned_new[OF own b c(2)] fd(1) by simp
  moreover have "insert (tcp_fd c) (net_open N) - dom (net_others N) = insert (tcp_fd c) (net_open N - dom (net_others N))"
    using sub fd(1) by blast
  ultimately show ?thesis using ok c(1) fd(2) by (auto simp: net_ok_def)
qed

text \<open>An object that takes a descriptor of the other parts, and may leave them its own.\<close>

lemma net_ok_adopt:
  assumes ok: "net_ok strerror N" and n: "net_others N n = Some s" and a: "net_objs N a = None"
    and t: "tcp_ok strerror t" "fd_valid (tcp_sock t)" "tcp_fd t = n"
  shows "net_ok strerror (N\<lparr>net_objs := (net_objs N)(a \<mapsto> t), net_others := (net_others N)(n := None)\<rparr>)"
proof -
  have own: "fds_owned (net_objs N) (net_open N - dom (net_others N))" and sub: "dom (net_others N) \<subseteq> net_open N"
    using ok by (simp_all add: net_ok_def)
  have "fds_owned ((net_objs N)(a \<mapsto> t)) (insert n (net_open N - dom (net_others N)))"
    using fds_owned_new[OF own a t(2)] n t(3) by auto
  moreover have "net_open N - (dom (net_others N) - {n}) = insert n (net_open N - dom (net_others N))"
    using sub n by auto
  ultimately show ?thesis using ok t(1) by (auto simp: net_ok_def)
qed

lemma net_ok_give_up:
  assumes ok: "net_ok strerror N" and a: "net_objs N a = Some t" and x: "case x of None \<Rightarrow> True | Some u \<Rightarrow> tcp_ok strerror u \<and> \<not> fd_valid (tcp_sock u)"
  shows "net_ok strerror (N\<lparr>net_objs := (net_objs N)(a := x), net_others := given_up t (net_others N)\<rparr>)"
proof -
  note d = net_okD[OF ok a]
  have own: "fds_owned (net_objs N) (net_open N - dom (net_others N))" using ok by (simp add: net_ok_def)
  have v: "case x of None \<Rightarrow> True | Some u \<Rightarrow> \<not> fd_valid (tcp_sock u)" using x by (auto split: option.splits)
  have "fds_owned ((net_objs N)(a := x)) (net_open N - dom (given_up t (net_others N)))"
  proof (cases "fd_valid (tcp_sock t)")
    case True
    have "net_open N - dom (given_up t (net_others N)) = net_open N - dom (net_others N) - {tcp_fd t}"
      using True by (auto simp: given_up_def)
    then show ?thesis using fds_owned_lost[OF own d(3)[OF True] v] by simp
  next
    case False
    have "fds_owned ((net_objs N)(a := x)) (net_open N - dom (net_others N))"
      by (rule fds_owned_same[OF own]) (use False a v in \<open>auto simp: valid_at_def split: option.splits\<close>)
    with False show ?thesis by (simp add: given_up_def)
  qed
  moreover have "dom (given_up t (net_others N)) \<subseteq> net_open N" using ok d(2) by (auto simp: given_up_def net_ok_def)
  moreover have "\<forall>fd s. given_up t (net_others N) fd = Some s \<longrightarrow> fd_open s"
    using ok d(1) by (auto simp: given_up_def net_ok_def tcp_ok_def)
  ultimately show ?thesis using ok x by (auto simp: net_ok_def split: option.splits)
qed

lemma net_ok_setfd:
  assumes ok: "net_ok strerror N" and a: "net_objs N a = Some t" and c: "meth_setfd n s t = (r, t')"
    and n: "n = SOCKET_INVALID \<or> net_others N n = Some s \<and> non_blocking s"
  shows "net_ok strerror (N\<lparr>net_objs := (net_objs N)(a \<mapsto> t'), net_others := (given_up t (net_others N))(n := None)\<rparr>)"
proof (cases "n = SOCKET_INVALID")
  case True
  have "tcp_ok strerror t'" "\<not> fd_valid (tcp_sock t')"
    using c True net_okD(1)[OF ok a] by (auto simp: meth_setfd_def tcp_object)
  then have g: "net_ok strerror (N\<lparr>net_objs := (net_objs N)(a \<mapsto> t'), net_others := given_up t (net_others N)\<rparr>)"
    using net_ok_give_up[OF ok a, of "Some t'"] by simp
  then have "0 \<le> fd" if "fd \<in> dom (given_up t (net_others N))" for fd using that unfolding net_ok_def by auto
  from this[of n] have "n \<notin> dom (given_up t (net_others N))" using True by linarith
  then have "given_up t (net_others N) n = None" by blast
  then have "(given_up t (net_others N))(n := None) = given_up t (net_others N)" by (simp add: fun_upd_idem)
  with g show ?thesis by simp
next
  case False
  with n have s: "net_others N n = Some s" "non_blocking s" "fd_open s" using ok by (auto simp: net_ok_def)
  let ?N = "N\<lparr>net_objs := (net_objs N)(a := None), net_others := given_up t (net_others N)\<rparr>"
  have g: "net_ok strerror ?N" using net_ok_give_up[OF ok a, of None] by simp
  have "fd_valid (tcp_sock t) \<Longrightarrow> tcp_fd t \<noteq> n" using net_okD(2)[OF ok a] s(1) by auto
  then have o: "net_others ?N n = Some s" using s(1) by (auto simp: given_up_def)
  have t': "tcp_ok strerror t'" "fd_valid (tcp_sock t')" "tcp_fd t' = n"
    using c False s net_okD(1)[OF ok a] by (auto simp: meth_setfd_def tcp_object)
  show ?thesis using net_ok_adopt[OF g o _ t', of a] by simp
qed

lemma net_step_ok: "net_step strerror N N' \<Longrightarrow> net_ok strerror N \<Longrightarrow> net_ok strerror N'"
proof (induction rule: net_step.induct)
  case (create n s given arg now raw r t N a)
  have "tcp_ok strerror t \<and> fd_valid (tcp_sock t) \<and> tcp_fd t = n"
    using create(1,2,4)
    by (auto simp: global_create_def inet_trycreate_def socket_create_def socket_strerror_def io_strerror_def init_tcp_ok
        split: option.splits if_splits)
  with create show ?case using net_ok_new[of strerror N a t] by simp
next
  case (adopt answer given n now raw r t N a)
  then have "fd_open given" by (auto simp: net_ok_def)
  with adopt(1,2) have "tcp_ok strerror t \<and> fd_valid (tcp_sock t) \<and> tcp_fd t = n"
    by (auto simp: global_create_def init_tcp_ok)
  with adopt show ?case by (intro net_ok_adopt) auto
next
  case (call N a t q r t')
  then have "keeps_object strerror t t'" by (intro object_call_keeps[of strerror q]) (auto simp: net_ok_def)
  with call show ?case by (intro net_ok_change)
next
  case (setfd N a t n s r t')
  then show ?case by (intro net_ok_setfd) auto
next
  case (accept N a t peer raw now now' r c t' b)
  let ?N = "N\<lparr>net_objs := (net_objs N)(a \<mapsto> t'), net_open := still_open t t' (net_open N)\<rparr>"
  note c = accept_client[OF accept(2)]
  have ok: "net_ok strerror ?N" using net_ok_change[OF accept(5,1) keeps_accept[OF accept(2)]] .
  have "net_objs ?N b = None" "tcp_fd c \<notin> net_open ?N" using accept by (auto simp: still_open_def)
  from net_ok_new[OF ok this(1) c(1,2) this(2) c(4)] show ?case by simp
next
  case (refuse N a t peer raw now now' r t')
  then show ?case by (intro net_ok_change keeps_accept)
next
  case (collect N a t r t')
  let ?N = "N\<lparr>net_objs := (net_objs N)(a \<mapsto> t'), net_open := still_open t t' (net_open N)\<rparr>"
  have k: "keeps_object strerror t t'" "\<not> fd_valid (tcp_sock t')" using keeps_close[OF collect(2), of strerror] by simp_all
  have ok: "net_ok strerror ?N" using net_ok_change[OF collect(3,1) k(1)] .
  have "fds_owned ((net_objs ?N)(a := None)) (net_open ?N - dom (net_others ?N))"
  proof (rule fds_owned_same)
    show "fds_owned (net_objs ?N) (net_open ?N - dom (net_others ?N))" using ok unfolding net_ok_def by blast
  qed (use k(2) in \<open>simp add: valid_at_def\<close>)
  with ok collect(3) show ?case unfolding net_ok_def by simp
next
  case (other_opens n N s)
  then have "insert n (net_open N) - dom ((net_others N)(n \<mapsto> s)) = net_open N - dom (net_others N)" by auto
  with other_opens show ?case by (auto simp: net_ok_def)
next
  case (other_closes N n s)
  then have "net_open N - {n} - dom ((net_others N)(n := None)) = net_open N - dom (net_others N)" by auto
  with other_closes show ?case by (auto simp: net_ok_def)
qed

lemma net_reachable_ok: "net_reachable strerror N \<Longrightarrow> net_ok strerror N"
proof (induction rule: net_reachable.induct)
  case net_start
  show ?case by (simp add: net_ok_def fds_owned_def valid_at_def)
qed (rule net_step_ok)

text \<open>
  (C22) Whatever methods a Lua program calls on its TCP objects, in whatever order and whatever the kernel
  answers, when the descriptors it passes to \<open>socket.tcp\<close> or \<open>setfd\<close> are open ones of other parts of the
  program, those for \<open>setfd\<close> in non-blocking mode: the descriptors that are open in the kernel are those of
  the objects with a valid socket and those of the other parts, no descriptor has two owners, and every
  socket of an object is in non-blocking mode. The descriptor that \<open>setfd\<close> replaces stays open and goes to the
  other parts; otherwise no object loses a descriptor without closing it, and none is closed twice or
  closed under another owner.
\<close>

theorem tcp_objects_own_descriptors:
  assumes "net_reachable strerror N"
  shows "net_open N = {fd. \<exists>a t. net_objs N a = Some t \<and> fd_valid (tcp_sock t) \<and> fd = tcp_fd t} \<union> dom (net_others N) \<and>
    (\<forall>a t. net_objs N a = Some t \<and> fd_valid (tcp_sock t) \<longrightarrow>
       fd_open (tcp_sock t) \<and> non_blocking (tcp_sock t) \<and> tcp_fd t \<notin> dom (net_others N)) \<and>
    (\<forall>a b t u. net_objs N a = Some t \<and> net_objs N b = Some u \<and> fd_valid (tcp_sock t) \<and> fd_valid (tcp_sock u) \<and>
       tcp_fd t = tcp_fd u \<longrightarrow> a = b)"
proof -
  note ok = net_reachable_ok[OF assms]
  have o: "fds_owned (net_objs N) (net_open N - dom (net_others N))" and sub: "dom (net_others N) \<subseteq> net_open N"
    using ok by (auto simp: net_ok_def)
  have v: "valid_at (net_objs N) a fd \<longleftrightarrow> (\<exists>t. net_objs N a = Some t \<and> fd_valid (tcp_sock t) \<and> fd = tcp_fd t)" for a fd
    by (auto simp: valid_at_def split: option.splits)
  have "net_open N - dom (net_others N) = {fd. \<exists>a t. net_objs N a = Some t \<and> fd_valid (tcp_sock t) \<and> fd = tcp_fd t}"
    using o unfolding fds_owned_def v by blast
  with sub have "net_open N = {fd. \<exists>a t. net_objs N a = Some t \<and> fd_valid (tcp_sock t) \<and> fd = tcp_fd t} \<union> dom (net_others N)"
    by blast
  moreover have "\<forall>a t. net_objs N a = Some t \<and> fd_valid (tcp_sock t) \<longrightarrow>
      fd_open (tcp_sock t) \<and> non_blocking (tcp_sock t) \<and> tcp_fd t \<notin> dom (net_others N)"
    using net_okD(1,2)[OF ok] unfolding tcp_ok_def by blast
  moreover have "\<forall>a b t u. net_objs N a = Some t \<and> net_objs N b = Some u \<and> fd_valid (tcp_sock t) \<and> fd_valid (tcp_sock u) \<and>
      tcp_fd t = tcp_fd u \<longrightarrow> a = b"
    using o unfolding fds_owned_def v by blast
  ultimately show ?thesis by blast
qed

section \<open>A bind that fails\<close>

lemma resolver_error: "socket_gethostbyname dns name = (err, None) \<Longrightarrow> socket_hoststrerror dns err \<noteq> None"
  by (auto simp: socket_gethostbyname_def host_answer_def socket_hoststrerror_def io_strerror_def
      split: sum.splits if_splits)

lemma socket_error: "err \<noteq> IO_DONE \<Longrightarrow> socket_strerror strerror err s \<noteq> None"
  by (simp add: socket_strerror_def io_strerror_def)

lemma bind_closed:
  assumes "\<not> fd_valid (tcp_sock t)" and "meth_bind dns strerror answer address port t = Some (r, t')"
  shows "r \<noteq> Inr [LNumber 1]"
proof -
  have e: "err \<noteq> IO_DONE" if "socket_bind answer (tcp_sock t) = (err, s)" for err s
    using that assms(1) by (auto simp: socket_bind_def sys_status_def Let_def socket_setblocking_def)
  have n: "err \<noteq> None" if "inet_trybind dns strerror answer address p (tcp_sock t) = Some (call, err, s)" for p call err s
    using that e resolver_error socket_error
    by (auto simp: inet_trybind_def bind_address_def first_address_def Let_def
        split: bind_splits sum.splits prod.splits if_splits option.splits list.splits)
  show ?thesis
  proof (cases "tcp_class t = Tcp_master")
    case True
    with assms(2) obtain p call err s where
      b: "inet_trybind dns strerror answer address p (tcp_sock t) = Some (call, err, s)"
      and r: "r = Inr (case err of Some e \<Rightarrow> [LNil, LString e] | None \<Rightarrow> [LNumber 1])"
      by (auto simp: meth_bind_def split: bind_splits)
    from n[OF b] r show ?thesis by auto
  qed (use assms(2) in \<open>auto simp: meth_bind_def\<close>)
qed

lemma listen_closed:
  assumes "\<not> fd_valid (tcp_sock t)" and "meth_listen strerror answer backlog t = Some (r, t')"
  shows "r \<noteq> Inr [LNumber 1]"
  using assms
  by (auto simp: meth_listen_def socket_listen_def sys_status_def Let_def socket_setblocking_def
      split: if_splits bind_splits prod.splits)

text \<open>A sequence of calls on one object.\<close>

fun object_calls :: "(int \<Rightarrow> string) \<Rightarrow> request list \<Rightarrow> t_tcp \<Rightarrow> t_tcp option" where
  "object_calls strerror [] t = Some t"
| "object_calls strerror (q # qs) t = do { (r, t) \<leftarrow> object_call strerror q t; object_calls strerror qs t }"

lemma closed_stays_closed:
  "object_calls strerror qs t = Some t' \<Longrightarrow> \<forall>q \<in> set qs. \<not> is_setfd q \<Longrightarrow> tcp_ok strerror t \<Longrightarrow>
   \<not> fd_valid (tcp_sock t) \<Longrightarrow> \<not> fd_valid (tcp_sock t')"
proof (induction qs arbitrary: t)
  case (Cons q qs)
  then obtain r t1 where c: "object_call strerror q t = Some (r, t1)" "object_calls strerror qs t1 = Some t'"
    by (auto split: bind_splits)
  from object_call_keeps[OF c(1)] Cons.prems have "keeps_object strerror t t1" by simp
  with Cons c show ?case by (auto simp: keeps_object_def)
qed simp

text \<open>
  (C23) A bind that the kernel refuses, on an address, the name of a host or the wildcard, returns nil with a
  message, asks the kernel for that address and port, and closes the socket of the object, in the
  kernel too. The object stays a master, and whatever methods are called on it afterwards, \<open>setfd\<close> apart,
  no bind and no listen on it succeeds.
\<close>

theorem bind_failure_closes:
  assumes "tcp_ok strerror t" and "tcp_class t = Tcp_master" and "fd_valid (tcp_sock t)" and "0 < answer"
    and "bind_address dns address = Some (Inr a)" and "to_ushort port = Some p"
  shows "\<exists>m t'. meth_bind dns strerror answer address port t = Some (Inr [LNil, LString m], t') \<and>
    \<not> fd_valid (tcp_sock t') \<and> \<not> fd_open (tcp_sock t') \<and> tcp_class t' = Tcp_master \<and>
    tcp_calls t' = tcp_calls t @ [Call_bind \<lparr>sin_family = AF_INET, sin_addr = a, sin_port = p\<rparr>] \<and>
    (\<forall>qs t2 r t3. object_calls strerror qs t' = Some t2 \<and> (\<forall>q \<in> set qs. \<not> is_setfd q) \<longrightarrow>
       (\<forall>dns2 answer2 address2 port2.
          meth_bind dns2 strerror answer2 address2 port2 t2 = Some (r, t3) \<longrightarrow> r \<noteq> Inr [LNumber 1]) \<and>
       (\<forall>answer2 backlog. meth_listen strerror answer2 backlog t2 = Some (r, t3) \<longrightarrow> r \<noteq> Inr [LNumber 1]))"
proof -
  obtain err s where b: "socket_bind answer (tcp_sock t) = (err, s)" by fastforce
  have e: "err \<noteq> IO_DONE"
    using b assms(1,3,4) by (auto simp: socket_bind_def sys_status_def Let_def socket_setblocking_def tcp_ok_def)
  obtain m where m: "socket_strerror strerror err (socket_destroy s) = Some m" using socket_error[OF e] by blast
  define t' where "t' = set_sock (socket_destroy s)
    (note_call (Call_bind \<lparr>sin_family = AF_INET, sin_addr = a, sin_port = p\<rparr>) t)"
  have r: "meth_bind dns strerror answer address port t = Some (Inr [LNil, LString m], t')"
    using assms(2,5,6) b e m by (simp add: meth_bind_def inet_trybind_def Let_def t'_def)
  have v: "\<not> fd_valid (tcp_sock t')" "\<not> fd_open (tcp_sock t')"
    using socket_modes(1)[OF b] assms(3) by (simp_all add: t'_def set_sock_def)
  have ok: "tcp_ok strerror t'" using keeps_bind[OF r] assms(1) by (simp add: keeps_object_def)
  have "tcp_class t' = Tcp_master" "tcp_calls t' = tcp_calls t @
      [Call_bind \<lparr>sin_family = AF_INET, sin_addr = a, sin_port = p\<rparr>]"
    using assms(2) by (simp_all add: t'_def set_sock_def note_call_def)
  moreover have "\<not> fd_valid (tcp_sock t2)"
    if "object_calls strerror qs t' = Some t2 \<and> (\<forall>q \<in> set qs. \<not> is_setfd q)" for qs t2
    using closed_stays_closed[OF _ _ ok v(1)] that by blast
  ultimately show ?thesis using r v bind_closed listen_closed by (intro exI[of _ m] exI[of _ t']) blast
qed

section \<open>Examples\<close>

definition new_sock :: sock where
  "new_sock = \<lparr>fd_valid = True, fd_open = True, non_blocking = False, rxs = [], txs = [], waits = [], connects = [], accepts = [],
     sent_bytes = [], clock_time = (\<lambda>_. (0, 0)), clock_reads = 0, select_limits = [], sock_errno = 0\<rparr>"

definition new_raw :: "sock t_buffer" where
  "new_raw = \<lparr>birthday = 0, buf_sent = 0, buf_received = 0, buf_io = tcp_io (\<lambda>_. ''error''), buf_ctx = new_sock,
     buf_tm = \<lparr>tm_block = 0, tm_total = 0, tm_start = 0\<rparr>, buf_first = 0, buf_last = 0, buf_data = replicate 8192 NUL\<rparr>"

definition local_dns :: resolver where
  "local_dns = \<lparr>aton = inet_aton, by_name = (\<lambda>_. Inr (HOST_NOT_FOUND, 0)), by_addr = (\<lambda>_. Inr (HOST_NOT_FOUND, 0)),
     hstrerror = (\<lambda>_. ''error'')\<rparr>"

definition new_tcp :: "int \<Rightarrow> t_tcp" where
  "new_tcp fd = init_tcp (\<lambda>_. ''error'') Tcp_master fd new_sock 0 new_raw"

text \<open>
  A socket is created, its bind is refused, and the next socket that is created gets the same
  descriptor, which is then fds_owned by the second object only.
\<close>

lemma example_create:
  "global_create (\<lambda>_. ''error'') (3, new_sock) new_sock None 0 new_raw = (Inr [LUserdata 3], Some (new_tcp 3))"
  by (simp add: global_create_def inet_trycreate_def socket_create_def socket_strerror_def io_strerror_def new_tcp_def
      new_sock_def)

lemma example_tcp:
  "tcp_class (new_tcp fd) = Tcp_master" "fd_valid (tcp_sock (new_tcp fd))" "tcp_fd (new_tcp fd) = fd"
  "tcp_calls (new_tcp fd) = []"
  by (simp_all add: new_tcp_def init_tcp_ok) (simp_all add: new_sock_def init_tcp_def)

lemma example_tcp_ok: "tcp_ok (\<lambda>_. ''error'') (new_tcp fd)"
  by (simp add: new_tcp_def init_tcp_ok new_sock_def)

lemma example_address: "aton local_dns ''127.0.0.1'' = Some 2130706433"
proof -
  have "''127.0.0.1'' = inet_ntoa 2130706433"
    by (simp add: inet_ntoa_def show_nat.simps digit_char_def) (simp add: char_of_def bit_Suc_0_iff)
  then show ?thesis using inet_aton_dotted[of 127 0 0 1]
    by (simp add: local_dns_def inet_ntoa_def)
qed

theorem bind_failure_closes_witness:
  "\<exists>m t'. meth_bind local_dns (\<lambda>_. ''error'') E_ADDRINUSE ''127.0.0.1'' 80 (new_tcp 3) = Some (Inr [LNil, LString m], t') \<and>
    \<not> fd_valid (tcp_sock t') \<and> \<not> fd_open (tcp_sock t') \<and>
    tcp_calls t' = [Call_bind \<lparr>sin_family = AF_INET, sin_addr = 2130706433, sin_port = 80\<rparr>]"
  using bind_failure_closes[OF example_tcp_ok[of 3], of E_ADDRINUSE local_dns "''127.0.0.1''" 2130706433 80 80]
    example_tcp example_address by (auto simp: bind_address_def first_address_def to_ushort_def)

lemma example_net:
  "net_reachable (\<lambda>_. ''error'') \<lparr>net_objs = [2 \<mapsto> new_tcp 3], net_open = {3}, net_others = Map.empty\<rparr>"
  using net_more[OF net_start net_step.create[OF example_create, of _ 2]] by simp

lemma example_bind:
  "\<exists>t'. meth_bind local_dns (\<lambda>_. ''error'') E_ADDRINUSE ''*'' 80 (new_tcp 3) =
     Some (Inr [LNil, LString ''address already in use''], t') \<and> \<not> fd_valid (tcp_sock t') \<and> \<not> fd_open (tcp_sock t') \<and>
     tcp_calls t' \<noteq> []"
  using example_tcp[of 3] example_tcp_ok[of 3]
  by (simp add: meth_bind_def inet_trybind_def bind_address_def to_ushort_def socket_bind_def sys_status_def Let_def
      socket_setblocking_def socket_setnonblocking_def socket_strerror_def set_sock_def note_call_def tcp_ok_def)

theorem tcp_objects_own_descriptors_witness:
  "\<exists>N t' u. net_reachable (\<lambda>_. ''error'') N \<and> net_objs N 2 = Some t' \<and> tcp_calls t' \<noteq> [] \<and>
     \<not> fd_valid (tcp_sock t') \<and> net_objs N 4 = Some u \<and> tcp_fd u = 3 \<and> tcp_class u = Tcp_client \<and> net_open N = {3} \<and>
     non_blocking (tcp_sock u)"
proof -
  let ?e = "\<lambda>_. ''error'' :: string"
  from example_bind obtain t' where
    b: "object_call ?e (Bind local_dns E_ADDRINUSE ''*'' 80) (new_tcp 3) =
          Some (Inr [LNil, LString ''address already in use''], t')"
    and v: "\<not> fd_valid (tcp_sock t')" "\<not> fd_open (tcp_sock t')" "tcp_calls t' \<noteq> []"
    by auto
  have o: "fd_open (tcp_sock (new_tcp 3))" using example_tcp_ok[of 3] example_tcp(2) by (simp add: tcp_ok_def)
  have 2: "net_reachable ?e \<lparr>net_objs = [2 \<mapsto> t'], net_open = {}, net_others = Map.empty\<rparr>"
    using net_more[OF example_net net_step.call[OF _ _ b, of _ 2]] v(2) o example_tcp(3)[of 3] by (simp add: still_open_def)
  have 3: "net_reachable ?e \<lparr>net_objs = [2 \<mapsto> t'], net_open = {3}, net_others = [3 \<mapsto> new_sock]\<rparr>"
    using net_more[OF 2 net_step.other_opens[of 3 _ new_sock]] by (simp add: new_sock_def)
  let ?u = "init_tcp ?e Tcp_client 3 new_sock 0 new_raw"
  let ?N = "\<lparr>net_objs = [2 \<mapsto> t', 4 \<mapsto> ?u], net_open = {3}, net_others = Map.empty\<rparr>"
  have "new_sock\<lparr>fd_valid := True\<rparr> = new_sock" by (simp add: new_sock_def)
  then have g: "global_create ?e (0, new_sock) new_sock (Some 3) 0 new_raw = (Inr [LUserdata 3], Some ?u)"
    by (simp add: global_create_def)
  have 4: "net_reachable ?e ?N"
    using net_more[OF 3 net_step.adopt[OF g, of _ 4]] by simp
  have u: "fd_valid (tcp_sock ?u)" "tcp_fd ?u = 3" "tcp_class ?u = Tcp_client" by (simp_all add: init_tcp_ok new_sock_def)
  have "non_blocking (tcp_sock ?u)"
    using tcp_objects_own_descriptors[OF 4, THEN conjunct2, THEN conjunct1, rule_format, of 4 ?u] u(1) by simp
  with 4 v u show ?thesis by (intro exI[of _ ?N] exI[of _ t'] exI[of _ ?u]) simp
qed

end
