(* ===== verification/Lua_Select.thy ===== *)
theory Lua_Select
  imports Lua_Tcp "HOL-Library.Sublist"
begin

text \<open>
  \<open>socket.select\<close> (\<open>extern/luasocket/src/select.c\<close>, \<open>socket_select\<close> of \<open>usocket.c\<close>), the place where the loop of
  \<open>lua/remote/helen.lua\<close> waits for its connection and its timers. It takes lists of objects, of whatever
  class, and asks them for their descriptors and whether they hold data that has been read already.
  The result \<^term>\<open>None\<close> is a wait without an end, or the use of a descriptor that an \<open>fd_set\<close> cannot hold.
\<close>

section \<open>Waiting for several sockets\<close>

text \<open>\<open>select\<close> reports sets of descriptors, or that the time is over, or fails and leaves the sets as they are.\<close>

datatype sel = Sel_ready "int set" "int set" | Sel_expired | Sel_fail int

text \<open>The state \<open>s\<close> shows the clock and takes down the time limits; the answers of the kernel are a list.\<close>

fun socket_select ::
  "int set \<Rightarrow> int set \<Rightarrow> t_timeout \<Rightarrow> sel list \<Rightarrow> sock \<Rightarrow> (int \<times> int set \<times> int set \<times> sock) option" where
  "socket_select rset wset tm [] s = None"
| "socket_select rset wset tm (a # answers) s =
     (let (t, s) = timeout_getretry tm s;
          s = s\<lparr>select_limits := select_limits s @ [timeval t]\<rparr>
      in case a of
           Sel_ready rd wr \<Rightarrow> Some (int (card (rset \<inter> rd) + card (wset \<inter> wr)), rset \<inter> rd, wset \<inter> wr, s)
         | Sel_expired \<Rightarrow> Some (0, {}, {}, s)
         | Sel_fail e \<Rightarrow>
             let s = s\<lparr>sock_errno := e\<rparr>
             in if sock_errno s = E_INTR then socket_select rset wset tm answers s else Some (- 1, rset, wset, s))"

section \<open>The lists of objects\<close>

text \<open>
  The methods of an object: \<open>getfd\<close> and \<open>dirty\<close> may be absent; the result of the first is a number (an \<open>int\<close>) or
  something else.
\<close>

record 'o methods =
  call_getfd :: "'o \<Rightarrow> int option option"
  call_dirty :: "'o \<Rightarrow> bool option"

definition getfd :: "'o methods \<Rightarrow> 'o \<Rightarrow> int" where
  "getfd m x =
     (case call_getfd m x of
        None \<Rightarrow> SOCKET_INVALID
      | Some v \<Rightarrow> (case v of None \<Rightarrow> SOCKET_INVALID | Some fd \<Rightarrow> fd))"

definition dirty :: "'o methods \<Rightarrow> 'o \<Rightarrow> bool" where
  "dirty m x = (case call_dirty m x of None \<Rightarrow> False | Some b \<Rightarrow> b)"

text \<open>An \<open>fd_set\<close> has room for 1024 descriptors; \<open>FD_SET\<close> does not check.\<close>

abbreviation (input) FD_SETSIZE :: int where "FD_SETSIZE \<equiv> 1024"

definition FD_SET :: "int \<Rightarrow> int set \<Rightarrow> int set option" where
  "FD_SET fd fds = (if 0 \<le> fd \<and> fd < FD_SETSIZE then Some (insert fd fds) else None)"

text \<open>A list argument that is nil is \<^term>\<open>None\<close>; \<open>itab\<close> maps descriptors to their objects.\<close>

fun collect_loop ::
  "'o methods \<Rightarrow> 'o list \<Rightarrow> int \<Rightarrow> (int \<rightharpoonup> 'o) \<Rightarrow> int set \<Rightarrow> (int \<times> (int \<rightharpoonup> 'o) \<times> int set) option" where
  "collect_loop m [] max_fd itab fds = Some (max_fd, itab, fds)"
| "collect_loop m (x # xs) max_fd itab fds =
     (let fd = getfd m x in
      if fd \<noteq> SOCKET_INVALID then do {
        fds \<leftarrow> FD_SET fd fds;
        let max_fd = (if max_fd = SOCKET_INVALID \<or> max_fd < fd then fd else max_fd);
        collect_loop m xs max_fd (itab(fd \<mapsto> x)) fds
      } else collect_loop m xs max_fd itab fds)"

definition collect_fd ::
  "'o methods \<Rightarrow> 'o list option \<Rightarrow> int \<Rightarrow> (int \<rightharpoonup> 'o) \<Rightarrow> int set \<Rightarrow> (int \<times> (int \<rightharpoonup> 'o) \<times> int set) option" where
  "collect_fd m tab max_fd itab fds =
     (case tab of None \<Rightarrow> Some (max_fd, itab, fds) | Some xs \<Rightarrow> collect_loop m xs max_fd itab fds)"

text \<open>The objects that hold data are put into the table of results and out of the set.\<close>

fun dirty_loop :: "'o methods \<Rightarrow> 'o list \<Rightarrow> 'o list \<Rightarrow> int set \<Rightarrow> 'o list \<times> int set" where
  "dirty_loop m [] dtab fds = (dtab, fds)"
| "dirty_loop m (x # xs) dtab fds =
     (let fd = getfd m x in
      if fd \<noteq> SOCKET_INVALID \<and> dirty m x then dirty_loop m xs (dtab @ [x]) (fds - {fd})
      else dirty_loop m xs dtab fds)"

definition check_dirty :: "'o methods \<Rightarrow> 'o list option \<Rightarrow> int set \<Rightarrow> 'o list \<times> int set" where
  "check_dirty m tab fds = (case tab of None \<Rightarrow> ([], fds) | Some xs \<Rightarrow> dirty_loop m xs [] fds)"

text \<open>
  The descriptors from \<open>fd\<close> to \<open>max_fd\<close> that are set, each as the next element of the table. A descriptor
  without object would leave a hole.
\<close>

function return_fd :: "int set \<Rightarrow> int \<Rightarrow> (int \<rightharpoonup> 'o) \<Rightarrow> int \<Rightarrow> 'o option list \<Rightarrow> 'o option list" where
  "return_fd fds max_fd itab fd tab =
     (if fd < max_fd
      then return_fd fds max_fd itab (fd + 1) (if fd \<in> fds then tab @ [itab fd] else tab)
      else tab)"
  by pat_completeness auto

termination
  by (relation "measure (\<lambda>(fds, max_fd, itab, fd, tab). nat (max_fd - fd))") auto

declare return_fd.simps [simp del]

text \<open>The table that is returned has the objects by their numbers and the numbers by their objects.\<close>

record 'o assoc =
  by_number :: "'o list"
  by_object :: "'o \<rightharpoonup> nat"

fun make_assoc_loop :: "nat \<Rightarrow> 'o option list \<Rightarrow> 'o assoc \<Rightarrow> 'o assoc" where
  "make_assoc_loop i (Some x # tab) atab =
     make_assoc_loop (i + 1) tab \<lparr>by_number = by_number atab @ [x], by_object = (by_object atab)(x \<mapsto> i)\<rparr>"
| "make_assoc_loop i tab atab = atab"

definition make_assoc :: "'o option list \<Rightarrow> 'o assoc" where
  "make_assoc tab = make_assoc_loop 1 tab \<lparr>by_number = [], by_object = Map.empty\<rparr>"

section \<open>\<open>select\<close>\<close>

text \<open>
  The time limit is absent or a number of seconds, \<open>now\<close> the time of \<open>timeout_markstart\<close>. The left result is
  the message, which comes with two empty tables.
\<close>

definition global_select ::
  "'o methods \<Rightarrow> 'o list option \<Rightarrow> 'o list option \<Rightarrow> rat option \<Rightarrow> rat \<Rightarrow> sel list \<Rightarrow> sock \<Rightarrow>
   ((string + 'o assoc \<times> 'o assoc) \<times> sock) option" where
  "global_select m reads writes limit now answers s = do {
     let t = (case limit of None \<Rightarrow> - 1 | Some t \<Rightarrow> t);
     (max_fd, itab, rset) \<leftarrow> collect_fd m reads SOCKET_INVALID Map.empty {};
     let (rtab, rset) = check_dirty m reads rset;
     let ndirty = length rtab;
     let t = (if ndirty > 0 then 0 else t);
     let tm = timeout_markstart now (timeout_init t (- 1) \<lparr>tm_block = 0, tm_total = 0, tm_start = 0\<rparr>);
     (max_fd, itab, wset) \<leftarrow> collect_fd m writes max_fd itab {};
     (ret, rset, wset, s) \<leftarrow> socket_select rset wset tm answers s;
     Some (if ret > 0 \<or> ndirty > 0 then
             let rtab = return_fd rset (max_fd + 1) itab 0 (map Some rtab);
                 wtab = return_fd wset (max_fd + 1) itab 0 []
             in Inr (make_assoc rtab, make_assoc wtab)
           else if ret = 0 then Inl ''timeout''
           else Inl ''error'', s)
   }"

section \<open>What the loops compute\<close>

definition elems :: "'o list option \<Rightarrow> 'o list" where
  "elems tab = (case tab of None \<Rightarrow> [] | Some xs \<Rightarrow> xs)"

text \<open>The objects of a list with a descriptor, and their descriptors.\<close>

definition open_objs :: "'o methods \<Rightarrow> 'o list \<Rightarrow> 'o list" where
  "open_objs m xs = filter (\<lambda>x. getfd m x \<noteq> SOCKET_INVALID) xs"

definition fd_fits :: "'o methods \<Rightarrow> 'o list \<Rightarrow> bool" where
  "fd_fits m xs \<longleftrightarrow> getfd m ` set (open_objs m xs) \<subseteq> {0..<FD_SETSIZE}"

lemma open_objs_simps [simp]:
  "open_objs m [] = []"
  "open_objs m (x # xs) = (if getfd m x \<noteq> SOCKET_INVALID then x # open_objs m xs else open_objs m xs)"
  by (simp_all add: open_objs_def)

lemma in_open_objs: "x \<in> set (open_objs m xs) \<longleftrightarrow> x \<in> set xs \<and> getfd m x \<noteq> SOCKET_INVALID"
  by (auto simp: open_objs_def)

lemma collect_loop_none: "collect_loop m xs max_fd itab fds = None \<longleftrightarrow> \<not> fd_fits m xs"
  by (induction xs arbitrary: max_fd itab fds) (auto simp: FD_SET_def fd_fits_def Let_def)

text \<open>The table is right when each descriptor of a set leads to an object with that descriptor.\<close>

definition covers :: "'o methods \<Rightarrow> 'o set \<Rightarrow> int \<Rightarrow> (int \<rightharpoonup> 'o) \<Rightarrow> int set \<Rightarrow> bool" where
  "covers m S max_fd itab fds \<longleftrightarrow>
     (\<forall>fd \<in> fds. 0 \<le> fd \<and> fd \<le> max_fd \<and> (\<exists>x \<in> S. getfd m x = fd \<and> itab fd = Some x))"

lemma covers_insert:
  assumes "covers m S max_fd itab fds" and "x \<in> S" and "0 \<le> getfd m x"
  shows "covers m S (if max_fd = SOCKET_INVALID \<or> max_fd < getfd m x then getfd m x else max_fd)
    (itab(getfd m x \<mapsto> x)) (insert (getfd m x) fds)"
  using assms unfolding covers_def by auto

lemma collect_loop_some:
  assumes "fd_fits m xs" and "covers m S max_fd itab (fds \<union> other)" and "set xs \<subseteq> S"
  shows "\<exists>max_fd' itab'. collect_loop m xs max_fd itab fds = Some (max_fd', itab', fds \<union> getfd m ` set (open_objs m xs)) \<and>
    covers m S max_fd' itab' (fds \<union> other \<union> getfd m ` set (open_objs m xs))"
  using assms
proof (induction xs arbitrary: max_fd itab fds)
  case (Cons x xs)
  show ?case
  proof (cases "getfd m x = SOCKET_INVALID")
    case False
    let ?fd = "getfd m x"
    from Cons.prems(1) False have fd: "0 \<le> ?fd" "?fd < FD_SETSIZE" and f: "fd_fits m xs" by (auto simp: fd_fits_def)
    have c: "covers m S (if max_fd = SOCKET_INVALID \<or> max_fd < ?fd then ?fd else max_fd) (itab(?fd \<mapsto> x)) (insert ?fd fds \<union> other)"
      using covers_insert[OF Cons.prems(2) _ fd(1)] Cons.prems(3) by simp
    from Cons.IH[OF f c] Cons.prems(3) False fd show ?thesis by (simp add: FD_SET_def Let_def fun_upd_def)
  qed (use Cons in \<open>auto simp: fd_fits_def\<close>)
qed simp

lemma collect_fd_some:
  assumes "fd_fits m (elems tab)" and "covers m S max_fd itab (fds \<union> other)" and "set (elems tab) \<subseteq> S"
  shows "\<exists>max_fd' itab'. collect_fd m tab max_fd itab fds =
      Some (max_fd', itab', fds \<union> getfd m ` set (open_objs m (elems tab))) \<and>
    covers m S max_fd' itab' (fds \<union> other \<union> getfd m ` set (open_objs m (elems tab)))"
  using collect_loop_some[OF assms] assms(2) by (auto simp: collect_fd_def elems_def split: option.splits)

lemma dirty_loop_eq:
  "dirty_loop m xs dtab fds =
     (dtab @ filter (dirty m) (open_objs m xs), fds - getfd m ` set (filter (dirty m) (open_objs m xs)))"
  by (induction xs arbitrary: dtab fds) (auto simp: Let_def)

lemma check_dirty_eq:
  "check_dirty m tab fds =
     (filter (dirty m) (open_objs m (elems tab)), fds - getfd m ` set (filter (dirty m) (open_objs m (elems tab))))"
  by (simp add: check_dirty_def dirty_loop_eq elems_def split: option.splits)

lemma return_fd_eq: "return_fd fds n itab fd tab = tab @ map itab (filter (\<lambda>f. f \<in> fds) [fd..n - 1])"
proof (induction fds n itab fd tab rule: return_fd.induct)
  case (1 fds n itab fd tab)
  show ?case
  proof (cases "fd < n")
    case True
    then have "[fd..n - 1] = fd # [fd + 1..n - 1]" by (simp add: upto_rec1)
    with True 1 show ?thesis by (subst return_fd.simps) simp
  qed (subst return_fd.simps, simp)
qed

lemma make_assoc_loop_number:
  "by_number (make_assoc_loop i (map Some xs) atab) = by_number atab @ xs"
  by (induction xs arbitrary: i atab) simp_all

lemma make_assoc_loop_object:
  "by_object (make_assoc_loop i (map Some xs) atab) x = Some k \<Longrightarrow>
   by_object atab x = Some k \<or> i \<le> k \<and> k < i + length xs \<and> xs ! (k - i) = x"
proof (induction xs arbitrary: i atab)
  case (Cons y xs)
  from Cons.IH[of "i + 1"] Cons.prems
  have "((by_object atab)(y \<mapsto> i)) x = Some k \<or> i + 1 \<le> k \<and> k < i + 1 + length xs \<and> xs ! (k - (i + 1)) = x"
    by fastforce
  then show ?case by (auto split: if_splits simp: nth_Cons' fun_upd_apply)
qed simp

lemma make_assoc_loop_dom:
  "dom (by_object (make_assoc_loop i (map Some xs) atab)) = dom (by_object atab) \<union> set xs"
  by (induction xs arbitrary: i atab) auto

text \<open>The numbers of the objects in a table that is returned.\<close>

definition numbered :: "'o assoc \<Rightarrow> bool" where
  "numbered a \<longleftrightarrow> dom (by_object a) = set (by_number a) \<and>
     (\<forall>x k. by_object a x = Some k \<longrightarrow> 1 \<le> k \<and> k \<le> length (by_number a) \<and> by_number a ! (k - 1) = x)"

lemma make_assoc_correct: "by_number (make_assoc (map Some xs)) = xs" "numbered (make_assoc (map Some xs))"
proof -
  show n: "by_number (make_assoc (map Some xs)) = xs" by (simp add: make_assoc_def make_assoc_loop_number)
  have "1 \<le> k \<and> k \<le> length xs \<and> xs ! (k - 1) = x" if "by_object (make_assoc (map Some xs)) x = Some k" for x k
    using make_assoc_loop_object[OF that[unfolded make_assoc_def]] by auto
  then show "numbered (make_assoc (map Some xs))"
    unfolding numbered_def n by (simp add: make_assoc_def make_assoc_loop_dom)
qed

text \<open>The answer that ends the loop around \<open>select\<close>, and what it makes of the sets.\<close>

definition final_answer :: "sel list \<Rightarrow> sel option" where
  "final_answer answers = (case dropWhile (\<lambda>a. a = Sel_fail E_INTR) answers of [] \<Rightarrow> None | a # _ \<Rightarrow> Some a)"

definition outcome :: "sel \<Rightarrow> int set \<Rightarrow> int set \<Rightarrow> int \<times> int set \<times> int set" where
  "outcome a rset wset =
     (case a of
        Sel_ready rd wr \<Rightarrow> (int (card (rset \<inter> rd) + card (wset \<inter> wr)), rset \<inter> rd, wset \<inter> wr)
      | Sel_expired \<Rightarrow> (0, {}, {})
      | Sel_fail e \<Rightarrow> (- 1, rset, wset))"

lemma socket_select_none: "socket_select rset wset tm answers s = None \<longleftrightarrow> set answers \<subseteq> {Sel_fail E_INTR}"
  by (induction rset wset tm answers s rule: socket_select.induct)
    (auto simp: Let_def split: prod.splits sel.splits)

lemma socket_select_outcome:
  assumes "final_answer answers = Some a" and "outcome a rset wset = (ret, rset', wset')"
  shows "\<exists>s'. socket_select rset wset tm answers s = Some (ret, rset', wset', s')"
  using assms
proof (induction answers arbitrary: s)
  case (Cons b answers)
  show ?case
  proof (cases "b = Sel_fail E_INTR")
    case True
    with Cons show ?thesis by (auto simp: final_answer_def split: prod.splits)
  next
    case False
    with Cons.prems have "a = b" by (simp add: final_answer_def)
    with False Cons.prems(2) show ?thesis by (auto simp: outcome_def Let_def split: prod.splits sel.splits)
  qed
qed (simp add: final_answer_def)

text \<open>The objects found for the descriptors of a set.\<close>

definition one_owner :: "'o methods \<Rightarrow> 'o set \<Rightarrow> bool" where
  "one_owner m S \<longleftrightarrow> (\<forall>x \<in> S. \<forall>y \<in> S. getfd m x = getfd m y \<and> getfd m x \<noteq> SOCKET_INVALID \<longrightarrow> x = y)"

lemma returned_objects:
  assumes c: "covers m S max_fd itab fds" and o: "one_owner m S"
  shows "\<exists>ys. return_fd fds (max_fd + 1) itab 0 tab = tab @ map Some ys \<and> set ys = {x \<in> S. getfd m x \<in> fds}"
proof -
  let ?l = "filter (\<lambda>f. f \<in> fds) [0..max_fd]"
  have l: "set ?l = fds" using c by (auto simp: covers_def)
  have i: "\<exists>x \<in> S. getfd m x = f \<and> itab f = Some x" if "f \<in> set ?l" for f
    using c that unfolding l covers_def by blast
  have "map itab ?l = map Some (map (the \<circ> itab) ?l)" using i by fastforce
  moreover have "set (map (the \<circ> itab) ?l) = {x \<in> S. getfd m x \<in> fds}"
  proof -
    have "x \<in> (the \<circ> itab) ` fds" if x: "x \<in> S" "getfd m x \<in> fds" for x
    proof -
      from i x(2) l obtain y where y: "y \<in> S" "getfd m y = getfd m x" "itab (getfd m x) = Some y" by blast
      have "0 \<le> getfd m x" using c x(2) by (auto simp: covers_def)
      with o x(1) y have "y = x" unfolding one_owner_def by auto
      with y(3) x(2) show ?thesis by force
    qed
    then show ?thesis using i unfolding set_map l by fastforce
  qed
  ultimately show ?thesis by (intro exI[of _ "map (the \<circ> itab) ?l"]) (simp add: return_fd_eq)
qed

lemma covers_subset: "covers m S max_fd itab fds \<Longrightarrow> fds' \<subseteq> fds \<Longrightarrow> covers m S max_fd itab fds'"
  by (auto simp: covers_def)

lemma outcome_subset: "outcome a rset wset = (ret, rset', wset') \<Longrightarrow> rset' \<subseteq> rset \<and> wset' \<subseteq> wset"
  by (auto simp: outcome_def split: sel.splits)

text \<open>
  All of \<open>select\<close>, for objects that do not share descriptors: what it returns, given the sets the last
  answer of the kernel leaves.
\<close>

lemma select_outcome:
  fixes m :: "'o methods" and reads writes :: "'o list option"
  defines "S \<equiv> set (elems reads) \<union> set (elems writes)"
    and "D \<equiv> filter (dirty m) (open_objs m (elems reads))"
  defines "rset \<equiv> getfd m ` set (open_objs m (elems reads)) - getfd m ` set D"
    and "wset \<equiv> getfd m ` set (open_objs m (elems writes))"
  assumes fr: "fd_fits m (elems reads)" and fw: "fd_fits m (elems writes)" and o: "one_owner m S"
    and a: "final_answer answers = Some a" and out: "outcome a rset wset = (ret, rset', wset')"
  shows "\<exists>s' rd wr zs. global_select m reads writes limit now answers s =
      Some (if ret > 0 \<or> D \<noteq> [] then Inr (rd, wr) else if ret = 0 then Inl ''timeout'' else Inl ''error'', s') \<and>
    numbered rd \<and> numbered wr \<and> by_number rd = D @ zs \<and> set zs = {x \<in> S. getfd m x \<in> rset'} \<and>
    set (by_number wr) = {x \<in> S. getfd m x \<in> wset'}"
proof -
  have "covers m S SOCKET_INVALID Map.empty ({} \<union> {})" by (simp add: covers_def)
  from collect_fd_some[OF fr this] obtain mx itab where
    c1: "collect_fd m reads SOCKET_INVALID Map.empty {} = Some (mx, itab, getfd m ` set (open_objs m (elems reads)))"
      "covers m S mx itab (getfd m ` set (open_objs m (elems reads)))"
    unfolding S_def by auto
  from collect_fd_some[OF fw, of S mx itab "{}" "getfd m ` set (open_objs m (elems reads))"] c1(2) obtain mx2 itab2 where
    c2: "collect_fd m writes mx itab {} = Some (mx2, itab2, wset)"
      "covers m S mx2 itab2 (getfd m ` set (open_objs m (elems reads)) \<union> wset)"
    unfolding S_def wset_def by auto
  from outcome_subset[OF out] have sub: "covers m S mx2 itab2 rset'" "covers m S mx2 itab2 wset'"
    using covers_subset[OF c2(2)] by (auto simp: rset_def)
  obtain zs where zs: "return_fd rset' (mx2 + 1) itab2 0 (map Some D) = map Some (D @ zs)" "set zs = {x \<in> S. getfd m x \<in> rset'}"
    using returned_objects[OF sub(1) o, of "map Some D"] by (metis map_append)
  obtain ws where ws: "return_fd wset' (mx2 + 1) itab2 0 [] = map Some ws" "set ws = {x \<in> S. getfd m x \<in> wset'}"
    using returned_objects[OF sub(2) o, of "[]"] by (metis append_Nil)
  let ?tm = "timeout_markstart now (timeout_init (if length D > 0 then 0 else case limit of None \<Rightarrow> - 1 | Some t \<Rightarrow> t) (- 1)
    \<lparr>tm_block = 0, tm_total = 0, tm_start = 0\<rparr>)"
  have cd: "check_dirty m reads (getfd m ` set (open_objs m (elems reads))) = (D, rset)"
    by (simp add: check_dirty_eq D_def rset_def)
  obtain s' where ss: "socket_select rset wset ?tm answers s = Some (ret, rset', wset', s')"
    using socket_select_outcome[OF a out] by blast
  have "global_select m reads writes limit now answers s =
      Some (if ret > 0 \<or> D \<noteq> [] then Inr (make_assoc (map Some (D @ zs)), make_assoc (map Some ws))
            else if ret = 0 then Inl ''timeout'' else Inl ''error'', s')"
    unfolding global_select_def Let_def c1(1) bind.bind_lunit prod.case cd c2(1) ss zs(1) ws(1) by simp
  moreover have "set (by_number (make_assoc (map Some ws))) = {x \<in> S. getfd m x \<in> wset'}"
    using make_assoc_correct(1)[of ws] ws(2) by simp
  ultimately show ?thesis
    using make_assoc_correct[of "D @ zs"] make_assoc_correct(2)[of ws] zs(2)
    by (intro exI[of _ s'] exI[of _ "make_assoc (map Some (D @ zs))"] exI[of _ "make_assoc (map Some ws)"] exI[of _ zs]) simp
qed

text \<open>
  Where \<open>select\<close> has no defined result: a descriptor that an \<open>fd_set\<close> cannot hold, or no answer of the kernel
  but interruptions.
\<close>

lemma select_undefined_iff:
  "global_select m reads writes limit now answers s = None \<longleftrightarrow>
   \<not> fd_fits m (elems reads) \<or> \<not> fd_fits m (elems writes) \<or> set answers \<subseteq> {Sel_fail E_INTR}"
proof -
  have n: "collect_fd m tab mx itab fds = None \<longleftrightarrow> \<not> fd_fits m (elems tab)" for tab mx itab fds
    using collect_loop_none[of m _ mx itab fds] by (auto simp: collect_fd_def elems_def fd_fits_def split: option.splits)
  show ?thesis
  proof (cases "collect_fd m reads SOCKET_INVALID Map.empty {}")
    case None
    then show ?thesis using n[of reads "SOCKET_INVALID" Map.empty "{}"] by (simp add: global_select_def)
  next
    case (Some c1)
    obtain mx itab fds where c1: "c1 = (mx, itab, fds)" by (cases c1)
    have r: "fd_fits m (elems reads)" using n[of reads "SOCKET_INVALID" Map.empty "{}"] Some by simp
    obtain D rset where d: "check_dirty m reads fds = (D, rset)" by fastforce
    show ?thesis
    proof (cases "collect_fd m writes mx itab {}")
      case None
      then show ?thesis using n[of writes mx itab "{}"] Some c1 d by (simp add: global_select_def)
    next
      case (Some c2)
      obtain mx2 itab2 wset where c2: "c2 = (mx2, itab2, wset)" by (cases c2)
      have "fd_fits m (elems writes)" using n[of writes mx itab "{}"] Some by simp
      moreover have "global_select m reads writes limit now answers s = None \<longleftrightarrow> set answers \<subseteq> {Sel_fail E_INTR}"
        unfolding global_select_def Let_def \<open>collect_fd m reads _ _ _ = _\<close> Some c1 c2 bind.bind_lunit prod.case d
        by (simp add: bind_eq_None_conv socket_select_none case_prod_unfold)
      ultimately show ?thesis using r by simp
    qed
  qed
qed

text \<open>
  When \<open>select\<close> fails while an object holds data, the sets that it left as they were are taken for the
  result, and every socket of both lists is reported.
\<close>

lemma select_failure_reports_all:
  assumes "fd_fits m (elems reads)" "fd_fits m (elems writes)" "one_owner m (set (elems reads) \<union> set (elems writes))"
    and "final_answer answers = Some (Sel_fail e)" and "x \<in> set (open_objs m (elems reads))" "dirty m x"
  shows "\<exists>s' rd wr. global_select m reads writes limit now answers s = Some (Inr (rd, wr), s') \<and>
    set (open_objs m (elems writes)) \<subseteq> set (by_number wr)"
proof -
  let ?D = "filter (dirty m) (open_objs m (elems reads))"
  let ?R = "getfd m ` set (open_objs m (elems reads)) - getfd m ` set ?D" and ?W = "getfd m ` set (open_objs m (elems writes))"
  have "outcome (Sel_fail e) ?R ?W = (- 1, ?R, ?W)" by (simp add: outcome_def)
  moreover have "?D \<noteq> []" using assms(5,6) by (auto simp: filter_empty_conv)
  ultimately show ?thesis
    using select_outcome[OF assms(1-4), of "- 1" ?R ?W limit now s] by (fastforce simp: in_open_objs)
qed

section \<open>The objects of \<open>Lua_Tcp\<close>\<close>

text \<open>The methods of the TCP objects of a program, which are known by their addresses.\<close>

definition tcp_methods :: "net \<Rightarrow> nat methods" where
  "tcp_methods N =
     \<lparr>call_getfd = (\<lambda>a. map_option (\<lambda>t. case meth_getfd t of Inr [LNumber v] \<Rightarrow> Some \<lfloor>v\<rfloor> | _ \<Rightarrow> None) (net_objs N a)),
      call_dirty = (\<lambda>a. map_option (\<lambda>t. case meth_dirty t of Inr [LBoolean b] \<Rightarrow> b | _ \<Rightarrow> False) (net_objs N a))\<rparr>"

definition open_on :: "net \<Rightarrow> int set \<Rightarrow> nat \<Rightarrow> bool" where
  "open_on N fds a = (case net_objs N a of None \<Rightarrow> False | Some t \<Rightarrow> fd_valid (tcp_sock t) \<and> tcp_fd t \<in> fds)"

definition holds_data :: "net \<Rightarrow> nat \<Rightarrow> bool" where
  "holds_data N a = (case net_objs N a of None \<Rightarrow> False | Some t \<Rightarrow> fd_valid (tcp_sock t) \<and> \<not> buffer_isempty (tcp_buf t))"

lemma tcp_getfd:
  "getfd (tcp_methods N) a =
     (case net_objs N a of None \<Rightarrow> SOCKET_INVALID | Some t \<Rightarrow> if fd_valid (tcp_sock t) then tcp_fd t else SOCKET_INVALID)"
  by (simp add: getfd_def tcp_methods_def meth_getfd_def split: option.splits)

lemma tcp_dirty:
  "dirty (tcp_methods N) a = (case net_objs N a of None \<Rightarrow> False | Some t \<Rightarrow> \<not> buffer_isempty (tcp_buf t))"
  by (simp add: dirty_def tcp_methods_def meth_dirty_def split: option.splits)

lemma tcp_select_hyps:
  assumes "net_reachable strerror N" and "net_open N \<subseteq> {0..<FD_SETSIZE}"
  shows "fd_fits (tcp_methods N) xs" and "one_owner (tcp_methods N) S"
    and "getfd (tcp_methods N) a \<noteq> SOCKET_INVALID \<longleftrightarrow> open_on N UNIV a"
proof -
  note ok = net_reachable_ok[OF assms(1)]
  have fd: "tcp_fd t \<in> {0..<FD_SETSIZE}" if "net_objs N a = Some t" "fd_valid (tcp_sock t)" for a t
    using net_okD(2)[OF ok that] assms(2) by blast
  show "fd_fits (tcp_methods N) xs"
    unfolding fd_fits_def using fd by (force simp: in_open_objs tcp_getfd split: option.splits if_splits)
  have "a = b" if "valid_at (net_objs N) a x" "valid_at (net_objs N) b x" for a b x
    using ok that unfolding net_ok_def fds_owned_def by blast
  then show "one_owner (tcp_methods N) S"
    unfolding one_owner_def tcp_getfd valid_at_def by (force split: option.splits if_splits)
  show "getfd (tcp_methods N) a \<noteq> SOCKET_INVALID \<longleftrightarrow> open_on N UNIV a"
    using fd[of a] by (auto simp: tcp_getfd open_on_def split: option.splits)
qed

lemma outcome_ready:
  assumes "finite rset" and "finite wset" and "outcome (Sel_ready R W) rset wset = (ret, rset', wset')"
  shows "rset' = rset \<inter> R" and "wset' = wset \<inter> W" and "0 < ret \<longleftrightarrow> rset' \<noteq> {} \<or> wset' \<noteq> {}" and "0 \<le> ret"
proof -
  from assms(3) have r: "ret = int (card (rset \<inter> R) + card (wset \<inter> W))" "rset' = rset \<inter> R" "wset' = wset \<inter> W"
    by (auto simp: outcome_def)
  then show "rset' = rset \<inter> R" "wset' = wset \<inter> W" "0 \<le> ret" by simp_all
  have "0 < card (rset \<inter> R) \<longleftrightarrow> rset \<inter> R \<noteq> {}" "0 < card (wset \<inter> W) \<longleftrightarrow> wset \<inter> W \<noteq> {}"
    using assms(1,2) by (simp_all add: card_gt_0_iff)
  then show "0 < ret \<longleftrightarrow> rset' \<noteq> {} \<or> wset' \<noteq> {}" unfolding r by linarith
qed

text \<open>The objects that are found for the descriptors of the sets.\<close>

lemma open_on_getfd: "open_on N X a \<longleftrightarrow> open_on N UNIV a \<and> getfd (tcp_methods N) a \<in> X"
  by (auto simp: open_on_def tcp_getfd split: option.splits)

lemma found_object:
  assumes "one_owner (tcp_methods N) S" and "\<And>a. getfd (tcp_methods N) a \<noteq> SOCKET_INVALID \<longleftrightarrow> open_on N UNIV a"
    and "x \<in> S" and "set xs \<subseteq> S"
  shows "getfd (tcp_methods N) x \<in> getfd (tcp_methods N) ` set (open_objs (tcp_methods N) xs) \<longleftrightarrow>
    x \<in> set xs \<and> open_on N UNIV x"
proof
  assume "getfd (tcp_methods N) x \<in> getfd (tcp_methods N) ` set (open_objs (tcp_methods N) xs)"
  then obtain y where y: "y \<in> set xs" "open_on N UNIV y" "getfd (tcp_methods N) y = getfd (tcp_methods N) x"
    by (auto simp: in_open_objs assms(2))
  have "y = x" using assms(1)[unfolded one_owner_def] assms(2)[of y] assms(3,4) y by blast
  with y show "x \<in> set xs \<and> open_on N UNIV x" by simp
next
  assume "x \<in> set xs \<and> open_on N UNIV x"
  then show "getfd (tcp_methods N) x \<in> getfd (tcp_methods N) ` set (open_objs (tcp_methods N) xs)"
    by (auto simp: in_open_objs assms(2))
qed

lemma dirty_objects:
  assumes "\<And>a. getfd (tcp_methods N) a \<noteq> SOCKET_INVALID \<longleftrightarrow> open_on N UNIV a"
  shows "filter (dirty (tcp_methods N)) (open_objs (tcp_methods N) xs) = filter (holds_data N) xs"
    and "open_objs (tcp_methods N) (filter (holds_data N) xs) = filter (holds_data N) xs"
proof -
  show "filter (dirty (tcp_methods N)) (open_objs (tcp_methods N) xs) = filter (holds_data N) xs"
    unfolding open_objs_def filter_filter
    by (rule filter_cong[OF refl]) (auto simp: assms open_on_def holds_data_def tcp_dirty split: option.splits)
  show "open_objs (tcp_methods N) (filter (holds_data N) xs) = filter (holds_data N) xs"
    unfolding open_objs_def filter_filter
    by (rule filter_cong[OF refl]) (auto simp: assms open_on_def holds_data_def split: option.splits)
qed

section \<open>Properties\<close>

text \<open>
  (C14) \<open>socket.select\<close> over the TCP objects of a program, in any state that calls of their methods reach, when
  the descriptors that are open are below 1024 and the kernel answers, after any number of
  interruptions, with sets of descriptors that are readable and writable. It reports for reading exactly
  the objects of the first list that hold data already, in their order and first, or whose descriptor is
  readable, and for writing exactly those of the second list whose descriptor is writable, with their
  numbers; closed objects are never reported. It reports a timeout exactly when there are none.
\<close>

theorem tcp_select_correct:
  assumes "net_reachable strerror N" and "net_open N \<subseteq> {0..<FD_SETSIZE}"
    and "final_answer answers = Some (Sel_ready R W)"
  shows "let rs = {a \<in> set (elems reads). holds_data N a \<or> open_on N R a}; ws = {a \<in> set (elems writes). open_on N W a}
    in if rs = {} \<and> ws = {}
       then \<exists>s'. global_select (tcp_methods N) reads writes limit now answers s = Some (Inl ''timeout'', s')
       else \<exists>s' rd wr. global_select (tcp_methods N) reads writes limit now answers s = Some (Inr (rd, wr), s') \<and>
         numbered rd \<and> numbered wr \<and> set (by_number rd) = rs \<and> set (by_number wr) = ws \<and>
         prefix (filter (holds_data N) (elems reads)) (by_number rd)"
proof -
  let ?m = "tcp_methods N" and ?S = "set (elems reads) \<union> set (elems writes)" and ?D = "filter (holds_data N) (elems reads)"
  note h = tcp_select_hyps[OF assms(1,2)]
  note D = dirty_objects[OF h(3)] and found = found_object[OF h(2) h(3), where S = ?S]
  let ?R = "getfd ?m ` set (open_objs ?m (elems reads)) - getfd ?m ` set ?D" and ?W = "getfd ?m ` set (open_objs ?m (elems writes))"
  obtain ret rset wset where out: "outcome (Sel_ready R W) ?R ?W = (ret, rset, wset)" by (cases "outcome (Sel_ready R W) ?R ?W") auto
  have rset: "rset = ?R \<inter> R" and wset: "wset = ?W \<inter> W" and ret: "0 < ret \<longleftrightarrow> rset \<noteq> {} \<or> wset \<noteq> {}" "0 \<le> ret"
    using outcome_ready[OF _ _ out] by simp_all
  have "getfd ?m x \<in> getfd ?m ` set ?D \<longleftrightarrow> x \<in> set ?D" if "x \<in> ?S" for x
  proof -
    have "set ?D \<subseteq> ?S" by auto
    moreover have "x \<in> set ?D \<Longrightarrow> open_on N UNIV x" by (auto simp: holds_data_def open_on_def split: option.splits)
    ultimately show ?thesis using found[OF that, of ?D] unfolding D(2) by blast
  qed
  then have zs: "{x \<in> ?S. getfd ?m x \<in> rset} = {a \<in> set (elems reads). \<not> holds_data N a \<and> open_on N R a}"
    using found[of _ "elems reads"] open_on_getfd[of N R] unfolding rset by auto
  have ws: "{x \<in> ?S. getfd ?m x \<in> wset} = {a \<in> set (elems writes). open_on N W a}"
    using found[of _ "elems writes"] open_on_getfd[of N W] unfolding wset by auto
  have rs: "{a \<in> set (elems reads). holds_data N a \<or> open_on N R a} = set ?D \<union> {x \<in> ?S. getfd ?m x \<in> rset}"
    unfolding zs by auto
  have "rset \<subseteq> getfd ?m ` {x \<in> ?S. getfd ?m x \<in> rset}" "wset \<subseteq> getfd ?m ` {x \<in> ?S. getfd ?m x \<in> wset}"
    by (auto simp: rset wset in_open_objs)
  then have iff: "ret > 0 \<or> ?D \<noteq> [] \<longleftrightarrow>
      \<not> ({a \<in> set (elems reads). holds_data N a \<or> open_on N R a} = {} \<and> {a \<in> set (elems writes). open_on N W a} = {})"
    unfolding rs ws[symmetric] ret(1) by (auto simp: filter_empty_conv)
  from select_outcome[OF h(1) h(1) h(2) assms(3), unfolded D(1), OF out, of limit now s] obtain s' rd wr z where
    g: "global_select ?m reads writes limit now answers s =
        Some (if ret > 0 \<or> ?D \<noteq> [] then Inr (rd, wr) else if ret = 0 then Inl ''timeout'' else Inl ''error'', s')"
      "numbered rd" "numbered wr" "by_number rd = ?D @ z"
      "set z = {x \<in> ?S. getfd ?m x \<in> rset}" "set (by_number wr) = {x \<in> ?S. getfd ?m x \<in> wset}"
    by blast
  show ?thesis
    unfolding Let_def using g(1)[unfolded iff] g(2-6) ret iff unfolding rs ws[symmetric] by (auto simp: prefix_def)
qed

theorem tcp_select_correct_witness:
  "\<exists>s' rd wr. global_select (tcp_methods \<lparr>net_objs = [2 \<mapsto> new_tcp 3], net_open = {3}, net_others = Map.empty\<rparr>)
      (Some [2]) (Some [2]) None 0 [Sel_fail E_INTR, Sel_ready {3} {5}] new_sock = Some (Inr (rd, wr), s') \<and>
     set (by_number rd) = {2} \<and> set (by_number wr) = {}"
proof -
  let ?N = "\<lparr>net_objs = [2 \<mapsto> new_tcp 3], net_open = {3}, net_others = Map.empty\<rparr>"
  have "open_on ?N {3} 2" "\<not> open_on ?N {5} 2" using example_tcp[of 3] by (simp_all add: open_on_def)
  then have sets: "{a \<in> set (elems (Some [2])). holds_data ?N a \<or> open_on ?N {3} a} = {2}"
    "{a \<in> set (elems (Some [2])). open_on ?N {5} a} = {}"
    by (auto simp: elems_def)
  have "net_open ?N \<subseteq> {0..<FD_SETSIZE}" by simp
  moreover have "final_answer [Sel_fail E_INTR, Sel_ready {3} {5}] = Some (Sel_ready {3} {5})" by (simp add: final_answer_def)
  ultimately have "\<exists>s' rd wr. global_select (tcp_methods ?N) (Some [2]) (Some [2]) None 0
      [Sel_fail E_INTR, Sel_ready {3} {5}] new_sock = Some (Inr (rd, wr), s') \<and> numbered rd \<and> numbered wr \<and>
      set (by_number rd) = {2} \<and> set (by_number wr) = {} \<and> prefix (filter (holds_data ?N) (elems (Some [2]))) (by_number rd)"
    using tcp_select_correct[OF example_net, of "[Sel_fail E_INTR, Sel_ready {3} {5}]" "{3}" "{5}" "Some [2]" "Some [2]" None 0 new_sock]
    unfolding Let_def sets by simp
  then show ?thesis by blast
qed

end
