(* ===== verification/Sigar_Cache.thy ===== *)
theory Sigar_Cache
  imports C_Memory "HOL-Library.Multiset"
begin

text \<open>
  \<open>sigar_cache.c\<close>: the hash table from numbers to pointers in which \<open>sigar\<close> remembers what it
  knows of processes, ports and file systems. The table, the array of chains and every entry are
  blocks of memory; the pointer the code moves along a chain, which names either a place of the
  array or the \<open>next\<close> field of an entry, is a \<open>slot\<close>.

  The table is shown to implement a map: looking a key up returns the entry of that key, asking
  for an absent key adds one entry and leaves every other entry at its address even when the
  table is rehashed, and destroying the table releases each of its blocks exactly once.
\<close>

section \<open>Operations\<close>

definition ptr_at :: "heap \<Rightarrow> addr \<Rightarrow> nat \<Rightarrow> addr option" where
  "ptr_at h a i = do { ps \<leftarrow> get_ptrs h a; if i < length ps then Some (ps ! i) else None }"

definition put_ptr :: "addr \<Rightarrow> nat \<Rightarrow> addr \<Rightarrow> heap \<Rightarrow> heap option" where
  "put_ptr a i p h = do {
     ps \<leftarrow> get_ptrs h a;
     if i < length ps then store a (Ptrs_cell (ps[i := p])) h else None
   }"

datatype slot = Bucket nat | Next addr

definition read_slot :: "sigar_cache_t \<Rightarrow> slot \<Rightarrow> heap \<Rightarrow> addr option" where
  "read_slot tb sl h =
     (case sl of Bucket i \<Rightarrow> ptr_at h (tab_entries tb) i
      | Next e \<Rightarrow> map_option ent_next (get_ent h e))"

definition write_slot :: "sigar_cache_t \<Rightarrow> slot \<Rightarrow> addr \<Rightarrow> heap \<Rightarrow> heap option" where
  "write_slot tb sl p h =
     (case sl of Bucket i \<Rightarrow> put_ptr (tab_entries tb) i p h
      | Next e \<Rightarrow> do { c \<leftarrow> get_ent h e; store e (Ent_cell (c\<lparr>ent_next := p\<rparr>)) h })"

text \<open>A size below zero asks for an impossible amount of memory.\<close>

definition sigar_cache_new :: "int \<Rightarrow> heap \<Rightarrow> (addr \<times> heap) option" where
  "sigar_cache_new sz h =
     (if sz < 0 then None
      else do {
        let (t, h) = malloc h;
        (es, h) \<leftarrow> new (Ptrs_cell (replicate (nat sz) NULL)) h;
        h \<leftarrow> store t (Table_cell \<lparr>tab_entries = es, tab_count = 0, tab_size = nat sz\<rparr>) h;
        Some (t, h)
      })"

text \<open>
  The two loops of \<open>sigar_cache_rehash\<close>. The index of the outer one is an \<open>int\<close>: counting it up
  from \<open>2\<^sup>3\<^sup>1 - 1\<close> has no defined result.
\<close>

partial_function (option) rehash_chain :: "addr \<Rightarrow> nat \<Rightarrow> addr \<Rightarrow> heap \<Rightarrow> heap option" where
  "rehash_chain news n e h =
     (if e = NULL then Some h
      else do {
        c \<leftarrow> get_ent h e;
        p \<leftarrow> ptr_at h news (ent_id c mod n);
        h \<leftarrow> store e (Ent_cell (c\<lparr>ent_next := p\<rparr>)) h;
        h \<leftarrow> put_ptr news (ent_id c mod n) e h;
        rehash_chain news n (ent_next c) h
      })"

partial_function (option) rehash_loop ::
  "addr \<Rightarrow> nat \<Rightarrow> addr \<Rightarrow> nat \<Rightarrow> nat \<Rightarrow> heap \<Rightarrow> heap option" where
  "rehash_loop news n old sz i h =
     (if i < sz then do {
        e \<leftarrow> ptr_at h old i;
        h \<leftarrow> rehash_chain news n e h;
        if i + 1 < 2 ^ 31 then rehash_loop news n old sz (i + 1) h else None
      } else Some h)"

definition sigar_cache_rehash :: "addr \<Rightarrow> heap \<Rightarrow> heap option" where
  "sigar_cache_rehash t h = do {
     tb \<leftarrow> get_table h t;
     let n = (tab_size tb * 2 + 1) mod 2 ^ 32;
     (news, h) \<leftarrow> new (Ptrs_cell (replicate n NULL)) h;
     h \<leftarrow> rehash_loop news n (tab_entries tb) (tab_size tb) 0 h;
     h \<leftarrow> free (tab_entries tb) h;
     store t (Table_cell (tb\<lparr>tab_entries := news, tab_size := n\<rparr>)) h
   }"

text \<open>\<open>SIGAR_CACHE_IX\<close>; the remainder by zero has no defined result.\<close>

definition SIGAR_CACHE_IX :: "sigar_cache_t \<Rightarrow> nat \<Rightarrow> slot option" where
  "SIGAR_CACHE_IX tb k = (if tab_size tb = 0 then None else Some (Bucket (k mod tab_size tb)))"

text \<open>
  The search of \<open>sigar_cache_find\<close> and \<open>sigar_cache_get\<close>: the entry it stops at, or the null
  pointer, and where the pointer to that entry is stored.
\<close>

partial_function (option) cache_scan ::
  "nat \<Rightarrow> sigar_cache_t \<Rightarrow> heap \<Rightarrow> slot \<Rightarrow> (addr \<times> slot) option" where
  "cache_scan key tb h ptr = do {
     e \<leftarrow> read_slot tb ptr h;
     if e = NULL then Some (NULL, ptr)
     else do {
       c \<leftarrow> get_ent h e;
       if ent_id c = key then Some (e, ptr) else cache_scan key tb h (Next e)
     }
   }"

partial_function (option) cache_end :: "sigar_cache_t \<Rightarrow> heap \<Rightarrow> slot \<Rightarrow> slot option" where
  "cache_end tb h ptr = do {
     e \<leftarrow> read_slot tb ptr h;
     if e = NULL then Some ptr else cache_end tb h (Next e)
   }"

definition sigar_cache_find :: "addr \<Rightarrow> nat \<Rightarrow> heap \<Rightarrow> addr option" where
  "sigar_cache_find t key h = do {
     tb \<leftarrow> get_table h t;
     ptr \<leftarrow> SIGAR_CACHE_IX tb key;
     (e, ptr) \<leftarrow> cache_scan key tb h ptr;
     Some e
   }"

text \<open>The slot a new entry is stored in: \<open>count\<close> is counted up, and the table may grow.\<close>

definition cache_room :: "addr \<Rightarrow> nat \<Rightarrow> slot \<Rightarrow> heap \<Rightarrow> (slot \<times> heap) option" where
  "cache_room t key ptr h = do {
     tb \<leftarrow> get_table h t;
     h \<leftarrow> store t (Table_cell (tb\<lparr>tab_count := (tab_count tb + 1) mod 2 ^ 32\<rparr>)) h;
     if tab_count tb > tab_size tb then do {
       h \<leftarrow> sigar_cache_rehash t h;
       tb \<leftarrow> get_table h t;
       ptr \<leftarrow> SIGAR_CACHE_IX tb key;
       ptr \<leftarrow> cache_end tb h ptr;
       Some (ptr, h)
     } else Some (ptr, h)
   }"

definition sigar_cache_get :: "addr \<Rightarrow> nat \<Rightarrow> heap \<Rightarrow> (addr \<times> heap) option" where
  "sigar_cache_get t key h = do {
     tb \<leftarrow> get_table h t;
     ptr \<leftarrow> SIGAR_CACHE_IX tb key;
     (e, ptr) \<leftarrow> cache_scan key tb h ptr;
     if e \<noteq> NULL then Some (e, h)
     else do {
       (ptr, h) \<leftarrow> cache_room t key ptr h;
       tb \<leftarrow> get_table h t;
       (e, h) \<leftarrow> new (Ent_cell \<lparr>ent_next = NULL, ent_id = key, ent_value = NULL\<rparr>) h;
       h \<leftarrow> write_slot tb ptr e h;
       Some (e, h)
     }
   }"

partial_function (option) destroy_chain :: "addr \<Rightarrow> heap \<Rightarrow> heap option" where
  "destroy_chain e h =
     (if e = NULL then Some h
      else do {
        c \<leftarrow> get_ent h e;
        h \<leftarrow> free (ent_value c) h;
        h \<leftarrow> free e h;
        destroy_chain (ent_next c) h
      })"

partial_function (option) destroy_loop :: "addr \<Rightarrow> nat \<Rightarrow> nat \<Rightarrow> heap \<Rightarrow> heap option" where
  "destroy_loop es sz i h =
     (if i < sz then do {
        e \<leftarrow> ptr_at h es i;
        h \<leftarrow> destroy_chain e h;
        if i + 1 < 2 ^ 31 then destroy_loop es sz (i + 1) h else None
      } else Some h)"

definition sigar_cache_destroy :: "addr \<Rightarrow> heap \<Rightarrow> heap option" where
  "sigar_cache_destroy t h = do {
     tb \<leftarrow> get_table h t;
     h \<leftarrow> destroy_loop (tab_entries tb) (tab_size tb) 0 h;
     h \<leftarrow> free (tab_entries tb) h;
     free t h
   }"

section \<open>The table in memory\<close>

lemma heap_wf_dom:
  "heap_wf h \<Longrightarrow> dom (cells h') = dom (cells h) \<Longrightarrow> brk h' = brk h \<Longrightarrow> heap_wf h'"
  by (simp add: heap_wf_def)

text \<open>An entry owns the block its value points to, if any.\<close>

definition ent_node :: "(nat \<times> addr) reader" where
  "ent_node h a =
     (case get_ent h a of None \<Rightarrow> None | Some c \<Rightarrow>
      if ent_value c = NULL then Some ((ent_id c, NULL), [], ent_next c)
      else if cells h (ent_value c) = None then None
      else Some ((ent_id c, ent_value c), [ent_value c], ent_next c))"

lemma ent_node_Some:
  "ent_node h a = Some (kv, bs, q) \<longleftrightarrow>
     cells h a = Some (Ent_cell \<lparr>ent_next = q, ent_id = fst kv, ent_value = snd kv\<rparr>)
     \<and> bs = (if snd kv = NULL then [] else [snd kv]) \<and> set bs \<subseteq> dom (cells h)"
proof (cases "get_ent h a")
  case None
  then have "cells h a \<noteq> Some (Ent_cell c)" for c
    using sigar_get_iff(2)[of h a c] by auto
  with None show ?thesis by (simp add: ent_node_def)
next
  case (Some c)
  then have "cells h a = Some (Ent_cell c)" by (simp add: sigar_get_iff)
  with Some show ?thesis by (cases c; cases kv) (auto simp: ent_node_def)
qed

interpretation ent: heap_list ent_node
  by unfold_locales (auto simp: ent_node_Some same_on_def split: if_splits)

abbreviation ekey :: "(nat \<times> addr) entry \<Rightarrow> nat" where
  "ekey e \<equiv> fst (entry_value e)"

abbreviation ent_chain :: "heap \<Rightarrow> addr \<Rightarrow> (nat \<times> addr) entry list \<Rightarrow> bool" where
  "ent_chain h \<equiv> chain ent_node h"

lemma ent_chain_Cons:
  "ent_chain h p (e # es) \<longleftrightarrow>
     p \<noteq> NULL \<and> p = fst e \<and>
     (\<exists>q. cells h p = Some (Ent_cell \<lparr>ent_next = q, ent_id = ekey e, ent_value = snd (entry_value e)\<rparr>)
       \<and> snd (snd e) = (if snd (entry_value e) = NULL then [] else [snd (entry_value e)])
       \<and> set (snd (snd e)) \<subseteq> dom (cells h) \<and> ent_chain h q es)"
  by (auto simp: ent_node_Some)

declare chain.simps(2) [simp del]

lemma set_owned: "set (owned es) = (\<Union>e \<in> set es. set (entry_owned e))"
  by (simp add: owned_def)

lemma fst_in_owned: "e \<in> set es \<Longrightarrow> fst e \<in> set (owned es)"
  using entry_in_owned[of e es] by (auto simp: entry_owned_def)

text \<open>Every entry is in the chain its key is hashed to.\<close>

definition placed :: "(nat \<times> addr) entry list list \<Rightarrow> bool" where
  "placed bs \<longleftrightarrow> (\<forall>i < length bs. \<forall>e \<in> set (bs ! i). ekey e mod length bs = i)"

text \<open>What the table at \<open>t\<close> holds: its header, its array and the chains of its entries.\<close>

definition cache_rep ::
  "heap \<Rightarrow> addr \<Rightarrow> sigar_cache_t \<Rightarrow> addr list \<Rightarrow> (nat \<times> addr) entry list list \<Rightarrow> bool" where
  "cache_rep h t tb ps bs \<longleftrightarrow>
     cells h t = Some (Table_cell tb) \<and> cells h (tab_entries tb) = Some (Ptrs_cell ps)
     \<and> tab_size tb = length ps \<and> ps \<noteq> [] \<and> length ps < 2 ^ 31 \<and> tab_count tb = length (concat bs)
     \<and> list_all2 (ent_chain h) ps bs \<and> placed bs \<and> distinct (map ekey (concat bs))
     \<and> distinct (t # tab_entries tb # owned (concat bs))"

lemma cache_repD:
  assumes "cache_rep h t tb ps bs"
  shows "cells h t = Some (Table_cell tb)" "cells h (tab_entries tb) = Some (Ptrs_cell ps)"
    "tab_size tb = length ps" "ps \<noteq> []" "length ps < 2 ^ 31" "tab_count tb = length (concat bs)"
    "list_all2 (ent_chain h) ps bs" "placed bs" "distinct (map ekey (concat bs))"
    "distinct (t # tab_entries tb # owned (concat bs))"
  using assms unfolding cache_rep_def by blast+

subsection \<open>Searching a chain\<close>

text \<open>Where the pointer stands after a whole chain.\<close>

definition end_slot :: "slot \<Rightarrow> (nat \<times> addr) entry list \<Rightarrow> slot" where
  "end_slot sl es = (if es = [] then sl else Next (fst (last es)))"

lemma end_slot_Cons: "end_slot sl (e # es) = end_slot (Next (fst e)) es"
  by (simp add: end_slot_def)

lemma read_slot_Next:
  "ent_chain h p (e # es) \<Longrightarrow> \<exists>q. read_slot tb (Next p) h = Some q \<and> ent_chain h q es"
  by (auto simp: ent_chain_Cons read_slot_def get_ent_def)

lemma cache_end_chain:
  "ent_chain h p es \<Longrightarrow> read_slot tb sl h = Some p \<Longrightarrow> cache_end tb h sl = Some (end_slot sl es)"
proof (induction es arbitrary: p sl)
  case Nil
  then show ?case by (subst cache_end.simps) (simp add: end_slot_def)
next
  case (Cons e es)
  from read_slot_Next[OF Cons.prems(1)] obtain q
    where "read_slot tb (Next p) h = Some q" "ent_chain h q es" by blast
  moreover have "p = fst e" "p \<noteq> NULL" using Cons.prems(1) by (auto simp: ent_chain_Cons)
  ultimately show ?case
    using Cons.IH Cons.prems(2) by (subst cache_end.simps) (simp add: end_slot_Cons)
qed

lemma cache_scan_miss:
  "ent_chain h p es \<Longrightarrow> read_slot tb sl h = Some p \<Longrightarrow> key \<notin> ekey ` set es \<Longrightarrow>
   cache_scan key tb h sl = Some (NULL, end_slot sl es)"
proof (induction es arbitrary: p sl)
  case Nil
  then show ?case by (subst cache_scan.simps) (simp add: end_slot_def)
next
  case (Cons e es)
  from read_slot_Next[OF Cons.prems(1)] obtain q
    where "read_slot tb (Next p) h = Some q" "ent_chain h q es" by blast
  moreover obtain c where "p = fst e" "p \<noteq> NULL" "get_ent h p = Some c" "ent_id c = ekey e"
    using Cons.prems(1) by (auto simp: ent_chain_Cons get_ent_def)
  ultimately show ?case
    using Cons.IH Cons.prems(2,3) by (subst cache_scan.simps) (simp add: end_slot_Cons)
qed

lemma cache_scan_hit:
  "ent_chain h p es \<Longrightarrow> read_slot tb sl h = Some p \<Longrightarrow> distinct (map ekey es) \<Longrightarrow> e \<in> set es \<Longrightarrow>
   \<exists>sl'. cache_scan (ekey e) tb h sl = Some (fst e, sl')"
proof (induction es arbitrary: p sl)
  case (Cons e' es)
  from read_slot_Next[OF Cons.prems(1)] obtain q
    where q: "read_slot tb (Next p) h = Some q" "ent_chain h q es" by blast
  obtain c where c: "p = fst e'" "p \<noteq> NULL" "get_ent h p = Some c" "ent_id c = ekey e'"
    using Cons.prems(1) by (auto simp: ent_chain_Cons get_ent_def)
  show ?case
  proof (cases "e = e'")
    case True
    then show ?thesis using c Cons.prems(2) by (subst cache_scan.simps) simp
  next
    case False
    then have "e \<in> set es" and "ekey e' \<noteq> ekey e" using Cons.prems(3,4) by force+
    then show ?thesis
      using Cons.IH[OF q(2,1)] Cons.prems(2,3) c by (subst cache_scan.simps) simp
  qed
qed simp

subsection \<open>Appending an entry\<close>

text \<open>
  Storing a new entry through the last \<open>next\<close> field of a chain appends it. Only the block of the
  last entry changes.
\<close>

lemma ent_chain_snoc:
  assumes "ent_chain h p es" and "es \<noteq> []" and "distinct (owned es)"
    and "ent_chain h a [e]" and "a \<notin> set (owned es)" and "snd (snd e) = []"
  shows "\<exists>h'. write_slot tb (Next (fst (last es))) a h = Some h' \<and> ent_chain h' p (es @ [e])
    \<and> same_on (- {fst (last es)}) h h' \<and> dom (cells h') = dom (cells h) \<and> brk h' = brk h"
  using assms
proof (induction es arbitrary: p)
  case (Cons e' es)
  from Cons.prems(1) obtain q where p: "p \<noteq> NULL" "p = fst e'"
    and c: "cells h p = Some (Ent_cell \<lparr>ent_next = q, ent_id = ekey e', ent_value = snd (entry_value e')\<rparr>)"
    and o: "snd (snd e') = (if snd (entry_value e') = NULL then [] else [snd (entry_value e')])"
    and d: "set (snd (snd e')) \<subseteq> dom (cells h)" and q: "ent_chain h q es"
    by (auto simp: ent_chain_Cons)
  show ?case
  proof (cases "es = []")
    case True
    let ?h = "h\<lparr>cells := (cells h)(p \<mapsto> Ent_cell \<lparr>ent_next = a, ent_id = ekey e',
        ent_value = snd (entry_value e')\<rparr>)\<rparr>"
    have w: "write_slot tb (Next p) a h = Some ?h"
      using c by (simp add: write_slot_def get_ent_def store_def)
    have "ent_chain ?h a [e]"
      using Cons.prems(4,5,6) p by (intro ent.chain_frame[OF Cons.prems(4)])
        (auto simp: same_on_def entry_owned_def ent_chain_Cons)
    then have "ent_chain ?h p (e' # [e])"
      using p o d by (subst ent_chain_Cons) auto
    moreover have "dom (cells ?h) = dom (cells h)" using c by auto
    ultimately show ?thesis using w True p by (auto simp: same_on_def)
  next
    case False
    then obtain h' where h': "write_slot tb (Next (fst (last es))) a h = Some h'"
      "ent_chain h' q (es @ [e])" "same_on (- {fst (last es)}) h h'"
      "dom (cells h') = dom (cells h)" "brk h' = brk h"
      using Cons.IH[OF q] Cons.prems(3,4,5,6) by auto
    have "fst (last es) \<in> set (owned es)" using False by (simp add: fst_in_owned)
    then have ne: "fst (last es) \<noteq> p"
      using Cons.prems(3) p by (auto simp: entry_owned_def)
    have "ent_chain h' p (e' # es @ [e])"
      unfolding ent_chain_Cons using p o d c h' ne by (auto simp: same_on_def)
    then show ?thesis using h' False by auto
  qed
qed simp

subsection \<open>Rehashing\<close>

text \<open>One entry moved to the front of the chain its key is hashed to.\<close>

definition rehash_one ::
  "(nat \<times> addr) entry list list \<Rightarrow> (nat \<times> addr) entry \<Rightarrow> (nat \<times> addr) entry list list" where
  "rehash_one bs e = bs[ekey e mod length bs := e # bs ! (ekey e mod length bs)]"

lemma length_rehash_one [simp]: "length (rehash_one bs e) = length bs"
  by (simp add: rehash_one_def)

lemma length_rehash [simp]: "length (foldl rehash_one bs es) = length bs"
  by (induction es arbitrary: bs) auto

lemma mset_concat_push:
  "i < length bs \<Longrightarrow> mset (concat (bs[i := e # bs ! i])) = add_mset e (mset (concat bs))"
proof (induction bs arbitrary: i)
  case (Cons b bs)
  then show ?case by (cases i) auto
qed simp

lemma mset_concat_snoc:
  "i < length bs \<Longrightarrow> mset (concat (bs[i := bs ! i @ [e]])) = add_mset e (mset (concat bs))"
proof (induction bs arbitrary: i)
  case (Cons b bs)
  then show ?case by (cases i) auto
qed simp

lemma mset_rehash:
  "bs \<noteq> [] \<Longrightarrow> mset (concat (foldl rehash_one bs es)) = mset (concat bs) + mset es"
proof (induction es arbitrary: bs)
  case (Cons e es)
  have "rehash_one bs e \<noteq> []" using Cons.prems by (simp add: rehash_one_def)
  then show ?case
    using Cons.IH[of "rehash_one bs e"] Cons.prems
    by (simp add: rehash_one_def mset_concat_push)
qed simp

lemma placed_update:
  assumes "placed bs" and "i < length bs"
    and "\<And>e. e \<in> set b \<Longrightarrow> e \<in> set (bs ! i) \<or> ekey e mod length bs = i"
  shows "placed (bs[i := b])"
  unfolding placed_def
proof (intro allI impI ballI)
  fix j e assume "j < length (bs[i := b])" and "e \<in> set (bs[i := b] ! j)"
  then show "ekey e mod length (bs[i := b]) = j"
    using assms(1,2) assms(3)[of e] unfolding placed_def by (cases "j = i") force+
qed

lemma placed_rehash: "bs \<noteq> [] \<Longrightarrow> placed bs \<Longrightarrow> placed (foldl rehash_one bs es)"
proof (induction es arbitrary: bs)
  case (Cons e es)
  have "placed (rehash_one bs e)"
    using Cons.prems unfolding rehash_one_def by (intro placed_update) auto
  moreover have "rehash_one bs e \<noteq> []" using Cons.prems by (simp add: rehash_one_def)
  ultimately show ?case using Cons.IH by simp
qed simp

lemma mset_owned: "mset (owned es) = \<Sum>\<^sub># (image_mset (\<lambda>e. mset (entry_owned e)) (mset es))"
  by (induction es) auto

lemma owned_cong:
  assumes "mset es = mset fs"
  shows "set (owned es) = set (owned fs)" and "distinct (owned es) \<longleftrightarrow> distinct (owned fs)"
proof -
  have "mset (owned es) = mset (owned fs)" using assms by (simp add: mset_owned)
  then show "set (owned es) = set (owned fs)" and "distinct (owned es) \<longleftrightarrow> distinct (owned fs)"
    by (auto dest: mset_eq_setD mset_eq_imp_distinct_iff)
qed

lemma owned_concat_nth: "i < length bs \<Longrightarrow> set (owned (bs ! i)) \<subseteq> set (owned (concat bs))"
proof -
  assume "i < length bs"
  then have "bs ! i \<in> set bs" by (rule nth_mem)
  then have "set (bs ! i) \<subseteq> set (concat bs)" unfolding set_concat by blast
  then show ?thesis unfolding set_owned by blast
qed

lemma chains_live: "list_all2 (ent_chain h) ps bs \<Longrightarrow> set (owned (concat bs)) \<subseteq> dom (cells h)"
proof (induction rule: list_all2_induct)
  case (Cons p ps b bs)
  then show ?case using ent.chain_live[of h p b] by simp
qed simp

text \<open>Chains whose blocks do not change stay.\<close>

lemma chains_frame:
  assumes "list_all2 (ent_chain h) ps bs" and "same_on (set (owned (concat bs))) h h'"
  shows "list_all2 (ent_chain h') ps bs"
  unfolding list_all2_conv_all_nth
proof (intro conjI allI impI)
  show "length ps = length bs" using assms(1) by (rule list_all2_lengthD)
  fix i assume i: "i < length ps"
  then have "ent_chain h (ps ! i) (bs ! i)" and "i < length bs"
    using assms(1) by (auto simp: list_all2_conv_all_nth)
  then show "ent_chain h' (ps ! i) (bs ! i)"
    using assms(2) owned_concat_nth[of i bs] by (auto intro: ent.chain_frame same_on_mono)
qed

lemma rehash_chain_correct:
  assumes "cells h news = Some (Ptrs_cell ps)" and "ps \<noteq> []"
    and "list_all2 (ent_chain h) ps bs" and "ent_chain h p es"
    and "distinct (news # owned (concat bs) @ owned es)"
  shows "\<exists>h' ps'. rehash_chain news (length ps) p h = Some h'
    \<and> cells h' news = Some (Ptrs_cell ps') \<and> length ps' = length ps
    \<and> list_all2 (ent_chain h') ps' (foldl rehash_one bs es)
    \<and> same_on (- insert news (fst ` set es)) h h' \<and> dom (cells h') = dom (cells h) \<and> brk h' = brk h"
  using assms
proof (induction es arbitrary: p h ps bs)
  case Nil
  then show ?case by (subst rehash_chain.simps) simp
next
  case (Cons e es)
  let ?i = "ekey e mod length ps"
  have len: "length bs = length ps" and i: "?i < length ps"
    using Cons.prems(2,3) by (auto dest: list_all2_lengthD)
  from Cons.prems(4) obtain q where p: "p \<noteq> NULL" "p = fst e"
    and c: "cells h p = Some (Ent_cell \<lparr>ent_next = q, ent_id = ekey e, ent_value = snd (entry_value e)\<rparr>)"
    and ow: "snd (snd e) = (if snd (entry_value e) = NULL then [] else [snd (entry_value e)])"
    and d: "set (snd (snd e)) \<subseteq> dom (cells h)" and q: "ent_chain h q es"
    by (auto simp: ent_chain_Cons)
  have dist: "p \<noteq> news" "p \<notin> set (owned (concat bs))" "p \<notin> set (owned es)"
    "news \<notin> set (owned (concat bs))" "news \<notin> set (owned es)"
    using Cons.prems(5) p by (auto simp: entry_owned_def)
  define h1 where "h1 = h\<lparr>cells := (cells h)(p \<mapsto> Ent_cell \<lparr>ent_next = ps ! ?i, ent_id = ekey e,
      ent_value = snd (entry_value e)\<rparr>, news \<mapsto> Ptrs_cell (ps[?i := p]))\<rparr>"
  have same: "same_on (- {news, p}) h h1" and dom1: "dom (cells h1) = dom (cells h)"
    and brk1: "brk h1 = brk h" and news1: "cells h1 news = Some (Ptrs_cell (ps[?i := p]))"
    using c Cons.prems(1) by (auto simp: same_on_def h1_def)
  have step: "rehash_chain news (length ps) p h = rehash_chain news (length ps) q h1"
    using p c Cons.prems(1) i dist
    by (subst rehash_chain.simps)
      (auto simp: get_ent_def ptr_at_def get_ptrs_def put_ptr_def store_def h1_def)
  have bs1: "list_all2 (ent_chain h1) ps bs"
    using Cons.prems(3) dist same by (elim chains_frame) (auto intro: same_on_mono)
  have q1: "ent_chain h1 q es"
    using q dist same by (elim ent.chain_frame) (auto intro: same_on_mono)
  have "ent_chain h1 p (e # bs ! ?i)"
    unfolding ent_chain_Cons
    using p d dom1 ow dist i len bs1 by (auto simp: h1_def list_all2_conv_all_nth)
  then have bs2: "list_all2 (ent_chain h1) (ps[?i := p]) (rehash_one bs e)"
    using bs1 by (simp add: rehash_one_def len list_all2_update_cong)
  have perm: "mset (concat (rehash_one bs e)) = add_mset e (mset (concat bs))"
    using i len by (simp add: rehash_one_def mset_concat_push)
  then have perm': "mset (concat (rehash_one bs e)) = mset (e # concat bs)" by simp
  have "distinct (news # owned (concat (rehash_one bs e)) @ owned es)"
    using Cons.prems(5) owned_cong[OF perm'] by auto
  from Cons.IH[OF news1 _ bs2 q1 this] Cons.prems(2) obtain h' ps' where
    h': "rehash_chain news (length ps) q h1 = Some h'" "cells h' news = Some (Ptrs_cell ps')"
      "length ps' = length ps" "list_all2 (ent_chain h') ps' (foldl rehash_one (rehash_one bs e) es)"
      "same_on (- insert news (fst ` set es)) h1 h'" "dom (cells h') = dom (cells h1)"
      "brk h' = brk h1" by auto
  have "same_on (- insert news (fst ` set (e # es))) h h'"
    using same h'(5) p by (auto simp: same_on_def)
  then show ?case using step h' dom1 brk1 by auto
qed

lemma rehash_loop_correct:
  assumes "cells h news = Some (Ptrs_cell ps)" and "ps \<noteq> []"
    and "list_all2 (ent_chain h) ps bs" and "cells h old = Some (Ptrs_cell qs)"
    and "list_all2 (ent_chain h) (drop i qs) cs" and "i \<le> length qs" and "length qs < 2 ^ 31"
    and "distinct (news # old # owned (concat bs) @ owned (concat cs))"
  shows "\<exists>h' ps'. rehash_loop news (length ps) old (length qs) i h = Some h'
    \<and> cells h' news = Some (Ptrs_cell ps') \<and> length ps' = length ps
    \<and> list_all2 (ent_chain h') ps' (foldl rehash_one bs (concat cs))
    \<and> same_on (- insert news (fst ` set (concat cs))) h h'
    \<and> dom (cells h') = dom (cells h) \<and> brk h' = brk h"
  using assms
proof (induction cs arbitrary: i h ps bs)
  case Nil
  then show ?case by (subst rehash_loop.simps) simp
next
  case (Cons c cs)
  have i: "i < length qs" using Cons.prems(5,6) by (cases "i < length qs") auto
  then have dr: "drop i qs = qs ! i # drop (Suc i) qs" by (simp add: Cons_nth_drop_Suc)
  then have c: "ent_chain h (qs ! i) c" and cs: "list_all2 (ent_chain h) (drop (Suc i) qs) cs"
    using Cons.prems(5) by auto
  have "distinct (news # owned (concat bs) @ owned c)" using Cons.prems(8) by auto
  from rehash_chain_correct[OF Cons.prems(1-3) c this] obtain h1 ps1 where
    h1: "rehash_chain news (length ps) (qs ! i) h = Some h1" "cells h1 news = Some (Ptrs_cell ps1)"
      "length ps1 = length ps" "list_all2 (ent_chain h1) ps1 (foldl rehash_one bs c)"
      "same_on (- insert news (fst ` set c)) h h1" "dom (cells h1) = dom (cells h)" "brk h1 = brk h"
    by blast
  have sub: "fst ` set c \<subseteq> set (owned c)" using fst_in_owned by fastforce
  have old1: "cells h1 old = Some (Ptrs_cell qs)"
    using same_onD[OF h1(5), of old] Cons.prems(4,8) sub by auto
  have "same_on (set (owned (concat cs))) h h1"
    using h1(5) by (rule same_on_mono) (use Cons.prems(8) sub in auto)
  with cs have cs1: "list_all2 (ent_chain h1) (drop (Suc i) qs) cs" by (rule chains_frame)
  have perm: "mset (concat (foldl rehash_one bs c)) = mset (concat bs @ c)"
    using mset_rehash[of bs c] Cons.prems(2,3) by auto
  have dist1: "distinct (news # old # owned (concat (foldl rehash_one bs c)) @ owned (concat cs))"
    using owned_cong[OF perm] Cons.prems(8) by auto
  have ne: "ps1 \<noteq> []" and i': "Suc i \<le> length qs" using h1(3) Cons.prems(2) i by auto
  from Cons.IH[OF h1(2) ne h1(4) old1 cs1 i' Cons.prems(7) dist1] obtain h' ps' where
    h': "rehash_loop news (length ps) old (length qs) (Suc i) h1 = Some h'"
      "cells h' news = Some (Ptrs_cell ps')" "length ps' = length ps"
      "list_all2 (ent_chain h') ps' (foldl rehash_one (foldl rehash_one bs c) (concat cs))"
      "same_on (- insert news (fst ` set (concat cs))) h1 h'" "dom (cells h') = dom (cells h1)"
      "brk h' = brk h1" unfolding h1(3) by blast
  have "same_on (- insert news (fst ` set (concat (c # cs)))) h h'"
    by (rule same_on_trans[OF same_on_mono[OF h1(5)] same_on_mono[OF h'(5)]]) auto
  moreover have "rehash_loop news (length ps) old (length qs) i h = Some h'"
    using i Cons.prems(4,7) h1(1) h'(1)
    by (subst rehash_loop.simps) (simp add: ptr_at_def get_ptrs_def)
  ultimately show ?case using h' h1(6,7) by auto
qed

text \<open>
  The rehashed table: the same entries at the same addresses, distributed over more chains, the
  old array released and everything outside the table as it was.
\<close>

lemma sigar_cache_rehash_correct:
  assumes wf: "heap_wf h" and rep: "cells h t = Some (Table_cell tb)"
    "cells h (tab_entries tb) = Some (Ptrs_cell ps)" "tab_size tb = length ps" "ps \<noteq> []"
    "length ps < 2 ^ 30" "list_all2 (ent_chain h) ps bs"
    "distinct (t # tab_entries tb # owned (concat bs))"
  shows "\<exists>h' tb' ps' bs'. sigar_cache_rehash t h = Some h' \<and> heap_wf h'
    \<and> cells h' t = Some (Table_cell tb') \<and> cells h' (tab_entries tb') = Some (Ptrs_cell ps')
    \<and> tab_size tb' = length ps' \<and> length ps' = 2 * length ps + 1 \<and> tab_count tb' = tab_count tb
    \<and> list_all2 (ent_chain h') ps' bs' \<and> placed bs' \<and> mset (concat bs') = mset (concat bs)
    \<and> distinct (t # tab_entries tb' # owned (concat bs'))
    \<and> same_on (dom (cells h) - set (t # tab_entries tb # map fst (concat bs))) h h'
    \<and> brk h' = Suc (brk h) \<and> tab_entries tb' = brk h
    \<and> dom (cells h') = insert (brk h) (dom (cells h) - {tab_entries tb})"
proof -
  define n where "n = Suc (2 * length ps)"
  define news where "news = brk h"
  define h1 where "h1 = h\<lparr>cells := (cells h)(news \<mapsto> Ptrs_cell (replicate n NULL)), brk := Suc (brk h)\<rparr>"
  define bs' where "bs' = foldl rehash_one (replicate n []) (concat bs)"
  have sz: "(tab_size tb * 2 + 1) mod 2 ^ 32 = n" using rep(3,5) by (simp add: n_def)
  have new1: "new (Ptrs_cell (replicate n NULL)) h = Some (news, h1)"
    by (simp add: new_eq news_def h1_def)
  have wf1: "heap_wf h1" using wf new1 by (rule heap_wf_new)
  have same1: "same_on (dom (cells h)) h h1" using wf new1 by (rule same_on_new)
  have live: "set (owned (concat bs)) \<subseteq> dom (cells h)" using rep(6) by (rule chains_live)
  have fresh: "news \<notin> dom (cells h)" using wf heap_wf_fresh by (auto simp: news_def)
  have c1: "list_all2 (ent_chain h1) (drop 0 ps) bs"
    using rep(6) same1 live by (simp add: chains_frame same_on_mono)
  have e1: "list_all2 (ent_chain h1) (replicate n NULL) (replicate n [])"
    by (simp add: list_all2_conv_all_nth)
  have old1: "cells h1 (tab_entries tb) = Some (Ptrs_cell ps)" "cells h1 news = Some (Ptrs_cell (replicate n NULL))"
    using rep(2) fresh by (auto simp: h1_def)
  have ni: "news \<noteq> tab_entries tb" "news \<noteq> t" "news \<notin> set (owned (concat bs))"
    using fresh live rep(1,2) by auto
  have d1: "distinct (news # tab_entries tb # owned (concat (replicate n [])) @ owned (concat bs))"
    using ni rep(7) by simp
  from rehash_loop_correct[OF old1(2) _ e1 old1(1) c1 _ _ d1] rep(5) obtain h2 ps' where
    h2: "rehash_loop news n (tab_entries tb) (length ps) 0 h1 = Some h2"
      "cells h2 news = Some (Ptrs_cell ps')" "length ps' = n" "list_all2 (ent_chain h2) ps' bs'"
      "same_on (- insert news (fst ` set (concat bs))) h1 h2" "dom (cells h2) = dom (cells h1)"
      "brk h2 = brk h1" by (auto simp: n_def bs'_def)
  define h3 where "h3 = h2\<lparr>cells := (cells h2)(tab_entries tb := None,
      t \<mapsto> Table_cell (tb\<lparr>tab_entries := news, tab_size := n\<rparr>))\<rparr>"
  have ne: "tab_entries tb \<noteq> NULL" using rep(2) wf heap_wf_not_NULL by blast
  have sub: "fst ` set (concat bs) \<subseteq> set (owned (concat bs))" using fst_in_owned by fastforce
  have tin: "t \<in> dom (cells h2)" "tab_entries tb \<in> dom (cells h2)" using h2(6) rep(1,2) by (auto simp: h1_def)
  have run: "sigar_cache_rehash t h = Some h3"
    using rep(1,3,7) sz new1 h2(1) tin ne
    by (auto simp: sigar_cache_rehash_def get_table_def free_def store_def h3_def)
  have perm: "mset (concat bs') = mset (concat bs)"
    using mset_rehash[of "replicate n []" "concat bs"] by (simp add: bs'_def n_def)
  have ow: "set (owned (concat bs')) = set (owned (concat bs))" "distinct (owned (concat bs'))"
    using owned_cong[OF perm] rep(7) by auto
  have "placed (replicate n [])" by (simp add: placed_def)
  then have pl: "placed bs'" by (simp add: bs'_def n_def placed_rehash)
  have "same_on (set (owned (concat bs'))) h2 h3"
    using ow rep(7) ni by (auto simp: same_on_def h3_def)
  then have ch: "list_all2 (ent_chain h3) ps' bs'" by (rule chains_frame[OF h2(4)])
  have dom3: "dom (cells h3) = insert (brk h) (dom (cells h) - {tab_entries tb})"
    using h2(6) rep(1,7) ni(1) by (auto simp: h3_def h1_def news_def)
  have "same_on (dom (cells h) - set (t # tab_entries tb # map fst (concat bs))) h h2"
    by (rule same_on_trans[OF same_on_mono[OF same1] same_on_mono[OF h2(5)]]) (use sub fresh in auto)
  then have same: "same_on (dom (cells h) - set (t # tab_entries tb # map fst (concat bs))) h h3"
    by (auto simp: same_on_def h3_def)
  have "brk h3 = Suc (brk h)" using h2(7) by (simp add: h3_def h1_def)
  then have "heap_wf h3" using wf unfolding heap_wf_def dom3 by (auto simp: less_Suc_eq)
  with run ch pl perm dom3 same h2(2,3,7) ow ni rep(7) show ?thesis
    by (intro exI[of _ h3] exI[of _ "tb\<lparr>tab_entries := news, tab_size := n\<rparr>"] exI[of _ ps'] exI[of _ bs'])
      (auto simp: h3_def h1_def n_def news_def)
qed

section \<open>What the operations do\<close>

subsection \<open>Finding\<close>

lemma cache_rep_bucket:
  assumes "cache_rep h t tb ps bs"
  shows "read_slot tb (Bucket (key mod length ps)) h = Some (ps ! (key mod length ps))"
    "ent_chain h (ps ! (key mod length ps)) (bs ! (key mod length ps))"
    "key mod length ps < length ps"
    "SIGAR_CACHE_IX tb key = Some (Bucket (key mod length ps))"
  using assms
  by (auto simp: cache_rep_def read_slot_def ptr_at_def get_ptrs_def SIGAR_CACHE_IX_def
      dest: list_all2_lengthD intro: list_all2_nthD)

lemma cache_rep_length: "cache_rep h t tb ps bs \<Longrightarrow> length bs = length ps"
  by (auto simp: cache_rep_def dest: list_all2_lengthD)

lemma cache_rep_in_bucket:
  assumes "cache_rep h t tb ps bs" and "e \<in> set (concat bs)"
  shows "e \<in> set (bs ! (ekey e mod length ps))"
proof -
  from assms(2) obtain b where "b \<in> set bs" "e \<in> set b" by auto
  then obtain i where "i < length bs" "e \<in> set (bs ! i)" by (metis in_set_conv_nth)
  with assms(1) show ?thesis
    by (auto simp: cache_rep_def placed_def dest: list_all2_lengthD)
qed

lemma cache_rep_nth_keys:
  assumes "cache_rep h t tb ps bs" and "i < length bs"
  shows "ekey ` set (bs ! i) \<subseteq> ekey ` set (concat bs)" "distinct (map ekey (bs ! i))"
proof -
  have "bs ! i \<in> set bs" using assms(2) by simp
  then show "ekey ` set (bs ! i) \<subseteq> ekey ` set (concat bs)" unfolding set_concat by blast
  have "distinct (concat (map (map ekey) bs))"
    using assms(1) by (simp add: cache_rep_def map_concat)
  then show "distinct (map ekey (bs ! i))" using assms(2) by (auto simp: distinct_concat_iff)
qed

lemma scan_miss_rep:
  assumes "cache_rep h t tb ps bs" and "key \<notin> ekey ` set (concat bs)"
  shows "cache_scan key tb h (Bucket (key mod length ps)) =
    Some (NULL, end_slot (Bucket (key mod length ps)) (bs ! (key mod length ps)))"
proof -
  note b = cache_rep_bucket[OF assms(1), of key]
  have "key \<notin> ekey ` set (bs ! (key mod length ps))"
    using assms(2) cache_rep_nth_keys(1)[OF assms(1), of "key mod length ps"] b(3) cache_rep_length[OF assms(1)] by auto
  with b(2,1) show ?thesis by (rule cache_scan_miss)
qed

lemma scan_hit_rep:
  assumes "cache_rep h t tb ps bs" and "e \<in> set (concat bs)"
  shows "\<exists>sl. cache_scan (ekey e) tb h (Bucket (ekey e mod length ps)) = Some (fst e, sl)"
proof -
  note b = cache_rep_bucket[OF assms(1), of "ekey e"]
  have "distinct (map ekey (bs ! (ekey e mod length ps)))"
    using cache_rep_nth_keys(2)[OF assms(1)] b(3) cache_rep_length[OF assms(1)] by simp
  then show ?thesis using b(1,2) cache_rep_in_bucket[OF assms] by (intro cache_scan_hit)
qed

lemma cache_find_rep:
  assumes "cache_rep h t tb ps bs"
  shows "key \<notin> ekey ` set (concat bs) \<Longrightarrow> sigar_cache_find t key h = Some NULL"
    and "e \<in> set (concat bs) \<Longrightarrow> sigar_cache_find t (ekey e) h = Some (fst e)"
proof -
  have tb: "get_table h t = Some tb" using assms by (simp add: cache_rep_def sigar_get_iff)
  note ix = cache_rep_bucket(4)[OF assms]
  show "sigar_cache_find t key h = Some NULL" if "key \<notin> ekey ` set (concat bs)"
    using scan_miss_rep[OF assms that] by (simp add: sigar_cache_find_def tb ix)
  show "sigar_cache_find t (ekey e) h = Some (fst e)" if "e \<in> set (concat bs)"
    using scan_hit_rep[OF assms that] by (auto simp: sigar_cache_find_def tb ix)
qed

subsection \<open>Adding\<close>

text \<open>
  Storing an entry at the end of a chain, in memory where the chains are as \<open>bs\<close> says and the
  block of the new entry is not one of theirs.
\<close>

lemma distinct_concat_nth:
  "distinct (concat xss) \<Longrightarrow> i < length xss \<Longrightarrow> j < length xss \<Longrightarrow> i \<noteq> j \<Longrightarrow>
   set (xss ! i) \<inter> set (xss ! j) = {}"
proof (induction xss arbitrary: i j)
  case (Cons xs xss)
  have "set xs \<inter> set (xss ! k) = {}" if "k < length xss" for k
    using Cons.prems(1) nth_mem[OF that] by auto
  then show ?case using Cons by (cases i; cases j) auto
qed simp

lemma distinct_owned_nth:
  assumes "distinct (owned (concat bs))" and "i < length bs"
  shows "distinct (owned (bs ! i))"
    and "j < length bs \<Longrightarrow> i \<noteq> j \<Longrightarrow> set (owned (bs ! i)) \<inter> set (owned (bs ! j)) = {}"
proof -
  have d: "distinct (concat (map owned bs))"
    using assms(1) by (induction bs) (auto simp: set_owned)
  then show "distinct (owned (bs ! i))" using assms(2) by (auto simp: distinct_concat_iff)
  show "set (owned (bs ! i)) \<inter> set (owned (bs ! j)) = {}" if "j < length bs" "i \<noteq> j"
    using distinct_concat_nth[OF d, of i j] assms(2) that by simp
qed

lemma write_end:
  fixes key :: nat
  assumes "heap_wf h" and "cells h (tab_entries tb) = Some (Ptrs_cell ps)"
    and "list_all2 (ent_chain h) ps bs" and "i < length ps"
    and "distinct (tab_entries tb # owned (concat bs))"
  defines "e \<equiv> (brk h, (key, NULL), [])"
  shows "\<exists>h1 h' ps'. new (Ent_cell \<lparr>ent_next = NULL, ent_id = key, ent_value = NULL\<rparr>) h = Some (brk h, h1)
    \<and> write_slot tb (end_slot (Bucket i) (bs ! i)) (brk h) h1 = Some h' \<and> heap_wf h'
    \<and> cells h' (tab_entries tb) = Some (Ptrs_cell ps') \<and> length ps' = length ps
    \<and> list_all2 (ent_chain h') ps' (bs[i := bs ! i @ [e]])
    \<and> same_on (dom (cells h) - insert (tab_entries tb) (fst ` set (concat bs))) h h'
    \<and> dom (cells h') = insert (brk h) (dom (cells h))"
proof -
  define h1 where "h1 = h\<lparr>cells := (cells h)(brk h \<mapsto> Ent_cell \<lparr>ent_next = NULL, ent_id = key,
      ent_value = NULL\<rparr>), brk := Suc (brk h)\<rparr>"
  have n: "new (Ent_cell \<lparr>ent_next = NULL, ent_id = key, ent_value = NULL\<rparr>) h = Some (brk h, h1)"
    by (simp add: new_eq h1_def)
  have wf1: "heap_wf h1" using assms(1) n by (rule heap_wf_new)
  have fresh: "brk h \<notin> dom (cells h)" using assms(1) heap_wf_fresh by auto
  have same1: "same_on (dom (cells h)) h h1" using assms(1) n by (rule same_on_new)
  have live: "set (owned (concat bs)) \<subseteq> dom (cells h)" using assms(3) by (rule chains_live)
  have c1: "list_all2 (ent_chain h1) ps bs"
    using assms(3) same_on_mono[OF same1 live] by (rule chains_frame)
  have len: "length bs = length ps" using assms(3) by (simp add: list_all2_lengthD)
  have e1: "ent_chain h1 (brk h) [e]"
    using heap_wf_brk[OF assms(1)] by (simp add: ent_chain_Cons e_def h1_def)
  have es1: "cells h1 (tab_entries tb) = Some (Ptrs_cell ps)"
    using assms(2) fresh by (auto simp: h1_def)
  have dom1: "dom (cells h1) = insert (brk h) (dom (cells h))" by (auto simp: h1_def)
  have neb: "brk h \<notin> set (owned (bs ! i))" "tab_entries tb \<notin> set (owned (concat bs))"
    using fresh live owned_concat_nth[of i bs] assms(4,5) len by auto
  show ?thesis
  proof (cases "bs ! i = []")
    case True
    define h2 where "h2 = h1\<lparr>cells := (cells h1)(tab_entries tb \<mapsto> Ptrs_cell (ps[i := brk h]))\<rparr>"
    have w: "write_slot tb (end_slot (Bucket i) (bs ! i)) (brk h) h1 = Some h2"
      using True es1 assms(4)
      by (simp add: end_slot_def write_slot_def put_ptr_def get_ptrs_def store_def h2_def)
    have same2: "same_on (- {tab_entries tb}) h1 h2" by (simp add: same_on_def h2_def)
    have "ent_chain h2 (brk h) [e]"
      using e1 by (rule ent.chain_frame)
        (use same2 assms(2) fresh in \<open>auto simp: same_on_def e_def\<close>)
    moreover have "list_all2 (ent_chain h2) ps bs"
      using c1 by (rule chains_frame) (use same2 neb in \<open>auto intro: same_on_mono\<close>)
    ultimately have "list_all2 (ent_chain h2) (ps[i := brk h]) (bs[i := bs ! i @ [e]])"
      using True by (simp add: list_all2_update_cong)
    moreover have dom2: "dom (cells h2) = dom (cells h1)" using es1 by (auto simp: h2_def)
    moreover have "heap_wf h2"
      using wf1 dom2 by (rule heap_wf_dom) (simp add: h2_def)
    moreover have "same_on (dom (cells h) - insert (tab_entries tb) (fst ` set (concat bs))) h h2"
      using same1 same2 by (auto simp: same_on_def)
    ultimately show ?thesis
      using n w dom1 by (intro exI[of _ h1] exI[of _ h2] exI[of _ "ps[i := brk h]"]) (auto simp: h2_def)
  next
    case False
    have ci: "ent_chain h1 (ps ! i) (bs ! i)" using c1 assms(4) by (rule list_all2_nthD)
    have lin: "fst (last (bs ! i)) \<in> set (owned (bs ! i))" using False by (simp add: fst_in_owned)
    have di: "distinct (owned (bs ! i))" using assms(4,5) len by (simp add: distinct_owned_nth)
    from ent_chain_snoc[OF ci False di e1 neb(1), of tb] obtain h2 where
      h2: "write_slot tb (Next (fst (last (bs ! i)))) (brk h) h1 = Some h2"
        "ent_chain h2 (ps ! i) (bs ! i @ [e])" "same_on (- {fst (last (bs ! i))}) h1 h2"
        "dom (cells h2) = dom (cells h1)" "brk h2 = brk h1"
      by (auto simp: e_def)
    have w: "write_slot tb (end_slot (Bucket i) (bs ! i)) (brk h) h1 = Some h2"
      using False h2(1) by (simp add: end_slot_def)
    have lo: "fst (last (bs ! i)) \<in> set (owned (concat bs))"
      using lin owned_concat_nth[of i bs] assms(4) len by auto
    have "last (bs ! i) \<in> set (concat bs)"
      using last_in_set[OF False] assms(4) len by (auto intro!: bexI[of _ "bs ! i"])
    then have lf: "fst (last (bs ! i)) \<in> fst ` set (concat bs)" by (rule imageI)
    have "list_all2 (ent_chain h2) ps (bs[i := bs ! i @ [e]])"
      unfolding list_all2_conv_all_nth
    proof (intro conjI allI impI)
      fix j assume j: "j < length ps"
      show "ent_chain h2 (ps ! j) (bs[i := bs ! i @ [e]] ! j)"
      proof (cases "j = i")
        case True
        then show ?thesis using h2(2) assms(4) len by simp
      next
        case False
        have "ent_chain h1 (ps ! j) (bs ! j)" using c1 j by (rule list_all2_nthD)
        moreover have "fst (last (bs ! i)) \<notin> set (owned (bs ! j))"
          using distinct_owned_nth(2)[of bs i j] False lin j assms(4,5) len by auto
        ultimately show ?thesis
          using ent.chain_frame same_on_mono[OF h2(3), of "set (owned (bs ! j))"] False by simp
      qed
    qed (simp add: len)
    moreover have "heap_wf h2"
      using wf1 h2(4,5) by (rule heap_wf_dom)
    moreover have "same_on (dom (cells h) - insert (tab_entries tb) (fst ` set (concat bs))) h h2"
      by (rule same_on_trans[OF same_on_mono[OF same1] same_on_mono[OF h2(3)]]) (use lf in auto)
    moreover have "cells h2 (tab_entries tb) = Some (Ptrs_cell ps)"
      using same_onD[OF h2(3), of "tab_entries tb"] es1 lo neb(2) by (cases "tab_entries tb = fst (last (bs ! i))") auto
    ultimately show ?thesis using n w dom1 h2(4) by auto
  qed
qed

lemma cache_rep_room:
  assumes wf: "heap_wf h" and rep: "cache_rep h t tb ps bs" and key: "key \<notin> ekey ` set (concat bs)"
    and few: "length (concat bs) < 2 ^ 30"
  shows "\<exists>h' tb' ps' bs'.
    cache_room t key (end_slot (Bucket (key mod length ps)) (bs ! (key mod length ps))) h =
      Some (end_slot (Bucket (key mod length ps')) (bs' ! (key mod length ps')), h')
    \<and> heap_wf h' \<and> cells h' t = Some (Table_cell tb') \<and> cells h' (tab_entries tb') = Some (Ptrs_cell ps')
    \<and> tab_size tb' = length ps' \<and> ps' \<noteq> [] \<and> length ps' < 2 ^ 31
    \<and> tab_count tb' = Suc (length (concat bs))
    \<and> list_all2 (ent_chain h') ps' bs' \<and> placed bs' \<and> mset (concat bs') = mset (concat bs)
    \<and> distinct (t # tab_entries tb' # owned (concat bs'))
    \<and> same_on (dom (cells h) - set (t # tab_entries tb # map fst (concat bs))) h h'
    \<and> brk h \<le> brk h' \<and> (tab_entries tb' = tab_entries tb \<or> brk h \<le> tab_entries tb')
    \<and> dom (cells h') - {tab_entries tb'} = dom (cells h) - {tab_entries tb}"
proof -
  define tb1 where "tb1 = tb\<lparr>tab_count := Suc (length (concat bs))\<rparr>"
  define h1 where "h1 = h\<lparr>cells := (cells h)(t \<mapsto> Table_cell tb1)\<rparr>"
  note r = cache_repD[OF rep]
  have cnt: "(tab_count tb + 1) mod 2 ^ 32 = Suc (length (concat bs))" using r(6) few by simp
  have st: "store t (Table_cell (tb\<lparr>tab_count := (tab_count tb + 1) mod 2 ^ 32\<rparr>)) h = Some h1"
    unfolding cnt using r(1) by (simp add: store_def h1_def tb1_def)
  have dom1: "dom (cells h1) = dom (cells h)" using r(1) by (auto simp: h1_def)
  have wf1: "heap_wf h1" using wf dom1 by (rule heap_wf_dom) (simp add: h1_def)
  have same1: "same_on (- {t}) h h1" by (simp add: same_on_def h1_def)
  have es: "tab_entries tb1 = tab_entries tb" "tab_size tb1 = length ps" "tab_count tb1 = Suc (length (concat bs))"
    using r(3) by (simp_all add: tb1_def)
  have c1: "list_all2 (ent_chain h1) ps bs"
    using r(7) by (rule chains_frame) (use r(10) in \<open>auto intro: same_on_mono[OF same1]\<close>)
  have b1: "cells h1 t = Some (Table_cell tb1)" "cells h1 (tab_entries tb1) = Some (Ptrs_cell ps)"
    using r(2,10) es by (simp_all add: h1_def)
  have d1: "distinct (t # tab_entries tb1 # owned (concat bs))" using r(10) es(1) by simp
  have bk: "brk h1 = brk h" by (simp add: h1_def)
  show ?thesis
  proof (cases "tab_count tb > tab_size tb")
    case False
    have "same_on (dom (cells h) - set (t # tab_entries tb # map fst (concat bs))) h h1"
      by (rule same_on_mono[OF same1]) auto
    then show ?thesis
      using False st wf1 b1 c1 d1 r(1,4,5,8) es bk dom1
      by (intro exI[of _ h1] exI[of _ tb1] exI[of _ ps] exI[of _ bs])
        (simp add: cache_room_def get_table_def)
  next
    case True
    then have "length ps < 2 ^ 30" using r(3,6) few by simp
    from sigar_cache_rehash_correct[OF wf1 b1 es(2) r(4) this c1 d1] obtain h' tb' ps' bs' where
      h': "sigar_cache_rehash t h1 = Some h'" "heap_wf h'" "cells h' t = Some (Table_cell tb')"
        "cells h' (tab_entries tb') = Some (Ptrs_cell ps')" "tab_size tb' = length ps'"
        "length ps' = 2 * length ps + 1" "tab_count tb' = tab_count tb1"
        "list_all2 (ent_chain h') ps' bs'" "placed bs'" "mset (concat bs') = mset (concat bs)"
        "distinct (t # tab_entries tb' # owned (concat bs'))"
        "same_on (dom (cells h1) - set (t # tab_entries tb1 # map fst (concat bs))) h1 h'"
        "tab_entries tb' = brk h1" "brk h' = Suc (brk h1)"
        "dom (cells h') = insert (brk h1) (dom (cells h1) - {tab_entries tb1})"
      by blast
    have "dom (cells h') - {tab_entries tb'} = dom (cells h) - {tab_entries tb}"
      using h'(13,15) dom1 es(1) bk heap_wf_fresh[OF wf] by auto
    have ix: "SIGAR_CACHE_IX tb' key = Some (Bucket (key mod length ps'))"
      "read_slot tb' (Bucket (key mod length ps')) h' = Some (ps' ! (key mod length ps'))"
      using h'(4,5,6) by (auto simp: SIGAR_CACHE_IX_def read_slot_def ptr_at_def get_ptrs_def)
    have "ent_chain h' (ps' ! (key mod length ps')) (bs' ! (key mod length ps'))"
      using h'(8) by (rule list_all2_nthD) (use h'(6) in simp)
    then have ce: "cache_end tb' h' (Bucket (key mod length ps')) =
        Some (end_slot (Bucket (key mod length ps')) (bs' ! (key mod length ps')))"
      using ix(2) by (rule cache_end_chain)
    have run: "cache_room t key (end_slot (Bucket (key mod length ps)) (bs ! (key mod length ps))) h =
      Some (end_slot (Bucket (key mod length ps')) (bs' ! (key mod length ps')), h')"
      using True st h'(1,3) ix(1) ce r(1) by (simp add: cache_room_def get_table_def)
    have "same_on (dom (cells h) - set (t # tab_entries tb # map fst (concat bs))) h h'"
      by (rule same_on_trans[OF same_on_mono[OF same1] same_on_mono[OF h'(12)]])
        (use dom1 es in auto)
    moreover note \<open>dom (cells h') - {tab_entries tb'} = dom (cells h) - {tab_entries tb}\<close>
    moreover have "brk h \<le> tab_entries tb'" "brk h \<le> brk h'" using h'(13,14) bk by simp_all
    moreover have "length ps' < 2 ^ 31" "ps' \<noteq> []" using h'(6) \<open>length ps < 2 ^ 30\<close> by auto
    ultimately show ?thesis using run h'(2-5,7-11) es
      by (intro exI[of _ h'] exI[of _ tb'] exI[of _ ps'] exI[of _ bs']) simp
  qed
qed

lemma cache_get_rep:
  assumes wf: "heap_wf h" and rep: "cache_rep h t tb ps bs" and key: "key \<notin> ekey ` set (concat bs)"
    and few: "length (concat bs) < 2 ^ 30"
  shows "\<exists>a h' tb' ps' bs'. sigar_cache_get t key h = Some (a, h') \<and> heap_wf h'
    \<and> cache_rep h' t tb' ps' bs' \<and> mset (concat bs') = mset ((a, (key, NULL), []) # concat bs)
    \<and> same_on (dom (cells h) - set (t # tab_entries tb # map fst (concat bs))) h h'
    \<and> brk h \<le> a \<and> (tab_entries tb' = tab_entries tb \<or> brk h \<le> tab_entries tb')
    \<and> dom (cells h') - set (t # tab_entries tb' # owned (concat bs')) =
        dom (cells h) - set (t # tab_entries tb # owned (concat bs))"
proof -
  note r = cache_repD[OF rep]
  from cache_rep_room[OF wf rep key few] obtain h1 tb' ps' bs' where
    room: "cache_room t key (end_slot (Bucket (key mod length ps)) (bs ! (key mod length ps))) h =
      Some (end_slot (Bucket (key mod length ps')) (bs' ! (key mod length ps')), h1)" and
    w1: "heap_wf h1" "cells h1 t = Some (Table_cell tb')" "cells h1 (tab_entries tb') = Some (Ptrs_cell ps')"
      "tab_size tb' = length ps'" "ps' \<noteq> []" "length ps' < 2 ^ 31" "tab_count tb' = Suc (length (concat bs))"
      "list_all2 (ent_chain h1) ps' bs'" "placed bs'" and perm: "mset (concat bs') = mset (concat bs)" and
    d1: "distinct (t # tab_entries tb' # owned (concat bs'))" and
    s1: "same_on (dom (cells h) - set (t # tab_entries tb # map fst (concat bs))) h h1" and
    b1: "brk h \<le> brk h1" and e1: "tab_entries tb' = tab_entries tb \<or> brk h \<le> tab_entries tb'" and
    out1: "dom (cells h1) - {tab_entries tb'} = dom (cells h) - {tab_entries tb}"
    by blast
  define i where "i = key mod length ps'"
  define bs2 where "bs2 = bs'[i := bs' ! i @ [(brk h1, (key, NULL), [])]]"
  have i: "i < length ps'" "length bs' = length ps'"
    using w1(5) unfolding i_def by (simp, simp add: list_all2_lengthD[OF w1(8)])
  have "distinct (tab_entries tb' # owned (concat bs'))" using d1 by simp
  from write_end[OF w1(1,3,8) i(1) this, of key] obtain h2 h' ps2 where
    n: "new (Ent_cell \<lparr>ent_next = NULL, ent_id = key, ent_value = NULL\<rparr>) h1 = Some (brk h1, h2)"
      "write_slot tb' (end_slot (Bucket i) (bs' ! i)) (brk h1) h2 = Some h'" and
    w2: "heap_wf h'" "cells h' (tab_entries tb') = Some (Ptrs_cell ps2)" "length ps2 = length ps'"
      "list_all2 (ent_chain h') ps2 bs2"
      "same_on (dom (cells h1) - insert (tab_entries tb') (fst ` set (concat bs'))) h1 h'"
      "dom (cells h') = insert (brk h1) (dom (cells h1))"
    unfolding bs2_def by blast
  have perm2: "mset (concat bs2) = mset ((brk h1, (key, NULL), []) # concat bs)"
    using i perm by (simp add: bs2_def mset_concat_snoc)
  have ow: "set (owned (concat bs')) = set (owned (concat bs))" using perm by (rule owned_cong)
  have "fst ` set (concat bs') \<subseteq> set (owned (concat bs'))" using fst_in_owned by (rule image_subsetI)
  then have "t \<in> dom (cells h1) - insert (tab_entries tb') (fst ` set (concat bs'))"
    using w1(2) d1 by (auto simp del: set_concat)
  from same_onD[OF w2(5) this] have ti: "cells h' t = Some (Table_cell tb')" using w1(2) by simp
  have "brk h1 \<notin> dom (cells h1)" using heap_wf_fresh[OF w1(1)] by (simp add: domIff)
  then have nb: "brk h1 \<noteq> t" "brk h1 \<noteq> tab_entries tb'" "brk h1 \<notin> set (owned (concat bs))"
    using w1(2,3) chains_live[OF w1(8)] ow by auto
  have keys: "distinct (map ekey (concat bs2))"
  proof -
    have "mset (map ekey (concat bs2)) = mset (key # map ekey (concat bs))"
      using arg_cong[OF perm2, of "image_mset ekey"] by (simp flip: mset_map)
    from mset_eq_imp_distinct_iff[OF this] show ?thesis using r(9) key by simp
  qed
  have "distinct (t # tab_entries tb' # owned (concat bs2))"
    using owned_cong[OF perm2] d1 nb owned_cong[OF perm] by auto
  moreover have "placed bs2"
    using w1(9) i by (simp add: bs2_def) (intro placed_update; auto simp: i_def)
  moreover have "tab_count tb' = length (concat bs2)"
    using w1(7) arg_cong[OF perm2, of size] by simp
  ultimately have "cache_rep h' t tb' ps2 bs2"
    unfolding cache_rep_def using ti w2(2-4) w1(4-6) keys by auto
  moreover have "sigar_cache_get t key h = Some (brk h1, h')"
    using scan_miss_rep[OF rep key] cache_rep_bucket(4)[OF rep] room n w1(2) r(1)
    by (simp add: sigar_cache_get_def get_table_def i_def)
  moreover have "same_on (dom (cells h) - set (t # tab_entries tb # map fst (concat bs))) h h'"
  proof (rule same_on_trans[OF s1], rule same_on_mono[OF w2(5)])
    show "dom (cells h) - set (t # tab_entries tb # map fst (concat bs))
        \<subseteq> dom (cells h1) - insert (tab_entries tb') (fst ` set (concat bs'))"
    proof
      fix a assume a: "a \<in> dom (cells h) - set (t # tab_entries tb # map fst (concat bs))"
      then have "a \<in> dom (cells h1)" using same_onD[OF s1 a] by (auto simp: domIff)
      then show "a \<in> dom (cells h1) - insert (tab_entries tb') (fst ` set (concat bs'))"
        using a e1 mset_eq_setD[OF perm] heap_wf_ge[OF wf] by (auto simp del: set_concat)
    qed
  qed
  moreover have "dom (cells h') - set (t # tab_entries tb' # owned (concat bs2)) =
      dom (cells h) - set (t # tab_entries tb # owned (concat bs))"
    using owned_cong(1)[OF perm2] w2(6) out1 \<open>brk h1 \<notin> dom (cells h1)\<close> by auto
  ultimately show ?thesis using w2(1) perm2 b1 e1 by blast
qed

subsection \<open>Destroying\<close>

lemma free_is_without: "a \<in> dom (cells h) \<Longrightarrow> free a h = Some (without {a} h)"
  if "heap_wf h"
  using that heap_wf_not_NULL[OF that]
  by (auto simp: free_def without_def restrict_map_def fun_eq_iff)

lemma destroy_chain_correct:
  "heap_wf h \<Longrightarrow> ent_chain h p es \<Longrightarrow> distinct (owned es) \<Longrightarrow>
   destroy_chain p h = Some (without (set (owned es)) h)"
proof (induction es arbitrary: p h)
  case Nil
  then show ?case by (subst destroy_chain.simps) simp
next
  case (Cons e es)
  from Cons.prems(2) obtain q where p: "p \<noteq> NULL" "p = fst e"
    and c: "cells h p = Some (Ent_cell \<lparr>ent_next = q, ent_id = ekey e, ent_value = snd (entry_value e)\<rparr>)"
    and ow: "snd (snd e) = (if snd (entry_value e) = NULL then [] else [snd (entry_value e)])"
    and d: "set (snd (snd e)) \<subseteq> dom (cells h)" and q: "ent_chain h q es"
    by (auto simp: ent_chain_Cons)
  define h1 where "h1 = without (set (snd (snd e))) h"
  have f1: "free (snd (entry_value e)) h = Some h1"
    using ow d free_is_without[OF Cons.prems(1)] by (cases "snd (entry_value e) = NULL") (simp_all add: h1_def)
  have wf1: "heap_wf h1" using Cons.prems(1) by (auto simp: h1_def)
  have "p \<in> dom (cells h1)"
    using c p Cons.prems(3) by (auto simp: h1_def entry_owned_def)
  then have f2: "free p h1 = Some (without {p} h1)" using free_is_without[OF wf1] by blast
  have eq: "without {p} h1 = without (set (entry_owned e)) h"
    using p by (simp add: h1_def without_without entry_owned_def Un_commute insert_commute)
  have "ent_chain (without (set (entry_owned e)) h) q es"
    using q by (rule ent.chain_frame)
      (use Cons.prems(3) in \<open>auto intro: same_on_mono[OF same_on_without]\<close>)
  then have "destroy_chain q (without (set (entry_owned e)) h) = Some (without (set (owned (e # es))) h)"
    using Cons.IH[of "without (set (entry_owned e)) h" q] Cons.prems(1,3)
    by (auto simp: without_without Un_commute)
  then show ?case
    using p c f1 f2 eq by (subst destroy_chain.simps) (simp add: get_ent_def)
qed

lemma destroy_loop_correct:
  assumes "heap_wf h" and "cells h es = Some (Ptrs_cell ps)" and "i \<le> length ps" and "length ps < 2 ^ 31"
    and "list_all2 (ent_chain h) (drop i ps) bs" and "distinct (es # owned (concat bs))"
  shows "destroy_loop es (length ps) i h = Some (without (set (owned (concat bs))) h)"
  using assms
proof (induction bs arbitrary: i h)
  case Nil
  then show ?case by (subst destroy_loop.simps) simp
next
  case (Cons b bs)
  have i: "i < length ps" using Cons.prems(3,5) by (cases "i < length ps") auto
  then have dr: "drop i ps = ps ! i # drop (Suc i) ps" by (simp add: Cons_nth_drop_Suc)
  then have b: "ent_chain h (ps ! i) b" and bs: "list_all2 (ent_chain h) (drop (Suc i) ps) bs"
    using Cons.prems(5) by auto
  let ?h = "without (set (owned b)) h"
  have db: "distinct (owned b)" and disj: "set (owned (concat bs)) \<inter> set (owned b) = {}"
    and eb: "es \<notin> set (owned b)" and d2: "distinct (es # owned (concat bs))"
    using Cons.prems(6) by auto
  have run: "destroy_chain (ps ! i) h = Some ?h" by (rule destroy_chain_correct[OF Cons.prems(1) b db])
  have "list_all2 (ent_chain ?h) (drop (Suc i) ps) bs"
    using bs by (rule chains_frame) (use disj in \<open>auto intro: same_on_mono[OF same_on_without]\<close>)
  then have "destroy_loop es (length ps) (Suc i) ?h = Some (without (set (owned (concat bs))) ?h)"
    using Cons.IH[of ?h "Suc i"] Cons.prems(1,2,4) i eb d2 by auto
  then show ?case
    using i run Cons.prems(2,4)
    by (subst destroy_loop.simps) (simp add: ptr_at_def get_ptrs_def without_without)
qed

section \<open>The table as a map\<close>

text \<open>The chains, computed from memory, and what they say of each key.\<close>

definition bucket_chains :: "heap \<Rightarrow> addr \<Rightarrow> (nat \<times> addr) entry list list" where
  "bucket_chains h t =
     (case get_table h t of None \<Rightarrow> [] | Some tb \<Rightarrow>
      (case get_ptrs h (tab_entries tb) of None \<Rightarrow> [] | Some ps \<Rightarrow> map (entries ent_node h) ps))"

definition cache_blocks :: "heap \<Rightarrow> addr \<Rightarrow> addr list" where
  "cache_blocks h t =
     (case get_table h t of None \<Rightarrow> []
      | Some tb \<Rightarrow> t # tab_entries tb # owned (concat (bucket_chains h t)))"

definition cache_wf :: "heap \<Rightarrow> addr \<Rightarrow> bool" where
  "cache_wf h t \<longleftrightarrow> heap_wf h \<and> (\<exists>tb ps. cache_rep h t tb ps (bucket_chains h t))"

text \<open>The entry of each key and the value stored in it.\<close>

definition cache_entry :: "heap \<Rightarrow> addr \<Rightarrow> nat \<rightharpoonup> addr" where
  "cache_entry h t = map_of (map (\<lambda>e. (ekey e, fst e)) (concat (bucket_chains h t)))"

definition cache_value :: "heap \<Rightarrow> addr \<Rightarrow> nat \<rightharpoonup> addr" where
  "cache_value h t = map_of (map entry_value (concat (bucket_chains h t)))"

definition cache_number :: "heap \<Rightarrow> addr \<Rightarrow> nat" where
  "cache_number h t = length (concat (bucket_chains h t))"

text \<open>The blocks of the table itself, without the values.\<close>

definition cache_nodes :: "heap \<Rightarrow> addr \<Rightarrow> addr set" where
  "cache_nodes h t =
     (case get_table h t of None \<Rightarrow> {}
      | Some tb \<Rightarrow> {t, tab_entries tb} \<union> fst ` set (concat (bucket_chains h t)))"

lemma cache_nodes_blocks: "cache_nodes h t \<subseteq> set (cache_blocks h t)"
proof (cases "get_table h t")
  case (Some tb)
  have "fst ` set (concat (bucket_chains h t)) \<subseteq> set (owned (concat (bucket_chains h t)))"
    using fst_in_owned by blast
  then show ?thesis using Some by (auto simp: cache_nodes_def cache_blocks_def simp del: set_concat)
qed (simp add: cache_nodes_def)

lemma cache_rep_chains:
  assumes wf: "heap_wf h" and rep: "cache_rep h t tb ps bs"
  shows "bucket_chains h t = bs" "cache_blocks h t = t # tab_entries tb # owned (concat bs)"
proof -
  note r = cache_repD[OF rep]
  have "entries ent_node h (ps ! i) = bs ! i" if "i < length ps" for i
    using that r(7,10) cache_rep_length[OF rep]
    by (intro ent.walk_chain[OF _ wf]) (auto intro: list_all2_nthD distinct_owned_nth)
  then have "map (entries ent_node h) ps = bs"
    using cache_rep_length[OF rep] by (intro nth_equalityI) auto
  then show c: "bucket_chains h t = bs" using r(1,2) by (simp add: bucket_chains_def get_table_def get_ptrs_def)
  show "cache_blocks h t = t # tab_entries tb # owned (concat bs)"
    using r(1) by (simp add: cache_blocks_def get_table_def c)
qed

lemma sigar_cache_wfI: "heap_wf h \<Longrightarrow> cache_rep h t tb ps bs \<Longrightarrow> cache_wf h t"
  using cache_rep_chains(1) by (auto simp: cache_wf_def)

lemma cache_wfE:
  assumes "cache_wf h t"
  obtains tb ps where "heap_wf h" "cache_rep h t tb ps (bucket_chains h t)"
    "cache_blocks h t = t # tab_entries tb # owned (concat (bucket_chains h t))"
  using assms cache_rep_chains(2) by (auto simp: cache_wf_def)

lemma cache_entry_iff:
  assumes "cache_wf h t"
  shows "cache_entry h t key = Some a \<longleftrightarrow> (\<exists>e \<in> set (concat (bucket_chains h t)). ekey e = key \<and> fst e = a)"
    "cache_entry h t key = None \<longleftrightarrow> key \<notin> ekey ` set (concat (bucket_chains h t))"
proof -
  from assms obtain tb ps where "cache_rep h t tb ps (bucket_chains h t)" by (rule cache_wfE)
  then have "distinct (map fst (map (\<lambda>e. (ekey e, fst e)) (concat (bucket_chains h t))))"
    by (simp add: cache_rep_def o_def)
  then show "cache_entry h t key = Some a \<longleftrightarrow> (\<exists>e \<in> set (concat (bucket_chains h t)). ekey e = key \<and> fst e = a)"
    by (simp only: cache_entry_def map_of_eq_Some_iff) auto
  show "cache_entry h t key = None \<longleftrightarrow> key \<notin> ekey ` set (concat (bucket_chains h t))"
    by (simp add: cache_entry_def map_of_eq_None_iff image_image)
qed

text \<open>Adding one entry to a list with distinct keys adds it to the map.\<close>

lemma map_of_add:
  assumes "mset es = mset (e # fs)" and "distinct (map ekey es)"
  shows "map_of (map (\<lambda>e. (ekey e, f e)) es) = (map_of (map (\<lambda>e. (ekey e, f e)) fs))(ekey e \<mapsto> f e)"
proof -
  have "mset (map ekey es) = mset (map ekey (e # fs))"
    using arg_cong[OF assms(1), of "image_mset ekey"] by simp
  then have d: "distinct (map ekey (e # fs))" using assms(2) mset_eq_imp_distinct_iff by blast
  have "set es = set (e # fs)" using assms(1) by (rule mset_eq_setD)
  then have "map_of (map (\<lambda>e. (ekey e, f e)) es) = map_of (map (\<lambda>e. (ekey e, f e)) (e # fs))"
    by (intro map_of_inject_set[THEN iffD2]) (use assms(2) d in \<open>simp_all only: map_map o_def fst_conv set_map\<close>)
  then show ?thesis by simp
qed

lemma entry_value_pair: "map entry_value es = map (\<lambda>e. (ekey e, snd (entry_value e))) es"
  by simp

lemma cache_find_entry:
  assumes "cache_wf h t"
  shows "sigar_cache_find t key h = Some (case cache_entry h t key of None \<Rightarrow> NULL | Some a \<Rightarrow> a)"
proof -
  from assms obtain tb ps where rep: "cache_rep h t tb ps (bucket_chains h t)" by (rule cache_wfE)
  show ?thesis
  proof (cases "cache_entry h t key")
    case None
    then have "key \<notin> ekey ` set (concat (bucket_chains h t))"
      using cache_entry_iff(2)[OF assms] by blast
    then show ?thesis using cache_find_rep(1)[OF rep] None by simp
  next
    case (Some a)
    then obtain e where "e \<in> set (concat (bucket_chains h t))" "ekey e = key" "fst e = a"
      using cache_entry_iff(1)[OF assms] by blast
    with Some show ?thesis using cache_find_rep(2)[OF rep, of e] by simp
  qed
qed

lemma cache_get_entry:
  assumes wf: "cache_wf h t" and few: "cache_number h t < 2 ^ 30"
  shows "\<exists>a h'. sigar_cache_get t key h = Some (a, h') \<and> cache_wf h' t
    \<and> cache_entry h' t = (cache_entry h t)(key \<mapsto> a)
    \<and> cache_value h' t = (if key \<in> dom (cache_entry h t) then cache_value h t
                          else (cache_value h t)(key \<mapsto> NULL))
    \<and> (key \<in> dom (cache_entry h t) \<longrightarrow> cache_entry h t key = Some a \<and> h' = h)
    \<and> same_on (dom (cells h) - cache_nodes h t) h h'
    \<and> dom (cells h') - set (cache_blocks h' t) = dom (cells h) - set (cache_blocks h t)
    \<and> (a \<in> cache_nodes h t \<or> brk h \<le> a)"
proof -
  from wf obtain tb ps where hw: "heap_wf h" and rep: "cache_rep h t tb ps (bucket_chains h t)"
    and bl: "cache_blocks h t = t # tab_entries tb # owned (concat (bucket_chains h t))" by (rule cache_wfE)
  have nodes: "cache_nodes h t = set (t # tab_entries tb # map fst (concat (bucket_chains h t)))"
    using cache_repD(1)[OF rep] by (simp add: cache_nodes_def get_table_def)
  show ?thesis
  proof (cases "cache_entry h t key")
    case (Some a)
    then obtain e where e: "e \<in> set (concat (bucket_chains h t))" "ekey e = key" "fst e = a"
      using cache_entry_iff(1)[OF wf] by blast
    have "a \<noteq> NULL"
      using e fst_in_owned[OF e(1)] chains_live[OF cache_repD(7)[OF rep]] heap_wf_not_NULL[OF hw] by auto
    then have "sigar_cache_get t key h = Some (a, h)"
      using scan_hit_rep[OF rep e(1)] e cache_rep_bucket(4)[OF rep] cache_repD(1)[OF rep]
      by (auto simp: sigar_cache_get_def get_table_def)
    moreover have "a \<in> cache_nodes h t" using imageI[OF e(1), of fst] e(3) by (simp add: nodes del: set_concat)
    ultimately show ?thesis using Some wf by (intro exI[of _ a] exI[of _ h]) auto
  next
    case None
    then have "key \<notin> ekey ` set (concat (bucket_chains h t))" using cache_entry_iff(2)[OF wf] by simp
    from cache_get_rep[OF hw rep this few[unfolded cache_number_def]] obtain a h' tb' ps' bs' where
      g: "sigar_cache_get t key h = Some (a, h')" "heap_wf h'" "cache_rep h' t tb' ps' bs'"
        "mset (concat bs') = mset ((a, (key, NULL), []) # concat (bucket_chains h t))"
        "same_on (dom (cells h) - cache_nodes h t) h h'"
        "brk h \<le> a" "tab_entries tb' = tab_entries tb \<or> brk h \<le> tab_entries tb'"
        "dom (cells h') - set (t # tab_entries tb' # owned (concat bs')) =
         dom (cells h) - set (t # tab_entries tb # owned (concat (bucket_chains h t)))"
      unfolding nodes by blast
    have c: "bucket_chains h' t = bs'" using g(2,3) by (rule cache_rep_chains)
    note m = map_of_add[OF g(4) cache_repD(9)[OF g(3)]]
    have "cache_entry h' t = (cache_entry h t)(key \<mapsto> a)"
      using m[of fst] by (simp add: cache_entry_def c)
    moreover have "cache_value h' t = (cache_value h t)(key \<mapsto> NULL)"
      using m[of "\<lambda>e. snd (entry_value e)"] by (simp add: cache_value_def c)
    moreover have "dom (cells h') - set (cache_blocks h' t) = dom (cells h) - set (cache_blocks h t)"
      using g(8) unfolding cache_rep_chains(2)[OF g(2,3)] bl .
    ultimately show ?thesis using g(1,5,6) sigar_cache_wfI[OF g(2,3)] None by auto
  qed
qed

lemma cache_destroy_without:
  assumes "cache_wf h t"
  shows "sigar_cache_destroy t h = Some (without (set (cache_blocks h t)) h)"
proof -
  from assms obtain tb ps where hw: "heap_wf h" and rep: "cache_rep h t tb ps (bucket_chains h t)"
    and bl: "cache_blocks h t = t # tab_entries tb # owned (concat (bucket_chains h t))" by (rule cache_wfE)
  note r = cache_repD[OF rep]
  let ?h = "without (set (owned (concat (bucket_chains h t)))) h"
  have l: "destroy_loop (tab_entries tb) (length ps) 0 h = Some ?h"
    by (rule destroy_loop_correct[OF hw r(2) _ r(5)]) (use r(7,10) in auto)
  have w: "heap_wf ?h" using hw by auto
  have "free (tab_entries tb) ?h = Some (without {tab_entries tb} ?h)"
    using r(2,10) by (intro free_is_without[OF w]) auto
  moreover have "free t (without {tab_entries tb} ?h) = Some (without {t} (without {tab_entries tb} ?h))"
    using r(1,10) w by (intro free_is_without) auto
  ultimately show ?thesis
    using l r(1,3)
    by (simp add: sigar_cache_destroy_def get_table_def bl without_without Un_commute insert_commute)
qed

lemma sigar_cache_new_correct:
  assumes "heap_wf h" and "0 < n" and "n < 2 ^ 31"
  shows "\<exists>t h'. sigar_cache_new n h = Some (t, h') \<and> cache_wf h' t \<and> cache_entry h' t = Map.empty
    \<and> same_on (dom (cells h)) h h' \<and> dom (cells h') - set (cache_blocks h' t) = dom (cells h)"
proof -
  define tb where "tb = \<lparr>tab_entries = Suc (brk h), tab_count = 0, tab_size = nat n\<rparr>"
  define h' where "h' = h\<lparr>brk := Suc (Suc (brk h)),
    cells := (cells h)(brk h \<mapsto> Table_cell tb, Suc (brk h) \<mapsto> Ptrs_cell (replicate (nat n) NULL))\<rparr>"
  have run: "sigar_cache_new n h = Some (brk h, h')"
    using assms(2) by (simp add: sigar_cache_new_def malloc_def new_eq store_def h'_def tb_def fun_upd_twist)
  have wf: "heap_wf h'"
    using assms(1) by (rule heap_wf_change) (auto simp: h'_def split: if_splits)
  have "placed (replicate (nat n) [])" by (simp add: placed_def)
  moreover have "nat n < 2 ^ 31" using assms(3) by (simp add: nat_less_iff)
  ultimately have rep: "cache_rep h' (brk h) tb (replicate (nat n) NULL) (replicate (nat n) [])"
    using assms(2) by (simp add: cache_rep_def h'_def tb_def list_all2_conv_all_nth)
  note c = cache_rep_chains[OF wf rep]
  have "dom (cells h') - set (cache_blocks h' (brk h)) = dom (cells h)"
    unfolding c(2) using heap_wf_fresh[OF assms(1)] heap_wf_ge[OF assms(1), of "Suc (brk h)"]
    by (auto simp: tb_def h'_def split: if_splits)
  moreover have "same_on (dom (cells h)) h h'"
    using heap_wf_less[OF assms(1)] by (force simp: same_on_def h'_def)
  moreover have "cache_entry h' (brk h) = Map.empty" by (simp add: cache_entry_def c(1))
  ultimately show ?thesis using run sigar_cache_wfI[OF wf rep] by blast
qed

section \<open>What the users of the table rely on\<close>

text \<open>
  The part of the contract that the code around the table uses: a search returns the entry of its
  key, and asking for a key gives it an entry without moving the entries of other keys. Pointers
  that were handed out stay good, and so does everything that is not part of the table.
\<close>

locale entry_table =
  fixes wf :: "heap \<Rightarrow> addr \<Rightarrow> bool" and room :: "heap \<Rightarrow> addr \<Rightarrow> bool"
    and entry_at :: "heap \<Rightarrow> addr \<Rightarrow> nat \<rightharpoonup> addr" and blocks :: "heap \<Rightarrow> addr \<Rightarrow> addr list"
    and lookup :: "addr \<Rightarrow> nat \<Rightarrow> heap \<Rightarrow> addr option"
    and obtain_entry :: "addr \<Rightarrow> nat \<Rightarrow> heap \<Rightarrow> (addr \<times> heap) option"
  assumes lookup_eq: "wf h t \<Longrightarrow>
      lookup t key h = Some (case entry_at h t key of None \<Rightarrow> NULL | Some a \<Rightarrow> a)"
    and obtain_defined: "wf h t \<Longrightarrow> room h t \<Longrightarrow> \<exists>a h'. obtain_entry t key h = Some (a, h')"
    and obtain_wf: "wf h t \<Longrightarrow> room h t \<Longrightarrow> obtain_entry t key h = Some (a, h') \<Longrightarrow> wf h' t"
    and obtain_entry_at: "wf h t \<Longrightarrow> room h t \<Longrightarrow> obtain_entry t key h = Some (a, h') \<Longrightarrow>
      entry_at h' t = (entry_at h t)(key \<mapsto> a)"
    and obtain_present: "wf h t \<Longrightarrow> room h t \<Longrightarrow> entry_at h t key = Some b \<Longrightarrow>
      obtain_entry t key h = Some (b, h)"
    and obtain_frame: "wf h t \<Longrightarrow> room h t \<Longrightarrow> obtain_entry t key h = Some (a, h') \<Longrightarrow>
      same_on (dom (cells h) - set (blocks h t)) h h'"
begin

lemma lookup_after_obtain:
  assumes "wf h t" and "room h t" and "obtain_entry t key h = Some (a, h')"
  shows "lookup t k h' = (if k = key then Some a else lookup t k h)"
  using assms lookup_eq[of h t] lookup_eq[OF obtain_wf[OF assms]] obtain_entry_at[OF assms] by auto

lemma obtain_again:
  assumes "wf h t" and "room h t" and "obtain_entry t key h = Some (a, h')" and "room h' t"
  shows "obtain_entry t key h' = Some (a, h')"
  using obtain_entry_at[OF assms(1-3)] obtain_present[OF obtain_wf[OF assms(1-3)] assms(4)] by simp

end

abbreviation cache_has_room :: "heap \<Rightarrow> addr \<Rightarrow> bool" where
  "cache_has_room h t \<equiv> cache_number h t < 2 ^ 30"

interpretation sc: entry_table cache_wf cache_has_room cache_entry cache_blocks
  sigar_cache_find sigar_cache_get
proof
  fix h t key a h' b
  assume wf: "cache_wf h t"
  show "sigar_cache_find t key h = Some (case cache_entry h t key of None \<Rightarrow> NULL | Some a \<Rightarrow> a)"
    using wf by (rule cache_find_entry)
  assume few: "cache_has_room h t"
  note g = cache_get_entry[OF wf few, of key]
  then show "\<exists>a h'. sigar_cache_get t key h = Some (a, h')" by blast
  show "sigar_cache_get t key h = Some (b, h)" if "cache_entry h t key = Some b" using g that by auto
  assume "sigar_cache_get t key h = Some (a, h')"
  moreover have "dom (cells h) - set (cache_blocks h t) \<subseteq> dom (cells h) - cache_nodes h t"
    using cache_nodes_blocks by blast
  ultimately show "cache_wf h' t" and "cache_entry h' t = (cache_entry h t)(key \<mapsto> a)"
    and "same_on (dom (cells h) - set (cache_blocks h t)) h h'"
    using g by (auto intro: same_on_mono)
qed

section \<open>Changes around the entries\<close>

text \<open>
  A table stays as it is when its header, its array and its entries do: what the values point to may
  change, as long as it is there.
\<close>

lemma ent_chain_weak:
  assumes "ent_chain h p es" and "\<forall>e \<in> set es. cells h' (fst e) = cells h (fst e)"
    and "set (owned es) \<subseteq> dom (cells h')"
  shows "ent_chain h' p es"
  using assms
proof (induction es arbitrary: p)
  case (Cons e es)
  then show ?case by (auto simp: ent_chain_Cons entry_owned_def)
qed simp

lemma cache_weak_frame:
  assumes wf: "cache_wf h t" and hw: "heap_wf h'"
    and same: "\<forall>b \<in> cache_nodes h t. cells h' b = cells h b" and live: "set (cache_blocks h t) \<subseteq> dom (cells h')"
  shows "cache_wf h' t" "bucket_chains h' t = bucket_chains h t" "cache_blocks h' t = cache_blocks h t"
proof -
  from wf obtain tb ps where rep: "cache_rep h t tb ps (bucket_chains h t)"
    and bl: "cache_blocks h t = t # tab_entries tb # owned (concat (bucket_chains h t))" by (rule cache_wfE)
  note r = cache_repD[OF rep]
  have nodes: "cache_nodes h t = {t, tab_entries tb} \<union> fst ` set (concat (bucket_chains h t))"
    using r(1) by (simp add: cache_nodes_def get_table_def)
  have "list_all2 (ent_chain h') ps (bucket_chains h t)"
    unfolding list_all2_conv_all_nth
  proof (intro conjI allI impI)
    show "length ps = length (bucket_chains h t)" using r(7) by (rule list_all2_lengthD)
    fix i assume i: "i < length ps"
    then have i': "i < length (bucket_chains h t)" using r(7) by (simp add: list_all2_lengthD[symmetric])
    have "set (bucket_chains h t ! i) \<subseteq> set (concat (bucket_chains h t))"
      unfolding set_concat using nth_mem[OF i'] by blast
    then have "fst ` set (bucket_chains h t ! i) \<subseteq> cache_nodes h t"
      unfolding nodes by (intro le_supI2 image_mono)
    then have "\<forall>e \<in> set (bucket_chains h t ! i). cells h' (fst e) = cells h (fst e)"
      using same by blast
    moreover have "set (owned (bucket_chains h t ! i)) \<subseteq> dom (cells h')"
      using owned_concat_nth[OF i'] live bl by auto
    ultimately show "ent_chain h' (ps ! i) (bucket_chains h t ! i)"
      by (rule ent_chain_weak[OF list_all2_nthD[OF r(7) i]])
  qed
  moreover have "cells h' t = cells h t" "cells h' (tab_entries tb) = cells h (tab_entries tb)"
    using same nodes by auto
  ultimately have rep': "cache_rep h' t tb ps (bucket_chains h t)"
    using rep unfolding cache_rep_def by simp
  show "cache_wf h' t" using hw rep' by (rule sigar_cache_wfI)
  show "bucket_chains h' t = bucket_chains h t" using hw rep' by (rule cache_rep_chains)
  show "cache_blocks h' t = cache_blocks h t" using cache_rep_chains(2)[OF hw rep'] bl by simp
qed

lemma cache_blocks_live: "cache_wf h t \<Longrightarrow> set (cache_blocks h t) \<subseteq> dom (cells h)"
proof -
  assume "cache_wf h t"
  then obtain tb ps where rep: "cache_rep h t tb ps (bucket_chains h t)"
    and bl: "cache_blocks h t = t # tab_entries tb # owned (concat (bucket_chains h t))" by (rule cache_wfE)
  show ?thesis using chains_live[OF cache_repD(7)[OF rep]] cache_repD(1,2)[OF rep] by (auto simp: bl)
qed

lemma cache_blocks_distinct: "cache_wf h t \<Longrightarrow> distinct (cache_blocks h t)"
  by (erule cache_wfE) (simp add: cache_rep_def)

text \<open>The whole table unchanged.\<close>

lemma cache_frame:
  assumes "cache_wf h t" and "heap_wf h'" and "same_on (set (cache_blocks h t)) h h'"
  shows "cache_wf h' t" "bucket_chains h' t = bucket_chains h t" "cache_blocks h' t = cache_blocks h t"
proof -
  have s: "\<forall>b \<in> cache_nodes h t. cells h' b = cells h b"
    using assms(3) cache_nodes_blocks by (auto simp: same_on_def subset_iff)
  have l: "set (cache_blocks h t) \<subseteq> dom (cells h')"
    using cache_blocks_live[OF assms(1)] assms(3) by (force simp: same_on_def)
  show "cache_wf h' t" "bucket_chains h' t = bucket_chains h t" "cache_blocks h' t = cache_blocks h t"
    by (rule cache_weak_frame[OF assms(1,2) s l])+
qed

lemma distinct_fst_owned: "distinct (owned es) \<Longrightarrow> distinct (map fst es)"
proof (induction es)
  case (Cons e es)
  have "fst ` set es \<subseteq> set (owned es)" using fst_in_owned by blast
  then show ?case using Cons by (auto simp: entry_owned_def)
qed simp

text \<open>\<open>entry->value = v\<close> for an entry that had no value.\<close>

definition with_value :: "addr \<Rightarrow> addr \<Rightarrow> (nat \<times> addr) entry \<Rightarrow> (nat \<times> addr) entry" where
  "with_value a v e = (if fst e = a then (a, (ekey e, v), [v]) else e)"

lemma with_value_simps [simp]: "fst (with_value a v e) = fst e" "ekey (with_value a v e) = ekey e"
  by (simp_all add: with_value_def)

lemma ent_chain_with_value:
  assumes "ent_chain h p es" and "cells h a = Some (Ent_cell c)" and "v \<noteq> NULL" and "v \<in> dom (cells h)"
  shows "ent_chain (h\<lparr>cells := (cells h)(a \<mapsto> Ent_cell (c\<lparr>ent_value := v\<rparr>))\<rparr>) p (map (with_value a v) es)"
  using assms(1)
proof (induction es arbitrary: p)
  case (Cons e es)
  then show ?case using assms(2-4) by (auto simp: ent_chain_Cons with_value_def)
qed simp

lemma with_value_split:
  assumes "distinct (owned es)" and "e \<in> set es" and "fst e = a" and "snd (snd e) = []"
  shows "mset (owned (map (with_value a v) es)) = add_mset v (mset (owned es))"
  using assms
proof (induction es)
  case (Cons e' es)
  show ?case
  proof (cases "fst e' = a")
    case True
    then have "e' = e" using Cons.prems by (auto simp: entry_owned_def dest: fst_in_owned)
    moreover have "map (with_value a v) es = es"
    proof (rule map_idI)
      fix y assume "y \<in> set es"
      then have "fst y \<noteq> a" using fst_in_owned[of y es] Cons.prems(1) True by (auto simp: entry_owned_def)
      then show "with_value a v y = y" by (simp add: with_value_def)
    qed
    moreover have "entry_owned (with_value a v e) = [a, v]" "entry_owned e = [a]"
      using Cons.prems(3,4) by (simp_all add: with_value_def entry_owned_def)
    ultimately show ?thesis by simp
  next
    case False
    then show ?thesis using Cons by (auto simp: with_value_def)
  qed
qed simp

lemma map_of_override:
  "key \<in> k ` set es \<Longrightarrow>
   map_of (map (\<lambda>e. (k e, if k e = key then v else g e)) es) = (map_of (map (\<lambda>e. (k e, g e)) es))(key \<mapsto> v)"
proof (induction es)
  case (Cons e es)
  show ?case
  proof (cases "key \<in> k ` set es")
    case True
    then show ?thesis using Cons.IH by (auto simp: fun_upd_twist)
  next
    case False
    then have "map (\<lambda>e. (k e, if k e = key then v else g e)) es = map (\<lambda>e. (k e, g e)) es"
      by (intro map_cong) auto
    then show ?thesis using False Cons.prems by (simp only: list.map map_of.simps fst_conv snd_conv) auto
  qed
qed simp

lemma cache_set_value:
  assumes wf: "cache_wf h t" and e: "cache_entry h t key = Some a" and z: "cache_value h t key = Some NULL"
    and v: "v \<noteq> NULL" "v \<in> dom (cells h)" "v \<notin> set (cache_blocks h t)" and c: "cells h a = Some (Ent_cell c)"
  defines "h' \<equiv> h\<lparr>cells := (cells h)(a \<mapsto> Ent_cell (c\<lparr>ent_value := v\<rparr>))\<rparr>"
  shows "cache_wf h' t" "cache_entry h' t = cache_entry h t" "cache_value h' t = (cache_value h t)(key \<mapsto> v)"
    "set (cache_blocks h' t) = insert v (set (cache_blocks h t))"
proof -
  from wf obtain tb ps where hw: "heap_wf h" and rep: "cache_rep h t tb ps (bucket_chains h t)"
    and bl: "cache_blocks h t = t # tab_entries tb # owned (concat (bucket_chains h t))" by (rule cache_wfE)
  let ?es = "concat (bucket_chains h t)" and ?bs = "map (map (with_value a v)) (bucket_chains h t)"
  note r = cache_repD[OF rep]
  obtain x where x: "x \<in> set ?es" "ekey x = key" "fst x = a" using e cache_entry_iff(1)[OF wf] by blast
  have uniq: "y = x" if "y \<in> set ?es" "ekey y = key" for y
    using that x(1,2) r(9) by (metis distinct_map inj_on_def)
  have xv: "snd (entry_value x) = NULL"
  proof -
    have d: "distinct (map fst (map entry_value ?es))" using r(9) by (simp add: o_def)
    have "entry_value x \<in> set (map entry_value ?es)" using x(1) by auto
    then have "cache_value h t key = Some (snd (entry_value x))"
      unfolding cache_value_def using d x(2) by (metis map_of_eq_Some_iff prod.collapse)
    then show ?thesis using z by simp
  qed
  have xo: "snd (snd x) = []"
  proof -
    obtain b where "b \<in> set (bucket_chains h t)" "x \<in> set b" using x(1) by auto
    then obtain p where "ent_chain h p b" using r(7) by (auto simp: list_all2_conv_all_nth in_set_conv_nth)
    then show ?thesis
      using \<open>x \<in> set b\<close> xv
    proof (induction b arbitrary: p)
      case (Cons y b)
      then show ?case by (auto simp: ent_chain_Cons)
    qed simp
  qed
  have es': "concat ?bs = map (with_value a v) ?es" by (simp add: map_concat)
  have m: "mset (owned (concat ?bs)) = add_mset v (mset (owned ?es))"
    unfolding es' using r(10) x(1,3) xo by (intro with_value_split) auto
  then have "mset (owned (concat ?bs)) = mset (v # owned ?es)" by simp
  note m' = mset_eq_setD[OF this] mset_eq_imp_distinct_iff[OF this]
  have ne: "a \<noteq> t" "a \<noteq> tab_entries tb" using r(10) fst_in_owned[OF x(1)] x(3) by auto
  have hw': "heap_wf h'" using hw by (rule heap_wf_dom) (use c in \<open>auto simp: h'_def\<close>)
  have "list_all2 (ent_chain h') ps ?bs"
    unfolding list_all2_map2 using r(7)
    by (rule list_all2_mono) (simp add: h'_def ent_chain_with_value[OF _ c v(1,2)])
  moreover have "placed ?bs" using r(8) by (auto simp: placed_def)
  moreover have "map ekey (concat ?bs) = map ekey ?es" by (simp add: es' o_def)
  moreover have "length (concat ?bs) = length ?es" by (simp only: es' length_map)
  moreover have "distinct (t # tab_entries tb # owned (concat ?bs))"
    using m' r(10) v(3) by (auto simp: bl)
  ultimately have rep': "cache_rep h' t tb ps ?bs"
    using r(1-6,9) ne unfolding cache_rep_def by (auto simp: h'_def)
  show "cache_wf h' t" using hw' rep' by (rule sigar_cache_wfI)
  note ch = cache_rep_chains[OF hw' rep']
  show "set (cache_blocks h' t) = insert v (set (cache_blocks h t))" using m'(1) by (auto simp: ch(2) bl)
  show "cache_entry h' t = cache_entry h t" by (simp add: cache_entry_def ch(1) es' o_def)
  have "map entry_value (map (with_value a v) ?es) =
      map (\<lambda>e. (ekey e, if ekey e = key then v else snd (entry_value e))) ?es"
  proof (simp only: map_map, rule map_cong[OF refl])
    fix y assume y: "y \<in> set ?es"
    have "fst y = a \<longleftrightarrow> ekey y = key"
    proof
      assume "fst y = a"
      have "distinct (map fst ?es)" using r(10) by (intro distinct_fst_owned) simp
      then have "y = x" using \<open>fst y = a\<close> x y by (metis distinct_map inj_on_def)
      then show "ekey y = key" using x by simp
    qed (use uniq[OF y] x in auto)
    then show "(entry_value \<circ> with_value a v) y = (ekey y, if ekey y = key then v else snd (entry_value y))"
      by (simp add: with_value_def)
  qed
  then have "map_of (map entry_value (concat ?bs)) =
      map_of (map (\<lambda>e. (ekey e, if ekey e = key then v else snd (entry_value e))) ?es)"
    unfolding es' by (simp only:)
  also have "\<dots> = (map_of (map (\<lambda>e. (ekey e, snd (entry_value e))) ?es))(key \<mapsto> v)"
    using x(1,2) by (intro map_of_override) blast
  finally show "cache_value h' t = (cache_value h t)(key \<mapsto> v)"
    unfolding cache_value_def ch(1) entry_value_pair[symmetric] .
qed

text \<open>Where the entries and their values are: the values are no nodes, and no two keys share one.\<close>

lemma owned_values:
  assumes "distinct (owned es)" and "e \<in> set es" and "v \<in> set (snd (snd e))"
  shows "v \<notin> fst ` set es" "e' \<in> set es \<Longrightarrow> v \<in> set (snd (snd e')) \<Longrightarrow> e' = e"
proof -
  have "v \<notin> fst ` set es \<and> (\<forall>e' \<in> set es. v \<in> set (snd (snd e')) \<longrightarrow> e' = e)"
    using assms
  proof (induction es)
    case (Cons x es)
    have o: "fst y \<in> set (owned es)" "set (snd (snd y)) \<subseteq> set (owned es)" if "y \<in> set es" for y
      using entry_in_owned[OF that] by (auto simp: entry_owned_def)
    show ?case
    proof (cases "e = x")
      case True
      then have "v \<noteq> fst x" "v \<notin> set (owned es)" using Cons.prems(1,3) by (auto simp: entry_owned_def)
      moreover have "v \<notin> fst ` set es" using calculation(2) o(1) by auto
      moreover have "v \<notin> set (snd (snd y))" if "y \<in> set es" for y using calculation(2) o(2)[OF that] by blast
      ultimately show ?thesis using True by auto
    next
      case False
      then have e: "e \<in> set es" using Cons.prems(2) by simp
      then have "v \<in> set (owned es)" using Cons.prems(3) o(2) by blast
      then have "v \<notin> set (entry_owned x)" using Cons.prems(1) by auto
      moreover have "v \<notin> fst ` set es \<and> (\<forall>e' \<in> set es. v \<in> set (snd (snd e')) \<longrightarrow> e' = e)"
        using Cons.prems(1,3) e by (intro Cons.IH) simp_all
      ultimately show ?thesis by (simp add: entry_owned_def)
    qed
  qed simp
  then show "v \<notin> fst ` set es" "e' \<in> set es \<Longrightarrow> v \<in> set (snd (snd e')) \<Longrightarrow> e' = e" by auto
qed

lemma ent_chain_cell:
  assumes "ent_chain h p es" and "e \<in> set es"
  shows "(\<exists>q. cells h (fst e) = Some (Ent_cell \<lparr>ent_next = q, ent_id = ekey e, ent_value = snd (entry_value e)\<rparr>))
    \<and> snd (snd e) = (if snd (entry_value e) = NULL then [] else [snd (entry_value e)])"
  using assms by (induction es arbitrary: p) (auto simp: ent_chain_Cons)

lemma cache_value_iff:
  assumes "cache_wf h t"
  shows "cache_value h t key = Some v \<longleftrightarrow>
    (\<exists>e \<in> set (concat (bucket_chains h t)). ekey e = key \<and> snd (entry_value e) = v)"
proof -
  from assms obtain tb ps where "cache_rep h t tb ps (bucket_chains h t)" by (rule cache_wfE)
  then have d: "distinct (map fst (map entry_value (concat (bucket_chains h t))))"
    by (simp add: cache_rep_def o_def)
  show ?thesis unfolding cache_value_def map_of_eq_Some_iff[OF d] by force
qed

lemma cache_value_None: "cache_value h t key = None \<longleftrightarrow> cache_entry h t key = None"
  by (simp add: cache_value_def cache_entry_def map_of_eq_None_iff image_image)

lemma cache_number_card:
  assumes "cache_wf h t"
  shows "cache_number h t = card (dom (cache_value h t))"
proof -
  from assms obtain tb ps where "cache_rep h t tb ps (bucket_chains h t)" by (rule cache_wfE)
  then have "distinct (map fst (map entry_value (concat (bucket_chains h t))))" by (simp add: cache_rep_def o_def)
  from distinct_card[OF this] show ?thesis
    by (simp add: cache_number_def cache_value_def dom_map_of_conv_image_fst image_image)
qed

lemma cache_chain_cell:
  assumes "cache_wf h t" and "e \<in> set (concat (bucket_chains h t))"
  shows "(\<exists>q. cells h (fst e) = Some (Ent_cell \<lparr>ent_next = q, ent_id = ekey e, ent_value = snd (entry_value e)\<rparr>))
    \<and> snd (snd e) = (if snd (entry_value e) = NULL then [] else [snd (entry_value e)])"
proof -
  from assms(1) obtain tb ps where r: "cache_rep h t tb ps (bucket_chains h t)" by (rule cache_wfE)
  obtain b where "b \<in> set (bucket_chains h t)" "e \<in> set b" using assms(2) by auto
  moreover then obtain p where "ent_chain h p b"
    using cache_repD(7)[OF r] by (auto simp: list_all2_conv_all_nth in_set_conv_nth)
  ultimately show ?thesis using ent_chain_cell by blast
qed

lemma cache_entry_cell:
  assumes wf: "cache_wf h t" and "cache_entry h t key = Some a"
  shows "\<exists>c. cells h a = Some (Ent_cell c) \<and> cache_value h t key = Some (ent_value c) \<and> a \<in> cache_nodes h t"
proof -
  from assms obtain e where e: "e \<in> set (concat (bucket_chains h t))" "ekey e = key" "fst e = a"
    using cache_entry_iff(1)[OF wf] by blast
  from cache_chain_cell[OF wf e(1)] e(3) obtain q where
    "cells h a = Some (Ent_cell \<lparr>ent_next = q, ent_id = ekey e, ent_value = snd (entry_value e)\<rparr>)" by auto
  moreover have "cache_value h t key = Some (snd (entry_value e))" using cache_value_iff[OF wf] e by blast
  moreover have "a \<in> cache_nodes h t"
    using wf imageI[OF e(1), of fst] e(3) unfolding cache_nodes_def
    by (elim cache_wfE) (simp add: cache_rep_def get_table_def del: set_concat)
  ultimately show ?thesis by auto
qed

lemma cache_value_block:
  assumes wf: "cache_wf h t" and v: "cache_value h t key = Some v" "v \<noteq> NULL"
  shows "v \<in> set (cache_blocks h t)" "v \<notin> cache_nodes h t" "cache_value h t k = Some v \<Longrightarrow> k = key"
proof -
  from wf obtain tb ps where r: "cache_rep h t tb ps (bucket_chains h t)"
    and bl: "cache_blocks h t = t # tab_entries tb # owned (concat (bucket_chains h t))" by (rule cache_wfE)
  note d = cache_repD(10)[OF r]
  obtain e where e: "e \<in> set (concat (bucket_chains h t))" "ekey e = key" "snd (entry_value e) = v"
    using v(1) cache_value_iff[OF wf] by blast
  have ev: "v \<in> set (snd (snd e))" using cache_chain_cell[OF wf e(1)] e(3) v(2) by simp
  then have o: "v \<in> set (owned (concat (bucket_chains h t)))"
    using entry_in_owned[OF e(1)] by (auto simp: entry_owned_def)
  then show "v \<in> set (cache_blocks h t)" by (simp add: bl)
  have "distinct (owned (concat (bucket_chains h t)))" using d by simp
  note u = owned_values[OF this e(1) ev]
  show "v \<notin> cache_nodes h t"
  proof -
    have "cache_nodes h t = {t, tab_entries tb} \<union> fst ` set (concat (bucket_chains h t))"
      using cache_repD(1)[OF r] by (simp add: cache_nodes_def get_table_def)
    moreover have "v \<noteq> t" "v \<noteq> tab_entries tb" using o d by auto
    ultimately show ?thesis using u(1) by (simp only: Un_iff insert_iff empty_iff) blast
  qed
  show "k = key" if vk: "cache_value h t k = Some v"
  proof -
    obtain e' where e': "e' \<in> set (concat (bucket_chains h t))" "ekey e' = k" "snd (entry_value e') = v"
      using vk cache_value_iff[OF wf, of k v] by blast
    then have "v \<in> set (snd (snd e'))" using cache_chain_cell[OF wf e'(1)] v(2) by simp
    from u(2)[OF e'(1) this] show ?thesis using e e' by simp
  qed
qed

section \<open>Properties\<close>

text \<open>
  (C10) \<open>sigar_cache_get\<close> implements a map. It returns the entry of the key, a new one whose value
  is the null pointer when the key had none, adds no other entry and keeps every entry of another
  key at its address, also when it rehashes the table. Searches for other keys are not affected,
  and no memory changes but the table's header, array and entries: what the values point to
  stays. No block is lost: every new block belongs to the table, every block it gives up is freed.
\<close>

theorem cache_get_refines:
  assumes "cache_wf h t" and "cache_number h t < 2 ^ 30"
  shows "\<exists>a h'. sigar_cache_get t key h = Some (a, h') \<and> cache_wf h' t
    \<and> cache_entry h' t = (cache_entry h t)(key \<mapsto> a)
    \<and> cache_value h' t = (if key \<in> dom (cache_entry h t) then cache_value h t
                          else (cache_value h t)(key \<mapsto> NULL))
    \<and> (\<forall>k. sigar_cache_find t k h' = (if k = key then Some a else sigar_cache_find t k h))
    \<and> same_on (dom (cells h) - cache_nodes h t) h h'
    \<and> dom (cells h') - set (cache_blocks h' t) = dom (cells h) - set (cache_blocks h t)"
proof -
  from cache_get_entry[OF assms, of key] obtain a h' where
    g: "sigar_cache_get t key h = Some (a, h')" "cache_wf h' t"
      "cache_entry h' t = (cache_entry h t)(key \<mapsto> a)"
      "cache_value h' t = (if key \<in> dom (cache_entry h t) then cache_value h t
                          else (cache_value h t)(key \<mapsto> NULL))"
      "same_on (dom (cells h) - cache_nodes h t) h h'"
      "dom (cells h') - set (cache_blocks h' t) = dom (cells h) - set (cache_blocks h t)" by blast
  with sc.lookup_after_obtain[OF assms g(1)] show ?thesis by auto
qed

definition empty_heap :: heap where
  "empty_heap = \<lparr>cells = Map.empty, brk = 1\<rparr>"

lemma heap_wf_empty [simp]: "heap_wf empty_heap"
  by (simp add: heap_wf_def empty_heap_def)

lemma cache_number_empty: "cache_wf h t \<Longrightarrow> cache_entry h t = Map.empty \<Longrightarrow> cache_number h t = 0"
  by (simp add: cache_entry_def cache_number_def)

text \<open>A table of one chain takes the key 5.\<close>

theorem cache_get_refines_witness:
  "\<exists>t h a h1. sigar_cache_new 1 empty_heap = Some (t, h) \<and> cache_wf h t
     \<and> sigar_cache_get t 5 h = Some (a, h1)
     \<and> sigar_cache_find t 5 h1 = Some a \<and> sigar_cache_find t 7 h1 = Some NULL"
proof -
  from sigar_cache_new_correct[OF heap_wf_empty, of 1] obtain t h where
    n: "sigar_cache_new 1 empty_heap = Some (t, h)" "cache_wf h t" "cache_entry h t = Map.empty"
    by auto
  have "sigar_cache_find t 7 h = Some NULL" using cache_find_entry[OF n(2)] n(3) by simp
  then show ?thesis
    using cache_get_refines[OF n(2), of 5] cache_number_empty[OF n(2,3)] n(1,2) by auto
qed

text \<open>
  Destroying a table is defined, releases the table, its array, every entry and every value
  exactly once and nothing else.
\<close>

theorem cache_destroy_releases_all:
  assumes "cache_wf h t"
  shows "sigar_cache_destroy t h = Some (without (set (cache_blocks h t)) h)"
  using assms by (rule cache_destroy_without)

theorem cache_destroy_releases_all_witness:
  "\<exists>t h. sigar_cache_new 3 empty_heap = Some (t, h) \<and> cache_wf h t
     \<and> sigar_cache_destroy t h = Some (without (set (cache_blocks h t)) h)"
proof -
  from sigar_cache_new_correct[OF heap_wf_empty, of 3] obtain t h where
    n: "sigar_cache_new 3 empty_heap = Some (t, h)" "cache_wf h t" by auto
  with cache_destroy_releases_all[OF n(2)] show ?thesis by blast
qed

end
