(* ===== verification/Sigar_Linux.thy ===== *)
theory Sigar_Linux
  imports Sigar_Text Sigar_Types
begin

text \<open>
  What \<open>sigar\<close> reads from \<open>/proc\<close> on Linux (\<open>os/linux/linux_sigar.c\<close>): processor times, network
  interface counters, memory and swap. The agent's \<open>check_cpu.lua\<close> and \<open>check_net.lua\<close> report the
  first two. A file is the text the kernel gives for its path; the theorems say that for a file in
  the kernel's format the numbers returned are the numbers printed in it.
\<close>

section \<open>Lines of a file\<close>

text \<open>The pieces \<open>fgets\<close> cuts a stream into with a buffer of \<open>BUFSIZ\<close> characters.\<close>

function fgets_lines :: "string \<Rightarrow> string list" where
  "fgets_lines fp = (case fgets BUFSIZ fp of None \<Rightarrow> [] | Some (l, fp) \<Rightarrow> l # fgets_lines fp)"
  by pat_completeness auto
termination
  by (relation "measure length") (auto dest: fgets_shorter[rotated])

declare fgets_lines.simps [simp del]

text \<open>\<open>fopen\<close>: the stream, or \<open>errno\<close>. A file that cannot be read gives no line.\<close>

definition fopen :: "files \<Rightarrow> string \<Rightarrow> int + string" where
  "fopen fs path = (case fs path of No_file e \<Rightarrow> Inl e | Unreadable e \<Rightarrow> Inr [] | Bytes b \<Rightarrow> Inr b)"

section \<open>Processor times\<close>

record sigar_cpu_t =
  cpu_user :: nat
  cpu_sys :: nat
  cpu_nice :: nat
  cpu_idle :: nat
  cpu_wait :: nat
  cpu_irq :: nat
  cpu_soft_irq :: nat
  cpu_stolen :: nat
  cpu_total :: nat

definition zero_cpu :: sigar_cpu_t where
  "zero_cpu = \<lparr>cpu_user = 0, cpu_sys = 0, cpu_nice = 0, cpu_idle = 0, cpu_wait = 0, cpu_irq = 0,
     cpu_soft_irq = 0, cpu_stolen = 0, cpu_total = 0\<rparr>"

text \<open>
  \<open>field += SIGAR_TICK2MSEC(sigar_strtoull(ptr))\<close>: the field becomes a \<open>double\<close>, the milliseconds
  are added and the sum is converted back. The result is the new value and the advanced pointer.
\<close>

definition add_ticks :: "sigar_t \<Rightarrow> nat \<Rightarrow> string \<Rightarrow> (nat \<times> string) option" where
  "add_ticks s v ptr = do {
     let (t, ptr) = sigar_strtoull ptr;
     v \<leftarrow> to_u64 (double (double (of_nat v) + SIGAR_TICK2MSEC (ticks s) t));
     Some (v, ptr)
   }"

definition get_cpu_metrics :: "sigar_t \<Rightarrow> sigar_cpu_t \<Rightarrow> string \<Rightarrow> sigar_cpu_t option" where
  "get_cpu_metrics s cpu line = do {
     let ptr = sigar_skip_token line;
     (v, ptr) \<leftarrow> add_ticks s (cpu_user cpu) ptr;
     let cpu = cpu\<lparr>cpu_user := v\<rparr>;
     (v, ptr) \<leftarrow> add_ticks s (cpu_nice cpu) ptr;
     let cpu = cpu\<lparr>cpu_nice := v\<rparr>;
     (v, ptr) \<leftarrow> add_ticks s (cpu_sys cpu) ptr;
     let cpu = cpu\<lparr>cpu_sys := v\<rparr>;
     (v, ptr) \<leftarrow> add_ticks s (cpu_idle cpu) ptr;
     let cpu = cpu\<lparr>cpu_idle := v\<rparr>;
     (cpu, ptr) \<leftarrow>
       (if char_at ptr = CHR '' '' then do {
          (v, ptr) \<leftarrow> add_ticks s (cpu_wait cpu) ptr;
          let cpu = cpu\<lparr>cpu_wait := v\<rparr>;
          (v, ptr) \<leftarrow> add_ticks s (cpu_irq cpu) ptr;
          let cpu = cpu\<lparr>cpu_irq := v\<rparr>;
          (v, ptr) \<leftarrow> add_ticks s (cpu_soft_irq cpu) ptr;
          Some (cpu\<lparr>cpu_soft_irq := v\<rparr>, ptr)
        } else Some (cpu, ptr));
     (cpu, ptr) \<leftarrow>
       (if char_at ptr = CHR '' '' then do {
          (v, ptr) \<leftarrow> add_ticks s (cpu_stolen cpu) ptr;
          Some (cpu\<lparr>cpu_stolen := v\<rparr>, ptr)
        } else Some (cpu, ptr));
     Some (cpu\<lparr>cpu_total := (cpu_user cpu + cpu_nice cpu + cpu_sys cpu + cpu_idle cpu + cpu_wait cpu
       + cpu_irq cpu + cpu_soft_irq cpu + cpu_stolen cpu) mod 2 ^ 64\<rparr>)
   }"

text \<open>The status and what the caller's structure holds afterwards.\<close>

definition sigar_cpu_get :: "files \<Rightarrow> sigar_t \<Rightarrow> sigar_cpu_t \<Rightarrow> (int \<times> sigar_cpu_t) option" where
  "sigar_cpu_get fs s cpu = do {
     r \<leftarrow> sigar_file2str fs ''/proc/stat'' BUFSIZ;
     (case r of
        Inl status \<Rightarrow> Some (status, cpu)
      | Inr buffer \<Rightarrow> do {
          cpu \<leftarrow> get_cpu_metrics s zero_cpu buffer;
          Some (SIGAR_OK, cpu)
        })
   }"

text \<open>
  \<open>sigar_cpu_core_count\<close> and \<open>sigar_cpu_core_rollup\<close>; the argument is the \<open>cpuid\<close> instruction, of
  which registers \<open>ebx\<close> and \<open>edx\<close> are used. Messages of the library's own log go nowhere, since
  the agent installs no receiver for them.
\<close>

type_synonym cpuid = "nat \<Rightarrow> nat \<times> nat"

definition sigar_cpu_core_count :: "cpuid \<Rightarrow> sigar_t \<Rightarrow> int \<times> sigar_t" where
  "sigar_cpu_core_count cid s =
     (let s = (if lcpu s = -1 then
                 let s = s\<lparr>lcpu := 1\<rparr>; vendor = fst (cid 0) in
                 if vendor = 0x756e6547 \<or> vendor = 0x68747541
                 then (let (ebx, edx) = cid 1 in
                       if edx div 2 ^ 28 mod 2 = 1 then s\<lparr>lcpu := int (ebx div 2 ^ 16 mod 2 ^ 8)\<rparr> else s)
                 else s
               else s)
      in (lcpu s, s))"

definition sigar_cpu_core_rollup :: "cpuid \<Rightarrow> sigar_t \<Rightarrow> bool \<times> sigar_t" where
  "sigar_cpu_core_rollup cid s =
     (let log_rollup = log_level s \<ge> 4 \<and> lcpu s = -1;
          (n, s) = sigar_cpu_core_count cid s
      in (\<not> cpu_list_cores s \<and> log_rollup \<and> lcpu s > 1, s))"

record sigar_cpu_list_t =
  cl_size :: nat
  cl_data :: "sigar_cpu_t list"

text \<open>
  \<open>number\<close> is the length of the list of entries in use; the array behind it has \<open>cl_size\<close> places.
\<close>

definition sigar_cpu_list_create :: sigar_cpu_list_t where
  "sigar_cpu_list_create = \<lparr>cl_size = 4, cl_data = []\<rparr>"

definition sigar_cpu_list_grow :: "sigar_cpu_list_t \<Rightarrow> sigar_cpu_list_t" where
  "sigar_cpu_list_grow cl = cl\<lparr>cl_size := cl_size cl + 4\<rparr>"

definition cpu_list_append :: "sigar_cpu_list_t \<Rightarrow> sigar_cpu_t \<Rightarrow> sigar_cpu_list_t option" where
  "cpu_list_append cl cpu =
     (if length (cl_data cl) < cl_size cl then Some (cl\<lparr>cl_data := cl_data cl @ [cpu]\<rparr>) else None)"

text \<open>One line of the file, the \<open>i\<close>-th that starts with \<open>cpu\<close>, and the loop over the lines.\<close>

definition cpu_list_line ::
  "sigar_t \<Rightarrow> bool \<Rightarrow> nat \<Rightarrow> string \<Rightarrow> sigar_cpu_list_t \<Rightarrow> sigar_cpu_list_t option" where
  "cpu_list_line s rollup i ptr cl =
     (if rollup \<and> int i mod lcpu s \<noteq> 0 then
        (if cl_data cl = [] then None
         else do {
           cpu \<leftarrow> get_cpu_metrics s (last (cl_data cl)) ptr;
           Some (cl\<lparr>cl_data := butlast (cl_data cl) @ [cpu]\<rparr>)
         })
      else do {
        let cl = (if length (cl_data cl) \<ge> cl_size cl then sigar_cpu_list_grow cl else cl);
        cpu \<leftarrow> get_cpu_metrics s zero_cpu ptr;
        cpu_list_append cl cpu
      })"

fun cpu_list_loop ::
  "sigar_t \<Rightarrow> bool \<Rightarrow> nat \<Rightarrow> string list \<Rightarrow> sigar_cpu_list_t \<Rightarrow> sigar_cpu_list_t option" where
  "cpu_list_loop s rollup i [] cl = Some cl"
| "cpu_list_loop s rollup i (l # ls) cl =
     (if strneq 3 l ''cpu'' then do {
        cl \<leftarrow> cpu_list_line s rollup i (cstr l) cl;
        cpu_list_loop s rollup (i + 1) ls cl
      } else Some cl)"

definition sigar_cpu_list_get ::
  "files \<Rightarrow> cpuid \<Rightarrow> sigar_t \<Rightarrow> (int \<times> sigar_cpu_list_t option \<times> sigar_t) option" where
  "sigar_cpu_list_get fs cid s =
     (let (rollup, s) = sigar_cpu_core_rollup cid s in
      case fopen fs ''/proc/stat'' of
        Inl e \<Rightarrow> Some (e, None, s)
      | Inr fp \<Rightarrow>
          (case fgets_lines fp of
             [] \<Rightarrow> None
           | first # ls \<Rightarrow> do {
               cl \<leftarrow> cpu_list_loop s rollup 0 ls sigar_cpu_list_create;
               cl \<leftarrow> (if cl_data cl = [] then do {
                         cpu \<leftarrow> get_cpu_metrics s zero_cpu (cstr first);
                         cpu_list_append cl cpu
                       } else Some cl);
               Some (SIGAR_OK, Some cl, s)
             }))"

section \<open>The kernel's text\<close>

text \<open>Numbers, each after a blank.\<close>

definition num_fields :: "nat list \<Rightarrow> string" where
  "num_fields xs = concat (map (\<lambda>x. CHR '' '' # show_nat x) xs)"

lemma fields_simps [simp]:
  "num_fields [] = []" "num_fields (x # xs) = CHR '' '' # show_nat x @ num_fields xs"
  by (simp_all add: num_fields_def)

lemma fields_append [simp]: "num_fields (xs @ ys) = num_fields xs @ num_fields ys"
  by (simp add: num_fields_def)

lemma ends_number_Nil [simp]: "ends_number []"
  by (simp add: ends_number_def)

lemma ends_number_Cons [simp]: "ends_number (c # r) \<longleftrightarrow> \<not> is_digit_of 10 c"
  by (simp add: ends_number_def)

lemma not_digit_blank [simp]:
  "\<not> is_digit_of b (CHR '' '')" "\<not> is_digit_of b LF" "\<not> is_digit_of b (CHR '':'')"
  by (simp_all add: is_digit_of_def digit_val_def)

lemma ends_number_fields [simp]: "ends_number (num_fields xs @ r) \<longleftrightarrow> xs \<noteq> [] \<or> ends_number r"
  by (cases xs) (simp_all add: ends_number_def is_digit_of_def digit_val_def)

lemma is_cstr_fields [simp]: "is_cstr (num_fields xs)"
  by (induction xs) auto

lemma isspace_blank [simp]: "isspace (CHR '' '')" "isspace LF"
  by (simp_all add: isspace_def)

lemma strtoull_spaces:
  "list_all isspace sp \<Longrightarrow> n < 2 ^ 64 \<Longrightarrow> ends_number r \<Longrightarrow>
   sigar_strtoull (sp @ CHR '' '' # show_nat n @ r) = (n, r)"
  using strtoull_show_nat[of "sp @ '' ''" n r] by (simp add: sigar_strtoull_def)

lemmas strtoull_field = strtoull_spaces[of "[]", simplified]

lemma skip_token_word:
  assumes "\<And>c. c \<in> set w \<Longrightarrow> \<not> isspace c" and "w \<noteq> []" and "r \<noteq> [] \<Longrightarrow> isspace (hd r)"
    and "list_all isspace sp"
  shows "sigar_skip_token (sp @ w @ r) = r"
proof -
  have "skip_space (sp @ w @ r) = w @ r"
    using assms(1,2,4) by (cases w) (simp_all add: skip_space_def list_all_iff dropWhile_append3)
  moreover have "dropWhile (\<lambda>c. \<not> isspace c) (w @ r) = r"
    using assms(1,3) by (cases r) (simp_all add: dropWhile_append3 dropWhile_append)
  ultimately show ?thesis by (simp add: sigar_skip_token_def)
qed

section \<open>Reading processor times\<close>

text \<open>Milliseconds per tick, when the tick rate divides 1000.\<close>

definition msec_per_tick :: "sigar_t \<Rightarrow> nat" where
  "msec_per_tick s = nat (1000 div ticks s)"

definition good_ticks :: "sigar_t \<Rightarrow> bool" where
  "good_ticks s \<longleftrightarrow> 0 < ticks s \<and> ticks s dvd 1000"

lemma good_ticks_pos: "good_ticks s \<Longrightarrow> 0 < msec_per_tick s"
proof -
  assume g: "good_ticks s"
  then have "ticks s \<le> 1000" by (auto simp: good_ticks_def intro: zdvd_imp_le)
  then show ?thesis using g by (simp add: good_ticks_def msec_per_tick_def pos_imp_zdiv_pos_iff)
qed

lemma add_ticks_spaces:
  assumes "good_ticks s" and "v + x * msec_per_tick s < 2 ^ 53" and "ends_number r" and "list_all isspace sp"
  shows "add_ticks s v (sp @ CHR '' '' # show_nat x @ r) = Some (v + x * msec_per_tick s, r)"
proof -
  have "x \<le> x * msec_per_tick s" using good_ticks_pos[OF assms(1)] by simp
  then have "x < 2 ^ 53" using assms(2) by linarith
  then have x: "x < 2 ^ 64" by simp
  have xk: "x * nat (1000 div ticks s) < 2 ^ 53" and v: "v < 2 ^ 53"
    using assms(2) by (auto simp: msec_per_tick_def)
  have "double (double (of_nat v) + SIGAR_TICK2MSEC (ticks s) x) =
      double (of_nat (v + x * msec_per_tick s))"
    using assms(1) tick2msec_exact[OF _ _ xk] double_exact[OF v]
    by (simp add: good_ticks_def msec_per_tick_def)
  also have "\<dots> = of_nat (v + x * msec_per_tick s)" using assms(2) by (rule double_exact)
  finally have eq: "double (double (of_nat v) + SIGAR_TICK2MSEC (ticks s) x) =
      of_nat (v + x * msec_per_tick s)" .
  have "v + x * msec_per_tick s < 2 ^ 64" using assms(2) by simp
  from to_u64_of_nat[OF this] show ?thesis
    unfolding add_ticks_def strtoull_spaces[OF assms(4) x assms(3)] Let_def prod.case eq by simp
qed

lemmas add_ticks_field = add_ticks_spaces[where sp = "[]", simplified]

text \<open>What a line of \<open>/proc/stat\<close> says: fields that an old kernel does not print are 0.\<close>

definition field :: "nat list \<Rightarrow> nat \<Rightarrow> nat" where
  "field xs j = (if j < length xs then xs ! j else 0)"

definition cpu_times :: "nat \<Rightarrow> nat list \<Rightarrow> sigar_cpu_t" where
  "cpu_times k xs =
     \<lparr>cpu_user = field xs 0 * k, cpu_sys = field xs 2 * k, cpu_nice = field xs 1 * k,
      cpu_idle = field xs 3 * k, cpu_wait = field xs 4 * k, cpu_irq = field xs 5 * k,
      cpu_soft_irq = field xs 6 * k, cpu_stolen = field xs 7 * k,
      cpu_total = sum_list (take 8 xs) * k\<rparr>"

text \<open>The three forms of the line: four fields, seven, or eight and more.\<close>

definition cpu_line_ok :: "sigar_t \<Rightarrow> nat list \<Rightarrow> bool" where
  "cpu_line_ok s xs \<longleftrightarrow> (length xs = 4 \<or> length xs = 7 \<or> 8 \<le> length xs)
     \<and> (\<forall>x \<in> set (take 8 xs). x * msec_per_tick s < 2 ^ 53)"

definition ends_line :: "string \<Rightarrow> bool" where
  "ends_line r \<longleftrightarrow> (case r of [] \<Rightarrow> True | c # _ \<Rightarrow> c = LF)"

lemma ends_line_number [simp]: "ends_line r \<Longrightarrow> ends_number r"
  by (cases r) (auto simp: ends_line_def ends_number_def is_digit_of_def digit_val_def)

lemma ends_line_char_at [simp]: "ends_line r \<Longrightarrow> char_at r \<noteq> CHR '' ''"
  by (cases r) (auto simp: ends_line_def char_at_def)

definition is_label :: "string \<Rightarrow> bool" where
  "is_label w \<longleftrightarrow> w \<noteq> [] \<and> (\<forall>c \<in> set w. \<not> isspace c \<and> c \<noteq> NUL)"

lemma cpu_metrics_fields:
  assumes g: "good_ticks s" and ok: "cpu_line_ok s xs" and r: "ends_line r"
    and l: "sigar_skip_token line = sp @ num_fields xs @ r" and sp: "list_all isspace sp"
  shows "get_cpu_metrics s zero_cpu line = Some (cpu_times (msec_per_tick s) xs)"
proof -
  let ?k = "msec_per_tick s"
  note add = add_ticks_field[OF g, of 0, simplified] add_ticks_spaces[OF g, of 0, simplified]
  obtain a b c d ys where xs: "xs = a # b # c # d # ys" and ys: "ys = [] \<or> 3 \<le> length ys"
  proof -
    have "4 \<le> length xs" using ok by (auto simp: cpu_line_ok_def)
    then obtain a b c d ys where "xs = a # b # c # d # ys"
      by (auto simp: numeral_eq_Suc Suc_le_length_iff)
    then show ?thesis using ok that by (auto simp: cpu_line_ok_def)
  qed
  have x: "a * ?k < 2 ^ 53" "b * ?k < 2 ^ 53" "c * ?k < 2 ^ 53" "d * ?k < 2 ^ 53"
    using ok by (simp_all add: xs cpu_line_ok_def)
  have small: "sum_list (take 8 xs) * ?k < 2 ^ 64"
  proof -
    have "sum_list (map (\<lambda>x. x * ?k) (take 8 xs)) \<le> sum_list (map (\<lambda>x. 2 ^ 53) (take 8 xs))"
      using ok by (intro sum_list_mono) (auto simp: cpu_line_ok_def less_imp_le)
    also have "\<dots> \<le> 8 * 2 ^ 53" by (simp add: sum_list_triv)
    finally show ?thesis by (simp add: sum_list_mult_const)
  qed
  show ?thesis
  proof (cases ys)
    case Nil
    then show ?thesis
      using x r small sp
      by (simp add: get_cpu_metrics_def l xs add zero_cpu_def cpu_times_def field_def add_mult_distrib)
  next
    case (Cons e zs)
    then obtain f h ws where ys: "ys = e # f # h # ws"
      using ys by (auto simp: numeral_eq_Suc Suc_le_length_iff)
    have y: "e * ?k < 2 ^ 53" "f * ?k < 2 ^ 53" "h * ?k < 2 ^ 53"
      using ok by (simp_all add: xs ys cpu_line_ok_def)
    show ?thesis
    proof (cases ws)
      case Nil
      then show ?thesis
        using x y r small sp
        by (simp add: get_cpu_metrics_def l xs ys add zero_cpu_def cpu_times_def field_def
            char_at_def[of "_ # _"] add_mult_distrib)
    next
      case (Cons i vs)
      then have "i * ?k < 2 ^ 53" using ok by (simp add: xs ys cpu_line_ok_def)
      then show ?thesis
        using x y r small sp Cons
        by (simp add: get_cpu_metrics_def l xs ys add zero_cpu_def cpu_times_def field_def
            char_at_def[of "_ # _"] add_mult_distrib)
    qed
  qed
qed

text \<open>A file as the kernel writes it: the sums, one line for each processor, other lines.\<close>

definition cpu_line :: "nat \<times> nat list \<Rightarrow> string" where
  "cpu_line p = ''cpu'' @ show_nat (fst p) @ num_fields (snd p)"

definition stat_text :: "nat list \<Rightarrow> nat list list \<Rightarrow> string \<Rightarrow> string" where
  "stat_text xs xss rest =
     ''cpu '' @ num_fields xs @ [LF] @ concat (map (\<lambda>p. cpu_line p @ [LF]) (enumerate 0 xss)) @ rest"

lemma fields_plain: "c \<in> set (num_fields xs) \<Longrightarrow> c = CHR '' '' \<or> isdigit c"
  by (induction xs) (auto dest: show_nat_plain)

lemma LF_fields [simp]: "LF \<notin> set (num_fields xs)" "LF \<notin> set (show_nat n)"
  using fields_plain[of LF xs] show_nat_plain(6)[of LF n] by (auto simp: isdigit_def)

lemma skip_label:
  assumes "ends_line r" and "list_all isspace sp"
  shows "sigar_skip_token (''cpu'' @ sp @ num_fields xs @ r) = sp @ num_fields xs @ r"
proof -
  have "sigar_skip_token ([] @ ''cpu'' @ (sp @ num_fields xs @ r)) = sp @ num_fields xs @ r"
  proof (rule skip_token_word)
    assume "sp @ num_fields xs @ r \<noteq> []"
    then show "isspace (hd (sp @ num_fields xs @ r))"
      using assms by (cases sp; cases xs; cases r) (auto simp: ends_line_def)
  qed (auto simp: isspace_def)
  then show ?thesis by simp
qed

lemma skip_cpu_number:
  assumes "ends_line r"
  shows "sigar_skip_token (cpu_line (i, xs) @ r) = num_fields xs @ r"
proof -
  have "sigar_skip_token ([] @ (''cpu'' @ show_nat i) @ (num_fields xs @ r)) = num_fields xs @ r"
  proof (rule skip_token_word)
    show "\<not> isspace c" if "c \<in> set (''cpu'' @ show_nat i)" for c
      using that show_nat_plain(1)[of c i] by (auto simp: isspace_def)
    assume "num_fields xs @ r \<noteq> []"
    then show "isspace (hd (num_fields xs @ r))"
      using assms by (cases xs; cases r) (auto simp: ends_line_def)
  qed auto
  then show ?thesis by (simp add: cpu_line_def)
qed

lemma fgets_lines_line:
  "LF \<notin> set l \<Longrightarrow> length l < 8191 \<Longrightarrow> fgets_lines (l @ LF # r) = (l @ [LF]) # fgets_lines r"
  by (subst fgets_lines.simps) (simp add: fgets_def fgets_take_line)

lemma fgets_lines_lines:
  "\<forall>p \<in> set ps. LF \<notin> set (f p) \<and> length (f p) < 8191 \<Longrightarrow>
   fgets_lines (concat (map (\<lambda>p. f p @ [LF]) ps) @ r) = map (\<lambda>p. f p @ [LF]) ps @ fgets_lines r"
  by (induction ps) (simp_all add: fgets_lines_line)

text \<open>A stream that does not start with a character has no line that starts with it.\<close>

lemma fgets_lines_hd:
  assumes "r \<noteq> []" and "fgets_lines r = l # ls"
  shows "l \<noteq> [] \<and> hd l = hd r"
proof -
  obtain l' r' where f: "fgets 8192 r = Some (l', r')"
    using assms(1) by (cases "fgets_take 8191 r") (simp add: fgets_def)
  then have "l' = l" using assms(2) by (subst (asm) fgets_lines.simps) simp
  moreover have t: "fgets_take (Suc 8190) r = (l', r')" using f by (auto simp: fgets_def split: if_splits)
  ultimately have "l \<noteq> []" and "r = l @ r'"
    using fgets_take_nonempty[OF t assms(1)] fgets_take_append[OF t] by auto
  then show ?thesis by auto
qed

lemma is_cstr_cpu_line [simp]: "is_cstr (cpu_line p)"
  by (simp add: cpu_line_def)

lemma LF_cpu_line [simp]: "LF \<notin> set (cpu_line p)"
  by (simp add: cpu_line_def)

lemma cpu_metrics_line:
  assumes "good_ticks s" and "cpu_line_ok s (snd p)"
  shows "get_cpu_metrics s zero_cpu (cpu_line p @ [LF]) = Some (cpu_times (msec_per_tick s) (snd p))"
  using cpu_metrics_fields[OF assms, of "[LF]" "cpu_line p @ [LF]" "[]"] skip_cpu_number[of "[LF]" "fst p" "snd p"]
  by (simp add: ends_line_def)

lemma cpu_metrics_first:
  assumes "good_ticks s" and "cpu_line_ok s xs" and "ends_line r"
  shows "get_cpu_metrics s zero_cpu (''cpu '' @ num_fields xs @ r) = Some (cpu_times (msec_per_tick s) xs)"
proof -
  have "sigar_skip_token (''cpu '' @ num_fields xs @ r) = '' '' @ num_fields xs @ r"
    using skip_label[OF assms(3), of "'' ''" xs] by simp
  then show ?thesis by (rule cpu_metrics_fields[OF assms]) simp
qed

text \<open>One entry for each line, in the order of the lines; the array grows when it is full.\<close>

definition cpu_list_wf :: "sigar_cpu_list_t \<Rightarrow> bool" where
  "cpu_list_wf cl \<longleftrightarrow> length (cl_data cl) \<le> cl_size cl"

lemma cpu_list_line_append:
  assumes "cpu_list_wf cl" and "get_cpu_metrics s zero_cpu ptr = Some cpu"
  shows "\<exists>cl'. cpu_list_line s False i ptr cl = Some cl' \<and> cl_data cl' = cl_data cl @ [cpu] \<and> cpu_list_wf cl'"
  using assms by (auto simp: cpu_list_line_def cpu_list_append_def sigar_cpu_list_grow_def cpu_list_wf_def)

lemma strneq_cpu_line: "strneq 3 (cpu_line p @ [LF]) ''cpu''"
  by (simp add: strneq_def cpu_line_def cstr_def)

lemma cpu_list_loop_lines:
  assumes "good_ticks s" and "\<forall>p \<in> set ps. cpu_line_ok s (snd p)" and "cpu_list_wf cl"
    and "ls = [] \<or> \<not> strneq 3 (hd ls) ''cpu''"
  shows "\<exists>cl'. cpu_list_loop s False i (map (\<lambda>p. cpu_line p @ [LF]) ps @ ls) cl = Some cl'
    \<and> cl_data cl' = cl_data cl @ map (\<lambda>p. cpu_times (msec_per_tick s) (snd p)) ps \<and> cpu_list_wf cl'"
  using assms
proof (induction ps arbitrary: i cl)
  case Nil
  then show ?case by (cases ls) auto
next
  case (Cons p ps)
  have "get_cpu_metrics s zero_cpu (cpu_line p @ [LF]) = Some (cpu_times (msec_per_tick s) (snd p))"
    using Cons.prems(1,2) by (intro cpu_metrics_line) auto
  from cpu_list_line_append[OF Cons.prems(3) this, of i] obtain cl1 where
    c1: "cpu_list_line s False i (cpu_line p @ [LF]) cl = Some cl1" "cpu_list_wf cl1"
      "cl_data cl1 = cl_data cl @ [cpu_times (msec_per_tick s) (snd p)]" by blast
  with Cons.IH[of cl1 "i + 1"] Cons.prems show ?case by (auto simp: strneq_cpu_line)
qed

lemma stat_lines:
  assumes "length (''cpu '' @ num_fields xs) < 8191"
    and "\<forall>p \<in> set (enumerate 0 xss). length (cpu_line p) < 8191"
  shows "fgets_lines (stat_text xs xss rest) =
    (''cpu '' @ num_fields xs @ [LF]) # map (\<lambda>p. cpu_line p @ [LF]) (enumerate 0 xss) @ fgets_lines rest"
proof -
  have "fgets_lines ((''cpu '' @ num_fields xs) @ LF # r) = ((''cpu '' @ num_fields xs) @ [LF]) # fgets_lines r"
    for r using assms(1) by (intro fgets_lines_line) auto
  moreover have "fgets_lines (concat (map (\<lambda>p. cpu_line p @ [LF]) (enumerate 0 xss)) @ rest) =
      map (\<lambda>p. cpu_line p @ [LF]) (enumerate 0 xss) @ fgets_lines rest"
    using assms(2) by (intro fgets_lines_lines) simp
  ultimately show ?thesis by (simp add: stat_text_def)
qed

section \<open>Network interface counters\<close>

record sigar_net_interface_stat_t =
  rx_packets :: nat
  rx_bytes :: nat
  rx_errors :: nat
  rx_dropped :: nat
  rx_overruns :: nat
  rx_frame :: nat
  tx_packets :: nat
  tx_bytes :: nat
  tx_errors :: nat
  tx_dropped :: nat
  tx_overruns :: nat
  tx_collisions :: nat
  tx_carrier :: nat
  if_speed :: nat

text \<open>\<open>SIGAR_FIELD_NOTIMPL\<close> in an unsigned field.\<close>

abbreviation (input) FIELD_NOTIMPL :: nat where
  "FIELD_NOTIMPL \<equiv> 18446744073709551615"

text \<open>The counters of a line, from behind the colon.\<close>

definition net_counters :: "string \<Rightarrow> sigar_net_interface_stat_t" where
  "net_counters ptr =
     (let (rxb, ptr) = sigar_strtoull ptr;
          (rxp, ptr) = sigar_strtoull ptr;
          (rxe, ptr) = sigar_strtoull ptr;
          (rxd, ptr) = sigar_strtoull ptr;
          (rxo, ptr) = sigar_strtoull ptr;
          (rxf, ptr) = sigar_strtoull ptr;
          ptr = sigar_skip_multiple_token 2 ptr;
          (txb, ptr) = sigar_strtoull ptr;
          (txp, ptr) = sigar_strtoull ptr;
          (txe, ptr) = sigar_strtoull ptr;
          (txd, ptr) = sigar_strtoull ptr;
          (txo, ptr) = sigar_strtoull ptr;
          (txc, ptr) = sigar_strtoull ptr;
          (txr, ptr) = sigar_strtoull ptr
      in \<lparr>rx_packets = rxp, rx_bytes = rxb, rx_errors = rxe, rx_dropped = rxd, rx_overruns = rxo,
          rx_frame = rxf, tx_packets = txp, tx_bytes = txb, tx_errors = txe, tx_dropped = txd,
          tx_overruns = txo, tx_collisions = txc, tx_carrier = txr, if_speed = FIELD_NOTIMPL\<rparr>)"

text \<open>
  The loop over the lines: the first one that names the interface. The name ends at the colon,
  over which a NUL is written.
\<close>

fun net_dev_loop :: "string \<Rightarrow> string list \<Rightarrow> sigar_net_interface_stat_t option" where
  "net_dev_loop name [] = None"
| "net_dev_loop name (l # ls) =
     (let dev = skip_space (cstr l) in
      case strchr dev (CHR '':'') of
        None \<Rightarrow> net_dev_loop name ls
      | Some ptr \<Rightarrow>
          if take (length dev - length ptr) dev = cstr name then Some (net_counters (drop 1 ptr))
          else net_dev_loop name ls)"

definition sigar_net_interface_stat_get ::
  "files \<Rightarrow> string \<Rightarrow> sigar_net_interface_stat_t \<Rightarrow> int \<times> sigar_net_interface_stat_t" where
  "sigar_net_interface_stat_get fs name ifstat =
     (case fopen fs ''/proc/net/dev'' of
        Inl e \<Rightarrow> (e, ifstat)
      | Inr fp \<Rightarrow>
          (case net_dev_loop name (drop 2 (fgets_lines fp)) of
             Some st \<Rightarrow> (SIGAR_OK, st)
           | None \<Rightarrow> (ENXIO, ifstat)))"

text \<open>
  The kernel aligns the numbers to the right: a field of \<open>/proc/net/dev\<close> is a blank, then the number
  filled up to a width. An interface line is its name, filled up in the same way, a colon and
  sixteen such fields.
\<close>

definition wide_field :: "nat \<times> nat \<Rightarrow> string" where
  "wide_field wx = replicate (fst wx - length (show_nat (snd wx))) (CHR '' '') @ CHR '' '' # show_nat (snd wx)"

definition wide_fields :: "(nat \<times> nat) list \<Rightarrow> string" where
  "wide_fields wxs = concat (map wide_field wxs)"

definition net_line :: "nat \<Rightarrow> string \<times> (nat \<times> nat) list \<Rightarrow> string" where
  "net_line w p = replicate (w - length (fst p)) (CHR '' '') @ fst p @ CHR '':'' # wide_fields (snd p)"

definition net_dev_text :: "string \<Rightarrow> string \<Rightarrow> nat \<Rightarrow> (string \<times> (nat \<times> nat) list) list \<Rightarrow> string" where
  "net_dev_text h1 h2 w ps =
     h1 @ LF # h2 @ LF # concat (map (\<lambda>p. net_line w p @ [LF]) ps)"

definition net_stat :: "nat list \<Rightarrow> sigar_net_interface_stat_t" where
  "net_stat xs =
     \<lparr>rx_packets = xs ! 1, rx_bytes = xs ! 0, rx_errors = xs ! 2, rx_dropped = xs ! 3, rx_overruns = xs ! 4,
      rx_frame = xs ! 5, tx_packets = xs ! 9, tx_bytes = xs ! 8, tx_errors = xs ! 10, tx_dropped = xs ! 11,
      tx_overruns = xs ! 12, tx_collisions = xs ! 13, tx_carrier = xs ! 14, if_speed = FIELD_NOTIMPL\<rparr>"

lemma wide_fields_simps [simp]:
  "wide_fields [] = []" "wide_fields (wx # wxs) = wide_field wx @ wide_fields wxs"
  by (simp_all add: wide_fields_def)

lemma isspace_replicate [simp]: "list_all isspace (replicate n (CHR '' ''))"
  by (simp add: list_all_iff)

lemma strtoull_wide:
  "snd wx < 2 ^ 64 \<Longrightarrow> ends_number r \<Longrightarrow> sigar_strtoull (wide_field wx @ r) = (snd wx, r)"
  using strtoull_spaces[OF isspace_replicate] by (simp add: wide_field_def)

lemma ends_number_wide [simp]: "ends_number (wide_field wx @ r)"
  by (cases "fst wx - length (show_nat (snd wx))") (simp_all add: wide_field_def)

lemma wide_field_starts: "wide_field wx @ r \<noteq> [] \<and> isspace (hd (wide_field wx @ r))"
  by (cases "fst wx - length (show_nat (snd wx))") (simp_all add: wide_field_def)

lemma skip_token_wide:
  assumes "r \<noteq> [] \<Longrightarrow> isspace (hd r)"
  shows "sigar_skip_token (wide_field wx @ r) = r"
proof -
  have "sigar_skip_token ((replicate (fst wx - length (show_nat (snd wx))) (CHR '' '') @ '' '')
      @ show_nat (snd wx) @ r) = r"
    using assms show_nat_plain(1) by (intro skip_token_word) auto
  then show ?thesis by (simp add: wide_field_def)
qed

lemma net_counters_fields:
  assumes "length wxs = 16" and "\<forall>wx \<in> set wxs. snd wx < 2 ^ 64" and "ends_line r"
  shows "net_counters (wide_fields wxs @ r) = net_stat (map snd wxs)"
proof -
  obtain a b c d e f g h i j k l m n ys where
    w: "wxs = a # b # c # d # e # f # g # h # i # j # k # l # m # n # ys" and ys: "length ys = 2"
    using assms(1) by (auto simp: numeral_eq_Suc length_Suc_conv)
  then obtain o' p where y: "ys = [o', p]" by (auto simp: numeral_eq_Suc length_Suc_conv)
  have "ends_number r" using assms(3) by simp
  then show ?thesis
    using assms(2) wide_field_starts
    by (simp add: w y net_counters_def strtoull_wide skip_token_wide numeral_2_eq_2 net_stat_def)
qed

text \<open>A name the kernel can print: no white space, no colon.\<close>

definition is_ifname :: "string \<Rightarrow> bool" where
  "is_ifname n \<longleftrightarrow> n \<noteq> [] \<and> (\<forall>c \<in> set n. \<not> isspace c \<and> c \<noteq> CHR '':'' \<and> c \<noteq> NUL)"

lemma wide_fields_plain: "c \<in> set (wide_fields wxs) \<Longrightarrow> c = CHR '' '' \<or> isdigit c"
  by (induction wxs) (auto simp: wide_field_def dest: show_nat_plain)

lemma is_cstr_wide_fields [simp]: "is_cstr (wide_fields wxs)"
  unfolding is_cstr_def using wide_fields_plain[of NUL wxs] by (auto simp: isdigit_def)

lemma is_cstr_blanks [simp]: "is_cstr (replicate n (CHR '' ''))"
  by (simp add: is_cstr_def)

lemma LF_net_line: "is_ifname (fst p) \<Longrightarrow> LF \<notin> set (net_line w p)"
proof -
  assume "is_ifname (fst p)"
  then have "LF \<notin> set (fst p)" using isspace_blank(2) unfolding is_ifname_def by blast
  moreover have "LF \<notin> set (wide_fields (snd p))"
    using wide_fields_plain[of LF "snd p"] by (auto simp: isdigit_def)
  ultimately show ?thesis by (simp add: net_line_def)
qed

lemma net_dev_loop_line:
  assumes "is_ifname (fst p)" and "is_cstr name"
  shows "net_dev_loop name ((net_line w p @ [LF]) # ls) =
    (if fst p = name then Some (net_counters (wide_fields (snd p) @ [LF])) else net_dev_loop name ls)"
proof -
  let ?r = "CHR '':'' # wide_fields (snd p) @ [LF]"
  have n: "is_cstr (fst p)" using assms(1) by (auto simp: is_ifname_def is_cstr_def)
  have "is_cstr (net_line w p @ [LF])" using n by (simp add: net_line_def)
  then have c: "cstr (net_line w p @ [LF]) = replicate (w - length (fst p)) (CHR '' '') @ fst p @ ?r"
    by (simp add: net_line_def)
  have "skip_space (cstr (net_line w p @ [LF])) = fst p @ ?r"
    unfolding c using assms(1)
    by (cases "fst p") (simp_all add: skip_space_def is_ifname_def dropWhile_append3)
  moreover have "strchr (fst p @ ?r) (CHR '':'') = Some ?r"
    using assms(1) by (intro strchr_append) (auto simp: is_ifname_def)
  ultimately show ?thesis using assms(2) by simp
qed

lemma net_dev_loop_lines:
  assumes "is_cstr name"
    and "\<forall>p \<in> set ps. is_ifname (fst p) \<and> length (snd p) = 16 \<and> (\<forall>wx \<in> set (snd p). snd wx < 2 ^ 64)"
  shows "net_dev_loop name (map (\<lambda>p. net_line w p @ [LF]) ps) =
    map_option (\<lambda>wxs. net_stat (map snd wxs)) (map_of ps name)"
  using assms(2)
proof (induction ps)
  case (Cons p ps)
  then have p: "is_ifname (fst p)" by simp
  have "net_counters (wide_fields (snd p) @ [LF]) = net_stat (map snd (snd p))"
    using Cons.prems by (intro net_counters_fields) (auto simp: ends_line_def)
  then show ?case
    using Cons net_dev_loop_line[OF p assms(1), of w "map (\<lambda>p. net_line w p @ [LF]) ps"] by (cases p) auto
qed simp

section \<open>Memory and swap\<close>

record sigar_mem_t =
  mem_ram :: nat
  mem_total :: nat
  mem_used :: nat
  mem_free :: nat
  mem_actual_used :: nat
  mem_actual_free :: nat
  mem_used_percent :: "int \<times> int"
  mem_free_percent :: "int \<times> int"

text \<open>Signed integers of 32 and 64 bits.\<close>

definition s32 :: "int \<Rightarrow> int" where
  "s32 i = (i + 2 ^ 31) mod 2 ^ 32 - 2 ^ 31"

definition s64 :: "int \<Rightarrow> int" where
  "s64 i = (i + 2 ^ 63) mod 2 ^ 64 - 2 ^ 63"

text \<open>
  \<open>sigar_mem_calc_ram\<close>. The percentages are quotients of the two integers kept here. The sum that
  rounds up to a multiple of 8 may leave the range of an \<open>int\<close>.
\<close>

definition sigar_mem_calc_ram :: "sigar_mem_t \<Rightarrow> sigar_mem_t option" where
  "sigar_mem_calc_ram mem =
     (let tot = int (mem_total mem div 1024);
          lram = mem_total mem div (1024 * 1024);
          ram = s32 (int lram);
          remainder = (if 0 \<le> ram then ram mod 8 else - ((- ram) mod 8));
          ram = (if remainder > 0 then ram + (8 - remainder) else ram);
          mem = mem\<lparr>mem_ram := nat (ram mod 2 ^ 64)\<rparr>;
          diff = s64 (tot - int (mem_actual_free mem div 1024));
          mem = mem\<lparr>mem_used_percent := (diff * 100, tot)\<rparr>;
          diff = s64 (tot - int (mem_actual_used mem div 1024));
          mem = mem\<lparr>mem_free_percent := (diff * 100, tot)\<rparr>
      in if ram < 2 ^ 31 then Some mem else None)"

text \<open>The write-back registers of \<open>/proc/mtrr\<close> added up; the sum is an \<open>int\<close>.\<close>

fun mtrr_sum :: "string list \<Rightarrow> int \<Rightarrow> int option" where
  "mtrr_sum [] tot = Some tot"
| "mtrr_sum (l # ls) tot =
     (case strstr (cstr l) ''size='' of
        None \<Rightarrow> mtrr_sum ls tot
      | Some ptr \<Rightarrow>
          if strstr ptr ''write-back'' = None then mtrr_sum ls tot
          else (let v = atoi (skip_space (drop 5 ptr)) in
                if \<bar>v\<bar> < 2 ^ 31 \<and> \<bar>tot + v\<bar> < 2 ^ 31 then mtrr_sum ls (tot + v) else None))"

text \<open>
  \<open>get_ram\<close>: the status, the handle and the result. The difference is taken between unsigned
  numbers.
\<close>

definition get_ram :: "files \<Rightarrow> sigar_t \<Rightarrow> sigar_mem_t \<Rightarrow> (int \<times> sigar_t \<times> sigar_mem_t) option" where
  "get_ram fs s mem =
     (let sys_total = mem_total mem div (1024 * 1024) in
      if ram s > 0 then Some (SIGAR_OK, s, mem\<lparr>mem_ram := nat (ram s)\<rparr>)
      else if ram s = 0 then Some (ENOENT, s, mem)
      else case fopen fs ''/proc/mtrr'' of
        Inl e \<Rightarrow> Some (e, s, mem)
      | Inr fp \<Rightarrow> do {
          tot \<leftarrow> mtrr_sum (fgets_lines fp) 0;
          let tot = (if (tot - int sys_total) mod 2 ^ 64 > 256 then 0 else tot);
          Some (if tot = 0 then (ENOENT, s, mem)
                else (SIGAR_OK, s\<lparr>ram := tot\<rparr>, mem\<lparr>mem_ram := nat (tot mod 2 ^ 64)\<rparr>))
        })"

definition sigar_meminfo :: "string \<Rightarrow> string \<Rightarrow> nat" where
  "sigar_meminfo buffer attr =
     (case strstr buffer attr of
        None \<Rightarrow> 0
      | Some ptr \<Rightarrow>
          let (val, tok) = strtoull 0 (drop (length attr) ptr);
              tok = dropWhile (\<lambda>c. c = CHR '' '') tok
          in if char_at tok = CHR ''k'' then val * 1024 mod 2 ^ 64
             else if char_at tok = CHR ''M'' then val * (1024 * 1024) mod 2 ^ 64
             else val)"

text \<open>Unsigned subtraction.\<close>

definition minus64 :: "nat \<Rightarrow> nat \<Rightarrow> nat" where
  "minus64 a b = nat ((int a - int b) mod 2 ^ 64)"

definition sigar_mem_get :: "files \<Rightarrow> sigar_t \<Rightarrow> sigar_mem_t \<Rightarrow> (int \<times> sigar_t \<times> sigar_mem_t) option" where
  "sigar_mem_get fs s mem = do {
     r \<leftarrow> sigar_file2str fs ''/proc/meminfo'' BUFSIZ;
     (case r of
        Inl status \<Rightarrow> Some (status, s, mem)
      | Inr buffer \<Rightarrow> do {
          let mem = mem\<lparr>mem_total := sigar_meminfo buffer ''MemTotal:''\<rparr>;
          let mem = mem\<lparr>mem_free := sigar_meminfo buffer ''MemFree:''\<rparr>;
          let mem = mem\<lparr>mem_used := minus64 (mem_total mem) (mem_free mem)\<rparr>;
          let buffers = sigar_meminfo buffer ''Buffers:'';
          let cached = sigar_meminfo buffer ''Cached:'';
          let kern = (buffers + cached) mod 2 ^ 64;
          let mem = mem\<lparr>mem_actual_free := (mem_free mem + kern) mod 2 ^ 64\<rparr>;
          let mem = mem\<lparr>mem_actual_used := minus64 (mem_used mem) kern\<rparr>;
          mem \<leftarrow> sigar_mem_calc_ram mem;
          (status, s, mem) \<leftarrow> get_ram fs s mem;
          Some (SIGAR_OK, s, mem)
        })
   }"

record sigar_swap_t =
  swap_total :: nat
  swap_used :: nat
  swap_free :: nat
  swap_page_in :: nat
  swap_page_out :: nat

definition sigar_swap_get :: "files \<Rightarrow> sigar_swap_t \<Rightarrow> (int \<times> sigar_swap_t) option" where
  "sigar_swap_get fs swap = do {
     r \<leftarrow> sigar_file2str fs ''/proc/meminfo'' BUFSIZ;
     (case r of
        Inl status \<Rightarrow> Some (status, swap)
      | Inr buffer \<Rightarrow> do {
          let swap = swap\<lparr>swap_total := sigar_meminfo buffer ''SwapTotal:''\<rparr>;
          let swap = swap\<lparr>swap_free := sigar_meminfo buffer ''SwapFree:''\<rparr>;
          let swap = swap\<lparr>swap_used := minus64 (swap_total swap) (swap_free swap)\<rparr>;
          let swap = swap\<lparr>swap_page_in := FIELD_NOTIMPL, swap_page_out := FIELD_NOTIMPL\<rparr>;
          r \<leftarrow> sigar_file2str fs ''/proc/vmstat'' BUFSIZ;
          (case r of
             Inr buffer \<Rightarrow>
               (case strstr buffer ([LF] @ ''pswpin'') of
                  None \<Rightarrow> Some (SIGAR_OK, swap)
                | Some ptr \<Rightarrow>
                    (let (i, ptr) = sigar_strtoull (sigar_skip_token ptr);
                         (o', ptr) = sigar_strtoull (sigar_skip_token ptr)
                     in Some (SIGAR_OK, swap\<lparr>swap_page_in := i, swap_page_out := o'\<rparr>)))
           | Inl status \<Rightarrow> do {
               r \<leftarrow> sigar_file2str fs ''/proc/stat'' BUFSIZ;
               (case r of
                  Inl status \<Rightarrow> Some (status, swap)
                | Inr buffer \<Rightarrow>
                    (case strstr buffer ([LF] @ ''swap'') of
                       None \<Rightarrow> Some (SIGAR_OK, swap)
                     | Some ptr \<Rightarrow>
                         (let (i, ptr) = sigar_strtoull (sigar_skip_token ptr);
                              (o', ptr) = sigar_strtoull ptr
                          in Some (SIGAR_OK, swap\<lparr>swap_page_in := i, swap_page_out := o'\<rparr>))))
             })
        })
   }"

subsection \<open>The lines of \<open>/proc/meminfo\<close>\<close>

text \<open>A line is a name, a colon, an aligned number and the unit, if it has one.\<close>

record mem_entry =
  me_name :: string
  me_field :: "nat \<times> nat"
  me_kb :: bool

definition mem_line :: "mem_entry \<Rightarrow> string" where
  "mem_line m = me_name m @ CHR '':'' # wide_field (me_field m) @ (if me_kb m then '' kB'' else []) @ [LF]"

definition mem_text :: "mem_entry list \<Rightarrow> string" where
  "mem_text ms = concat (map mem_line ms)"

definition mem_bytes :: "mem_entry \<Rightarrow> nat" where
  "mem_bytes m = snd (me_field m) * (if me_kb m then 1024 else 1)"

definition ends_with :: "string \<Rightarrow> string \<Rightarrow> bool" where
  "ends_with a n \<longleftrightarrow> drop (length n - length a) n = a"

text \<open>The value of the first line whose name ends with the one that is asked for.\<close>

definition mem_value :: "string \<Rightarrow> mem_entry list \<Rightarrow> nat" where
  "mem_value a ms = (case find (\<lambda>m. ends_with a (me_name m)) ms of None \<Rightarrow> 0 | Some m \<Rightarrow> mem_bytes m)"

definition mem_entry_ok :: "mem_entry \<Rightarrow> bool" where
  "mem_entry_ok m \<longleftrightarrow> (\<forall>c \<in> set (me_name m). c \<noteq> CHR '':'' \<and> c \<noteq> NUL \<and> c \<noteq> LF) \<and> mem_bytes m < 2 ^ 64"

lemma strstr_skip:
  "(\<And>i. i < length a \<Longrightarrow> take (length n) (drop i (a @ b)) \<noteq> n) \<Longrightarrow> strstr (a @ b) n = strstr b n"
proof (induction a)
  case (Cons c a)
  have "take (length n) (c # a @ b) \<noteq> n" using Cons.prems[of 0] by simp
  moreover have "strstr (a @ b) n = strstr b n" using Cons.prems[of "Suc i" for i] by (intro Cons.IH) auto
  ultimately show ?case by (simp add: strstr.simps[of "c # a @ b"])
qed simp

lemma strstr_here: "strstr (n @ b) n = Some (n @ b)"
  by (simp add: strstr.simps)

lemma takeWhile_key: "k \<notin> set n \<Longrightarrow> takeWhile (\<lambda>c. c \<noteq> k) (n @ k # t) = n"
  by (subst takeWhile_append2) auto

text \<open>A key with its colon matches exactly where the text before the next colon is the key.\<close>

lemma key_matches:
  assumes "k \<notin> set a" and "take (length (a @ [k])) q = a @ [k]"
  shows "takeWhile (\<lambda>c. c \<noteq> k) q = a"
proof -
  have "q = a @ k # drop (length (a @ [k])) q"
    using assms(2) append_take_drop_id[of "length (a @ [k])" q] by (metis append.assoc append_Cons append_Nil)
  then show ?thesis using takeWhile_key[OF assms(1)] by metis
qed

lemma wide_field_plain: "c \<in> set (wide_field wx) \<Longrightarrow> c = CHR '' '' \<or> isdigit c"
  by (auto simp: wide_field_def dest: show_nat_plain)

lemma strstr_mem_line:
  assumes m: "mem_entry_ok m" and a: "CHR '':'' \<notin> set a" "LF \<notin> set a"
  shows "strstr (mem_line m @ b) (a @ '':'') =
    (if ends_with a (me_name m)
     then Some (a @ '':'' @ drop (Suc (length (me_name m))) (mem_line m) @ b)
     else strstr b (a @ '':''))"
proof -
  let ?n = "me_name m" and ?t = "drop (Suc (length (me_name m))) (mem_line m)"
  have l: "mem_line m = ?n @ CHR '':'' # ?t" by (simp add: mem_line_def)
  have n: "CHR '':'' \<notin> set ?n" using m by (auto simp: mem_entry_ok_def)
  have t: "CHR '':'' \<notin> set ?t"
    using wide_field_plain[of "CHR '':''" "me_field m"] by (auto simp: mem_line_def isdigit_def)
  have before: "drop i ?n = a" if "i \<le> length ?n" "take (length (a @ '':'')) (drop i (mem_line m @ b)) = a @ '':''" for i
  proof -
    have "drop i (mem_line m @ b) = drop i ?n @ CHR '':'' # ?t @ b" using that(1) by (subst l) simp
    moreover have "CHR '':'' \<notin> set (drop i ?n)" using n by (meson in_set_dropD)
    ultimately show ?thesis using key_matches[OF a(1) that(2)] takeWhile_key by metis
  qed
  have after: "length ?n < i \<Longrightarrow> i < length (mem_line m) \<Longrightarrow>
      take (length (a @ '':'')) (drop i (mem_line m @ b)) \<noteq> a @ '':''" for i
  proof
    assume i: "length ?n < i" "i < length (mem_line m)"
      and e: "take (length (a @ '':'')) (drop i (mem_line m @ b)) = a @ '':''"
    let ?u = "drop i (mem_line m)"
    have u: "?u = drop (i - Suc (length ?n)) ?t" using i(1) by simp
    then have "CHR '':'' \<notin> set ?u" using t by (metis in_set_dropD)
    moreover have "last (mem_line m) = LF" by (simp add: mem_line_def)
    then have "LF \<in> set ?u" using i(2) by (metis drop_eq_Nil2 last_drop last_in_set linorder_not_le)
    moreover have "takeWhile (\<lambda>c. c \<noteq> CHR '':'') (?u @ b) = a" using key_matches[OF a(1) e] i(2) by simp
    moreover have "takeWhile (\<lambda>c. c \<noteq> CHR '':'') (?u @ b) = ?u @ takeWhile (\<lambda>c. c \<noteq> CHR '':'') b"
      using \<open>CHR '':'' \<notin> set ?u\<close> by (intro takeWhile_append2) auto
    ultimately show False using a(2) by auto
  qed
  show ?thesis
  proof (cases "ends_with a ?n")
    case False
    have "take (length (a @ '':'')) (drop i (mem_line m @ b)) \<noteq> a @ '':''" if "i < length (mem_line m)" for i
    proof (cases "i \<le> length ?n")
      case True
      show ?thesis
      proof
        assume "take (length (a @ '':'')) (drop i (mem_line m @ b)) = a @ '':''"
        then have d: "drop i ?n = a" using before True by blast
        then have "length ?n - length a = i" using True by auto
        then show False using d False by (simp add: ends_with_def)
      qed
    next
      case False
      then show ?thesis using after that by simp
    qed
    then show ?thesis using False strstr_skip by auto
  next
    case True
    let ?i = "length ?n - length a"
    have sp: "?n = take ?i ?n @ a" using True by (metis append_take_drop_id ends_with_def)
    have eq: "mem_line m @ b = take ?i ?n @ ((a @ '':'') @ ?t @ b)"
      by (subst l, subst sp) (simp del: append_take_drop_id)
    have "take (length (a @ '':'')) (drop i (mem_line m @ b)) \<noteq> a @ '':''" if "i < length (take ?i ?n)" for i
    proof
      assume "take (length (a @ '':'')) (drop i (mem_line m @ b)) = a @ '':''"
      moreover have "i \<le> length ?n" using that by simp
      ultimately have "drop i ?n = a" using before by blast
      then have "?i = i" using \<open>i \<le> length ?n\<close> by auto
      then show False using that by simp
    qed
    then have "strstr (mem_line m @ b) (a @ '':'') = strstr ((a @ '':'') @ ?t @ b) (a @ '':'')"
      unfolding eq by (rule strstr_skip)
    then show ?thesis using True strstr_here[of "a @ '':''" "?t @ b"] by simp
  qed
qed

text \<open>Reading such a number in the base its notation says: it has no leading zero.\<close>

lemma show_nat_0: "show_nat 0 = ''0''"
proof -
  have "digit_char 0 = CHR ''0''" by code_simp
  then show ?thesis by (simp add: show_nat.simps)
qed

lemma show_nat_hd: "0 < n \<Longrightarrow> hd (show_nat n) \<noteq> CHR ''0''"
proof (induction n rule: show_nat.induct)
  case (1 n)
  show ?case
  proof (cases "n < 10")
    case True
    have "digit_char n \<noteq> CHR ''0''" using digit_char_code[OF True] 1(2) by auto
    then show ?thesis using True by (simp add: show_nat.simps[of n])
  next
    case False
    then have "hd (show_nat (n div 10)) \<noteq> CHR ''0''" using 1(1) by simp
    then show ?thesis using False by (simp add: show_nat.simps[of n])
  qed
qed

lemma strto_base_show_nat:
  assumes "r = [] \<or> hd r = CHR '' '' \<or> hd r = LF"
  shows "strto_base 0 (show_nat n @ r) = (if n = 0 then 8 else 10, show_nat n @ r)"
proof (cases "n = 0")
  case True
  then show ?thesis
    using show_nat_0 assms by (cases r) (auto simp: strto_base_def split: list.splits)
next
  case False
  obtain c cs where c: "show_nat n = c # cs" by (cases "show_nat n") auto
  then have "c \<noteq> CHR ''0''" using show_nat_hd[of n] False by simp
  then show ?thesis using False c by (auto simp: strto_base_def split: list.splits)
qed

lemma strtoull_base0:
  assumes "list_all isspace sp" and "n < 2 ^ 64" and "r = [] \<or> hd r = CHR '' '' \<or> hd r = LF"
  shows "strtoull 0 (sp @ show_nat n @ r) = (n, r)"
proof -
  have e: "ends_number r" using assms(3) by (cases r) auto
  show ?thesis
  proof (cases "n = 0")
    case True
    have "takeWhile (is_digit_of 8) r = []" using assms(3) by (cases r) auto
    then show ?thesis
      using True assms(1,3) show_nat_0 skip_space_show_nat[OF assms(1), of 0 r] strto_sign_show_nat[of 0 r]
        strto_base_show_nat[OF assms(3), of 0]
      by (simp add: strtoull_def is_digit_of_def digit_val_def digits_of_def)
  next
    case False
    then show ?thesis
      using assms e strto_base_show_nat[OF assms(3), of n]
      by (simp add: strtoull_def takeWhile_digits digits_of_show_nat)
  qed
qed

lemma meminfo_line:
  assumes m: "mem_entry_ok m" and a: "CHR '':'' \<notin> set a" "LF \<notin> set a" "ends_with a (me_name m)"
  shows "sigar_meminfo (mem_line m @ b) (a @ '':'') = mem_bytes m"
proof -
  let ?f = "me_field m" and ?u = "if me_kb m then '' kB'' else []"
  let ?sp = "replicate (fst ?f - length (show_nat (snd ?f))) (CHR '' '') @ '' ''"
  have "strstr (mem_line m @ b) (a @ '':'') = Some ((a @ '':'') @ ?sp @ show_nat (snd ?f) @ ?u @ LF # b)"
    using strstr_mem_line[OF m a(1,2), of b] a(3) by (simp add: mem_line_def wide_field_def)
  moreover have "snd ?f < 2 ^ 64"
    using m by (auto simp: mem_entry_ok_def mem_bytes_def split: if_splits)
  then have "strtoull 0 (?sp @ show_nat (snd ?f) @ ?u @ LF # b) = (snd ?f, ?u @ LF # b)"
    by (intro strtoull_base0) (auto simp: list_all_iff)
  ultimately show ?thesis
    using m by (cases "me_kb m") (simp_all add: sigar_meminfo_def char_at_def mem_bytes_def mem_entry_ok_def)
qed

lemma meminfo_text:
  assumes "\<forall>m \<in> set ms. mem_entry_ok m" and a: "CHR '':'' \<notin> set a" "LF \<notin> set a"
  shows "sigar_meminfo (mem_text ms) (a @ '':'') = mem_value a ms"
  using assms(1)
proof (induction ms)
  case Nil
  then show ?case by (simp add: mem_text_def mem_value_def sigar_meminfo_def strstr.simps)
next
  case (Cons m ms)
  have t: "mem_text (m # ms) = mem_line m @ mem_text ms" by (simp add: mem_text_def)
  show ?case
  proof (cases "ends_with a (me_name m)")
    case True
    then show ?thesis using meminfo_line[OF _ a True] Cons.prems by (simp add: t mem_value_def)
  next
    case False
    have "strstr (mem_line m @ mem_text ms) (a @ '':'') = strstr (mem_text ms) (a @ '':'')"
      using strstr_mem_line[OF _ a, of m] Cons.prems False by simp
    then have "sigar_meminfo (mem_line m @ mem_text ms) (a @ '':'') = sigar_meminfo (mem_text ms) (a @ '':'')"
      unfolding sigar_meminfo_def by (simp only:)
    then show ?thesis using Cons False by (simp add: t mem_value_def)
  qed
qed

lemma is_cstr_mem_text: "\<forall>m \<in> set ms. mem_entry_ok m \<Longrightarrow> is_cstr (mem_text ms)"
proof (induction ms)
  case (Cons m ms)
  have "is_cstr (wide_field (me_field m))"
    unfolding is_cstr_def using wide_field_plain[of NUL "me_field m"] by (auto simp: isdigit_def)
  moreover have "is_cstr (me_name m)" using Cons.prems by (auto simp: mem_entry_ok_def is_cstr_def)
  ultimately show ?case using Cons by (simp add: mem_text_def mem_line_def)
qed (simp add: mem_text_def)

lemma minus64_le: "b \<le> a \<Longrightarrow> a < 2 ^ 64 \<Longrightarrow> minus64 a b = a - b"
  by (simp add: minus64_def of_nat_diff flip: of_nat_diff)

subsection \<open>Physical memory\<close>

lemma s32_small: "0 \<le> i \<Longrightarrow> i < 2 ^ 31 \<Longrightarrow> s32 i = i"
  by (simp add: s32_def)

lemma s64_small: "- (2 ^ 63) \<le> i \<Longrightarrow> i < 2 ^ 63 \<Longrightarrow> s64 i = i"
  by (simp add: s64_def)

lemma round_up_8: "0 < i mod 8 \<Longrightarrow> i + (8 - i mod 8) = 8 * ((i + 7) div 8)" "i mod 8 = 0 \<Longrightarrow> i = 8 * ((i + 7) div 8)"
  for i :: int
  by presburger+

lemma mem_calc_ram_small:
  assumes "mem_total mem < 2 ^ 50" and "mem_actual_free mem < 2 ^ 64" and "mem_actual_used mem < 2 ^ 64"
  defines "t \<equiv> int (mem_total mem div 1024)"
  shows "sigar_mem_calc_ram mem = Some (mem\<lparr>
    mem_ram := 8 * ((mem_total mem div 2 ^ 20 + 7) div 8),
    mem_used_percent := ((t - int (mem_actual_free mem div 1024)) * 100, t),
    mem_free_percent := ((t - int (mem_actual_used mem div 1024)) * 100, t)\<rparr>)"
proof -
  let ?r = "int (mem_total mem div (1024 * 1024))"
  have r: "0 \<le> ?r" "?r < 2 ^ 31 - 8" using assms(1) by auto
  then have s: "s32 ?r = ?r" by (intro s32_small) auto
  define q where "q = (if ?r mod 8 > 0 then ?r + (8 - ?r mod 8) else ?r)"
  have q: "q = 8 * ((?r + 7) div 8)" using round_up_8[of ?r] by (auto simp: q_def)
  then have q0: "0 \<le> q" "q < 2 ^ 31" using r by auto
  have "nat (q mod 2 ^ 64) = nat q" using q0 by simp
  also have "\<dots> = 8 * ((mem_total mem div 2 ^ 20 + 7) div 8)"
    unfolding q by (simp add: nat_mult_distrib nat_div_distrib nat_add_distrib)
  finally have ram: "nat (q mod 2 ^ 64) = 8 * ((mem_total mem div 2 ^ 20 + 7) div 8)" .
  have "t < 2 ^ 41" "0 \<le> t" using assms(1) by (auto simp: t_def)
  moreover have "int (mem_actual_free mem div 1024) < 2 ^ 54" "int (mem_actual_used mem div 1024) < 2 ^ 54"
    using assms(2,3) by auto
  ultimately have d: "s64 (t - int (mem_actual_free mem div 1024)) = t - int (mem_actual_free mem div 1024)"
    "s64 (t - int (mem_actual_used mem div 1024)) = t - int (mem_actual_used mem div 1024)"
    by (auto intro!: s64_small)
  have e: "(if 0 \<le> ?r then ?r mod 8 else - ((- ?r) mod 8)) = ?r mod 8" using r(1) by simp
  show ?thesis
    unfolding sigar_mem_calc_ram_def t_def[symmetric] Let_def s e q_def[symmetric] ram
    using q0 d by simp
qed

text \<open>
  The registers are believed only when their sum is the memory the kernel reports or up to 256 MB
  more: a smaller sum wraps around to a huge difference.
\<close>

lemma get_ram_accepts_iff:
  assumes "ram s = -1" and "fopen fs ''/proc/mtrr'' = Inr fp" and "mtrr_sum (fgets_lines fp) 0 = Some tot"
    and "0 \<le> tot" and "tot < 2 ^ 31" and "mem_total mem < 2 ^ 64"
  shows "(\<exists>s' mem'. get_ram fs s mem = Some (SIGAR_OK, s', mem')) \<longleftrightarrow>
    tot \<noteq> 0 \<and> int (mem_total mem div 2 ^ 20) \<le> tot \<and> tot \<le> int (mem_total mem div 2 ^ 20) + 256"
proof -
  let ?k = "int (mem_total mem div 2 ^ 20)"
  have "mem_total mem div 2 ^ 20 < 2 ^ 44" using assms(6) by (simp add: div_less_iff_less_mult)
  then have k: "0 \<le> ?k" "?k < 2 ^ 44" by auto
  have "(tot - ?k) mod 2 ^ 64 = (if ?k \<le> tot then tot - ?k else tot - ?k + 2 ^ 64)"
  proof (cases "?k \<le> tot")
    case True
    then show ?thesis using k assms(5) by (simp add: mod_pos_pos_trivial)
  next
    case False
    have "(tot - ?k) mod 2 ^ 64 = (tot - ?k + 2 ^ 64) mod 2 ^ 64" by simp
    also have "\<dots> = tot - ?k + 2 ^ 64" using False k assms(4) by (intro mod_pos_pos_trivial) auto
    finally show ?thesis using False by simp
  qed
  then have "(tot - ?k) mod 2 ^ 64 > 256 \<longleftrightarrow> \<not> (?k \<le> tot \<and> tot \<le> ?k + 256)"
    using k assms(4) by auto
  then show ?thesis using assms(1-3) by (simp add: get_ram_def Let_def)
qed

section \<open>Properties\<close>

text \<open>
  (C13) \<open>sigar_cpu_get\<close> returns the numbers the kernel printed. For a \<open>/proc/stat\<close> in the kernel's
  format, of 2.4 (four fields), 2.6 (seven) or later (eight and more), and a tick rate that divides
  1000, the call succeeds and each time is the printed number of ticks in milliseconds, exactly,
  with 0 for the fields an old kernel does not have; the total is their sum.
\<close>

theorem cpu_get_reads_stat:
  assumes "good_ticks s" and "cpu_line_ok s xs" and "is_cstr rest"
    and "fs ''/proc/stat'' = Bytes (stat_text xs xss rest)" and "length (stat_text xs xss rest) < BUFSIZ"
  shows "sigar_cpu_get fs s cpu = Some (SIGAR_OK, cpu_times (msec_per_tick s) xs)"
proof -
  let ?r = "LF # concat (map (\<lambda>p. cpu_line p @ [LF]) (enumerate 0 xss)) @ rest"
  have "is_cstr (concat (map (\<lambda>p. cpu_line p @ [LF]) (enumerate 0 xss)))"
    by (auto simp: is_cstr_def cpu_line_def is_cstr_fields[unfolded is_cstr_def] is_cstr_show_nat[unfolded is_cstr_def])
  then have "is_cstr (stat_text xs xss rest)" using assms(3) by (simp add: stat_text_def)
  then have "sigar_file2str fs ''/proc/stat'' BUFSIZ = Some (Inr (''cpu '' @ num_fields xs @ ?r))"
    using assms(4,5) by (simp add: sigar_file2str_def stat_text_def)
  moreover have "get_cpu_metrics s zero_cpu (''cpu '' @ num_fields xs @ ?r) = Some (cpu_times (msec_per_tick s) xs)"
    using assms(1,2) by (intro cpu_metrics_first) (simp_all add: ends_line_def)
  ultimately show ?thesis by (simp add: sigar_cpu_get_def)
qed

definition example_sigar :: sigar_t where
  "example_sigar = \<lparr>cpu_list_cores = True, log_level = -1, boot_time = 0, ticks = 100, si_pid = 0,
     ifconf_buf = 0, ifconf_len = 0, self_path = 0, si_pids = 0, fsdev = 0, proc_cpu = 0, net_listen = 0,
     net_services_tcp = 0, net_services_udp = 0, pagesize = 12, ram = -1, proc_signal_offset = -1,
     last_proc_stat = \<lparr>ps_pid = -1, ps_mtime = 0, ps_vsize = 0, ps_rss = 0, ps_minor_faults = 0,
       ps_major_faults = 0, ps_ppid = 0, ps_tty = 0, ps_priority = 0, ps_nice = 0, ps_start_time = 0,
       ps_utime = 0, ps_stime = 0, ps_name = [], ps_state = NUL, ps_processor = 0\<rparr>,
     lcpu = -1, iostat = IOSTAT_DISKSTATS, proc_net = None, has_nptl = True\<rparr>"

definition example_files :: "string \<Rightarrow> string \<Rightarrow> files" where
  "example_files path content = (\<lambda>p. if p = path then Bytes content else No_file ENOENT)"

lemma example_ticks: "good_ticks example_sigar" "msec_per_tick example_sigar = 10"
  by (simp_all add: good_ticks_def msec_per_tick_def example_sigar_def)

theorem cpu_get_reads_stat_witness:
  "sigar_cpu_get (example_files ''/proc/stat'' (stat_text [4705, 150, 1120, 16250] [] ''intr 5'')) example_sigar zero_cpu
   = Some (SIGAR_OK, cpu_times 10 [4705, 150, 1120, 16250])"
proof -
  have "length (stat_text [4705, 150, 1120, 16250] [] ''intr 5'') < 8192"
    by (simp add: stat_text_def show_nat.simps)
  then show ?thesis
    using cpu_get_reads_stat[of example_sigar "[4705, 150, 1120, 16250]" "''intr 5''"
        "example_files ''/proc/stat'' (stat_text [4705, 150, 1120, 16250] [] ''intr 5'')" "[]" zero_cpu]
    by (simp add: example_ticks cpu_line_ok_def example_files_def)
qed

text \<open>
  (C28) With one entry per core, the default, \<open>sigar_cpu_list_get\<close> returns one entry for each processor line of \<open>/proc/stat\<close>, in their order
  and with the printed times, whatever their number: the array grows as needed and no entry is
  written outside it. A kernel that prints no such line gives one entry, the times of the first line.
\<close>

theorem cpu_list_get_reads_stat:
  assumes "good_ticks s" and "\<forall>ys \<in> set (xs # xss). cpu_line_ok s ys" and "cpu_list_cores s"
    and "fs ''/proc/stat'' = Bytes (stat_text xs xss rest)" and "rest = [] \<or> hd rest \<noteq> CHR ''c''"
    and "length (''cpu '' @ num_fields xs) < 8191"
    and "\<forall>p \<in> set (enumerate 0 xss). length (cpu_line p) < 8191"
  shows "\<exists>cl s'. sigar_cpu_list_get fs cid s = Some (SIGAR_OK, Some cl, s')
    \<and> cl_data cl = (if xss = [] then [cpu_times (msec_per_tick s) xs] else map (cpu_times (msec_per_tick s)) xss)
    \<and> length (cl_data cl) \<le> cl_size cl"
proof -
  define s' where "s' = snd (sigar_cpu_core_count cid s)"
  have roll: "sigar_cpu_core_rollup cid s = (False, s')" and tk: "ticks s' = ticks s"
    using assms(3) by (auto simp: sigar_cpu_core_rollup_def sigar_cpu_core_count_def s'_def Let_def split: prod.splits)
  have g: "good_ticks s'" and k: "msec_per_tick s' = msec_per_tick s"
    using assms(1) tk by (simp_all add: good_ticks_def msec_per_tick_def)
  have ok: "cpu_line_ok s' ys \<longleftrightarrow> cpu_line_ok s ys" for ys by (simp add: cpu_line_ok_def k)
  have "\<forall>p \<in> set (enumerate 0 xss). cpu_line_ok s' (snd p)"
    using assms(2) by (auto simp: ok in_set_enumerate_eq)
  moreover have "fgets_lines rest = [] \<or> \<not> strneq 3 (hd (fgets_lines rest)) ''cpu''"
  proof (cases "fgets_lines rest")
    case (Cons l ls)
    then have "rest \<noteq> []" by (auto simp: fgets_lines.simps fgets_def)
    then have "l \<noteq> []" "hd l \<noteq> CHR ''c''" using fgets_lines_hd[OF _ Cons] assms(5) by auto
    then show ?thesis using Cons by (cases l) (auto simp: strneq_def cstr_def)
  qed simp
  moreover have "cpu_list_wf sigar_cpu_list_create" by (simp add: cpu_list_wf_def sigar_cpu_list_create_def)
  ultimately obtain cl where
    cl: "cpu_list_loop s' False 0 (map (\<lambda>p. cpu_line p @ [LF]) (enumerate 0 xss) @ fgets_lines rest)
        sigar_cpu_list_create = Some cl"
      "cl_data cl = map (\<lambda>p. cpu_times (msec_per_tick s) (snd p)) (enumerate 0 xss)" "cpu_list_wf cl"
    using cpu_list_loop_lines[OF g, of "enumerate 0 xss" sigar_cpu_list_create "fgets_lines rest" 0]
    by (auto simp: k sigar_cpu_list_create_def)
  have dat: "cl_data cl = map (cpu_times (msec_per_tick s)) xss"
    using cl(2) by (simp flip: map_map[of "cpu_times _" snd, unfolded o_def])
  have o: "fopen fs ''/proc/stat'' = Inr (stat_text xs xss rest)" using assms(4) by (simp add: fopen_def)
  show ?thesis
  proof (cases "xss = []")
    case False
    then show ?thesis
      using cl(1,3) dat o roll stat_lines[OF assms(6,7), of rest]
      by (simp add: sigar_cpu_list_get_def cpu_list_wf_def)
  next
    case True
    then have "cl = sigar_cpu_list_create" 
      using cl(1) \<open>fgets_lines rest = [] \<or> \<not> strneq 3 (hd (fgets_lines rest)) ''cpu''\<close>
      by (cases "fgets_lines rest") auto
    moreover have "get_cpu_metrics s' zero_cpu (''cpu '' @ num_fields xs @ [LF]) = Some (cpu_times (msec_per_tick s) xs)"
      using cpu_metrics_first[OF g, of xs "[LF]"] assms(2) by (simp add: ok k ends_line_def)
    moreover have "is_cstr (''cpu '' @ num_fields xs @ [LF])" by simp
    ultimately show ?thesis
      using True cl(1) dat o roll stat_lines[OF assms(6,7), of rest]
      by (simp add: sigar_cpu_list_get_def sigar_cpu_list_create_def cpu_list_append_def)
  qed
qed

theorem cpu_list_get_reads_stat_witness:
  "\<exists>cl s'. sigar_cpu_list_get (example_files ''/proc/stat'' (stat_text [3, 1, 2, 9] [[1, 0, 2, 4], [2, 1, 0, 5]] ''intr 5''))
       (\<lambda>i. (0, 0)) example_sigar = Some (SIGAR_OK, Some cl, s')
     \<and> cl_data cl = [cpu_times 10 [1, 0, 2, 4], cpu_times 10 [2, 1, 0, 5]]"
proof -
  have "\<forall>p \<in> set (enumerate 0 [[1, 0, 2, 4], [2, 1, 0, 5::nat]]). length (cpu_line p) < 8191"
    by (simp add: cpu_line_def show_nat.simps)
  moreover have "length (''cpu '' @ num_fields [3, 1, 2, 9]) < 8191" by (simp add: show_nat.simps)
  ultimately show ?thesis
    using cpu_list_get_reads_stat[of example_sigar "[3, 1, 2, 9]" "[[1, 0, 2, 4], [2, 1, 0, 5]]"
        "example_files ''/proc/stat'' (stat_text [3, 1, 2, 9] [[1, 0, 2, 4], [2, 1, 0, 5]] ''intr 5'')"
        "''intr 5''" "\<lambda>i. (0, 0)"] example_ticks
    by (auto simp: cpu_line_ok_def example_files_def example_sigar_def)
qed

text \<open>
  (C29) \<open>sigar_net_interface_stat_get\<close> returns the counters of the interface it is asked for. For a
  \<open>/proc/net/dev\<close> in the kernel's format the call succeeds exactly when a line has that name, the
  counters are those of the first such line, and otherwise the status is \<open>ENXIO\<close> and the caller's
  structure is left alone.
\<close>

theorem net_stat_reads_interface:
  assumes "is_cstr name" and "fs ''/proc/net/dev'' = Bytes (net_dev_text h1 h2 w ps)"
    and "LF \<notin> set h1" and "length h1 < 8191" and "LF \<notin> set h2" and "length h2 < 8191"
    and "\<forall>p \<in> set ps. is_ifname (fst p) \<and> length (net_line w p) < 8191
           \<and> length (snd p) = 16 \<and> (\<forall>wx \<in> set (snd p). snd wx < 2 ^ 64)"
  shows "sigar_net_interface_stat_get fs name ifstat =
    (case map_of ps name of
       Some wxs \<Rightarrow> (SIGAR_OK, net_stat (map snd wxs))
     | None \<Rightarrow> (ENXIO, ifstat))"
proof -
  have "fgets_lines (concat (map (\<lambda>p. net_line w p @ [LF]) ps) @ []) =
      map (\<lambda>p. net_line w p @ [LF]) ps @ fgets_lines []"
    using assms(7) LF_net_line by (intro fgets_lines_lines) auto
  moreover have "fgets_lines [] = []" by (simp add: fgets_lines.simps fgets_def)
  ultimately have "drop 2 (fgets_lines (net_dev_text h1 h2 w ps)) = map (\<lambda>p. net_line w p @ [LF]) ps"
    using fgets_lines_line[OF assms(3,4)] fgets_lines_line[OF assms(5,6)] by (simp add: net_dev_text_def)
  moreover have "net_dev_loop name (map (\<lambda>p. net_line w p @ [LF]) ps) =
      map_option (\<lambda>wxs. net_stat (map snd wxs)) (map_of ps name)"
    using assms(1,7) by (intro net_dev_loop_lines) auto
  ultimately show ?thesis
    using assms(2) by (simp add: sigar_net_interface_stat_get_def fopen_def split: option.splits)
qed

definition example_interfaces :: "(string \<times> (nat \<times> nat) list) list" where
  "example_interfaces =
     [(''lo'', map (\<lambda>x. (0, x)) [5, 1, 0, 0, 0, 0, 0, 0, 5, 1, 0, 0, 0, 0, 0, 0]),
      (''eth0'', map (\<lambda>x. (0, x)) [9, 3, 0, 1, 0, 0, 0, 0, 8, 2, 0, 0, 0, 2, 0, 0])]"

theorem net_stat_reads_interface_witness:
  "sigar_net_interface_stat_get (example_files ''/proc/net/dev'' (net_dev_text ''Inter-|'' '' face |'' 6 example_interfaces))
     ''eth0'' (net_stat (replicate 16 0))
   = (SIGAR_OK, net_stat [9, 3, 0, 1, 0, 0, 0, 0, 8, 2, 0, 0, 0, 2, 0, 0])"
proof -
  have "\<forall>p \<in> set example_interfaces. is_ifname (fst p) \<and> length (net_line 6 p) < 8191
      \<and> length (snd p) = 16 \<and> (\<forall>wx \<in> set (snd p). snd wx < 2 ^ 64)"
    by (simp add: example_interfaces_def is_ifname_def isspace_def net_line_def wide_field_def show_nat.simps)
  then show ?thesis
    using net_stat_reads_interface[of "''eth0''" "example_files ''/proc/net/dev'' (net_dev_text ''Inter-|'' '' face |'' 6 example_interfaces)"
        "''Inter-|''" "'' face |''" 6 example_interfaces "net_stat (replicate 16 0)"]
    by (simp add: example_files_def example_interfaces_def)
qed

text \<open>
  (C30) \<open>sigar_mem_get\<close> returns what \<open>/proc/meminfo\<close> says. For a file in the kernel's format, on a
  machine without \<open>/proc/mtrr\<close>, if the file fits the buffer of 8192 bytes and free memory, buffers and cache
  are together not more than the total, total and free memory are the printed numbers in bytes, used memory
  is their difference, buffers and page cache are counted as free in the actual figures, and the
  size of the physical memory is the total in megabytes rounded up to a multiple of 8. A name is
  looked up by how it ends: the first line whose name ends with it counts.
\<close>

theorem mem_get_reads_meminfo:
  fixes ms :: "mem_entry list"
  defines "T \<equiv> mem_value ''MemTotal'' ms" and "F \<equiv> mem_value ''MemFree'' ms"
    and "K \<equiv> mem_value ''Buffers'' ms + mem_value ''Cached'' ms"
  assumes "\<forall>m \<in> set ms. mem_entry_ok m" and "fs ''/proc/meminfo'' = Bytes (mem_text ms)"
    and "length (mem_text ms) < BUFSIZ" and "fs ''/proc/mtrr'' = No_file e" and "ram s = -1"
    and "F + K \<le> T" and "T < 2 ^ 50"
  shows "\<exists>mem'. sigar_mem_get fs s mem = Some (SIGAR_OK, s, mem')
    \<and> mem_total mem' = T \<and> mem_free mem' = F \<and> mem_used mem' = T - F
    \<and> mem_actual_free mem' = F + K \<and> mem_actual_used mem' = T - F - K
    \<and> mem_ram mem' = 8 * ((T div 2 ^ 20 + 7) div 8)
    \<and> mem_used_percent mem' = ((int (T div 1024) - int ((F + K) div 1024)) * 100, int (T div 1024))"
proof -
  note mv = meminfo_text[OF assms(4)]
  have v: "sigar_meminfo (mem_text ms) ''MemTotal:'' = T" "sigar_meminfo (mem_text ms) ''MemFree:'' = F"
    "sigar_meminfo (mem_text ms) ''Buffers:'' = mem_value ''Buffers'' ms"
    "sigar_meminfo (mem_text ms) ''Cached:'' = mem_value ''Cached'' ms"
    using mv[of "''MemTotal''"] mv[of "''MemFree''"] mv[of "''Buffers''"] mv[of "''Cached''"]
    by (simp_all add: T_def F_def)
  have f: "sigar_file2str fs ''/proc/meminfo'' BUFSIZ = Some (Inr (mem_text ms))"
    using assms(5,6) is_cstr_mem_text[OF assms(4)] by (simp add: sigar_file2str_def)
  have k: "(mem_value ''Buffers'' ms + mem_value ''Cached'' ms) mod 18446744073709551616 = K"
    "(F + K) mod 18446744073709551616 = F + K"
    using assms(9,10) by (simp_all add: K_def)
  have m: "minus64 T F = T - F" "minus64 (T - F) K = T - F - K"
    using minus64_le[of F T] minus64_le[of K "T - F"] assms(9,10) by simp_all
  let ?m = "mem\<lparr>mem_total := T, mem_free := F, mem_used := T - F, mem_actual_free := F + K, mem_actual_used := T - F - K\<rparr>"
  have c: "sigar_mem_calc_ram ?m = Some (?m\<lparr>mem_ram := 8 * ((T div 2 ^ 20 + 7) div 8),
      mem_used_percent := ((int (T div 1024) - int ((F + K) div 1024)) * 100, int (T div 1024)),
      mem_free_percent := ((int (T div 1024) - int ((T - F - K) div 1024)) * 100, int (T div 1024))\<rparr>)"
    using mem_calc_ram_small[of ?m] assms(9,10) by simp
  have g: "get_ram fs s m' = Some (e, s, m')" for m'
    using assms(7,8) by (simp add: get_ram_def fopen_def)
  show ?thesis
    unfolding sigar_mem_get_def f using c by (simp add: v k m g Let_def)
qed

theorem mem_get_reads_meminfo_witness:
  "\<exists>mem'. sigar_mem_get (example_files ''/proc/meminfo'' (mem_text
       [\<lparr>me_name = ''MemTotal'', me_field = (8, 2048), me_kb = True\<rparr>,
        \<lparr>me_name = ''MemFree'', me_field = (8, 512), me_kb = True\<rparr>])) example_sigar
       \<lparr>mem_ram = 0, mem_total = 0, mem_used = 0, mem_free = 0, mem_actual_used = 0, mem_actual_free = 0,
        mem_used_percent = (0, 1), mem_free_percent = (0, 1)\<rparr> = Some (SIGAR_OK, example_sigar, mem')
     \<and> mem_used mem' = 1572864 \<and> mem_ram mem' = 8"
proof -
  let ?ms = "[\<lparr>me_name = ''MemTotal'', me_field = (8, 2048), me_kb = True\<rparr>,
        \<lparr>me_name = ''MemFree'', me_field = (8, 512), me_kb = True\<rparr>]"
  have "\<forall>m \<in> set ?ms. mem_entry_ok m" by (simp add: mem_entry_ok_def mem_bytes_def)
  moreover have "length (mem_text ?ms) < 8192"
    by (simp add: mem_text_def mem_line_def wide_field_def show_nat.simps)
  moreover have "mem_value ''MemTotal'' ?ms = 2097152" "mem_value ''MemFree'' ?ms = 524288"
    "mem_value ''Buffers'' ?ms = 0" "mem_value ''Cached'' ?ms = 0"
    by (simp_all add: mem_value_def ends_with_def mem_bytes_def)
  ultimately show ?thesis
    using mem_get_reads_meminfo[of ?ms "example_files ''/proc/meminfo'' (mem_text ?ms)" ENOENT example_sigar
        "\<lparr>mem_ram = 0, mem_total = 0, mem_used = 0, mem_free = 0, mem_actual_used = 0, mem_actual_free = 0,
          mem_used_percent = (0, 1), mem_free_percent = (0, 1)\<rparr>"]
    by (auto simp: example_files_def example_sigar_def)
qed

end
