(* ===== verification/Sigar_Proc.thy ===== *)
theory Sigar_Proc
  imports Sigar_Linux
begin

text \<open>
  What \<open>sigar\<close> knows of a process on Linux (\<open>os/linux/linux_sigar.c\<close>): \<open>/proc/<pid>/stat\<close>, read by
  \<open>proc_stat_read\<close> and remembered in the handle for two seconds, and the functions that report parts
  of it, with \<open>statm\<close> and \<open>status\<close> for what it does not hold.
\<close>

section \<open>Operations\<close>

text \<open>
  \<open>SIGAR_PROC_FILE2STR\<close> with a buffer of \<open>BUFSIZ\<close> characters. The names it is used with are short,
  so that the assertion of \<open>sigar_proc_filename\<close> holds (\<open>proc_file_eq\<close> below).
\<close>

definition SIGAR_PROC_FILE2STR :: "files \<Rightarrow> int \<Rightarrow> string \<Rightarrow> (int + string) option" where
  "SIGAR_PROC_FILE2STR fs pid fname =
     (case sigar_proc_file2str fs BUFSIZ pid fname of Some (Returned r) \<Rightarrow> Some r | _ \<Rightarrow> None)"

definition pageshift :: "sigar_t \<Rightarrow> nat \<Rightarrow> nat" where
  "pageshift s x = x * 2 ^ pagesize s mod 2 ^ 64"

text \<open>
  The part of \<open>proc_stat_read\<close> that takes the text apart, from the name in parentheses on. The last
  closing parenthesis ends the name. Behind the end of the string the buffer holds nothing defined.
\<close>

definition stat_numbers :: "sigar_t \<Rightarrow> linux_proc_stat_t \<Rightarrow> string \<Rightarrow> linux_proc_stat_t option" where
  "stat_numbers s ps ptr = do {
     let (ppid, ptr) = sigar_strtoull ptr;
     let ptr = sigar_skip_token ptr;
     let ptr = sigar_skip_token ptr;
     let (tty, ptr) = sigar_strtoull ptr;
     let ptr = sigar_skip_token ptr;
     let ptr = sigar_skip_token ptr;
     let (minor, ptr) = sigar_strtoull ptr;
     let ptr = sigar_skip_token ptr;
     let (major, ptr) = sigar_strtoull ptr;
     let ptr = sigar_skip_token ptr;
     let (ut, ptr) = sigar_strtoull ptr;
     ut \<leftarrow> to_u64 (SIGAR_TICK2MSEC (ticks s) ut);
     let (st, ptr) = sigar_strtoull ptr;
     st \<leftarrow> to_u64 (SIGAR_TICK2MSEC (ticks s) st);
     let ptr = sigar_skip_token ptr;
     let ptr = sigar_skip_token ptr;
     let (priority, ptr) = sigar_strtoull ptr;
     let (nice, ptr) = sigar_strtoull ptr;
     let ptr = sigar_skip_token ptr;
     let ptr = sigar_skip_token ptr;
     let (start, ptr) = sigar_strtoull ptr;
     start \<leftarrow> (if ticks s \<le> 0 then None else Some (start div nat (ticks s)));
     let start = (start + boot_time s) mod 2 ^ 64;
     let start = start * 1000 mod 2 ^ 64;
     let (vsize, ptr) = sigar_strtoull ptr;
     let (rss, ptr) = sigar_strtoull ptr;
     let ptr = sigar_skip_multiple_token 14 ptr;
     let (processor, ptr) = sigar_strtoull ptr;
     Some (ps\<lparr>ps_ppid := ppid, ps_tty := s32 (int tty), ps_minor_faults := minor, ps_major_faults := major,
       ps_utime := ut, ps_stime := st, ps_priority := s32 (int priority), ps_nice := s32 (int nice),
       ps_start_time := start, ps_vsize := vsize, ps_rss := pageshift s rss,
       ps_processor := s32 (int processor)\<rparr>)
   }"

definition proc_stat_parse :: "sigar_t \<Rightarrow> linux_proc_stat_t \<Rightarrow> string \<Rightarrow> (int \<times> linux_proc_stat_t) option" where
  "proc_stat_parse s ps buffer =
     (case strchr buffer (CHR ''('') of
        None \<Rightarrow> Some (EINVAL, ps)
      | Some p \<Rightarrow>
          (let ptr = drop 1 p in
           case strrchr ptr (CHR '')'') of
             None \<Rightarrow> Some (EINVAL, ps)
           | Some tmp \<Rightarrow>
               (let len = length ptr - length tmp;
                    len = (if len \<ge> 128 then 127 else len);
                    ps = ps\<lparr>ps_name := take len ptr\<rparr>;
                    ptr = skip_space (drop 1 tmp)
                in if ptr = [] then None
                   else do {
                     ps \<leftarrow> stat_numbers s (ps\<lparr>ps_state := char_at ptr\<rparr>) (skip_space (drop 1 ptr));
                     Some (SIGAR_OK, ps)
                   })))"

text \<open>The status and the handle; \<open>timenow\<close> is what \<open>time(NULL)\<close> returns.\<close>

definition proc_stat_read :: "files \<Rightarrow> int \<Rightarrow> int \<Rightarrow> sigar_t \<Rightarrow> (int \<times> sigar_t) option" where
  "proc_stat_read fs timenow pid s =
     (let ps = last_proc_stat s in
      if ps_pid ps = pid \<and> timenow - ps_mtime ps < 2 then Some (SIGAR_OK, s)
      else do {
        let ps = ps\<lparr>ps_pid := pid, ps_mtime := timenow\<rparr>;
        let s = s\<lparr>last_proc_stat := ps\<rparr>;
        r \<leftarrow> SIGAR_PROC_FILE2STR fs pid ''/stat'';
        (case r of
           Inl status \<Rightarrow> Some (status, s)
         | Inr buffer \<Rightarrow> do {
             (status, ps) \<leftarrow> proc_stat_parse s ps buffer;
             Some (status, s\<lparr>last_proc_stat := ps\<rparr>)
           })
      })"

record sigar_proc_mem_t =
  pm_size :: nat
  pm_resident :: nat
  pm_share :: nat
  pm_minor_faults :: nat
  pm_major_faults :: nat
  pm_page_faults :: nat

definition sigar_proc_mem_get ::
  "files \<Rightarrow> int \<Rightarrow> int \<Rightarrow> sigar_proc_mem_t \<Rightarrow> sigar_t \<Rightarrow> (int \<times> sigar_proc_mem_t \<times> sigar_t) option" where
  "sigar_proc_mem_get fs timenow pid pm s = do {
     (status, s) \<leftarrow> proc_stat_read fs timenow pid s;
     let ps = last_proc_stat s;
     let pm = pm\<lparr>pm_minor_faults := ps_minor_faults ps, pm_major_faults := ps_major_faults ps,
       pm_page_faults := (ps_minor_faults ps + ps_major_faults ps) mod 2 ^ 64\<rparr>;
     r \<leftarrow> SIGAR_PROC_FILE2STR fs pid ''/statm'';
     (case r of
        Inl status \<Rightarrow> Some (status, pm, s)
      | Inr ptr \<Rightarrow>
          (let (a, ptr) = sigar_strtoull ptr;
               (b, ptr) = sigar_strtoull ptr;
               (c, ptr) = sigar_strtoull ptr
           in Some (SIGAR_OK, pm\<lparr>pm_size := pageshift s a, pm_resident := pageshift s b,
                pm_share := pageshift s c\<rparr>, s)))
   }"

record sigar_proc_cred_t =
  pc_uid :: nat
  pc_gid :: nat
  pc_euid :: nat
  pc_egid :: nat

text \<open>Identifiers are unsigned numbers of 32 bits.\<close>

definition sigar_proc_cred_get ::
  "files \<Rightarrow> int \<Rightarrow> sigar_proc_cred_t \<Rightarrow> (int \<times> sigar_proc_cred_t) option" where
  "sigar_proc_cred_get fs pid cred = do {
     r \<leftarrow> SIGAR_PROC_FILE2STR fs pid ''/status'';
     Some (case r of
       Inl status \<Rightarrow> (status, cred)
     | Inr buffer \<Rightarrow>
         (case strstr buffer ([LF] @ ''Uid:'') of
            None \<Rightarrow> (ENOENT, cred)
          | Some ptr \<Rightarrow>
              let ptr = sigar_skip_token ptr;
                  (u, ptr) = sigar_strtoull ptr;
                  (eu, ptr) = sigar_strtoull ptr;
                  cred = cred\<lparr>pc_uid := u mod 2 ^ 32, pc_euid := eu mod 2 ^ 32\<rparr>
              in (case strstr ptr ([LF] @ ''Gid:'') of
                    None \<Rightarrow> (ENOENT, cred)
                  | Some ptr \<Rightarrow>
                      let ptr = sigar_skip_token ptr;
                          (g, ptr) = sigar_strtoull ptr;
                          (eg, ptr) = sigar_strtoull ptr
                      in (SIGAR_OK, cred\<lparr>pc_gid := g mod 2 ^ 32, pc_egid := eg mod 2 ^ 32\<rparr>))))
   }"

definition sigar_proc_time_get ::
  "files \<Rightarrow> int \<Rightarrow> int \<Rightarrow> sigar_t \<Rightarrow> (int \<times> sigar_proc_time_t option \<times> sigar_t) option" where
  "sigar_proc_time_get fs timenow pid s = do {
     (status, s) \<leftarrow> proc_stat_read fs timenow pid s;
     let ps = last_proc_stat s;
     Some (if status \<noteq> SIGAR_OK then (status, None, s)
           else (SIGAR_OK, Some \<lparr>start_time = ps_start_time ps, user_time = ps_utime ps, sys_time = ps_stime ps,
                   total_time = (ps_utime ps + ps_stime ps) mod 2 ^ 64\<rparr>, s))
   }"

record sigar_proc_state_t =
  pst_name :: string
  pst_state :: char
  pst_ppid :: int
  pst_tty :: int
  pst_priority :: int
  pst_nice :: int
  pst_processor :: int
  pst_threads :: nat

definition proc_status_get :: "files \<Rightarrow> int \<Rightarrow> sigar_proc_state_t \<Rightarrow> (int \<times> sigar_proc_state_t) option" where
  "proc_status_get fs pid st = do {
     r \<leftarrow> SIGAR_PROC_FILE2STR fs pid ''/status'';
     Some (case r of
       Inl status \<Rightarrow> (status, st)
     | Inr buffer \<Rightarrow>
         (case strstr buffer ([LF] @ ''Threads:'') of
            Some ptr \<Rightarrow> (SIGAR_OK, st\<lparr>pst_threads := fst (sigar_strtoull (sigar_skip_token ptr))\<rparr>)
          | None \<Rightarrow> (SIGAR_OK, st\<lparr>pst_threads := FIELD_NOTIMPL\<rparr>)))
   }"

text \<open>A rolled up processor number is divided by the number of cores, which is above 1 then.\<close>

definition sigar_proc_state_get ::
  "files \<Rightarrow> cpuid \<Rightarrow> int \<Rightarrow> int \<Rightarrow> sigar_proc_state_t \<Rightarrow> sigar_t \<Rightarrow>
   (int \<times> sigar_proc_state_t \<times> sigar_t) option" where
  "sigar_proc_state_get fs cid timenow pid st s = do {
     (status, s) \<leftarrow> proc_stat_read fs timenow pid s;
     if status \<noteq> SIGAR_OK then Some (status, st, s)
     else do {
       let ps = last_proc_stat s;
       let st = st\<lparr>pst_name := ps_name ps, pst_state := ps_state ps, pst_ppid := s32 (int (ps_ppid ps)),
         pst_tty := ps_tty ps, pst_priority := ps_priority ps, pst_nice := ps_nice ps,
         pst_processor := ps_processor ps\<rparr>;
       let (rollup, s) = sigar_cpu_core_rollup cid s;
       let st = (if rollup then st\<lparr>pst_processor := sgn (pst_processor st) * (\<bar>pst_processor st\<bar> div lcpu s)\<rparr> else st);
       (ignored, st) \<leftarrow> proc_status_get fs pid st;
       Some (SIGAR_OK, st, s)
     }
   }"

section \<open>The kernel's text\<close>

lemma proc_file_eq:
  assumes "length fname < 100" and "is_cstr fname"
  shows "SIGAR_PROC_FILE2STR fs pid fname =
    map_option (\<lambda>r. case r of Inl e \<Rightarrow> Inl (if e = ENOENT then ESRCH else e) | Inr s \<Rightarrow> Inr s)
      (sigar_file2str fs (proc_path pid fname) BUFSIZ)"
  using proc_file2str_eq[of fname BUFSIZ fs pid] assms
  by (cases "sigar_file2str fs (proc_path pid fname) BUFSIZ") (simp_all add: SIGAR_PROC_FILE2STR_def)

text \<open>Signed numbers, each after a blank; an unsigned reader takes them modulo \<open>2\<^sup>6\<^sup>4\<close>.\<close>

definition int_fields :: "int list \<Rightarrow> string" where
  "int_fields xs = concat (map (\<lambda>x. CHR '' '' # show_int x) xs)"

definition as_u64 :: "int \<Rightarrow> nat" where
  "as_u64 x = nat (x mod 2 ^ 64)"

definition fits :: "int \<Rightarrow> bool" where
  "fits x \<longleftrightarrow> - (2 ^ 63) \<le> x \<and> x < 2 ^ 64"

lemma int_fields_simps [simp]:
  "int_fields [] = []" "int_fields (x # xs) = CHR '' '' # show_int x @ int_fields xs"
  by (simp_all add: int_fields_def)

lemma show_int_plain: "c \<in> set (show_int x) \<Longrightarrow> c = CHR ''-'' \<or> isdigit c"
  by (auto simp: show_int_def dest: show_nat_plain split: if_splits)

lemma show_int_not_space: "c \<in> set (show_int x) \<Longrightarrow> \<not> isspace c"
  by (auto simp: show_int_def isspace_def[of "CHR ''-''"] dest: show_nat_plain(1) split: if_splits)

lemma show_int_not_Nil [simp]: "show_int x \<noteq> []"
  by (simp add: show_int_def)

lemma strtoull_show_int:
  assumes "list_all isspace sp" and "fits x" and "ends_number r"
  shows "sigar_strtoull (sp @ show_int x @ r) = (as_u64 x, r)"
proof (cases "x < 0")
  case False
  then have "nat x < 2 ^ 64" using assms(2) by (simp add: fits_def nat_less_iff)
  moreover have "x mod 2 ^ 64 = x" using False assms(2) by (intro mod_pos_pos_trivial) (auto simp: fits_def)
  ultimately show ?thesis
    using strtoull_show_nat[OF assms(1) _ assms(3), of "nat x"] False
    by (simp add: show_int_def sigar_strtoull_def as_u64_def)
next
  case True
  let ?n = "nat (- x)"
  have n: "0 < ?n" "?n \<le> 2 ^ 63" using True assms(2) by (auto simp: fits_def)
  have sk: "skip_space (sp @ CHR ''-'' # show_nat ?n @ r) = CHR ''-'' # show_nat ?n @ r"
    using assms(1) by (simp add: skip_space_def list_all_iff dropWhile_append3 isspace_def[of "CHR ''-''"])
  have "strtoull 10 (sp @ CHR ''-'' # show_nat ?n @ r) = ((2 ^ 64 - ?n) mod 2 ^ 64, r)"
    using n assms(3) by (simp add: strtoull_def sk strto_sign_def strto_base_def takeWhile_digits digits_of_show_nat)
  moreover have "(2 ^ 64 - ?n) mod 2 ^ 64 = as_u64 x"
  proof -
    have "x mod 2 ^ 64 = (x + 2 ^ 64) mod 2 ^ 64" by simp
    also have "\<dots> = x + 2 ^ 64" using True assms(2) by (intro mod_pos_pos_trivial) (auto simp: fits_def)
    finally have "as_u64 x = nat (x + 2 ^ 64)" by (simp add: as_u64_def)
    moreover have "nat (x + 2 ^ 64) = 2 ^ 64 - ?n" using n(2) True by (simp add: nat_diff_distrib' nat_add_distrib)
    ultimately show ?thesis using n by simp
  qed
  ultimately show ?thesis using True by (simp add: show_int_def sigar_strtoull_def)
qed

lemma int_fields_plain: "c \<in> set (int_fields xs) \<Longrightarrow> c = CHR '' '' \<or> c = CHR ''-'' \<or> isdigit c"
  by (induction xs) (auto dest: show_int_plain)

text \<open>Reading and skipping the field at a place of the list.\<close>

lemma ends_number_int_fields [simp]: "ends_number (int_fields xs @ r) \<longleftrightarrow> xs \<noteq> [] \<or> ends_number r"
  by (cases xs) auto

lemma int_fields_drop:
  "i < length xs \<Longrightarrow> int_fields (drop i xs) @ r = CHR '' '' # show_int (xs ! i) @ int_fields (drop (Suc i) xs) @ r"
  by (simp add: Cons_nth_drop_Suc[symmetric])

lemma read_field:
  assumes "i < length xs" and "\<forall>x \<in> set xs. fits x" and "ends_number r"
  shows "sigar_strtoull (int_fields (drop i xs) @ r) = (as_u64 (xs ! i), int_fields (drop (Suc i) xs) @ r)"
  unfolding int_fields_drop[OF assms(1)]
  using strtoull_show_int[of "'' ''" "xs ! i" "int_fields (drop (Suc i) xs) @ r"] assms by simp

lemma skip_field:
  assumes "i < length xs" and "r = [] \<or> isspace (hd r)"
  shows "sigar_skip_token (int_fields (drop i xs) @ r) = int_fields (drop (Suc i) xs) @ r"
proof -
  have "sigar_skip_token ('' '' @ show_int (xs ! i) @ int_fields (drop (Suc i) xs) @ r) =
      int_fields (drop (Suc i) xs) @ r"
  proof (rule skip_token_word)
    show "isspace (hd (int_fields (drop (Suc i) xs) @ r))" if "int_fields (drop (Suc i) xs) @ r \<noteq> []"
      using that assms(2) by (cases "drop (Suc i) xs") auto
  qed (auto dest: show_int_not_space)
  then show ?thesis unfolding int_fields_drop[OF assms(1)] by simp
qed

lemma skip_fields:
  "i + n \<le> length xs \<Longrightarrow> r = [] \<or> isspace (hd r) \<Longrightarrow>
   sigar_skip_multiple_token n (int_fields (drop i xs) @ r) = int_fields (drop (i + n) xs) @ r"
  by (induction n arbitrary: i) (simp_all add: skip_field)

text \<open>
  \<open>/proc/<pid>/stat\<close>: the process number, the name in parentheses, the state, and the fields from the
  fourth on, of which there are at least 36.
\<close>

definition proc_stat_text :: "int \<Rightarrow> string \<Rightarrow> char \<Rightarrow> int list \<Rightarrow> string" where
  "proc_stat_text pid comm state xs =
     show_int pid @ '' ('' @ comm @ '') '' @ state # int_fields xs @ [LF]"

definition stat_of :: "sigar_t \<Rightarrow> linux_proc_stat_t \<Rightarrow> string \<Rightarrow> char \<Rightarrow> int list \<Rightarrow> linux_proc_stat_t" where
  "stat_of s ps comm state xs = ps\<lparr>
     ps_name := take 127 comm, ps_state := state, ps_ppid := as_u64 (xs ! 0), ps_tty := s32 (xs ! 3),
     ps_minor_faults := as_u64 (xs ! 6), ps_major_faults := as_u64 (xs ! 8),
     ps_utime := nat (xs ! 10) * msec_per_tick s, ps_stime := nat (xs ! 11) * msec_per_tick s,
     ps_priority := s32 (xs ! 14), ps_nice := s32 (xs ! 15),
     ps_start_time := (nat (xs ! 18) div nat (ticks s) + boot_time s) * 1000,
     ps_vsize := as_u64 (xs ! 19), ps_rss := nat (xs ! 20) * 2 ^ pagesize s,
     ps_processor := s32 (xs ! 35)\<rparr>"

text \<open>Numbers for which none of the conversions to other units leaves 64 bits.\<close>

definition stat_fields_ok :: "sigar_t \<Rightarrow> int list \<Rightarrow> bool" where
  "stat_fields_ok s xs \<longleftrightarrow> 36 \<le> length xs \<and> (\<forall>x \<in> set xs. fits x)
     \<and> 0 \<le> xs ! 10 \<and> nat (xs ! 10) * msec_per_tick s < 2 ^ 53
     \<and> 0 \<le> xs ! 11 \<and> nat (xs ! 11) * msec_per_tick s < 2 ^ 53
     \<and> 0 \<le> xs ! 18 \<and> (nat (xs ! 18) div nat (ticks s) + boot_time s) * 1000 < 2 ^ 64
     \<and> 0 \<le> xs ! 20 \<and> nat (xs ! 20) * 2 ^ pagesize s < 2 ^ 64"

lemma as_u64_nat: "0 \<le> x \<Longrightarrow> x < 2 ^ 64 \<Longrightarrow> as_u64 x = nat x"
  by (simp add: as_u64_def)

lemma s32_as_u64: "s32 (int (as_u64 x)) = s32 x"
proof -
  have "(x mod 2 ^ 64 + 2 ^ 31) mod 2 ^ 32 = (x mod 2 ^ 64 mod 2 ^ 32 + 2 ^ 31) mod (2 ^ 32 :: int)"
    by (simp only: mod_add_left_eq)
  also have "x mod 2 ^ 64 mod 2 ^ 32 = x mod (2 ^ 32 :: int)"
    by (rule mod_mod_cancel) (simp add: dvd_def)
  also have "(x mod 2 ^ 32 + 2 ^ 31) mod 2 ^ 32 = (x + 2 ^ 31) mod (2 ^ 32 :: int)"
    by (simp only: mod_add_left_eq)
  finally show ?thesis by (simp add: s32_def as_u64_def)
qed

lemma stat_numbers_fields:
  assumes g: "good_ticks s" and ok: "stat_fields_ok s xs"
  shows "stat_numbers s (ps\<lparr>ps_name := take 127 comm, ps_state := state\<rparr>)
      (show_int (xs ! 0) @ int_fields (drop 1 xs) @ [LF]) = Some (stat_of s ps comm state xs)"
proof -
  have len: "36 \<le> length xs" and fit: "\<forall>x \<in> set xs. fits x" using ok by (simp_all add: stat_fields_ok_def)
  have f: "fits (xs ! i)" if "i < 36" for i using fit len that by simp
  have rd: "i < 36 \<Longrightarrow> sigar_strtoull (int_fields (drop i xs) @ [LF]) =
      (as_u64 (xs ! i), int_fields (drop (Suc i) xs) @ [LF])" for i
    using len fit by (intro read_field) auto
  have sk: "i < 36 \<Longrightarrow> sigar_skip_token (int_fields (drop i xs) @ [LF]) = int_fields (drop (Suc i) xs) @ [LF]" for i
    using len by (intro skip_field) auto
  have sk14: "sigar_skip_multiple_token 14 (int_fields (drop 21 xs) @ [LF]) = int_fields (drop 35 xs) @ [LF]"
    using skip_fields[of 21 14 xs "[LF]"] len by simp
  have first: "sigar_strtoull (show_int (xs ! 0) @ int_fields (drop 1 xs) @ [LF]) =
      (as_u64 (xs ! 0), int_fields (drop 1 xs) @ [LF])"
    using strtoull_show_int[of "[]" "xs ! 0" "int_fields (drop 1 xs) @ [LF]"] f[of 0] by simp
  have u: "as_u64 (xs ! 10) = nat (xs ! 10)" "as_u64 (xs ! 11) = nat (xs ! 11)"
    "as_u64 (xs ! 18) = nat (xs ! 18)" "as_u64 (xs ! 20) = nat (xs ! 20)"
    using ok f[of 10] f[of 11] f[of 18] f[of 20] by (auto intro!: as_u64_nat simp: stat_fields_ok_def fits_def)
  have t: "to_u64 (SIGAR_TICK2MSEC (ticks s) (nat (xs ! 10))) = Some (nat (xs ! 10) * msec_per_tick s)"
    "to_u64 (SIGAR_TICK2MSEC (ticks s) (nat (xs ! 11))) = Some (nat (xs ! 11) * msec_per_tick s)"
    using ok g tick2msec_exact[of "ticks s"] to_u64_of_nat
    by (simp_all add: stat_fields_ok_def good_ticks_def msec_per_tick_def del: of_nat_mult)
  let ?b = "nat (xs ! 18) div nat (ticks s) + boot_time s"
  have "?b * 1000 < 2 ^ 64" using ok by (simp add: stat_fields_ok_def)
  then have st: "?b mod 18446744073709551616 = ?b"
    "(nat (xs ! 18) div nat (ticks s) * 1000 + boot_time s * 1000) mod 18446744073709551616 =
       nat (xs ! 18) div nat (ticks s) * 1000 + boot_time s * 1000"
    by (simp_all add: add_mult_distrib)
  have rs: "pageshift s (nat (xs ! 20)) = nat (xs ! 20) * 2 ^ pagesize s"
    using ok by (simp add: pageshift_def stat_fields_ok_def)
  have tp: "\<not> ticks s \<le> 0" using g by (simp add: good_ticks_def)
  show ?thesis
    unfolding stat_numbers_def Let_def first prod.case
    by (simp add: rd sk sk14 u t st rs tp s32_as_u64 stat_of_def numeral_2_eq_2[symmetric] del: One_nat_def)
qed

lemma proc_stat_parse_text:
  assumes g: "good_ticks s" and ok: "stat_fields_ok s xs" and pid: "0 \<le> pid"
    and comm: "is_cstr comm" and st: "\<not> isspace state" "state \<noteq> CHR '')''"
  shows "proc_stat_parse s ps (proc_stat_text pid comm state xs) = Some (SIGAR_OK, stat_of s ps comm state xs)"
proof -
  let ?t = "CHR '')'' # CHR '' '' # state # int_fields xs @ [LF]"
  have p1: "CHR ''('' \<notin> set (show_int pid @ '' '')"
    using show_int_plain[of "CHR ''(''" pid] by (auto simp: isdigit_def)
  have "strchr ((show_int pid @ '' '') @ CHR ''('' # comm @ ?t) (CHR ''('') = Some (CHR ''('' # comm @ ?t)"
    by (rule strchr_append[OF p1])
  then have c: "strchr (proc_stat_text pid comm state xs) (CHR ''('') = Some (CHR ''('' # comm @ ?t)"
    by (simp add: proc_stat_text_def)
  have "CHR '')'' \<notin> set (int_fields xs)"
    using int_fields_plain[of "CHR '')''" xs] by (auto simp: isdigit_def)
  then have "CHR '')'' \<notin> set (CHR '' '' # state # int_fields xs @ [LF])" using st(2) by auto
  then have r: "strrchr (comm @ ?t) (CHR '')'') = Some ?t" by (rule strrchr_append)
  have ne: "xs \<noteq> []" using ok by (auto simp: stat_fields_ok_def)
  then have "int_fields xs @ [LF] = CHR '' '' # show_int (xs ! 0) @ int_fields (drop 1 xs) @ [LF]"
    using int_fields_drop[of 0 xs "[LF]"] by simp
  then have sk: "skip_space (int_fields xs @ [LF]) = show_int (xs ! 0) @ int_fields (drop 1 xs) @ [LF]"
    by (cases "show_int (xs ! 0)") (use show_int_not_space[of "hd (show_int (xs ! 0))" "xs ! 0"] in \<open>auto simp: skip_space_def\<close>)
  have len: "length (comm @ ?t) - length ?t = length comm" by simp
  have s1: "skip_space (drop 1 ?t) = state # int_fields xs @ [LF]" using st(1) by (simp add: skip_space_def)
  show ?thesis
    unfolding proc_stat_parse_def c option.case Let_def
    using stat_numbers_fields[OF g ok, where ps = ps and comm = comm and state = state]
    by (cases "128 \<le> length comm") (simp_all add: r sk s1[simplified] char_at_def len[simplified])
qed

section \<open>Properties\<close>

lemma is_cstr_int_fields [simp]: "is_cstr (int_fields xs)"
  by (induction xs) auto

text \<open>
  (C12) \<open>proc_stat_read\<close> takes \<open>/proc/<pid>/stat\<close> apart as the kernel put it together. The name is what
  stands in the parentheses, cut to 127 characters, whatever characters it has, parentheses and
  blanks included; every number is the one at its place in the kernel's list, negative priorities
  too, with ticks turned into milliseconds, pages into bytes and the start time into milliseconds
  since the epoch.
\<close>

theorem proc_stat_read_correct:
  assumes "ps_pid (last_proc_stat s) \<noteq> pid" and "0 \<le> pid" and "good_ticks s" and "stat_fields_ok s xs"
    and "is_cstr comm" and "\<not> isspace state" and "state \<noteq> CHR '')''" and "state \<noteq> NUL"
    and "fs (proc_path pid ''/stat'') = Bytes (proc_stat_text pid comm state xs)"
    and "length (proc_stat_text pid comm state xs) < BUFSIZ"
  shows "proc_stat_read fs timenow pid s = Some (SIGAR_OK, s\<lparr>last_proc_stat :=
    stat_of s ((last_proc_stat s)\<lparr>ps_pid := pid, ps_mtime := timenow\<rparr>) comm state xs\<rparr>)"
proof -
  let ?s = "s\<lparr>last_proc_stat := (last_proc_stat s)\<lparr>ps_pid := pid, ps_mtime := timenow\<rparr>\<rparr>"
  have "is_cstr (proc_stat_text pid comm state xs)" using assms(5,8) by (simp add: proc_stat_text_def)
  then have f: "SIGAR_PROC_FILE2STR fs pid ''/stat'' = Some (Inr (proc_stat_text pid comm state xs))"
    using assms(9,10) by (simp add: proc_file_eq sigar_file2str_def)
  have g: "good_ticks ?s" "stat_fields_ok ?s xs"
    using assms(3,4) by (simp_all add: good_ticks_def stat_fields_ok_def msec_per_tick_def)
  have e: "stat_of ?s p comm state xs = stat_of s p comm state xs" for p
    by (simp add: stat_of_def msec_per_tick_def)
  show ?thesis
    using assms(1) proc_stat_parse_text[OF g assms(2,5,6,7)] by (simp add: proc_stat_read_def f e)
qed

definition example_stat :: "int list" where
  "example_stat = [1, 7, 7, 0, -1, 4, 9, 0, 2, 0, 5, 3, 0, 0, -5, -5, 1, 0, 600, 4096, 3,
     0, 0, 0, 0, 0, 0, 0, 0, 0, 0, 0, 0, 0, 0, 1]"

theorem proc_stat_read_correct_witness:
  "proc_stat_read (example_files (proc_path 7 ''/stat'') (proc_stat_text 7 ''a) (b'' (CHR ''S'') example_stat)) 1000 7 example_sigar
   = Some (SIGAR_OK, example_sigar\<lparr>last_proc_stat :=
       stat_of example_sigar ((last_proc_stat example_sigar)\<lparr>ps_pid := 7, ps_mtime := 1000\<rparr>) ''a) (b'' (CHR ''S'') example_stat\<rparr>)"
proof -
  have "stat_fields_ok example_sigar example_stat"
    by (simp add: stat_fields_ok_def example_stat_def fits_def example_ticks)
      (simp add: example_sigar_def)
  moreover have "length (proc_stat_text 7 ''a) (b'' (CHR ''S'') example_stat) < 8192"
    by (simp add: proc_stat_text_def example_stat_def show_int_def show_nat.simps)
  ultimately show ?thesis
    using proc_stat_read_correct[of example_sigar 7 example_stat "''a) (b''" "CHR ''S''"
      "example_files (proc_path 7 ''/stat'') (proc_stat_text 7 ''a) (b'' (CHR ''S'') example_stat)" 1000] example_ticks
    by (simp add: example_files_def isspace_def) (simp add: example_sigar_def)
qed

text \<open>
  (C31) A read that fails is remembered as if it had succeeded. When the file of a process cannot be
  opened, \<open>proc_stat_read\<close> reports \<open>ESRCH\<close>, but it has already noted the process number and the time
  in the handle: asked again within two seconds, it reports success without reading anything, and
  \<open>sigar_proc_time_get\<close> returns the times of the process that was read before.
\<close>

theorem failed_read_reports_other_process:
  assumes "ps_pid (last_proc_stat s) \<noteq> pid" and "fs (proc_path pid ''/stat'') = No_file e"
    and "later - timenow < 2"
  shows "\<exists>s'. proc_stat_read fs timenow pid s = Some (ESRCH, s')
    \<and> sigar_proc_time_get fs' later pid s' = Some (SIGAR_OK,
        Some \<lparr>start_time = ps_start_time (last_proc_stat s), user_time = ps_utime (last_proc_stat s),
          sys_time = ps_stime (last_proc_stat s),
          total_time = (ps_utime (last_proc_stat s) + ps_stime (last_proc_stat s)) mod 2 ^ 64\<rparr>, s')"
proof -
  let ?s = "s\<lparr>last_proc_stat := (last_proc_stat s)\<lparr>ps_pid := pid, ps_mtime := timenow\<rparr>\<rparr>"
  have "SIGAR_PROC_FILE2STR fs pid ''/stat'' = Some (Inl ESRCH)"
    using assms(2) by (simp add: proc_file_eq sigar_file2str_def)
  then have "proc_stat_read fs timenow pid s = Some (ESRCH, ?s)"
    using assms(1) by (simp add: proc_stat_read_def)
  moreover have "proc_stat_read fs' later pid ?s = Some (SIGAR_OK, ?s)"
    using assms(3) by (simp add: proc_stat_read_def)
  ultimately show ?thesis by (simp add: sigar_proc_time_get_def)
qed

theorem failed_read_reports_other_process_witness:
  "\<exists>s'. proc_stat_read (\<lambda>p. No_file ENOENT) 1000 7 example_sigar = Some (ESRCH, s')
    \<and> sigar_proc_time_get (\<lambda>p. No_file ENOENT) 1001 7 s' =
        Some (SIGAR_OK, Some \<lparr>start_time = 0, user_time = 0, sys_time = 0, total_time = 0\<rparr>, s')"
  using failed_read_reports_other_process[of example_sigar 7 "\<lambda>p. No_file ENOENT" ENOENT 1001 1000 "\<lambda>p. No_file ENOENT"]
  by (simp add: example_sigar_def)

end
