(* ===== verification/Sigar_Handle.thy ===== *)
theory Sigar_Handle
  imports Sigar_Cache Sigar_Proc
begin

text \<open>
  The handle of \<open>sigar\<close>: opened by \<open>sigar_create\<close> of \<open>equus_util.c\<close> for a check, closed by
  \<open>sigar_destroy\<close>, and in between the owner of everything the library remembers. \<open>sigar_proc_cpu_get\<close>
  is the operation that uses all of it: the table of \<open>Sigar_Cache\<close> in memory, the text of a process
  of \<open>Sigar_Proc\<close> and the clock.
\<close>

section \<open>Opening\<close>

text \<open>
  What the operating system answers while a handle is opened: files, the page size, the clock, the
  tick rate, the environment and the kernel release. The memory \<open>malloc\<close> returns holds anything.
\<close>

record sigar_env =
  env_files :: files
  env_pagesize :: nat
  env_time :: nat
  env_ticks :: int
  env_var :: "string \<Rightarrow> string option"
  env_release :: string
  env_junk :: sigar_t

fun page_bits :: "nat \<Rightarrow> nat" where
  "page_bits i = (if i div 2 > 0 then Suc (page_bits (i div 2)) else 0)"

declare page_bits.simps [simp del]

definition sigar_boot_time_get :: "sigar_env \<Rightarrow> sigar_t \<Rightarrow> int \<times> sigar_t" where
  "sigar_boot_time_get env s =
     (case fopen (env_files env) ''/proc/stat'' of
        Inl e \<Rightarrow> (e, s)
      | Inr fp \<Rightarrow>
          (SIGAR_OK,
           case find (\<lambda>l. strneq 5 l ''btime'') (fgets_lines fp) of
             Some l \<Rightarrow> s\<lparr>boot_time := fst (sigar_strtoull (sigar_skip_token (cstr l)))\<rparr>
           | None \<Rightarrow> s\<lparr>boot_time := env_time env\<rparr>))"

definition stat_ok :: "sigar_env \<Rightarrow> string \<Rightarrow> bool" where
  "stat_ok env path = (case env_files env path of No_file e \<Rightarrow> False | _ \<Rightarrow> True)"

text \<open>The status, the address of the handle and memory.\<close>

definition sigar_os_open :: "sigar_env \<Rightarrow> heap \<Rightarrow> (int \<times> addr \<times> heap) option" where
  "sigar_os_open env h = (
     let (si, h) = malloc h;
         s = (env_junk env)\<lparr>pagesize := page_bits (env_pagesize env)\<rparr>;
         (status, s) = sigar_boot_time_get env s
     in if status \<noteq> SIGAR_OK then Some (status, si, h)
        else
          let s = s\<lparr>ticks := env_ticks env, ram := -1, proc_signal_offset := -1,
                last_proc_stat := (last_proc_stat s)\<lparr>ps_pid := -1\<rparr>, lcpu := -1,
                iostat := (if stat_ok env ''/proc/diskstats'' then IOSTAT_DISKSTATS
                           else if stat_ok env ''/sys/block'' then IOSTAT_SYS
                           else if stat_ok env ''/proc/partitions'' then IOSTAT_PARTITIONS
                           else IOSTAT_NONE),
                proc_net := env_var env ''SIGAR_PROC_NET'',
                has_nptl := (if atoi (drop 2 (env_release env)) \<ge> 6 then True
                             else env_var env ''SIGAR_HAS_NPTL'' \<noteq> None)\<rparr>
          in do {
            h \<leftarrow> store si (Sigar_cell s) h;
            Some (SIGAR_OK, si, h)
          })"

definition sigar_open :: "sigar_env \<Rightarrow> heap \<Rightarrow> (int \<times> addr \<times> heap) option" where
  "sigar_open env h = do {
     (status, si, h) \<leftarrow> sigar_os_open env h;
     if status = SIGAR_OK then do {
       s \<leftarrow> get_sigar h si;
       h \<leftarrow> store si (Sigar_cell (s\<lparr>cpu_list_cores := (env_var env ''SIGAR_CPU_LIST_SOCKETS'' = None),
         si_pid := 0, ifconf_buf := NULL, ifconf_len := 0, log_level := -1, self_path := NULL,
         fsdev := NULL, si_pids := NULL, proc_cpu := NULL, net_listen := NULL,
         net_services_tcp := NULL, net_services_udp := NULL\<rparr>)) h;
       Some (status, si, h)
     } else Some (status, si, h)
   }"

section \<open>Closing\<close>

definition sigar_proc_list_destroy :: "addr \<Rightarrow> heap \<Rightarrow> heap option" where
  "sigar_proc_list_destroy a h = do {
     l \<leftarrow> get_pids h a;
     if pl_size l \<noteq> 0 then do {
       h \<leftarrow> free (pl_data l) h;
       store a (Pids_cell (l\<lparr>pl_number := 0, pl_size := 0\<rparr>)) h
     } else Some h
   }"

definition close_pids :: "addr \<Rightarrow> heap \<Rightarrow> heap option" where
  "close_pids a h =
     (if a \<noteq> NULL then do { h \<leftarrow> sigar_proc_list_destroy a h; free a h } else Some h)"

definition close_table :: "addr \<Rightarrow> heap \<Rightarrow> heap option" where
  "close_table t h = (if t \<noteq> NULL then sigar_cache_destroy t h else Some h)"

definition sigar_os_close :: "addr \<Rightarrow> heap \<Rightarrow> (int \<times> heap) option" where
  "sigar_os_close si h = do { h \<leftarrow> free si h; Some (SIGAR_OK, h) }"

definition sigar_close :: "addr \<Rightarrow> heap \<Rightarrow> (int \<times> heap) option" where
  "sigar_close si h = do {
     s \<leftarrow> get_sigar h si;
     h \<leftarrow> free (ifconf_buf s) h;
     h \<leftarrow> free (self_path s) h;
     h \<leftarrow> close_pids (si_pids s) h;
     h \<leftarrow> close_table (fsdev s) h;
     h \<leftarrow> close_table (proc_cpu s) h;
     h \<leftarrow> close_table (net_listen s) h;
     h \<leftarrow> close_table (net_services_tcp s) h;
     h \<leftarrow> close_table (net_services_udp s) h;
     sigar_os_close si h
   }"

section \<open>The agent's functions\<close>

definition sigar_create :: "sigar_env \<Rightarrow> heap \<Rightarrow> (addr \<times> heap) option" where
  "sigar_create env h = do {
     (status, si, h) \<leftarrow> sigar_open env h;
     Some (if status \<noteq> SIGAR_OK then NULL else si, h)
   }"

definition sigar_destroy :: "addr \<Rightarrow> heap \<Rightarrow> (int \<times> heap) option" where
  "sigar_destroy si h = (if si = NULL then Some (0, h) else sigar_close si h)"

section \<open>Processor time of a process\<close>

definition zero_proc_cpu :: sigar_proc_cpu_t where
  "zero_proc_cpu = \<lparr>start_time = 0, user_time = 0, sys_time = 0, total_time = 0, last_time = 0, percent = (0, 1)\<rparr>"

text \<open>The table, created when it is first needed, and the block that holds the last times.\<close>

definition cpu_table :: "addr \<Rightarrow> heap \<Rightarrow> (addr \<times> heap) option" where
  "cpu_table si h = do {
     s \<leftarrow> get_sigar h si;
     if proc_cpu s = NULL then do {
       (t, h) \<leftarrow> sigar_cache_new 128 h;
       h \<leftarrow> store si (Sigar_cell (s\<lparr>proc_cpu := t\<rparr>)) h;
       Some (t, h)
     } else Some (proc_cpu s, h)
   }"

definition cpu_block :: "addr \<Rightarrow> nat \<Rightarrow> heap \<Rightarrow> (addr \<times> heap) option" where
  "cpu_block t key h = do {
     (e, h) \<leftarrow> sigar_cache_get t key h;
     c \<leftarrow> get_ent h e;
     if ent_value c \<noteq> NULL then Some (ent_value c, h)
     else do {
       (v, h) \<leftarrow> new (Cpu_cell zero_proc_cpu) h;
       h \<leftarrow> store e (Ent_cell (c\<lparr>ent_value := v\<rparr>)) h;
       Some (v, h)
     }
   }"

text \<open>A process number, converted to the unsigned key of the table.\<close>

definition cpu_key :: "int \<Rightarrow> nat" where
  "cpu_key pid = nat (pid mod 2 ^ 64)"

text \<open>
  \<open>time_now\<close> is \<open>sigar_time_now_millis()\<close>, \<open>timenow\<close> the \<open>time(NULL)\<close> of \<open>proc_stat_read\<close>. The result is
  the status, the caller's structure and memory.
\<close>

definition sigar_proc_cpu_get ::
  "files \<Rightarrow> nat \<Rightarrow> int \<Rightarrow> int \<Rightarrow> sigar_proc_cpu_t \<Rightarrow> addr \<Rightarrow> heap \<Rightarrow> (int \<times> sigar_proc_cpu_t \<times> heap) option" where
  "sigar_proc_cpu_get fs time_now timenow pid pc si h = do {
     (t, h) \<leftarrow> cpu_table si h;
     (prev, h) \<leftarrow> cpu_block t (cpu_key pid) h;
     p \<leftarrow> get_cpu h prev;
     let time_diff = minus64 time_now (last_time p);
     h \<leftarrow> store prev (Cpu_cell (p\<lparr>last_time := time_now\<rparr>)) h;
     let pc = pc\<lparr>last_time := time_now\<rparr>;
     if time_diff = 0 then Some (SIGAR_OK, p\<lparr>last_time := time_now\<rparr>, h)
     else do {
       let otime = total_time p;
       s \<leftarrow> get_sigar h si;
       (status, r, s) \<leftarrow> sigar_proc_time_get fs timenow pid s;
       h \<leftarrow> store si (Sigar_cell s) h;
       (case r of
          None \<Rightarrow> Some (status, pc, h)
        | Some tm \<Rightarrow> do {
            let pc = pc\<lparr>start_time := start_time tm, user_time := user_time tm, sys_time := sys_time tm,
              total_time := total_time tm\<rparr>;
            h \<leftarrow> store prev (Cpu_cell pc) h;
            let otime = (if total_time pc < otime then 0 else otime);
            Some (SIGAR_OK,
                  pc\<lparr>percent := if otime = 0 then (0, 1) else (total_time pc - otime, time_diff)\<rparr>, h)
          })
     }
   }"

section \<open>What a handle owns\<close>

definition block_of :: "addr \<Rightarrow> addr list" where
  "block_of a = (if a = NULL then [] else [a])"

definition table_blocks :: "heap \<Rightarrow> addr \<Rightarrow> addr list" where
  "table_blocks h t = (if t = NULL then [] else cache_blocks h t)"

definition table_wf :: "heap \<Rightarrow> addr \<Rightarrow> bool" where
  "table_wf h t \<longleftrightarrow> t \<noteq> NULL \<longrightarrow> cache_wf h t"

definition pids_blocks :: "heap \<Rightarrow> addr \<Rightarrow> addr list" where
  "pids_blocks h a =
     (case get_pids h a of None \<Rightarrow> [] | Some l \<Rightarrow> a # (if pl_size l \<noteq> 0 then block_of (pl_data l) else []))"

text \<open>Everything but the handle itself and the processor times.\<close>

definition rest_blocks :: "heap \<Rightarrow> sigar_t \<Rightarrow> addr list" where
  "rest_blocks h s =
     block_of (ifconf_buf s) @ block_of (self_path s) @ pids_blocks h (si_pids s) @
     table_blocks h (fsdev s) @ table_blocks h (net_listen s) @
     table_blocks h (net_services_tcp s) @ table_blocks h (net_services_udp s)"

definition rest_wf :: "heap \<Rightarrow> sigar_t \<Rightarrow> bool" where
  "rest_wf h s \<longleftrightarrow>
     (si_pids s \<noteq> NULL \<longrightarrow> get_pids h (si_pids s) \<noteq> None) \<and>
     table_wf h (fsdev s) \<and> table_wf h (net_listen s) \<and>
     table_wf h (net_services_tcp s) \<and> table_wf h (net_services_udp s)"

definition owned_blocks :: "heap \<Rightarrow> addr \<Rightarrow> sigar_t \<Rightarrow> addr list" where
  "owned_blocks h si s = si # rest_blocks h s @ table_blocks h (proc_cpu s)"

definition cpu_values :: "heap \<Rightarrow> addr \<Rightarrow> bool" where
  "cpu_values h t \<longleftrightarrow>
     t \<noteq> NULL \<longrightarrow> (\<forall>v \<in> ran (cache_value h t). get_cpu h v \<noteq> None)"

text \<open>
  A handle in good order: its tables are, the processor times are where the table says, and all its
  blocks are live and different.
\<close>

definition handle_ok :: "heap \<Rightarrow> addr \<Rightarrow> sigar_t \<Rightarrow> bool" where
  "handle_ok h si s \<longleftrightarrow>
     heap_wf h \<and> cells h si = Some (Sigar_cell s) \<and> rest_wf h s \<and> table_wf h (proc_cpu s) \<and>
     cpu_values h (proc_cpu s) \<and> distinct (owned_blocks h si s) \<and>
     set (owned_blocks h si s) \<subseteq> dom (cells h)"

definition handle_wf :: "heap \<Rightarrow> addr \<Rightarrow> bool" where
  "handle_wf h si \<longleftrightarrow> (case get_sigar h si of None \<Rightarrow> False | Some s \<Rightarrow> handle_ok h si s)"

definition handle_blocks :: "heap \<Rightarrow> addr \<Rightarrow> addr list" where
  "handle_blocks h si = (case get_sigar h si of None \<Rightarrow> [] | Some s \<Rightarrow> owned_blocks h si s)"

lemma handle_wfE:
  assumes "handle_wf h si"
  obtains s where "get_sigar h si = Some s" "handle_ok h si s" "handle_blocks h si = owned_blocks h si s"
  using assms by (auto simp: handle_wf_def handle_blocks_def split: option.splits)

lemma handle_okD:
  assumes "handle_ok h si s"
  shows "heap_wf h" "cells h si = Some (Sigar_cell s)" "rest_wf h s" "table_wf h (proc_cpu s)"
    "cpu_values h (proc_cpu s)" "distinct (owned_blocks h si s)" "set (owned_blocks h si s) \<subseteq> dom (cells h)"
  using assms by (auto simp: handle_ok_def)

lemma handle_ok_blocks:
  assumes "handle_ok h si s"
  shows "handle_wf h si" "handle_blocks h si = owned_blocks h si s"
  using assms sigar_get_iff(6)[of h si s] handle_okD(2)[OF assms]
  by (simp_all add: handle_wf_def handle_blocks_def)

section \<open>Closing releases it\<close>

text \<open>Each step of \<open>sigar_close\<close>, in a memory from which other blocks are gone already.\<close>

lemma free_step:
  assumes "heap_wf h" and "set (block_of a) \<subseteq> dom (cells h)" and "set (block_of a) \<inter> A = {}"
  shows "free a (without A h) = Some (without (A \<union> set (block_of a)) h)"
proof (cases "a = NULL")
  case False
  then have "a \<in> dom (cells (without A h))" using assms(2,3) by (auto simp: block_of_def)
  then show ?thesis
    using False free_is_without[OF heap_wf_without[OF assms(1)]] by (simp add: block_of_def without_without)
qed (simp add: block_of_def)

lemma table_step:
  assumes "heap_wf h" and "table_wf h t" and "set (table_blocks h t) \<inter> A = {}"
  shows "close_table t (without A h) = Some (without (A \<union> set (table_blocks h t)) h)"
proof (cases "t = NULL")
  case False
  then have wf: "cache_wf h t" using assms(2) by (simp add: table_wf_def)
  have "same_on (set (cache_blocks h t)) h (without A h)"
    using assms(3) False by (auto simp: same_on_def table_blocks_def)
  note f = cache_frame[OF wf heap_wf_without[OF assms(1)] this]
  show ?thesis
    using cache_destroy_without[OF f(1)] False
    by (simp add: close_table_def table_blocks_def f(3) without_without)
qed (simp add: close_table_def table_blocks_def)

lemma pids_step:
  assumes wf: "heap_wf h" and p: "a \<noteq> NULL \<longrightarrow> get_pids h a \<noteq> None"
    and live: "set (pids_blocks h a) \<subseteq> dom (cells h)" and d: "distinct (pids_blocks h a)"
    and A: "set (pids_blocks h a) \<inter> A = {}"
  shows "close_pids a (without A h) = Some (without (A \<union> set (pids_blocks h a)) h)"
proof (cases "a = NULL")
  case True
  have "get_pids h NULL = None" using wf by (simp add: get_pids_def)
  then show ?thesis using True by (simp add: close_pids_def pids_blocks_def)
next
  case False
  then obtain l where l: "get_pids h a = Some l" using p by auto
  then have c: "cells h a = Some (Pids_cell l)" by (simp add: sigar_get_iff)
  have a: "a \<notin> A" using A l by (auto simp: pids_blocks_def)
  then have la: "get_pids (without A h) a = Some l" using c by (simp add: get_pids_def)
  show ?thesis
  proof (cases "pl_size l = 0")
    case True
    then show ?thesis
      using free_step[OF wf, of a A] live A l la False
      by (simp add: close_pids_def sigar_proc_list_destroy_def pids_blocks_def block_of_def)
  next
    case sz: False
    have "free (pl_data l) (without A h) = Some (without (A \<union> set (block_of (pl_data l))) h)"
      using live A l sz by (intro free_step[OF wf]) (auto simp: pids_blocks_def)
    moreover have "a \<notin> set (block_of (pl_data l))" using d l sz by (simp add: pids_blocks_def)
    ultimately show ?thesis
      using False l la sz a c
      by (simp add: close_pids_def sigar_proc_list_destroy_def pids_blocks_def store_def free_def
          without_def restrict_map_def fun_eq_iff)
  qed
qed

lemma sigar_close_without:
  assumes "handle_wf h si"
  shows "sigar_close si h = Some (SIGAR_OK, without (set (handle_blocks h si)) h)"
proof -
  from assms obtain s where s: "get_sigar h si = Some s" "handle_ok h si s"
    "handle_blocks h si = owned_blocks h si s" by (rule handle_wfE)
  note k = handle_okD[OF s(2)]
  have NULL: "si \<noteq> NULL" using k(1,2) heap_wf_not_NULL by blast
  have last: "free si (without A h) = Some (without (insert si A) h)" if "si \<notin> A" for A
    using free_step[OF k(1), of si A] that k(2) NULL by (auto simp: block_of_def)
  note st = free_step[OF k(1)] table_step[OF k(1)] pids_step[OF k(1)]
  note w = k(3,4)[unfolded rest_wf_def]
  note dd = k(6,7)[unfolded owned_blocks_def rest_blocks_def, simplified]
  have first: "free (ifconf_buf s) h = Some (without (set (block_of (ifconf_buf s))) h)"
    using free_step[OF k(1), of "ifconf_buf s" "{}"] dd by simp
  show ?thesis
    unfolding sigar_close_def sigar_os_close_def
    using s(1) w dd
    by (simp add: first st last s(3) owned_blocks_def rest_blocks_def Int_Un_distrib Un_ac Int_commute)
qed

section \<open>Opening gives a handle in good order\<close>

definition boots :: "sigar_env \<Rightarrow> bool" where
  "boots env \<longleftrightarrow> (\<exists>fp. fopen (env_files env) ''/proc/stat'' = Inr fp)"

lemma boot_time_status:
  "fst (sigar_boot_time_get env s) = (case fopen (env_files env) ''/proc/stat'' of Inl e \<Rightarrow> e | Inr fp \<Rightarrow> SIGAR_OK)"
  by (simp add: sigar_boot_time_get_def split: sum.split)

definition fresh_handle :: "sigar_t \<Rightarrow> bool" where
  "fresh_handle s \<longleftrightarrow>
     ifconf_buf s = NULL \<and> self_path s = NULL \<and> si_pids s = NULL \<and> fsdev s = NULL \<and> proc_cpu s = NULL \<and>
     net_listen s = NULL \<and> net_services_tcp s = NULL \<and> net_services_udp s = NULL"

lemma fresh_handle_ok:
  assumes "heap_wf h" and "cells h si = Some (Sigar_cell s)" and "fresh_handle s"
  shows "handle_ok h si s" "owned_blocks h si s = [si]"
proof -
  have "get_pids h NULL = None" using assms(1) by (simp add: get_pids_def)
  then show b: "owned_blocks h si s = [si]"
    using assms(3) by (simp add: fresh_handle_def owned_blocks_def rest_blocks_def block_of_def table_blocks_def pids_blocks_def)
  show "handle_ok h si s"
    using assms unfolding handle_ok_def b by (auto simp: fresh_handle_def rest_wf_def table_wf_def cpu_values_def)
qed

lemma sigar_open_ok:
  assumes "boots env"
  shows "\<exists>s. sigar_open env h =
      Some (SIGAR_OK, brk h, h\<lparr>brk := Suc (brk h), cells := (cells h)(brk h \<mapsto> Sigar_cell s)\<rparr>)
    \<and> fresh_handle s \<and> ram s = -1 \<and> lcpu s = -1 \<and> ps_pid (last_proc_stat s) = -1 \<and> ticks s = env_ticks env"
proof -
  obtain fp where fp: "fopen (env_files env) ''/proc/stat'' = Inr fp" using assms by (auto simp: boots_def)
  obtain s1 where b: "sigar_boot_time_get env ((env_junk env)\<lparr>pagesize := page_bits (env_pagesize env)\<rparr>) = (SIGAR_OK, s1)"
    using boot_time_status[of env] fp by (metis prod.collapse sum.case(2))
  show ?thesis
    unfolding sigar_open_def sigar_os_open_def
    by (rule exI, rule conjI, (simp add: malloc_def b store_def get_sigar_def Let_def split del: if_split; rule refl),
        simp add: fresh_handle_def)
qed

lemma sigar_open_fails:
  assumes "fopen (env_files env) ''/proc/stat'' = Inl e" and "e \<noteq> SIGAR_OK"
  shows "sigar_open env h = Some (e, malloc h)"
  using assms by (simp add: sigar_open_def sigar_os_open_def malloc_def sigar_boot_time_get_def)

text \<open>
  What the agent does with a handle between \<open>sigar_create\<close> and \<open>sigar_destroy\<close> keeps it in good order
  and touches nothing else.
\<close>

definition handle_step :: "addr \<Rightarrow> heap \<Rightarrow> heap \<Rightarrow> bool" where
  "handle_step si h h' \<longleftrightarrow>
     handle_wf h' si \<and> same_on (dom (cells h) - set (handle_blocks h si)) h h' \<and>
     dom (cells h') - set (handle_blocks h' si) = dom (cells h) - set (handle_blocks h si)"

lemma handle_step_refl: "handle_wf h si \<Longrightarrow> handle_step si h h"
  by (simp add: handle_step_def)

lemma handle_step_trans [trans]:
  "handle_step si h h' \<Longrightarrow> handle_step si h' h'' \<Longrightarrow> handle_step si h h''"
  unfolding handle_step_def by (metis same_on_trans)

section \<open>A change of the processor times\<close>

lemma table_frame:
  assumes "table_wf h t" and "heap_wf h'" and "same_on (set (table_blocks h t)) h h'"
  shows "table_wf h' t" "table_blocks h' t = table_blocks h t"
  using assms cache_frame[of h t h'] by (auto simp: table_wf_def table_blocks_def)

lemma pids_frame:
  assumes "a \<noteq> NULL \<longrightarrow> get_pids h a \<noteq> None" and "heap_wf h" and "heap_wf h'"
    and "same_on (set (pids_blocks h a)) h h'"
  shows "get_pids h' a = get_pids h a" "pids_blocks h' a = pids_blocks h a"
proof -
  show g: "get_pids h' a = get_pids h a"
  proof (cases "a = NULL")
    case False
    then have "a \<in> set (pids_blocks h a)" using assms(1) by (auto simp: pids_blocks_def)
    then show ?thesis using assms(4) by (simp add: same_on_def get_pids_def)
  qed (use assms(2,3) in \<open>simp add: get_pids_def\<close>)
  then show "pids_blocks h' a = pids_blocks h a" by (simp add: pids_blocks_def)
qed

lemma rest_frame:
  assumes "rest_wf h s" and "heap_wf h" and "heap_wf h'" and same: "same_on (set (rest_blocks h s)) h h'"
  shows "rest_wf h' s" "rest_blocks h' s = rest_blocks h s"
proof -
  have sub: "same_on (set B) h h'" if "set B \<subseteq> set (rest_blocks h s)" for B
    using same that by (rule same_on_mono)
  note w = assms(1)[unfolded rest_wf_def]
  have p: "get_pids h' (si_pids s) = get_pids h (si_pids s)" "pids_blocks h' (si_pids s) = pids_blocks h (si_pids s)"
    using w assms(2,3) by (auto intro!: pids_frame sub simp: rest_blocks_def)
  have t: "table_wf h' t \<and> table_blocks h' t = table_blocks h t"
    if "t \<in> {fsdev s, net_listen s, net_services_tcp s, net_services_udp s}" for t
    using table_frame[OF _ assms(3), of h t] that w sub[of "table_blocks h t"] by (auto simp: rest_blocks_def)
  show "rest_wf h' s" "rest_blocks h' s = rest_blocks h s"
    using w t p by (simp_all add: rest_wf_def rest_blocks_def)
qed

text \<open>
  The handle after its table of processor times changed: the other parts stay, and so does
  everything outside the handle.
\<close>

lemma handle_update:
  assumes ok: "handle_ok h si s" and hw: "heap_wf h'" and c: "cells h' si = Some (Sigar_cell s')"
    and s': "s' = s\<lparr>proc_cpu := proc_cpu s', last_proc_stat := last_proc_stat s'\<rparr>"
    and t: "table_wf h' (proc_cpu s')" and v: "cpu_values h' (proc_cpu s')"
    and out: "dom (cells h') - set (table_blocks h' (proc_cpu s')) = dom (cells h) - set (table_blocks h (proc_cpu s))"
    and same: "same_on (dom (cells h) - set (table_blocks h (proc_cpu s)) - {si}) h h'"
  shows "handle_ok h' si s'" "handle_step si h h'"
proof -
  note k = handle_okD[OF ok]
  have rest: "rest_wf g s' = rest_wf g s" "rest_blocks g s' = rest_blocks g s" for g
    by (subst s', simp add: rest_wf_def, subst s', simp add: rest_blocks_def)
  have d: "si \<notin> set (rest_blocks h s)" "set (rest_blocks h s) \<inter> set (table_blocks h (proc_cpu s)) = {}"
    "si \<notin> set (table_blocks h (proc_cpu s))" "distinct (rest_blocks h s)"
    "set (rest_blocks h s) \<subseteq> dom (cells h)" "si \<in> dom (cells h)"
    using k(6,7) by (auto simp: owned_blocks_def)
  have "same_on (set (rest_blocks h s)) h h'" using same by (rule same_on_mono) (use d in auto)
  note f = rest_frame[OF k(3,1) hw this]
  have tb: "distinct (table_blocks h' (proc_cpu s'))" "set (table_blocks h' (proc_cpu s')) \<subseteq> dom (cells h')"
    using t cache_blocks_distinct cache_blocks_live by (auto simp: table_wf_def table_blocks_def)
  have "set (rest_blocks h s) \<subseteq> dom (cells h')"
    using d(1,2,5) same by (force simp: same_on_def)
  moreover have "set (table_blocks h' (proc_cpu s')) \<inter> insert si (set (rest_blocks h s)) = {}"
    using out d by blast
  ultimately show ok': "handle_ok h' si s'"
    using hw c t v d tb f by (auto simp: handle_ok_def owned_blocks_def rest)
  show "handle_step si h h'"
    unfolding handle_step_def handle_ok_blocks(2)[OF ok] handle_ok_blocks(2)[OF ok']
  proof (intro conjI)
    show "same_on (dom (cells h) - set (owned_blocks h si s)) h h'"
      using same by (rule same_on_mono) (auto simp: owned_blocks_def)
    show "dom (cells h') - set (owned_blocks h' si s') = dom (cells h) - set (owned_blocks h si s)"
      using out by (auto simp: owned_blocks_def rest f)
  qed (rule handle_ok_blocks(1)[OF ok'])
qed

text \<open>What the handle remembers of each process.\<close>

definition cpu_seen :: "heap \<Rightarrow> addr \<Rightarrow> nat \<rightharpoonup> sigar_proc_cpu_t" where
  "cpu_seen h si key =
     (case get_sigar h si of None \<Rightarrow> None | Some s \<Rightarrow>
      if proc_cpu s = NULL then None
      else (case cache_value h (proc_cpu s) key of None \<Rightarrow> None | Some v \<Rightarrow> get_cpu h v))"

lemma cpu_seen_eq:
  "cells h si = Some (Sigar_cell s) \<Longrightarrow> proc_cpu s \<noteq> NULL \<Longrightarrow>
   cpu_seen h si key = (case cache_value h (proc_cpu s) key of None \<Rightarrow> None | Some v \<Rightarrow> get_cpu h v)"
  by (simp add: cpu_seen_def get_sigar_def)

text \<open>The number of processes it remembers stays below what the table can hold.\<close>

definition handle_room :: "heap \<Rightarrow> addr \<Rightarrow> bool" where
  "handle_room h si \<longleftrightarrow> card (dom (cpu_seen h si)) < 2 ^ 30"

lemma handle_room_number:
  assumes ok: "handle_ok h si s" and t: "proc_cpu s \<noteq> NULL"
  shows "cache_number h (proc_cpu s) = card (dom (cpu_seen h si))"
proof -
  note k = handle_okD[OF ok]
  have "dom (cpu_seen h si) = dom (cache_value h (proc_cpu s))"
    using cpu_seen_eq[OF k(2) t] k(5) t by (fastforce simp: dom_def cpu_values_def ran_def split: option.splits)
  then show ?thesis using k(4) t cache_number_card by (simp add: table_wf_def)
qed

lemma cpu_table_correct:
  assumes ok: "handle_ok h si s" and room: "handle_room h si"
  shows "\<exists>t h'. cpu_table si h = Some (t, h') \<and> handle_ok h' si (s\<lparr>proc_cpu := t\<rparr>) \<and> t \<noteq> NULL
    \<and> handle_step si h h' \<and> cpu_seen h' si = cpu_seen h si \<and> cache_number h' t < 2 ^ 30"
proof -
  note k = handle_okD[OF ok]
  have gs: "get_sigar h si = Some s" using k(2) by (simp add: get_sigar_def)
  show ?thesis
  proof (cases "proc_cpu s = NULL")
    case False
    then show ?thesis
      using ok gs room handle_step_refl[OF handle_ok_blocks(1)[OF ok]] handle_room_number[OF ok False]
      by (intro exI[of _ "proc_cpu s"] exI[of _ h]) (simp add: cpu_table_def handle_room_def)
  next
    case True
    from sigar_cache_new_correct[OF k(1), of 128] obtain t h1 where
      n: "sigar_cache_new 128 h = Some (t, h1)" "cache_wf h1 t" "cache_entry h1 t = Map.empty"
        "same_on (dom (cells h)) h h1" "dom (cells h1) - set (cache_blocks h1 t) = dom (cells h)" by auto
    let ?s = "s\<lparr>proc_cpu := t\<rparr>"
    define h' where "h' = h1\<lparr>cells := (cells h1)(si \<mapsto> Sigar_cell ?s)\<rparr>"
    have si: "si \<in> dom (cells h)" "cells h1 si = Some (Sigar_cell s)" using same_onD[OF n(4), of si] k(2) by auto
    have w1: "heap_wf h1" using n(2) by (rule cache_wfE)
    have w': "heap_wf h'" using w1 by (rule heap_wf_dom) (use si in \<open>auto simp: h'_def\<close>)
    have "same_on (set (cache_blocks h1 t)) h1 h'" using n(5) si(1) by (auto simp: same_on_def h'_def)
    note f = cache_frame[OF n(2) w' this]
    have t: "t \<noteq> NULL"
      using cache_blocks_live[OF n(2)] heap_wf_not_NULL[OF w1, of t] n(2) by (elim cache_wfE) auto
    have z: "cache_value h' t = Map.empty" "cache_number h' t = 0"
      using n(3) f(2) by (auto simp: cache_entry_def cache_value_def cache_number_def)
    have "handle_ok h' si ?s" "handle_step si h h'"
      using n(4,5) True f t z si
      by (intro handle_update[OF ok w', of ?s]; auto simp: h'_def same_on_def table_wf_def table_blocks_def cpu_values_def)+
    moreover have "cpu_table si h = Some (t, h')"
      using gs True n(1) si(2) by (simp add: cpu_table_def store_def h'_def)
    moreover have "cpu_seen h' si = cpu_seen h si"
      using True gs z(1) by (auto simp: cpu_seen_def get_sigar_def h'_def fun_eq_iff)
    ultimately show ?thesis using t z(2) by (intro exI[of _ t] exI[of _ h']) simp
  qed
qed

text \<open>The table after the times of one process changed, in a new block or in the one it has.\<close>

lemma cpu_change:
  assumes ok: "handle_ok h si s" and t: "proc_cpu s \<noteq> NULL" and wf': "cache_wf h' (proc_cpu s)"
    and si': "cells h' si = Some (Sigar_cell s)"
    and val: "cache_value h' (proc_cpu s) = (cache_value h (proc_cpu s))(key \<mapsto> v)" "v \<noteq> NULL"
    and new: "cells h' v = Some (Cpu_cell q)"
    and out: "dom (cells h') - set (cache_blocks h' (proc_cpu s)) = dom (cells h) - set (cache_blocks h (proc_cpu s))"
    and same: "same_on (dom (cells h) - cache_nodes h (proc_cpu s) - {v}) h h'"
  shows "handle_ok h' si s" "handle_step si h h'" "cpu_seen h' si = (cpu_seen h si)(key \<mapsto> q)"
proof -
  let ?t = "proc_cpu s"
  note k = handle_okD[OF ok]
  have wf: "cache_wf h ?t" using k(4) t by (simp add: table_wf_def)
  have hw': "heap_wf h'" using wf' by (rule cache_wfE)
  have vk: "cache_value h' ?t key = Some v" using val by simp
  have keep: "get_cpu h' w = get_cpu h w" if i: "cache_value h ?t i = Some w" "i \<noteq> key" for i w
  proof (cases "w = NULL")
    case False
    have "cache_value h' ?t i = Some w" using i val by simp
    then have "w \<noteq> v" using cache_value_block(3)[OF wf' vk val(2), of i] i(2) by auto
    moreover have "w \<in> dom (cells h)" using cache_value_block(1)[OF wf i(1) False] cache_blocks_live[OF wf] by blast
    ultimately have "cells h' w = cells h w"
      using same_onD[OF same, of w] cache_value_block(2)[OF wf i(1) False] by simp
    then show ?thesis by (simp add: get_cpu_def)
  qed (use k(1) hw' in \<open>simp add: get_cpu_def\<close>)
  have vq: "get_cpu h' v = Some q" using new by (simp add: get_cpu_def)
  have "get_cpu h' w \<noteq> None" if i: "cache_value h' ?t i = Some w" for i w
  proof (cases "i = key")
    case False
    then have "cache_value h ?t i = Some w" using i val by simp
    moreover then have "get_cpu h w \<noteq> None" using k(5) t by (auto simp: cpu_values_def ran_def)
    ultimately show ?thesis using keep False by simp
  qed (use i val vq in simp)
  then have vals: "cpu_values h' ?t" by (auto simp: cpu_values_def ran_def)
  have "same_on (dom (cells h) - set (table_blocks h ?t) - {si}) h h'"
    using same cache_value_block(1)[OF wf' vk val(2)] out cache_nodes_blocks[of h ?t] t
    by (elim same_on_mono) (auto simp: table_blocks_def)
  then show "handle_ok h' si s" "handle_step si h h'"
    using wf' out vals t by (intro handle_update[OF ok hw' si']; simp add: table_wf_def table_blocks_def)+
  have "cpu_seen h' si i = ((cpu_seen h si)(key \<mapsto> q)) i" for i
    using cpu_seen_eq[OF si' t, of i] cpu_seen_eq[OF k(2) t, of i] val vq keep[of i]
    by (cases "i = key") (simp_all split: option.split)
  then show "cpu_seen h' si = (cpu_seen h si)(key \<mapsto> q)" by blast
qed

text \<open>The block of a process that has none, and of one that has.\<close>

lemma cpu_block_new:
  assumes wf: "cache_wf h t" and few: "cache_number h t < 2 ^ 30"
    and none: "cache_value h t key = None \<or> cache_value h t key = Some NULL"
  shows "\<exists>v h'. cpu_block t key h = Some (v, h') \<and> cache_wf h' t \<and> cache_value h' t = (cache_value h t)(key \<mapsto> v)
    \<and> v \<noteq> NULL \<and> cells h' v = Some (Cpu_cell zero_proc_cpu)
    \<and> dom (cells h') - set (cache_blocks h' t) = dom (cells h) - set (cache_blocks h t)
    \<and> same_on (dom (cells h) - cache_nodes h t) h h'"
proof -
  have hw: "heap_wf h" using wf by (rule cache_wfE)
  from cache_get_entry[OF wf few, of key] obtain a h1 where
    g: "sigar_cache_get t key h = Some (a, h1)" "cache_wf h1 t" "cache_entry h1 t = (cache_entry h t)(key \<mapsto> a)"
      "cache_value h1 t = (if key \<in> dom (cache_entry h t) then cache_value h t else (cache_value h t)(key \<mapsto> NULL))"
      "same_on (dom (cells h) - cache_nodes h t) h h1"
      "dom (cells h1) - set (cache_blocks h1 t) = dom (cells h) - set (cache_blocks h t)"
      "a \<in> cache_nodes h t \<or> brk h \<le> a" by blast
  have e: "cache_entry h1 t key = Some a" using g(3) by simp
  from cache_entry_cell[OF g(2) e] obtain c where
    c: "cells h1 a = Some (Ent_cell c)" "cache_value h1 t key = Some (ent_value c)" by blast
  have val1: "cache_value h1 t key = Some NULL"
    using none g(4) cache_value_None[of h t key] by (auto split: if_splits)
  define v where "v = brk h1"
  define h2 where "h2 = h1\<lparr>cells := (cells h1)(v \<mapsto> Cpu_cell zero_proc_cpu), brk := Suc (brk h1)\<rparr>"
  define h3 where "h3 = h2\<lparr>cells := (cells h2)(a \<mapsto> Ent_cell (c\<lparr>ent_value := v\<rparr>))\<rparr>"
  have n2: "new (Cpu_cell zero_proc_cpu) h1 = Some (v, h2)" by (simp add: new_eq v_def h2_def)
  have w1: "heap_wf h1" using g(2) by (rule cache_wfE)
  have v: "v \<notin> dom (cells h1)" "v \<noteq> NULL" using heap_wf_fresh[OF w1] heap_wf_brk[OF w1] by (auto simp: v_def)
  have live1: "set (cache_blocks h1 t) \<subseteq> dom (cells h1)" using g(2) by (rule cache_blocks_live)
  have "same_on (set (cache_blocks h1 t)) h1 h2" using same_on_new[OF w1 n2] live1 by (rule same_on_mono)
  note f = cache_frame[OF g(2) heap_wf_new[OF w1 n2] this]
  have a: "a \<noteq> v" using c(1) v(1) by auto
  have c2: "cells h2 a = Some (Ent_cell c)" using c(1) a by (simp add: h2_def)
  have "v \<in> dom (cells h2)" "v \<notin> set (cache_blocks h2 t)" using v(1) live1 f(3) by (auto simp: h2_def)
  from cache_set_value[OF f(1) _ _ v(2) this c2, of key] val1 e have
    r: "cache_wf h3 t" "cache_value h3 t = (cache_value h1 t)(key \<mapsto> v)"
      "set (cache_blocks h3 t) = insert v (set (cache_blocks h1 t))"
    by (simp_all add: cache_entry_def cache_value_def f(2,3) h3_def)
  have same: "cells h3 x = cells h x \<and> x \<noteq> v" if "x \<in> dom (cells h)" "x \<notin> cache_nodes h t" for x
  proof -
    have "cells h1 x = cells h x" using g(5) that by (simp add: same_on_def)
    moreover have "x \<noteq> v" using calculation v(1) that(1) by auto
    moreover have "x \<noteq> a" using g(7) that heap_wf_ge[OF hw] by auto
    ultimately show ?thesis by (simp add: h3_def h2_def)
  qed
  have "dom (cells h3) - set (cache_blocks h3 t) = dom (cells h) - set (cache_blocks h t)"
    using g(6) r(3) v(1) c(1) by (auto simp: h3_def h2_def)
  moreover have "cache_value h3 t = (cache_value h t)(key \<mapsto> v)" using r(2) g(4) by auto
  moreover have "cpu_block t key h = Some (v, h3)"
    using g(1) c val1 n2 c2 by (simp add: cpu_block_def get_ent_def store_def h3_def)
  moreover have "cells h3 v = Some (Cpu_cell zero_proc_cpu)" using a by (simp add: h3_def h2_def)
  ultimately show ?thesis using r(1) v(2) same by (auto simp: same_on_def)
qed

lemma cpu_block_old:
  assumes wf: "cache_wf h t" and few: "cache_number h t < 2 ^ 30"
    and v: "cache_value h t key = Some v" "v \<noteq> NULL"
  shows "cpu_block t key h = Some (v, h)"
proof -
  obtain a where a: "cache_entry h t key = Some a" using v(1) cache_value_None[of h t key] by fastforce
  from cache_entry_cell[OF wf a] v(1) obtain c where "cells h a = Some (Ent_cell c)" "ent_value c = v" by auto
  then show ?thesis using sc.obtain_present[OF wf few a] v(2) by (simp add: cpu_block_def get_ent_def)
qed

definition last_cpu :: "heap \<Rightarrow> addr \<Rightarrow> nat \<Rightarrow> sigar_proc_cpu_t" where
  "last_cpu h si key = (case cpu_seen h si key of None \<Rightarrow> zero_proc_cpu | Some p \<Rightarrow> p)"

lemma cpu_block_correct:
  assumes ok: "handle_ok h si s" and t: "proc_cpu s \<noteq> NULL" and few: "cache_number h (proc_cpu s) < 2 ^ 30"
  shows "\<exists>v h'. cpu_block (proc_cpu s) key h = Some (v, h') \<and> handle_ok h' si s \<and> handle_step si h h'
    \<and> cache_value h' (proc_cpu s) key = Some v \<and> v \<noteq> NULL \<and> cells h' v = Some (Cpu_cell (last_cpu h si key))
    \<and> cpu_seen h' si = (cpu_seen h si)(key \<mapsto> last_cpu h si key)"
proof -
  let ?t = "proc_cpu s"
  note k = handle_okD[OF ok]
  have wf: "cache_wf h ?t" using k(4) t by (simp add: table_wf_def)
  note seen = cpu_seen_eq[OF k(2) t, of key]
  show ?thesis
  proof (cases "cache_value h ?t key = None \<or> cache_value h ?t key = Some NULL")
    case True
    from cpu_block_new[OF wf few this] obtain v h' where
      b: "cpu_block ?t key h = Some (v, h')" "cache_wf h' ?t" "cache_value h' ?t = (cache_value h ?t)(key \<mapsto> v)"
        "v \<noteq> NULL" "cells h' v = Some (Cpu_cell zero_proc_cpu)"
        "dom (cells h') - set (cache_blocks h' ?t) = dom (cells h) - set (cache_blocks h ?t)"
        "same_on (dom (cells h) - cache_nodes h ?t) h h'" by blast
    have "si \<in> dom (cells h)" "si \<notin> cache_nodes h ?t"
      using k(6,7) t cache_nodes_blocks[of h ?t] by (auto simp: owned_blocks_def table_blocks_def)
    then have si': "cells h' si = Some (Sigar_cell s)" using same_onD[OF b(7), of si] k(2) by simp
    have "cpu_seen h si key = None" using True seen k(1) by (auto simp: get_cpu_def)
    then have "last_cpu h si key = zero_proc_cpu" by (simp add: last_cpu_def)
    with cpu_change[OF ok t b(2) si' b(3,4,5,6) same_on_mono[OF b(7)]] b show ?thesis
      by (intro exI[of _ v] exI[of _ h']) auto
  next
    case False
    then obtain v where v: "cache_value h ?t key = Some v" "v \<noteq> NULL" by auto
    then obtain q where q: "get_cpu h v = Some q" using k(5) t by (auto simp: cpu_values_def ran_def)
    then have "cpu_seen h si key = Some q" "last_cpu h si key = q" using v seen by (simp_all add: last_cpu_def)
    then show ?thesis
      using cpu_block_old[OF wf few v] v q ok handle_step_refl[OF handle_ok_blocks(1)[OF ok]]
      by (intro exI[of _ v] exI[of _ h]) (auto simp: sigar_get_iff)
  qed
qed

text \<open>Writing to the block of a process, and to the handle's copy of the last \<open>stat\<close>.\<close>

lemma cpu_store:
  fixes h si s key v q
  assumes ok: "handle_ok h si s" and t: "proc_cpu s \<noteq> NULL"
    and v: "cache_value h (proc_cpu s) key = Some v" "v \<noteq> NULL"
  defines "h' \<equiv> h\<lparr>cells := (cells h)(v \<mapsto> Cpu_cell q)\<rparr>"
  shows "store v (Cpu_cell q) h = Some h'" "handle_ok h' si s" "handle_step si h h'"
    "cpu_seen h' si = (cpu_seen h si)(key \<mapsto> q)" "cache_value h' (proc_cpu s) key = Some v"
proof -
  let ?t = "proc_cpu s"
  note k = handle_okD[OF ok]
  have wf: "cache_wf h ?t" using k(4) t by (simp add: table_wf_def)
  note b = cache_value_block[OF wf v]
  have live: "v \<in> dom (cells h)" using b(1) cache_blocks_live[OF wf] by blast
  then show "store v (Cpu_cell q) h = Some h'" by (simp add: store_eq h'_def)
  have hw': "heap_wf h'" using k(1) by (rule heap_wf_dom) (use live in \<open>auto simp: h'_def\<close>)
  have n: "\<forall>x \<in> cache_nodes h ?t. cells h' x = cells h x" using b(2) by (auto simp: h'_def)
  have "set (cache_blocks h ?t) \<subseteq> dom (cells h')" using cache_blocks_live[OF wf] by (auto simp: h'_def)
  note f = cache_weak_frame[OF wf hw' n this]
  have val: "cache_value h' ?t = (cache_value h ?t)(key \<mapsto> v)" using f(2) v(1) by (auto simp: cache_value_def)
  then show "cache_value h' ?t key = Some v" by simp
  have "si \<noteq> v" using k(6) b(1) t by (auto simp: owned_blocks_def table_blocks_def)
  then have "cells h' si = Some (Sigar_cell s)" using k(2) by (simp add: h'_def)
  moreover have "same_on (dom (cells h) - cache_nodes h ?t - {v}) h h'" "cells h' v = Some (Cpu_cell q)"
    "dom (cells h') - set (cache_blocks h' ?t) = dom (cells h) - set (cache_blocks h ?t)"
    using f(3) live by (auto simp: same_on_def h'_def)
  ultimately show "handle_ok h' si s" "handle_step si h h'"
    "cpu_seen h' si = (cpu_seen h si)(key \<mapsto> q)"
    by (auto intro!: cpu_change[OF ok t f(1) _ val v(2)])
qed

lemma stat_store:
  fixes h si s s' ps
  assumes ok: "handle_ok h si s" and t: "proc_cpu s \<noteq> NULL" and s': "s' = s\<lparr>last_proc_stat := ps\<rparr>"
  defines "h' \<equiv> h\<lparr>cells := (cells h)(si \<mapsto> Sigar_cell s')\<rparr>"
  shows "store si (Sigar_cell s') h = Some h'" "handle_ok h' si s'" "handle_step si h h'"
    "cpu_seen h' si = cpu_seen h si" "cache_value h' (proc_cpu s) = cache_value h (proc_cpu s)"
proof -
  let ?t = "proc_cpu s"
  note k = handle_okD[OF ok]
  have wf: "cache_wf h ?t" using k(4) t by (simp add: table_wf_def)
  show "store si (Sigar_cell s') h = Some h'" using k(2) by (simp add: store_def h'_def)
  have hw': "heap_wf h'" using k(1) by (rule heap_wf_dom) (use k(2) in \<open>auto simp: h'_def\<close>)
  have si: "si \<notin> set (cache_blocks h ?t)" using k(6) t by (auto simp: owned_blocks_def table_blocks_def)
  then have "same_on (set (cache_blocks h ?t)) h h'" by (auto simp: same_on_def h'_def)
  note f = cache_frame[OF wf hw' this]
  show val: "cache_value h' ?t = cache_value h ?t" using f(2) by (simp add: cache_value_def)
  have g: "get_cpu h' w = get_cpu h w" if "w \<noteq> si" for w using that by (simp add: get_cpu_def h'_def)
  have c: "cells h' si = Some (Sigar_cell s')" by (simp add: h'_def)
  have ne: "w \<noteq> si" if "cache_value h ?t i = Some w" for i w
    using cache_value_block(1)[OF wf that] si heap_wf_not_NULL[OF k(1), of si] k(2) by auto
  have vals: "cpu_values h' ?t" using k(5) val ne g t by (auto simp: cpu_values_def ran_def)
  show "handle_ok h' si s'" "handle_step si h h'"
    using f(1,3) t vals k(2) by (intro handle_update[OF ok hw' c];
      simp add: s' table_wf_def table_blocks_def; simp add: same_on_def h'_def insert_absorb domI)+
  show "cpu_seen h' si = cpu_seen h si"
  proof
    fix i
    show "cpu_seen h' si i = cpu_seen h si i"
      using cpu_seen_eq[OF c, of i] cpu_seen_eq[OF k(2) t, of i] t val ne[of i] g
      by (simp add: s' split: option.splits)
  qed
qed

text \<open>The times of a process do not depend on the table, and only the copy of \<open>stat\<close> changes.\<close>

lemma stat_numbers_cong:
  "stat_numbers (s\<lparr>proc_cpu := t\<rparr>) = stat_numbers s" "stat_numbers (s\<lparr>last_proc_stat := q\<rparr>) = stat_numbers s"
  by (simp_all add: fun_eq_iff stat_numbers_def pageshift_def Let_def case_prod_unfold)

lemma proc_stat_parse_cong:
  "proc_stat_parse (s\<lparr>proc_cpu := t\<rparr>) ps x = proc_stat_parse s ps x"
  "proc_stat_parse (s\<lparr>last_proc_stat := q\<rparr>) ps x = proc_stat_parse s ps x"
  by (simp_all add: proc_stat_parse_def stat_numbers_cong Let_def split: option.split)

lemma proc_stat_read_cong:
  "proc_stat_read fs n pid (s\<lparr>proc_cpu := t\<rparr>) =
     map_option (\<lambda>(st, s'). (st, s'\<lparr>proc_cpu := t\<rparr>)) (proc_stat_read fs n pid s)"
  by (cases "SIGAR_PROC_FILE2STR fs pid ''/stat''")
    (auto simp: proc_stat_read_def Let_def proc_stat_parse_cong map_option_bind o_def case_prod_unfold
      split: sum.split intro!: Option.bind_cong)

lemma proc_time_cong:
  "sigar_proc_time_get fs n pid (s\<lparr>proc_cpu := t\<rparr>) =
     map_option (\<lambda>(st, r, s'). (st, r, s'\<lparr>proc_cpu := t\<rparr>)) (sigar_proc_time_get fs n pid s)"
  by (cases "proc_stat_read fs n pid s") (auto simp: sigar_proc_time_get_def proc_stat_read_cong Let_def)

lemma proc_stat_read_stat:
  "proc_stat_read fs n pid s = Some (st, s') \<Longrightarrow> s' = s\<lparr>last_proc_stat := last_proc_stat s'\<rparr>"
  by (auto simp: proc_stat_read_def Let_def split: if_splits sum.splits bind_splits)

lemma proc_time_stat:
  "sigar_proc_time_get fs n pid s = Some (st, r, s') \<Longrightarrow> s' = s\<lparr>last_proc_stat := last_proc_stat s'\<rparr>"
  by (auto simp: sigar_proc_time_get_def Let_def split: if_splits bind_splits dest!: proc_stat_read_stat)

section \<open>What a caller sees\<close>

text \<open>
  The specification of \<open>sigar_proc_cpu_get\<close>, over the times last seen and without memory: the status,
  the caller's structure, and what is remembered. Between two measures it reports the share of the
  elapsed time; a first measure, or one in the millisecond of the last, has nothing to compare with.
\<close>

definition with_times :: "sigar_proc_time_t \<Rightarrow> sigar_proc_cpu_t \<Rightarrow> sigar_proc_cpu_t" where
  "with_times tm pc = pc\<lparr>start_time := start_time tm, user_time := user_time tm, sys_time := sys_time tm,
     total_time := total_time tm\<rparr>"

definition cpu_share :: "sigar_proc_cpu_t \<Rightarrow> nat \<Rightarrow> sigar_proc_time_t \<Rightarrow> nat \<times> nat" where
  "cpu_share p time_now tm =
     (if total_time p = 0 \<or> total_time tm < total_time p then (0, 1)
      else (total_time tm - total_time p, minus64 time_now (last_time p)))"

definition cpu_answer ::
  "nat \<Rightarrow> int \<times> sigar_proc_time_t option \<Rightarrow> sigar_proc_cpu_t \<Rightarrow> sigar_proc_cpu_t \<Rightarrow>
   int \<times> sigar_proc_cpu_t \<times> sigar_proc_cpu_t" where
  "cpu_answer time_now measured p pc =
     (let q = p\<lparr>last_time := time_now\<rparr>; pc = pc\<lparr>last_time := time_now\<rparr> in
      if minus64 time_now (last_time p) = 0 then (SIGAR_OK, q, q)
      else (case measured of
          (status, None) \<Rightarrow> (status, pc, q)
        | (status, Some tm) \<Rightarrow>
            (SIGAR_OK, (with_times tm pc)\<lparr>percent := cpu_share p time_now tm\<rparr>, with_times tm pc)))"

lemma cpu_enter:
  assumes ok: "handle_ok h si s" and room: "handle_room h si"
  defines "p \<equiv> last_cpu h si"
  shows "\<exists>t v h1 h2 h3. cpu_table si h = Some (t, h1) \<and> cpu_block t key h1 = Some (v, h2)
    \<and> get_cpu h2 v = Some (p key) \<and> store v (Cpu_cell ((p key)\<lparr>last_time := n\<rparr>)) h2 = Some h3
    \<and> handle_ok h3 si (s\<lparr>proc_cpu := t\<rparr>) \<and> handle_step si h h3
    \<and> cpu_seen h3 si = (cpu_seen h si)(key \<mapsto> (p key)\<lparr>last_time := n\<rparr>)
    \<and> t \<noteq> NULL \<and> v \<noteq> NULL \<and> cache_value h3 t key = Some v"
proof -
  from cpu_table_correct[OF ok room] obtain t h1 where
    a: "cpu_table si h = Some (t, h1)" "handle_ok h1 si (s\<lparr>proc_cpu := t\<rparr>)" "t \<noteq> NULL"
      "handle_step si h h1" "cpu_seen h1 si = cpu_seen h si" "cache_number h1 t < 2 ^ 30" by blast
  let ?s = "s\<lparr>proc_cpu := t\<rparr>"
  have p1: "last_cpu h1 si = p" using a(5) by (simp add: last_cpu_def p_def fun_eq_iff)
  from cpu_block_correct[OF a(2), of key] a(3,6) obtain v h2 where
    b: "cpu_block t key h1 = Some (v, h2)" "handle_ok h2 si ?s" "handle_step si h1 h2"
      "cache_value h2 t key = Some v" "v \<noteq> NULL" "cells h2 v = Some (Cpu_cell (p key))"
      "cpu_seen h2 si = (cpu_seen h1 si)(key \<mapsto> p key)" by (auto simp: p1)
  define h3 where "h3 = h2\<lparr>cells := (cells h2)(v \<mapsto> Cpu_cell ((p key)\<lparr>last_time := n\<rparr>))\<rparr>"
  have "proc_cpu ?s \<noteq> NULL" "cache_value h2 (proc_cpu ?s) key = Some v" using a(3) b(4) by simp_all
  note c = cpu_store[OF b(2) this b(5), of "(p key)\<lparr>last_time := n\<rparr>", folded h3_def]
  have g: "get_cpu h2 v = Some (p key)" using b(6) by (simp add: get_cpu_def)
  have st: "handle_step si h h3" using handle_step_trans[OF handle_step_trans[OF a(4) b(3)] c(3)] .
  show ?thesis
    by (rule exI[of _ t], rule exI[of _ v], rule exI[of _ h1], rule exI[of _ h2], rule exI[of _ h3])
      (use a b c g st in simp)
qed

lemma proc_cpu_get_correct:
  assumes ok: "handle_ok h si s" and room: "handle_room h si"
    and tm: "minus64 time_now (last_time (last_cpu h si (cpu_key pid))) \<noteq> 0 \<longrightarrow>
      sigar_proc_time_get fs timenow pid s = Some (status, r, s')"
  shows "\<exists>st pc' q h'. cpu_answer time_now (status, r) (last_cpu h si (cpu_key pid)) pc = (st, pc', q)
    \<and> sigar_proc_cpu_get fs time_now timenow pid pc si h = Some (st, pc', h')
    \<and> handle_step si h h' \<and> cpu_seen h' si = (cpu_seen h si)(cpu_key pid \<mapsto> q)"
proof -
  define p where "p = last_cpu h si (cpu_key pid)"
  let ?q = "p\<lparr>last_time := time_now\<rparr>"
  from cpu_enter[OF ok room, of "cpu_key pid" time_now] obtain t v h1 h2 h3 where
    run: "cpu_table si h = Some (t, h1)" "cpu_block t (cpu_key pid) h1 = Some (v, h2)" "get_cpu h2 v = Some p"
      "store v (Cpu_cell ?q) h2 = Some h3" and
    c: "handle_ok h3 si (s\<lparr>proc_cpu := t\<rparr>)" "handle_step si h h3"
      "cpu_seen h3 si = (cpu_seen h si)(cpu_key pid \<mapsto> ?q)" "t \<noteq> NULL" "v \<noteq> NULL"
      "cache_value h3 t (cpu_key pid) = Some v" unfolding p_def by blast
  note defs = sigar_proc_cpu_get_def cpu_answer_def p_def[symmetric] Let_def
  show ?thesis
  proof (cases "minus64 time_now (last_time p) = 0")
    case True
    then show ?thesis using c(2,3) run by (simp add: defs)
  next
    case False
    let ?s = "s\<lparr>proc_cpu := t\<rparr>" and ?s' = "s'\<lparr>proc_cpu := t\<rparr>"
    have "sigar_proc_time_get fs timenow pid s = Some (status, r, s')" using tm False by (simp add: p_def)
    then have tm': "sigar_proc_time_get fs timenow pid ?s = Some (status, r, ?s')" by (simp add: proc_time_cong)
    have gs: "get_sigar h3 si = Some ?s" using handle_okD(2)[OF c(1)] by (simp add: get_sigar_def)
    define h4 where "h4 = h3\<lparr>cells := (cells h3)(si \<mapsto> Sigar_cell ?s')\<rparr>"
    have "proc_cpu ?s \<noteq> NULL" using c(4) by simp
    note d = stat_store[OF c(1) this proc_time_stat[OF tm'], folded h4_def]
    have step4: "handle_step si h h4" using c(2) d(3) by (rule handle_step_trans)
    show ?thesis
    proof (cases r)
      case None
      then show ?thesis using False step4 c(3) d(1,4) run tm' gs by (simp add: defs)
    next
      case (Some x)
      define pc' where "pc' = with_times x (pc\<lparr>last_time := time_now\<rparr>)"
      have "proc_cpu ?s' \<noteq> NULL" "cache_value h4 (proc_cpu ?s') (cpu_key pid) = Some v" using c(4,6) d(5) by simp_all
      note e = cpu_store[OF d(2) this c(5), of pc']
      from handle_step_trans[OF step4 e(3)] show ?thesis
        using False Some d(1,4) e(1,4) c(3) run tm' gs
        by (auto simp: defs pc'_def with_times_def cpu_share_def)
    qed
  qed
qed

section \<open>A session\<close>

lemma proc_cpu_get_defined:
  assumes ok: "handle_ok h si s" and room: "handle_room h si"
    and run: "sigar_proc_cpu_get fs time_now timenow pid pc si h = Some x"
    and late: "minus64 time_now (last_time (last_cpu h si (cpu_key pid))) \<noteq> 0"
  shows "\<exists>status r s'. sigar_proc_time_get fs timenow pid s = Some (status, r, s')"
proof -
  from cpu_enter[OF ok room, of "cpu_key pid" time_now] obtain t v h1 h2 h3 where
    e: "cpu_table si h = Some (t, h1)" "cpu_block t (cpu_key pid) h1 = Some (v, h2)"
      "get_cpu h2 v = Some (last_cpu h si (cpu_key pid))"
      "store v (Cpu_cell ((last_cpu h si (cpu_key pid))\<lparr>last_time := time_now\<rparr>)) h2 = Some h3"
      "handle_ok h3 si (s\<lparr>proc_cpu := t\<rparr>)" by blast
  have "get_sigar h3 si = Some (s\<lparr>proc_cpu := t\<rparr>)" using handle_okD(2)[OF e(5)] by (simp add: get_sigar_def)
  then show ?thesis
    using run late e
    by (cases "sigar_proc_time_get fs timenow pid s") (auto simp: sigar_proc_cpu_get_def proc_time_cong Let_def)
qed

text \<open>Calls of \<open>sigar_proc_cpu_get\<close>, each with the files, the clock, the process and the caller's structure.\<close>

type_synonym cpu_call = "files \<times> nat \<times> int \<times> int \<times> sigar_proc_cpu_t"

primrec run_calls :: "cpu_call list \<Rightarrow> addr \<Rightarrow> heap \<Rightarrow> heap option" where
  "run_calls [] si h = Some h"
| "run_calls (c # cs) si h =
     (case c of (fs, time_now, timenow, pid, pc) \<Rightarrow> do {
        (status, pc, h) \<leftarrow> sigar_proc_cpu_get fs time_now timenow pid pc si h;
        run_calls cs si h
      })"

lemma run_calls_step:
  "handle_wf h si \<Longrightarrow> finite (dom (cpu_seen h si)) \<Longrightarrow> card (dom (cpu_seen h si)) + length cs \<le> 2 ^ 30 \<Longrightarrow>
   run_calls cs si h = Some h' \<Longrightarrow> handle_step si h h'"
proof (induction cs arbitrary: h)
  case Nil
  then show ?case by (simp add: handle_step_refl)
next
  case (Cons c cs)
  obtain fs time_now timenow pid pc where c: "c = (fs, time_now, timenow, pid, pc)" by (cases c)
  from Cons.prems(4) obtain st pc1 h1 where
    r: "sigar_proc_cpu_get fs time_now timenow pid pc si h = Some (st, pc1, h1)" "run_calls cs si h1 = Some h'"
    by (auto simp: c split: bind_splits)
  from Cons.prems(1) obtain s where ok: "handle_ok h si s" by (rule handle_wfE)
  have room: "handle_room h si" using Cons.prems(3) by (simp add: handle_room_def)
  obtain status r' s' where tm: "minus64 time_now (last_time (last_cpu h si (cpu_key pid))) \<noteq> 0 \<longrightarrow>
      sigar_proc_time_get fs timenow pid s = Some (status, r', s')"
    using proc_cpu_get_defined[OF ok room r(1)] by blast
  from proc_cpu_get_correct[OF ok room tm, of pc] r(1) obtain q where
    q: "handle_step si h h1" "cpu_seen h1 si = (cpu_seen h si)(cpu_key pid \<mapsto> q)" by auto
  have "dom (cpu_seen h1 si) = insert (cpu_key pid) (dom (cpu_seen h si))" using q(2) by simp
  then have "finite (dom (cpu_seen h1 si))" "card (dom (cpu_seen h1 si)) + length cs \<le> 2 ^ 30"
    using Cons.prems(2,3) by (simp_all add: card_insert_if)
  moreover have "handle_wf h1 si" using q(1) by (simp add: handle_step_def)
  ultimately have "handle_step si h1 h'" using r(2) by (intro Cons.IH)
  with q(1) show ?case by (rule handle_step_trans)
qed

section \<open>Properties\<close>

text \<open>
  (C8) A session leaves no trace in memory. The agent creates a handle, asks for the processor time
  of any processes at any times, as often as the table has room for, and destroys the handle: if none
  of these calls runs into undefined behaviour, the handle is destroyed, every block that was allocated
  on the way is freed once, and all other memory is as before.
\<close>

theorem sigar_session_balanced:
  assumes "heap_wf h" and "boots env" and "sigar_create env h = Some (si, h1)"
    and "length cs \<le> 2 ^ 30" and "run_calls cs si h1 = Some h2"
  shows "\<exists>h3. sigar_destroy si h2 = Some (SIGAR_OK, h3) \<and> cells h3 = cells h"
proof -
  from sigar_open_ok[OF assms(2), of h] obtain s where
    o: "sigar_open env h = Some (SIGAR_OK, brk h, h\<lparr>brk := Suc (brk h), cells := (cells h)(brk h \<mapsto> Sigar_cell s)\<rparr>)"
      "fresh_handle s" by blast
  have si: "si = brk h" and h1: "h1 = h\<lparr>brk := Suc (brk h), cells := (cells h)(brk h \<mapsto> Sigar_cell s)\<rparr>"
    using assms(3) o(1) by (auto simp: sigar_create_def)
  have w1: "heap_wf h1" using assms(1) by (rule heap_wf_change) (auto simp: h1 split: if_splits)
  have c1: "cells h1 si = Some (Sigar_cell s)" by (simp add: h1 si)
  note ok = fresh_handle_ok[OF w1 c1 o(2)]
  note b1 = handle_ok_blocks[OF ok(1)]
  have "cpu_seen h1 si = Map.empty" using o(2) c1 by (simp add: cpu_seen_def get_sigar_def fresh_handle_def fun_eq_iff)
  then have "handle_step si h1 h2" using run_calls_step[OF b1(1) _ _ assms(5)] assms(4) by simp
  then have st: "handle_wf h2 si" "same_on (dom (cells h1) - {si}) h1 h2"
    "dom (cells h2) - set (handle_blocks h2 si) = dom (cells h1) - {si}"
    by (simp_all add: handle_step_def b1(2) ok(2))
  have d: "dom (cells h1) - {si} = dom (cells h)" using heap_wf_fresh[OF assms(1)] by (auto simp: h1 si)
  have "si \<noteq> NULL" using heap_wf_brk[OF assms(1)] si by simp
  then have run: "sigar_destroy si h2 = Some (SIGAR_OK, without (set (handle_blocks h2 si)) h2)"
    using sigar_close_without[OF st(1)] by (simp add: sigar_destroy_def)
  have "cells (without (set (handle_blocks h2 si)) h2) x = cells h x" for x
  proof (cases "x \<in> dom (cells h)")
    case True
    then have "cells h2 x = cells h1 x" "x \<notin> set (handle_blocks h2 si)" using st(2,3) d by (auto simp: same_on_def)
    moreover have "x \<noteq> si" using True d by auto
    ultimately show ?thesis by (simp add: h1 si)
  next
    case False
    then have "x \<notin> dom (cells h2) - set (handle_blocks h2 si)" using st(3) d by simp
    then show ?thesis using False by (auto simp: domIff)
  qed
  then show ?thesis using run by blast
qed

definition example_env :: sigar_env where
  "example_env = \<lparr>env_files = example_files ''/proc/stat'' ''btime 5'', env_pagesize = 4096, env_time = 9,
     env_ticks = 100, env_var = (\<lambda>x. None), env_release = ''2.6.18'', env_junk = example_sigar\<rparr>"

lemma example_env_boots: "boots example_env"
  by (simp add: boots_def example_env_def example_files_def fopen_def)

lemma proc_time_no_file:
  "ps_pid (last_proc_stat s) \<noteq> pid \<Longrightarrow>
   \<exists>s'. sigar_proc_time_get (\<lambda>p. No_file ENOENT) n pid s = Some (ESRCH, None, s')"
  by (simp add: sigar_proc_time_get_def proc_stat_read_def proc_file_eq is_cstr_def sigar_file2str_def)

text \<open>A session that asks for a process that does not exist.\<close>

theorem sigar_session_balanced_witness:
  "\<exists>si h1 h2 h3. sigar_create example_env empty_heap = Some (si, h1)
     \<and> run_calls [(\<lambda>p. No_file ENOENT, 5000, 5, 7, zero_proc_cpu)] si h1 = Some h2
     \<and> sigar_destroy si h2 = Some (SIGAR_OK, h3) \<and> cells h3 = Map.empty"
proof -
  obtain s where o: "sigar_open example_env empty_heap = Some (SIGAR_OK, brk empty_heap, empty_heap\<lparr>brk :=
      Suc (brk empty_heap), cells := (cells empty_heap)(brk empty_heap \<mapsto> Sigar_cell s)\<rparr>)"
    "fresh_handle s" "ps_pid (last_proc_stat s) = -1"
    using sigar_open_ok[OF example_env_boots, of empty_heap] by blast
  define h1 where "h1 = empty_heap\<lparr>brk := 2, cells := (cells empty_heap)(1 \<mapsto> Sigar_cell s)\<rparr>"
  have c: "sigar_create example_env empty_heap = Some (1, h1)"
    using o(1) by (simp add: sigar_create_def h1_def empty_heap_def numeral_2_eq_2)
  have "heap_wf h1" by (auto simp: heap_wf_def h1_def empty_heap_def)
  then have ok: "handle_ok h1 1 s" using o(2) by (intro fresh_handle_ok) (simp_all add: h1_def)
  have "cpu_seen h1 1 = Map.empty"
    using o(2) by (simp add: cpu_seen_def get_sigar_def fresh_handle_def h1_def fun_eq_iff)
  then have room: "handle_room h1 1" by (simp add: handle_room_def)
  obtain s' where "sigar_proc_time_get (\<lambda>p. No_file ENOENT) 5 7 s = Some (ESRCH, None, s')"
    using proc_time_no_file[of s 7] o(3) by auto
  with proc_cpu_get_correct[OF ok room, of 5000 7 "\<lambda>p. No_file ENOENT" 5 ESRCH None s' zero_proc_cpu]
  obtain h2 where r: "run_calls [(\<lambda>p. No_file ENOENT, 5000, 5, 7, zero_proc_cpu)] 1 h1 = Some h2" by auto
  show ?thesis
    using sigar_session_balanced[OF heap_wf_empty example_env_boots c _ r] c r by (auto simp: empty_heap_def)
qed

text \<open>
  (C33) When \<open>/proc/stat\<close> cannot be opened, \<open>sigar_create\<close> returns the null pointer, but the handle
  that was allocated stays: the block is lost, and destroying the null pointer changes nothing.
\<close>

theorem sigar_create_failure_leaks:
  assumes "fopen (env_files env) ''/proc/stat'' = Inl e" and "e \<noteq> SIGAR_OK" and "heap_wf h"
  shows "\<exists>h'. sigar_create env h = Some (NULL, h') \<and> dom (cells h') = insert (brk h) (dom (cells h))
    \<and> brk h \<notin> dom (cells h) \<and> sigar_destroy NULL h' = Some (0, h')"
  using sigar_open_fails[OF assms(1,2), of h] heap_wf_fresh[OF assms(3)] assms(2)
  by (auto simp: sigar_create_def sigar_destroy_def malloc_def)

theorem sigar_create_failure_leaks_witness:
  "\<exists>h'. sigar_create (example_env\<lparr>env_files := \<lambda>p. No_file ENOENT\<rparr>) empty_heap = Some (NULL, h')
     \<and> dom (cells h') = {1} \<and> sigar_destroy NULL h' = Some (0, h')"
  using sigar_create_failure_leaks[of "example_env\<lparr>env_files := \<lambda>p. No_file ENOENT\<rparr>" ENOENT empty_heap]
  by (simp add: fopen_def empty_heap_def heap_wf_def)

text \<open>
  (C9) \<open>sigar_proc_cpu_get\<close> implements its specification \<open>cpu_answer\<close>. Given what the kernel says of the
  process, status and structure are those the specification computes from the times last seen; the
  handle then remembers the new times of this process and the old ones of every other, is in good
  order, and no memory outside of it changes.
\<close>

theorem proc_cpu_get_refines:
  assumes "handle_wf h si" and "handle_room h si" and "get_sigar h si = Some s"
    and "sigar_proc_time_get fs timenow pid s = Some (status, r, s')"
    and "cpu_answer time_now (status, r) (last_cpu h si (cpu_key pid)) pc = (st, pc', q)"
  shows "\<exists>h'. sigar_proc_cpu_get fs time_now timenow pid pc si h = Some (st, pc', h')
    \<and> cpu_seen h' si = (cpu_seen h si)(cpu_key pid \<mapsto> q)
    \<and> handle_wf h' si \<and> same_on (dom (cells h) - set (handle_blocks h si)) h h'"
proof -
  from assms(1,3) have "handle_ok h si s" by (auto elim: handle_wfE)
  from proc_cpu_get_correct[OF this assms(2), of time_now pid fs timenow status r s' pc] assms(4,5)
  show ?thesis by (auto simp: handle_step_def)
qed

text \<open>A handle that has just read the times of process 7, and the times it knows.\<close>

definition example_state :: sigar_t where
  "example_state = example_sigar\<lparr>last_proc_stat := (last_proc_stat example_sigar)\<lparr>ps_pid := 7, ps_mtime := 1000,
     ps_utime := 30, ps_stime := 12\<rparr>\<rparr>"

definition example_handle :: heap where
  "example_handle = \<lparr>cells = [2 \<mapsto> Sigar_cell example_state], brk = 3\<rparr>"

definition example_times :: sigar_proc_time_t where
  "example_times = \<lparr>start_time = 0, user_time = 30, sys_time = 12, total_time = 42\<rparr>"

lemma example_handle_facts:
  "handle_wf example_handle 2" "handle_room example_handle 2" "get_sigar example_handle 2 = Some example_state"
  "last_cpu example_handle 2 key = zero_proc_cpu" "cpu_seen example_handle 2 = Map.empty"
  "sigar_proc_time_get fs 1001 7 example_state = Some (SIGAR_OK, Some example_times, example_state)"
proof -
  have f: "fresh_handle example_state" by (simp add: fresh_handle_def example_state_def example_sigar_def)
  have c: "cells example_handle 2 = Some (Sigar_cell example_state)" by (simp add: example_handle_def)
  then show "get_sigar example_handle 2 = Some example_state" by (simp add: get_sigar_def)
  have "heap_wf example_handle" by (simp add: heap_wf_def example_handle_def)
  from fresh_handle_ok(1)[OF this c f] show "handle_wf example_handle 2" by (rule handle_ok_blocks)
  show e: "cpu_seen example_handle 2 = Map.empty"
    using f c by (simp add: cpu_seen_def get_sigar_def fresh_handle_def fun_eq_iff)
  then show "handle_room example_handle 2" "last_cpu example_handle 2 key = zero_proc_cpu"
    by (simp_all add: handle_room_def last_cpu_def)
  show "sigar_proc_time_get fs 1001 7 example_state = Some (SIGAR_OK, Some example_times, example_state)"
    by (simp add: sigar_proc_time_get_def proc_stat_read_def example_state_def example_times_def example_sigar_def)
qed

theorem proc_cpu_get_refines_witness:
  "\<exists>h'. sigar_proc_cpu_get (\<lambda>p. No_file ENOENT) 5000 1001 7 zero_proc_cpu 2 example_handle =
       Some (SIGAR_OK, with_times example_times (zero_proc_cpu\<lparr>last_time := 5000\<rparr>), h')
     \<and> cpu_seen h' 2 = [7 \<mapsto> with_times example_times (zero_proc_cpu\<lparr>last_time := 5000\<rparr>)]
     \<and> handle_wf h' 2"
proof -
  let ?q = "with_times example_times (zero_proc_cpu\<lparr>last_time := 5000\<rparr>)"
  have "cpu_answer 5000 (SIGAR_OK, Some example_times) (last_cpu example_handle 2 (cpu_key 7)) zero_proc_cpu
      = (SIGAR_OK, ?q, ?q)"
    by (simp add: example_handle_facts cpu_answer_def cpu_share_def minus64_def zero_proc_cpu_def with_times_def)
  from proc_cpu_get_refines[OF example_handle_facts(1-3,6) this] show ?thesis
    by (auto simp: example_handle_facts cpu_key_def)
qed

text \<open>
  (C32) A second call in the same millisecond does not report the share the first one computed: the
  times are copied into the table before the share is stored in the caller's structure, so that the
  table keeps, and the second call returns, the value the first caller's structure held before.
\<close>

theorem repeated_call_reports_old_percent:
  assumes "handle_wf h si" and "handle_room h si" and "get_sigar h si = Some s"
    and "sigar_proc_time_get fs timenow pid s = Some (SIGAR_OK, Some tm, s')"
    and "minus64 time_now (last_time (last_cpu h si (cpu_key pid))) \<noteq> 0"
    and "sigar_proc_cpu_get fs time_now timenow pid pc si h = Some (SIGAR_OK, pc1, h1)" and "handle_room h1 si"
  shows "\<exists>h2. sigar_proc_cpu_get fs time_now timenow2 pid pc2 si h1 =
      Some (SIGAR_OK, pc1\<lparr>percent := percent pc\<rparr>, h2)"
proof -
  let ?p = "last_cpu h si (cpu_key pid)" and ?q = "with_times tm (pc\<lparr>last_time := time_now\<rparr>)"
  from assms(1,3) have ok: "handle_ok h si s" by (auto elim: handle_wfE)
  from proc_cpu_get_correct[OF ok assms(2), of time_now pid fs timenow SIGAR_OK "Some tm" s' pc] assms(4-6)
  have r: "pc1 = ?q\<lparr>percent := cpu_share ?p time_now tm\<rparr>" "handle_step si h h1"
    "cpu_seen h1 si = (cpu_seen h si)(cpu_key pid \<mapsto> ?q)"
    by (auto simp: cpu_answer_def Let_def)
  from r(2) obtain s1 where ok1: "handle_ok h1 si s1" by (auto simp: handle_step_def elim: handle_wfE)
  have l: "last_cpu h1 si (cpu_key pid) = ?q" using r(3) by (simp add: last_cpu_def)
  have z: "minus64 time_now (last_time ?q) = 0" by (simp add: minus64_def with_times_def)
  have "?q\<lparr>last_time := time_now\<rparr> = pc1\<lparr>percent := percent pc\<rparr>"
    by (cases pc) (simp add: r(1) with_times_def)
  with proc_cpu_get_correct[OF ok1 assms(7), of time_now pid fs timenow2 SIGAR_OK "Some tm" s' pc2] z
  show ?thesis by (simp add: l cpu_answer_def Let_def) metis
qed

text \<open>The caller's structure held 5/1 at first; the second call returns that.\<close>

theorem repeated_call_reports_old_percent_witness:
  "\<exists>pc1 h1 h2. sigar_proc_cpu_get (\<lambda>p. No_file ENOENT) 5000 1001 7 (zero_proc_cpu\<lparr>percent := (5, 1)\<rparr>) 2 example_handle =
       Some (SIGAR_OK, pc1, h1) \<and> percent pc1 = (0, 1)
     \<and> sigar_proc_cpu_get (\<lambda>p. No_file ENOENT) 5000 1001 7 zero_proc_cpu 2 h1 =
       Some (SIGAR_OK, pc1\<lparr>percent := (5, 1)\<rparr>, h2)"
proof -
  let ?pc = "zero_proc_cpu\<lparr>percent := (5, 1)\<rparr>"
  have late: "minus64 5000 (last_time (last_cpu example_handle 2 (cpu_key 7))) \<noteq> 0"
    by (simp add: example_handle_facts minus64_def zero_proc_cpu_def)
  from example_handle_facts(1,3) have ok: "handle_ok example_handle 2 example_state" by (auto elim: handle_wfE)
  from proc_cpu_get_correct[OF ok example_handle_facts(2), of 5000 7 "\<lambda>p. No_file ENOENT" 1001 SIGAR_OK
      "Some example_times" example_state ?pc] example_handle_facts(6) late
  obtain q pc1 h1 where r: "sigar_proc_cpu_get (\<lambda>p. No_file ENOENT) 5000 1001 7 ?pc 2 example_handle = Some (SIGAR_OK, pc1, h1)"
    "cpu_seen h1 2 = [cpu_key 7 \<mapsto> q]" "percent pc1 = (0, 1)"
    by (auto simp: example_handle_facts(4,5) cpu_answer_def Let_def cpu_share_def zero_proc_cpu_def)
  have "handle_room h1 2" by (simp add: handle_room_def r(2))
  from repeated_call_reports_old_percent[OF example_handle_facts(1-3,6) late r(1) this, of 1001 zero_proc_cpu] r
  show ?thesis by auto
qed

end
