(* ===== verification/Spec2Isabelle.thy ===== *)
theory Spec2Isabelle
  imports Equus_Invariant Equus_Stackwalk Equus_Main Equus_Win32 Lua_Mime Lua_Pack Lua_Select
    Sigar_Handle
begin

text \<open>
  A verification of the Cloudkick agent (\<^verbatim>\<open>src/\<close>), a monitoring agent in C with an embedded Lua
  interpreter.

  \<^bold>\<open>The program.\<close> \<^verbatim>\<open>src/src/equus.c\<close> starts the agent: it reads the configuration, installs signal
  handlers and runs a Lua chunk, again and again while a restart is requested; on Windows it may
  also run as a service (\<^verbatim>\<open>equus_service.c\<close>). The Lua code is fetched over HTTP by the loader of
  \<^verbatim>\<open>equus_loader.c\<close> and \<^verbatim>\<open>lua/modules/http_loader.lua\<close>, checked against a signature
  (\<open>equus_verify\<close> of \<^verbatim>\<open>equus_util.c\<close>) and kept in a cache. Checks push results into a list
  (\<^verbatim>\<open>equus_util.c\<close>), which a loop of \<^verbatim>\<open>lua/remote/helen.lua\<close> empties to the server; they start other
  programs through \<^verbatim>\<open>equus_portable.c\<close>. All parts log through \<open>equus_log\<close>. A debugger for the Lua code
  (\<^verbatim>\<open>mojosetup_luadebugger.c\<close>) keeps breakpoints. Bundled C libraries carry and encode what is
  sent: \<^verbatim>\<open>tcp.c\<close>, \<^verbatim>\<open>select.c\<close>, \<^verbatim>\<open>inet.c\<close>, \<^verbatim>\<open>buffer.c\<close>, \<^verbatim>\<open>usocket.c\<close>, \<^verbatim>\<open>timeout.c\<close> and \<^verbatim>\<open>mime.c\<close> of \<^verbatim>\<open>extern/luasocket/src\<close>, and
  \<^verbatim>\<open>extern/pack/lpack.c\<close>. The checks read the figures of the machine from \<^verbatim>\<open>extern/sigar\<close>, through a handle
  they get from \<open>sigar_create\<close> and give back to \<open>sigar_destroy\<close>.

  \<^bold>\<open>State.\<close> The global variables of the C files are the fields of one record \<open>equus\<close>
  (\<open>Equus_State\<close>), with the part of the operating system the code observes: open log files, readable
  files, the clock, the text of error codes, standard input and output. Memory (\<open>C_Memory\<close>) is a map
  from addresses to typed blocks; a read, write or release of a block that is not live has no result.
  An operation takes the state and returns it changed, in an option type: \<open>None\<close> is undefined
  behaviour, an abort or, for a loop, not returning. Error codes of the source are integers as there.
  A theorem that an operation is correct also says that it returns, except where only a blocked kernel or
  undefined behaviour keeps it from returning and the text of the theorem says so (the sessions of sigar,
  \<open>send\<close>, the Windows call that runs a program). Lengths in C are unbounded integers here where the source
  has \<open>int\<close>: results, cached modules and lines of 2 GB and more are not covered.

  \<^bold>\<open>Theories and what they show.\<close>

  \<^item> \<open>Equus_Prelude\<close>, \<open>C_Memory\<close>, \<open>Equus_State\<close>: strings, fixed buffers, memory, the globals and the two
    mutexes. The locale \<open>heap_list\<close> proves once what a change of memory cannot do to a linked list;
    it is interpreted for the lists of results, modules and breakpoints.
  \<^item> \<open>Equus_Log\<close> (\<^verbatim>\<open>equus_util.c\<close>): \<open>equus_log\<close> and its variants, rotation and choice of the log file. The
    4000 byte line buffer is never overrun, each message gives exactly its line, a rotation leaves one
    open file; going back to standard error uses a freed path.
  \<^item> \<open>Equus_Results\<close> (\<^verbatim>\<open>equus_util.c\<close>, \<^verbatim>\<open>helen.lua\<close>): the list of results against the locale \<open>result_stack\<close>:
    everything that is pushed is handed to \<open>send\<close> once, newest first; a result whose \<open>send\<close> fails is lost.
  \<^item> \<open>Equus_Conf\<close> (\<^verbatim>\<open>equus_conf.c\<close>, \<^verbatim>\<open>equus_util.c\<close>): command line, parser, the life of the configuration object
    and the URL it gives.
  \<^item> \<open>Equus_Cache\<close> (\<^verbatim>\<open>equus_loader.c\<close>): the cache against the locale \<open>module_cache\<close>, a map in which the
    first code stored under a name stays.
  \<^item> \<open>Lua_Stack\<close> (\<^verbatim>\<open>extern/lua/src/lapi.c\<close>), \<open>Equus_Loader\<close>, \<open>Equus_Registry\<close> (\<^verbatim>\<open>equus_loader.c\<close>,
    \<^verbatim>\<open>http_loader.lua\<close>): the stack operations the agent uses, the loaders and how a Lua state is set
    up. Only code whose signature verifies is ever handed out or cached; a module is fetched once.
  \<^item> \<open>Equus_Debugger\<close>, \<open>Equus_Stackwalk\<close> (\<^verbatim>\<open>mojosetup_luadebugger.c\<close>): breakpoints, command loop, backtrace.
    The debugger gives control back unless a chunk that is typed into it does not return.
  \<^item> \<open>Equus_Exec\<close>, \<open>Equus_Win32\<close> (\<^verbatim>\<open>equus_portable.c\<close>, parts of \<^verbatim>\<open>equus_util.c\<close>): running programs on Unix and
    on Windows, the pipe made of sockets, platform tests; what is returned and what is released on
    each path.
  \<^item> \<open>Equus_Service\<close> (\<^verbatim>\<open>equus_service.c\<close>), \<open>Equus_Main\<close> (\<^verbatim>\<open>equus.c\<close>): the service commands with their waiting
    loops, which return and close every handle; \<open>main_core\<close> with its restart loop, signals, the
    service entry points.
  \<^item> \<open>Equus_Invariant\<close>: the components together. Each owns blocks of the one memory (locale \<open>owner\<close>); in
    every state that API calls reach all parts are well formed, no block has two owners, exactly the
    list nodes of the results taken are lost, and a call that is not a release is undefined exactly in the known
    cases.
  \<^item> \<open>Lua_Mime\<close> (\<^verbatim>\<open>mime.c\<close>): Base64, quoted-printable, line wrapping and line ends, as filters over
    chunks; the decoders (locale \<open>chunk_decoder\<close>) do not depend on how the input is cut, and decode
    what the encoders produce.
  \<^item> \<open>Lua_Pack\<close> (\<^verbatim>\<open>lpack.c\<close>): packing and unpacking with byte order; unpacking returns the integers and
    strings that were packed; where it reads outside of its string.
  \<^item> \<open>Lua_Socket\<close> (\<^verbatim>\<open>usocket.c\<close>, \<^verbatim>\<open>timeout.c\<close>, \<^verbatim>\<open>io.c\<close>), \<open>Lua_Buffer\<close> (\<^verbatim>\<open>buffer.c\<close>): the transport with its waits and
    the buffered streams over it (locale \<open>transport\<close>, interpreted on the sockets). What is received does
    not depend on how the network cuts the data; what is sent has no gaps.
  \<^item> \<open>Lua_Inet\<close> (\<^verbatim>\<open>inet.c\<close>, \<^verbatim>\<open>usocket.c\<close>), \<open>Lua_Tcp\<close> (\<^verbatim>\<open>tcp.c\<close>, \<^verbatim>\<open>options.c\<close>): names and addresses, and the TCP objects with
    all their methods. What the streams keep of a socket is proved once (locale \<open>tracked_io\<close>, interpreted on
    the sockets); a step relation over the objects of a program, the kernel and the parts of the program
    that pass descriptors to \<open>socket.tcp\<close> and \<open>setfd\<close> shows that every open descriptor has one owner and
    that the objects do not block; a bind that fails closes its socket; an option with a long unknown name
    overruns a buffer.
  \<^item> \<open>Lua_Select\<close> (\<^verbatim>\<open>select.c\<close>, \<^verbatim>\<open>usocket.c\<close>): waiting for several objects. Over the objects of \<open>Lua_Tcp\<close>, whose
    invariant gives each descriptor one owner, exactly those are reported that are ready or hold data.
  \<^item> \<open>Sigar_Types\<close> (\<^verbatim>\<open>sigar.h\<close>, \<^verbatim>\<open>sigar_util.h\<close>, \<^verbatim>\<open>sigar_os.h\<close>), \<open>Sigar_Cache\<close> (\<^verbatim>\<open>sigar_cache.c\<close>): the structures of
    the system information library and its hash table in memory. The table is a map from keys to
    entries (locale \<open>entry_table\<close>) whose entries never move, also when it is rehashed; destroying it
    frees each of its blocks once.
  \<^item> \<open>Sigar_Text\<close> (\<^verbatim>\<open>sigar_util.c\<close>), \<open>Sigar_Linux\<close>, \<open>Sigar_Proc\<close> (\<^verbatim>\<open>linux_sigar.c\<close>): the string routines, and what
    the library reads from the text of \<^verbatim>\<open>/proc\<close>: processors, memory, swap, interfaces, processes. Texts as
    the kernel writes them give back the numbers they were written from.
  \<^item> \<open>Sigar_Handle\<close> (\<^verbatim>\<open>sigar.c\<close>, \<^verbatim>\<open>linux_sigar.c\<close>, \<^verbatim>\<open>equus_util.c\<close>): the handle, from opening to closing, and
    \<open>sigar_proc_cpu_get\<close>, which works on the table, the text of a process and the clock. It refines a
    specification without memory, and a whole session gives all its memory back.

  \<^bold>\<open>Loops and bounds.\<close> Loops over lists in memory, input lines, reads of a pipe and waits are
  \<open>partial_function (option)\<close>, so that a loop without an end has the value \<open>None\<close>; the only fuel is
  \<open>walk\<close>, which lists the nodes of a linked list in at most \<open>brk\<close> steps, enough because the blocks of a
  well-formed list are distinct addresses below \<open>brk\<close>. Tick counts are \<open>32 word\<close> and wrap. Lengths are
  integers; where a C \<open>int\<close> or \<open>size_t\<close> could overflow the bound is a hypothesis or the wrap-around is
  written out.

  \<^bold>\<open>Arguments of the model\<close> stand for code outside of the sources: OpenSSL, the Lua compiler and the
  running of chunks (which may not return), \<open>lua_dump\<close>, the \<open>send\<close> of the
  connection to the server in the result loop, \<open>socket.http\<close>, the rendering of \<open>printf\<close> formats with arguments that
  are not strings or integers, the answers of the kernel to \<open>fork\<close>, \<open>select\<close>, \<open>read\<close> and \<open>waitpid\<close>, the
  contents of the files of \<^verbatim>\<open>/proc\<close>, the answers of the resolver, the answers of the
  Windows process, socket and service calls, the layout of floating-point numbers, the generated
  module table. Memory allocation always succeeds, as the source assumes in most places, except
  where a function tests for failure.

  \<^bold>\<open>Not modelled.\<close> The UUID generator (one call of a system library), the Lua code apart from the
  loader and the result loop, the debug heap of the Microsoft C library, the parts of sigar
  that read lists of processes, disks, routes and connections and those for other systems than
  Linux, the datagrams and the Windows sockets of luasocket, the
  Lua interpreter, luasec and the other bundled libraries, and interleavings inside an operation: an
  operation of one thread is one step, and the two mutexes are only checked to be free. The branch
  of \<open>equus_conf_init\<close> for Windows appears as the path it reads (\<open>config_path_win32\<close>).
\<close>

end
